(* ===== verification/Akula_Prelude.thy ===== *)
theory Akula_Prelude
  imports Main "HOL-Library.Word" "HOL-Library.AList"
begin

text \<open>
  Shared vocabulary of the development: the machine types of the Rust sources, results
  with errors as values, hash maps and hash sets, big-endian byte strings, and the generic
  lemmas the component theories rest on.

  Conventions.  The production build of the client is a release build, so the built-in
  arithmetic of \<open>u64\<close> and \<open>U256\<close> wraps and is modelled by word arithmetic.  A Rust
  \<open>panic!\<close> (a failed \<open>assert!\<close>, an \<open>unwrap\<close> of \<open>None\<close>, an index out of
  range, \<open>unreachable!\<close>) is the error value \<open>Panic\<close> of the component's error type.
\<close>

unbundle bit_operations_syntax

named_theorems result_simps \<open>rewriting of results with errors\<close>
named_theorems hmap_simps \<open>lookups in updated hash maps\<close>
named_theorems bytes_simps \<open>lengths and round trips of byte strings\<close>

section \<open>Machine types\<close>

type_synonym u8 = "8 word"
type_synonym u16 = "16 word"
type_synonym u64 = "64 word"
type_synonym u128 = "128 word"
type_synonym u256 = "256 word"
type_synonym u512 = "512 word"
type_synonym bytes = "8 word list"
type_synonym address = "160 word"
type_synonym h256 = "256 word"

text \<open>Word arithmetic that does not wrap, read as natural numbers.\<close>

lemma unat_add_no_wrap:
  "unat a + unat b < 2 ^ LENGTH('a) \<Longrightarrow> unat (a + b :: 'a::len word) = unat a + unat b"
  by (simp add: unat_word_ariths)

lemma unat_mult_no_wrap:
  "unat a * unat b < 2 ^ LENGTH('a) \<Longrightarrow> unat (a * b :: 'a::len word) = unat a * unat b"
  by (simp add: unat_word_ariths)

lemma unat_diff_no_wrap: "b \<le> a \<Longrightarrow> unat (a - b :: 'a::len word) = unat a - unat b"
  by (rule unat_sub)

lemma word_neI: "unat a \<noteq> unat b \<Longrightarrow> a \<noteq> b"
  by auto

lemma unat_ucast_up:
  assumes "LENGTH('a) \<le> LENGTH('b)"
  shows "unat (ucast (w :: 'a::len word) :: 'b::len word) = unat w"
proof -
  have "unat w < 2 ^ LENGTH('a)" by (rule unsigned_less)
  also have "\<dots> \<le> 2 ^ LENGTH('b)" using assms by (rule power_increasing) simp
  finally show ?thesis by (simp add: unsigned_ucast_eq take_bit_nat_eq_self)
qed

section \<open>Results\<close>

text \<open>\<open>bind_r\<close> is the \<open>?\<close> operator: an error ends the computation.\<close>

fun bind_r :: "'e + 'a \<Rightarrow> ('a \<Rightarrow> 'e + 'b) \<Rightarrow> 'e + 'b" where
  "bind_r (Inl e) f = Inl e"
| "bind_r (Inr x) f = f x"

definition ok_or :: "'e \<Rightarrow> 'a option \<Rightarrow> 'e + 'a" where
  "ok_or e x = (case x of None \<Rightarrow> Inl e | Some v \<Rightarrow> Inr v)"

text \<open>A \<open>for\<close> loop over a list whose body may fail.\<close>

fun fold_r :: "('a \<Rightarrow> 's \<Rightarrow> 'e + 's) \<Rightarrow> 'a list \<Rightarrow> 's \<Rightarrow> 'e + 's" where
  "fold_r f [] s = Inr s"
| "fold_r f (x # xs) s = bind_r (f x s) (fold_r f xs)"

lemma bind_r_Inr_iff [result_simps]:
  "bind_r x f = Inr y \<longleftrightarrow> (\<exists>v. x = Inr v \<and> f v = Inr y)"
  by (cases x) auto

lemma bind_r_Inl_iff [result_simps]:
  "bind_r x f = Inl e \<longleftrightarrow> x = Inl e \<or> (\<exists>v. x = Inr v \<and> f v = Inl e)"
  by (cases x) auto

lemma bind_r_InrE [elim!]:
  assumes "bind_r x f = Inr y"
  obtains v where "x = Inr v" and "f v = Inr y"
  using assms by (auto simp: bind_r_Inr_iff)

lemma bind_r_Inr_right [simp]: "bind_r x Inr = x"
  by (cases x) auto

lemma bind_r_assoc: "bind_r (bind_r x f) g = bind_r x (\<lambda>v. bind_r (f v) g)"
  by (cases x) auto

lemma bind_r_split:
  "P (bind_r x f) \<longleftrightarrow> (\<forall>e. x = Inl e \<longrightarrow> P (Inl e)) \<and> (\<forall>v. x = Inr v \<longrightarrow> P (f v))"
  by (cases x) auto

lemma ok_or_simps [simp]:
  "ok_or e None = Inl e" "ok_or e (Some v) = Inr v"
  by (simp_all add: ok_or_def)

lemma ok_or_Inr_iff [result_simps]: "ok_or e x = Inr v \<longleftrightarrow> x = Some v"
  by (cases x) auto

lemma fold_r_Nil [simp]: "fold_r f [] = Inr"
  by (rule ext) simp

lemma fold_r_append: "fold_r f (xs @ ys) s = bind_r (fold_r f xs s) (fold_r f ys)"
  by (induction xs arbitrary: s) (auto simp: bind_r_assoc split: bind_r_split)

text \<open>An invariant of the body is an invariant of the loop.\<close>

lemma fold_r_invariant:
  assumes "fold_r f xs s = Inr t" and "P s"
    and "\<And>x s t. x \<in> set xs \<Longrightarrow> P s \<Longrightarrow> f x s = Inr t \<Longrightarrow> P t"
  shows "P t"
  using assms
proof (induction xs arbitrary: s)
  case Nil
  then show ?case by simp
next
  case (Cons x xs)
  then obtain u where "f x s = Inr u" "fold_r f xs u = Inr t"
    by (auto simp: result_simps)
  moreover from this Cons.prems have "P u" by auto
  ultimately show ?case using Cons.IH Cons.prems(3) by (metis list.set_intros(2))
qed

text \<open>A loop whose body never fails under an invariant does not fail.\<close>

lemma fold_r_total:
  assumes "\<And>x s. x \<in> set xs \<Longrightarrow> P s \<Longrightarrow> \<exists>t. f x s = Inr t \<and> P t" and "P s"
  shows "\<exists>t. fold_r f xs s = Inr t \<and> P t"
  using assms
proof (induction xs arbitrary: s)
  case Nil
  then show ?case by simp
next
  case (Cons x xs)
  then obtain u where "f x s = Inr u" "P u" by (metis list.set_intros(1))
  with Cons.IH [of u] Cons.prems(1) show ?case by simp
qed

section \<open>Hash maps and hash sets\<close>

text \<open>
  A \<open>HashMap\<close> is an association list: lookups are \<open>map_of\<close>, and iteration walks the
  list (the order of a Rust \<open>HashMap\<close> is unspecified; the list fixes one).  A
  \<open>HashSet\<close> is a list without repetition.
\<close>

type_synonym ('k, 'v) hash_map = "('k \<times> 'v) list"
type_synonym 'a hash_set = "'a list"

definition hm_get :: "('k, 'v) hash_map \<Rightarrow> 'k \<Rightarrow> 'v option" where
  "hm_get m k = map_of m k"

definition hm_insert :: "'k \<Rightarrow> 'v \<Rightarrow> ('k, 'v) hash_map \<Rightarrow> ('k, 'v) hash_map" where
  "hm_insert k v m = AList.update k v m"

definition hm_remove :: "'k \<Rightarrow> ('k, 'v) hash_map \<Rightarrow> ('k, 'v) hash_map" where
  "hm_remove k m = AList.delete k m"

definition hm_get_or :: "'v \<Rightarrow> ('k, 'v) hash_map \<Rightarrow> 'k \<Rightarrow> 'v" where
  "hm_get_or d m k = (case hm_get m k of None \<Rightarrow> d | Some v \<Rightarrow> v)"

definition hm_map_values :: "('v \<Rightarrow> 'w) \<Rightarrow> ('k, 'v) hash_map \<Rightarrow> ('k, 'w) hash_map" where
  "hm_map_values f m = map (\<lambda>(k, v). (k, f v)) m"

definition hs_insert :: "'a \<Rightarrow> 'a hash_set \<Rightarrow> 'a hash_set" where
  "hs_insert x xs = (if x \<in> set xs then xs else xs @ [x])"

definition hs_remove :: "'a \<Rightarrow> 'a hash_set \<Rightarrow> 'a hash_set" where
  "hs_remove x xs = filter (\<lambda>y. y \<noteq> x) xs"

text \<open>
  What the clients of a hash map use: a lookup after an insertion or a removal.  The
  association lists provide it.
\<close>

locale keyed_store =
  fixes get :: "'m \<Rightarrow> 'k \<Rightarrow> 'v option"
    and ins :: "'k \<Rightarrow> 'v \<Rightarrow> 'm \<Rightarrow> 'm"
    and del :: "'k \<Rightarrow> 'm \<Rightarrow> 'm"
  assumes get_ins: "get (ins k v m) j = (if j = k then Some v else get m j)"
    and get_del: "get (del k m) j = (if j = k then None else get m j)"
begin

lemma get_ins_same: "get (ins k v m) k = Some v"
  by (simp add: get_ins)

lemma ins_ins: "get (ins k v (ins k w m)) = get (ins k v m)"
  by (auto simp: get_ins)

lemma del_ins: "get m k = None \<Longrightarrow> get (del k (ins k v m)) = get m"
  by (auto simp: get_ins get_del)

lemma ins_del: "get m k = Some v \<Longrightarrow> get (ins k v (del k m)) = get m"
  by (auto simp: get_ins get_del)

lemma dom_ins: "{j. get (ins k v m) j \<noteq> None} = insert k {j. get m j \<noteq> None}"
  by (auto simp: get_ins)

end

interpretation hm: keyed_store hm_get hm_insert hm_remove
  by unfold_locales
    (auto simp: hm_get_def hm_insert_def hm_remove_def update_conv' delete_conv')

lemmas hm_laws [simp, hmap_simps] = hm.get_ins hm.get_del

lemma hm_get_Nil [simp]: "hm_get [] k = None"
  by (simp add: hm_get_def)

lemma hm_get_map_values [simp, hmap_simps]:
  "hm_get (hm_map_values f m) k = map_option f (hm_get m k)"
  by (simp add: hm_get_def hm_map_values_def map_of_map)

lemma hm_get_or_insert [simp, hmap_simps]:
  "hm_get_or d (hm_insert k v m) j = (if j = k then v else hm_get_or d m j)"
  by (simp add: hm_get_or_def)

lemma hm_get_or_remove [simp, hmap_simps]:
  "hm_get_or d (hm_remove k m) j = (if j = k then d else hm_get_or d m j)"
  by (simp add: hm_get_or_def)

lemma hm_get_or_Nil [simp]: "hm_get_or d [] k = d"
  by (simp add: hm_get_or_def)

lemma set_hs_insert [simp]: "set (hs_insert x xs) = insert x (set xs)"
  by (auto simp: hs_insert_def)

lemma set_hs_remove [simp]: "set (hs_remove x xs) = set xs - {x}"
  by (auto simp: hs_remove_def)

lemma distinct_hs_insert [simp]: "distinct (hs_insert x xs) \<longleftrightarrow> distinct xs"
  by (auto simp: hs_insert_def)

lemma distinct_hs_remove [simp]: "distinct xs \<Longrightarrow> distinct (hs_remove x xs)"
  by (simp add: hs_remove_def)

text \<open>Hash maps proper have no repeated key; then iterating over one visits the value that a
  lookup returns.\<close>

definition hm_ok :: "('k, 'v) hash_map \<Rightarrow> bool" where
  "hm_ok m \<longleftrightarrow> distinct (map fst m)"

lemma hm_ok_Nil [simp]: "hm_ok []"
  by (simp add: hm_ok_def)

lemma hm_ok_insert [simp]: "hm_ok m \<Longrightarrow> hm_ok (hm_insert k v m)"
  by (simp add: hm_ok_def hm_insert_def distinct_update)

lemma hm_ok_remove [simp]: "hm_ok m \<Longrightarrow> hm_ok (hm_remove k m)"
  by (simp add: hm_ok_def hm_remove_def distinct_delete)

lemma hm_ok_in_set: "hm_ok m \<Longrightarrow> (k, v) \<in> set m \<longleftrightarrow> hm_get m k = Some v"
  by (auto simp: hm_ok_def hm_get_def)

lemma hm_get_Cons: "hm_get ((k, v) # m) j = (if j = k then Some v else hm_get m j)"
  by (simp add: hm_get_def)

lemma hm_ok_Cons: "hm_ok ((k, v) # m) \<longleftrightarrow> hm_get m k = None \<and> hm_ok m"
  by (auto simp: hm_ok_def hm_get_def map_of_eq_None_iff)

lemma hm_get_fold_insert:
  "hm_ok m \<Longrightarrow> hm_get (fold (\<lambda>(k, v). hm_insert k v) m m') j =
     (case hm_get m j of Some v \<Rightarrow> Some v | None \<Rightarrow> hm_get m' j)"
  by (induction m arbitrary: m') (auto simp: hm_ok_Cons hm_get_Cons split: option.splits)

lemma hm_ok_fold_insert:
  "hm_ok m' \<Longrightarrow> hm_ok (fold (\<lambda>(k, v). hm_insert k v) m m')"
  by (induction m arbitrary: m') auto

section \<open>Vectors\<close>

text \<open>\<open>Vec::resize_with\<close>: truncate, or pad with a default.\<close>

definition resize :: "nat \<Rightarrow> 'a \<Rightarrow> 'a list \<Rightarrow> 'a list" where
  "resize n d xs = take n xs @ replicate (n - length xs) d"

definition vec_get :: "'a list \<Rightarrow> nat \<Rightarrow> 'a option" where
  "vec_get xs i = (if i < length xs then Some (xs ! i) else None)"

lemma length_resize [simp]: "length (resize n d xs) = n"
  by (simp add: resize_def)

lemma resize_nth:
  "i < n \<Longrightarrow> resize n d xs ! i = (if i < length xs then xs ! i else d)"
  by (auto simp: resize_def nth_append)

lemma resize_ge: "n \<le> length xs \<Longrightarrow> resize n d xs = take n xs"
  by (simp add: resize_def)

section \<open>Big-endian byte strings\<close>

text \<open>\<open>to_be n w\<close> is \<open>to_be_bytes\<close> of an \<open>n\<close>-byte integer; \<open>of_be\<close> is
  \<open>from_be_bytes\<close>.\<close>

fun nat_of_be :: "bytes \<Rightarrow> nat" where
  "nat_of_be [] = 0"
| "nat_of_be (b # bs) = unat b * 256 ^ length bs + nat_of_be bs"

fun nat_to_be :: "nat \<Rightarrow> nat \<Rightarrow> bytes" where
  "nat_to_be 0 v = []"
| "nat_to_be (Suc n) v = nat_to_be n (v div 256) @ [word_of_nat (v mod 256)]"

definition to_be :: "nat \<Rightarrow> 'a::len word \<Rightarrow> bytes" where
  "to_be n w = nat_to_be n (unat w)"

definition of_be :: "bytes \<Rightarrow> 'a::len word" where
  "of_be bs = word_of_nat (nat_of_be bs)"

lemma length_nat_to_be [simp, bytes_simps]: "length (nat_to_be n v) = n"
  by (induction n arbitrary: v) auto

lemma length_to_be [simp, bytes_simps]: "length (to_be n w) = n"
  by (simp add: to_be_def)

lemma unat_byte [simp]: "unat (word_of_nat (v mod 256) :: u8) = v mod 256"
  by (simp add: unat_of_nat)

lemma unat_u8_less: "unat (b :: u8) < 256"
proof -
  have "unat b < 2 ^ LENGTH(8)" by (rule unsigned_less)
  then show ?thesis by simp
qed

lemma nat_of_be_append: "nat_of_be (xs @ ys) = nat_of_be xs * 256 ^ length ys + nat_of_be ys"
  by (induction xs) (auto simp: algebra_simps power_add)

lemma nat_of_be_less: "nat_of_be bs < 256 ^ length bs"
proof (induction bs)
  case Nil
  then show ?case by simp
next
  case (Cons b bs)
  have "unat b < 256" by (rule unat_u8_less)
  then have "Suc (unat b) * 256 ^ length bs \<le> 256 * 256 ^ length bs"
    by (intro mult_le_mono1) simp
  then have "256 ^ length bs + unat b * 256 ^ length bs \<le> 256 * 256 ^ length bs"
    by (simp only: mult_Suc)
  with Cons.IH have "unat b * 256 ^ length bs + nat_of_be bs < 256 * 256 ^ length bs"
    by linarith
  then show ?case by simp
qed

lemma nat_of_be_to_be: "nat_of_be (nat_to_be n v) = v mod 256 ^ n"
proof (induction n arbitrary: v)
  case 0
  then show ?case by simp
next
  case (Suc n)
  have "v mod (256 * 256 ^ n) = 256 * (v div 256 mod 256 ^ n) + v mod 256"
    by (rule mod_mult2_eq)
  with Suc show ?case by (simp add: nat_of_be_append)
qed

lemma nat_to_be_of_be: "nat_to_be (length bs) (nat_of_be bs) = bs"
proof (induction bs rule: rev_induct)
  case Nil
  then show ?case by simp
next
  case (snoc b bs)
  have "unat b < 256" by (rule unat_u8_less)
  with snoc show ?case by (simp add: nat_of_be_append)
qed

lemma of_be_to_be:
  assumes "LENGTH('a) \<le> 8 * n"
  shows "of_be (to_be n (w :: 'a::len word)) = w"
proof -
  have "unat w < 2 ^ LENGTH('a)" by (rule unsigned_less)
  also have "\<dots> \<le> 2 ^ (8 * n)" using assms by (rule power_increasing) simp
  also have "\<dots> = 256 ^ n" by (simp add: power_mult)
  finally show ?thesis by (simp add: of_be_def to_be_def nat_of_be_to_be)
qed

lemma to_be_of_be:
  assumes "length bs = n" and "LENGTH('a) = 8 * n"
  shows "to_be n (of_be bs :: 'a::len word) = bs"
proof -
  have "nat_of_be bs < 256 ^ n" using nat_of_be_less [of bs] assms by simp
  also have "\<dots> = 2 ^ LENGTH('a)" using assms(2) by (simp add: power_mult)
  finally have "unat (of_be bs :: 'a word) = nat_of_be bs"
    by (simp add: of_be_def unat_of_nat)
  then show ?thesis using assms(1) nat_to_be_of_be [of bs] by (simp add: to_be_def)
qed

lemma of_be_zeros: "(of_be (replicate n 0 @ bs) :: 'a::len word) = of_be bs"
proof -
  have "nat_of_be (replicate n 0) = 0" by (induction n) auto
  then show ?thesis by (simp add: of_be_def nat_of_be_append)
qed

lemma of_be_dropWhile_zero:
  "(of_be (dropWhile (\<lambda>b. b = 0) bs) :: 'a::len word) = of_be bs"
proof -
  have "\<forall>b \<in> set (takeWhile (\<lambda>b. b = 0) bs). b = (0 :: u8)"
    by (auto dest: set_takeWhileD)
  then have "takeWhile (\<lambda>b. b = 0) bs = replicate (length (takeWhile (\<lambda>b. b = 0) bs)) 0"
    by (metis replicate_eqI)
  then have "(of_be bs :: 'a word) = of_be (replicate (length (takeWhile (\<lambda>b. b = 0) bs)) 0
      @ dropWhile (\<lambda>b. b = 0) bs)"
    by (metis takeWhile_dropWhile_id)
  then show ?thesis by (simp only: of_be_zeros)
qed


text \<open>
  Code equations for the word codecs: the digits are computed with shifts on the word itself, so
  that evaluating a 256-bit value does not go through unary naturals.
\<close>

lemma nat_to_be_digits:
  "nat_to_be n v = map (\<lambda>i. word_of_nat (v div 256 ^ i mod 256)) (rev [0..<n])"
proof (induction n arbitrary: v)
  case (Suc n)
  have "map (\<lambda>i. word_of_nat (v div 256 ^ i mod 256) :: u8) (rev [0..<Suc n])
      = map (\<lambda>i. word_of_nat (v div 256 ^ Suc i mod 256)) (rev [0..<n]) @ [word_of_nat (v mod 256)]"
    by (simp add: upt_conv_Cons map_Suc_upt [symmetric] rev_map del: upt_Suc)
  then show ?case using Suc.IH [of "v div 256"] by (simp add: div_mult2_eq)
qed simp

lemma to_be_code [code]:
  "to_be n (w :: 'a::len word) = map (\<lambda>i. ucast (drop_bit (8 * i) w)) (rev [0..<n])"
proof -
  have "word_of_nat (unat w div 256 ^ i mod 256) = (ucast (drop_bit (8 * i) w) :: u8)" for i
  proof -
    have "unat (drop_bit (8 * i) w) = unat w div 256 ^ i"
      unfolding unsigned_drop_bit_eq
      by (simp add: drop_bit_eq_div power_mult take_bit_nat_eq_self unsigned_less)
    then show ?thesis
      by (simp add: word_unat_eq_iff unsigned_ucast_eq take_bit_eq_mod unat_of_nat)
  qed
  then show ?thesis by (simp add: to_be_def nat_to_be_digits)
qed

lemma of_be_snoc: "(of_be (bs @ [b]) :: 'a::len word) = of_be bs * 256 + ucast b"
  by (simp add: of_be_def nat_of_be_append mult.commute)

lemma of_be_code [code]:
  "(of_be bs :: 'a::len word) = foldl (\<lambda>w b. w * 256 + ucast b) 0 bs"
proof (induction bs rule: rev_induct)
  case Nil
  show ?case by (simp add: of_be_def)
qed (simp add: of_be_snoc)

end
