(* ===== verification/Models.thy ===== *)
theory Models
  imports Akula_Prelude
begin

text \<open>
  The data model of \<^verbatim>\<open>src/src/models\<close>: accounts, logs, receipts, headers, transactions
  and blocks, the accessors of a transaction message, and the error type of
  \<^verbatim>\<open>src/src/consensus/mod.rs\<close>.  Lemmas: the \<open>v\<close> field of a legacy signature and the
  pair of parity and chain id determine each other, and the fee accessors obey the bounds
  of EIP-1559.
\<close>

section \<open>Constants and wrappers (models/mod.rs)\<close>

type_synonym block_number = u64
type_synonym chain_id = u64
type_synonym bloom = "2048 word"
type_synonym h64 = "64 word"

definition KECCAK_LENGTH :: nat where "KECCAK_LENGTH = 32"
definition ADDRESS_LENGTH :: nat where "ADDRESS_LENGTH = 20"

definition EMPTY_HASH :: h256 where
  "EMPTY_HASH = 0xc5d2460186f7233c927e7db2dcc703c0e500b653ca82273b7bfad8045d85a470"

definition EMPTY_LIST_HASH :: h256 where
  "EMPTY_LIST_HASH = 0x1dcc4de8dec75d7aab85b567b6ccd41ad312451b948a7413f0a142fd40d49347"

definition EMPTY_ROOT :: h256 where
  "EMPTY_ROOT = 0x56e81f171bcc55a6ff8345e692c0f86e5b48e01b996cadc001622fb5e363b421"

definition GIGA :: u64 where "GIGA = 1000000000"
definition ETHER :: u128 where "ETHER = 1000000000000000000"

lemmas model_consts = KECCAK_LENGTH_def ADDRESS_LENGTH_def EMPTY_HASH_def
  EMPTY_LIST_HASH_def EMPTY_ROOT_def GIGA_def ETHER_def

section \<open>Accounts (models/account.rs)\<close>

record account =
  acc_nonce :: u64
  acc_balance :: u256
  acc_code_hash :: h256

definition default_account :: account where
  "default_account = \<lparr> acc_nonce = 0, acc_balance = 0, acc_code_hash = EMPTY_HASH \<rparr>"

record rlp_account =
  rlp_nonce :: u64
  rlp_balance :: u256
  rlp_storage_root :: h256
  rlp_code_hash :: h256

definition account_to_rlp :: "account \<Rightarrow> h256 \<Rightarrow> rlp_account" where
  "account_to_rlp a root = \<lparr> rlp_nonce = acc_nonce a, rlp_balance = acc_balance a,
     rlp_storage_root = root, rlp_code_hash = acc_code_hash a \<rparr>"

section \<open>Logs and receipts (models/log.rs, models/receipt.rs)\<close>

record log =
  log_address :: address
  log_topics :: "h256 list"
  log_data :: bytes

datatype tx_type = Legacy_type | EIP2930_type | EIP1559_type

text \<open>The discriminants of the enum, and \<open>TryFrom<u8>\<close>.\<close>

fun tx_type_to_u8 :: "tx_type \<Rightarrow> u8" where
  "tx_type_to_u8 Legacy_type = 0"
| "tx_type_to_u8 EIP2930_type = 1"
| "tx_type_to_u8 EIP1559_type = 2"

definition tx_type_try_from :: "u8 \<Rightarrow> tx_type option" where
  "tx_type_try_from b =
     (if b = 0 then Some Legacy_type else if b = 1 then Some EIP2930_type
      else if b = 2 then Some EIP1559_type else None)"

record receipt =
  rc_tx_type :: tx_type
  rc_success :: bool
  rc_cumulative_gas_used :: u64
  rc_bloom :: bloom
  rc_logs :: "log list"

section \<open>Headers (models/header.rs)\<close>

record block_header =
  h_parent_hash :: h256
  h_ommers_hash :: h256
  h_beneficiary :: address
  h_state_root :: h256
  h_transactions_root :: h256
  h_receipts_root :: h256
  h_logs_bloom :: bloom
  h_difficulty :: u256
  h_number :: block_number
  h_gas_limit :: u64
  h_gas_used :: u64
  h_timestamp :: u64
  h_extra_data :: bytes
  h_mix_hash :: h256
  h_nonce :: h64
  h_base_fee_per_gas :: "u256 option"

record partial_header =
  ph_parent_hash :: h256
  ph_beneficiary :: address
  ph_state_root :: h256
  ph_receipts_root :: h256
  ph_logs_bloom :: bloom
  ph_difficulty :: u256
  ph_number :: block_number
  ph_gas_limit :: u64
  ph_gas_used :: u64
  ph_timestamp :: u64
  ph_extra_data :: bytes
  ph_mix_hash :: h256
  ph_nonce :: h64
  ph_base_fee_per_gas :: "u256 option"

definition block_header_new :: "partial_header \<Rightarrow> h256 \<Rightarrow> h256 \<Rightarrow> block_header" where
  "block_header_new p ommers_hash transactions_root = \<lparr>
     h_parent_hash = ph_parent_hash p, h_ommers_hash = ommers_hash,
     h_beneficiary = ph_beneficiary p, h_state_root = ph_state_root p,
     h_transactions_root = transactions_root, h_receipts_root = ph_receipts_root p,
     h_logs_bloom = ph_logs_bloom p, h_difficulty = ph_difficulty p, h_number = ph_number p,
     h_gas_limit = ph_gas_limit p, h_gas_used = ph_gas_used p, h_timestamp = ph_timestamp p,
     h_extra_data = ph_extra_data p, h_mix_hash = ph_mix_hash p, h_nonce = ph_nonce p,
     h_base_fee_per_gas = ph_base_fee_per_gas p \<rparr>"

definition partial_header_from :: "block_header \<Rightarrow> partial_header" where
  "partial_header_from h = \<lparr>
     ph_parent_hash = h_parent_hash h, ph_beneficiary = h_beneficiary h,
     ph_state_root = h_state_root h, ph_receipts_root = h_receipts_root h,
     ph_logs_bloom = h_logs_bloom h, ph_difficulty = h_difficulty h, ph_number = h_number h,
     ph_gas_limit = h_gas_limit h, ph_gas_used = h_gas_used h, ph_timestamp = h_timestamp h,
     ph_extra_data = h_extra_data h, ph_mix_hash = h_mix_hash h, ph_nonce = h_nonce h,
     ph_base_fee_per_gas = h_base_fee_per_gas h \<rparr>"

section \<open>Transactions (models/transaction.rs)\<close>

datatype transaction_action = Call address | Create

record access_list_item =
  ali_address :: address
  ali_slots :: "h256 list"

type_synonym access_list = "access_list_item list"

datatype message =
    Legacy (lg_chain_id: "chain_id option") (lg_nonce: u64) (lg_gas_price: u256)
      (lg_gas_limit: u64) (lg_action: transaction_action) (lg_value: u256) (lg_input: bytes)
  | EIP2930 (a_chain_id: chain_id) (a_nonce: u64) (a_gas_price: u256) (a_gas_limit: u64)
      (a_action: transaction_action) (a_value: u256) (a_input: bytes) (a_access_list: access_list)
  | EIP1559 (f_chain_id: chain_id) (f_nonce: u64) (f_max_priority_fee_per_gas: u256)
      (f_max_fee_per_gas: u256) (f_gas_limit: u64) (f_action: transaction_action)
      (f_value: u256) (f_input: bytes) (f_access_list: access_list)

fun msg_tx_type :: "message \<Rightarrow> tx_type" where
  "msg_tx_type (Legacy _ _ _ _ _ _ _) = Legacy_type"
| "msg_tx_type (EIP2930 _ _ _ _ _ _ _ _) = EIP2930_type"
| "msg_tx_type (EIP1559 _ _ _ _ _ _ _ _ _) = EIP1559_type"

fun msg_chain_id :: "message \<Rightarrow> chain_id option" where
  "msg_chain_id (Legacy c _ _ _ _ _ _) = c"
| "msg_chain_id (EIP2930 c _ _ _ _ _ _ _) = Some c"
| "msg_chain_id (EIP1559 c _ _ _ _ _ _ _ _) = Some c"

fun msg_nonce :: "message \<Rightarrow> u64" where
  "msg_nonce (Legacy _ n _ _ _ _ _) = n"
| "msg_nonce (EIP2930 _ n _ _ _ _ _ _) = n"
| "msg_nonce (EIP1559 _ n _ _ _ _ _ _ _) = n"

fun max_priority_fee_per_gas :: "message \<Rightarrow> u256" where
  "max_priority_fee_per_gas (Legacy _ _ p _ _ _ _) = p"
| "max_priority_fee_per_gas (EIP2930 _ _ p _ _ _ _ _) = p"
| "max_priority_fee_per_gas (EIP1559 _ _ p _ _ _ _ _ _) = p"

fun max_fee_per_gas :: "message \<Rightarrow> u256" where
  "max_fee_per_gas (Legacy _ _ p _ _ _ _) = p"
| "max_fee_per_gas (EIP2930 _ _ p _ _ _ _ _) = p"
| "max_fee_per_gas (EIP1559 _ _ _ m _ _ _ _ _) = m"

fun msg_gas_limit :: "message \<Rightarrow> u64" where
  "msg_gas_limit (Legacy _ _ _ g _ _ _) = g"
| "msg_gas_limit (EIP2930 _ _ _ g _ _ _ _) = g"
| "msg_gas_limit (EIP1559 _ _ _ _ g _ _ _ _) = g"

fun msg_action :: "message \<Rightarrow> transaction_action" where
  "msg_action (Legacy _ _ _ _ a _ _) = a"
| "msg_action (EIP2930 _ _ _ _ a _ _ _) = a"
| "msg_action (EIP1559 _ _ _ _ _ a _ _ _) = a"

fun msg_value :: "message \<Rightarrow> u256" where
  "msg_value (Legacy _ _ _ _ _ v _) = v"
| "msg_value (EIP2930 _ _ _ _ _ v _ _) = v"
| "msg_value (EIP1559 _ _ _ _ _ _ v _ _) = v"

fun msg_input :: "message \<Rightarrow> bytes" where
  "msg_input (Legacy _ _ _ _ _ _ i) = i"
| "msg_input (EIP2930 _ _ _ _ _ _ i _) = i"
| "msg_input (EIP1559 _ _ _ _ _ _ _ i _) = i"

fun msg_access_list :: "message \<Rightarrow> access_list" where
  "msg_access_list (Legacy _ _ _ _ _ _ _) = []"
| "msg_access_list (EIP2930 _ _ _ _ _ _ _ l) = l"
| "msg_access_list (EIP1559 _ _ _ _ _ _ _ _ l) = l"

text \<open>The \<open>assert!\<close> of \<open>priority_fee_per_gas\<close> is the \<open>None\<close> case.\<close>

definition priority_fee_per_gas :: "message \<Rightarrow> u256 \<Rightarrow> u256 option" where
  "priority_fee_per_gas m base_fee =
     (if max_fee_per_gas m \<ge> base_fee
      then Some (min (max_priority_fee_per_gas m) (max_fee_per_gas m - base_fee)) else None)"

definition effective_gas_price :: "message \<Rightarrow> u256 \<Rightarrow> u256 option" where
  "effective_gas_price m base_fee =
     map_option (\<lambda>p. p + base_fee) (priority_fee_per_gas m base_fee)"

record y_parity_and_chain_id =
  odd_y_parity :: bool
  yp_chain_id :: "chain_id option"

definition from_v :: "u64 \<Rightarrow> y_parity_and_chain_id option" where
  "from_v v =
     (if v = 27 \<or> v = 28 then Some \<lparr> odd_y_parity = (v = 28), yp_chain_id = None \<rparr>
      else if v \<ge> 35 then
        (let w = v - 35 in
         Some \<lparr> odd_y_parity = (w mod 2 \<noteq> 0), yp_chain_id = Some (drop_bit 1 w) \<rparr>)
      else None)"

definition to_v :: "y_parity_and_chain_id \<Rightarrow> u64" where
  "to_v y = (case yp_chain_id y of
       Some c \<Rightarrow> c * 2 + 35 + of_bool (odd_y_parity y)
     | None \<Rightarrow> 27 + of_bool (odd_y_parity y))"

text \<open>\<open>is_valid_signature\<close> of \<^verbatim>\<open>src/src/crypto/mod.rs\<close>, and \<open>MessageSignature\<close>.\<close>

definition SECP256K1_N :: h256 where
  "SECP256K1_N = 0xfffffffffffffffffffffffffffffffebaaedce6af48a03bbfd25e8cd0364141"

definition is_valid_signature :: "h256 \<Rightarrow> h256 \<Rightarrow> bool" where
  "is_valid_signature r s =
     (if r = 0 \<or> s = 0 then False
      else if r \<ge> SECP256K1_N \<and> s \<ge> SECP256K1_N then False
      else True)"

record message_signature =
  sig_odd_y_parity :: bool
  sig_r :: h256
  sig_s :: h256

definition message_signature_new :: "bool \<Rightarrow> h256 \<Rightarrow> h256 \<Rightarrow> message_signature option" where
  "message_signature_new odd_y r s =
     (if is_valid_signature r s
      then Some \<lparr> sig_odd_y_parity = odd_y, sig_r = r, sig_s = s \<rparr> else None)"

definition HALF_N :: h256 where
  "HALF_N = 0x7fffffffffffffffffffffffffffffff5d576e7357a4501ddfe92f46681b20a0"

definition malleable :: "message_signature \<Rightarrow> bool" where
  "malleable sg \<longleftrightarrow> sig_s sg > HALF_N"

definition is_low_s :: "message_signature \<Rightarrow> bool" where
  "is_low_s sg \<longleftrightarrow> sig_s sg \<le> HALF_N"

record message_with_signature =
  ms_message :: message
  ms_signature :: message_signature

record message_with_sender =
  mw_message :: message
  mw_sender :: address

section \<open>Blocks (models/block.rs)\<close>

record block =
  b_header :: block_header
  b_transactions :: "message_with_signature list"
  b_ommers :: "block_header list"

record block_with_senders =
  bs_header :: partial_header
  bs_transactions :: "message_with_sender list"
  bs_ommers :: "block_header list"

record block_body =
  bb_transactions :: "message_with_signature list"
  bb_ommers :: "block_header list"

record block_body_with_senders =
  bbs_transactions :: "message_with_sender list"
  bbs_ommers :: "block_header list"

section \<open>Errors (consensus/mod.rs)\<close>

datatype validation_error =
    FutureBlock u64 u64
  | WrongStateRoot h256 h256
  | WrongOmmersHash h256 h256
  | WrongTransactionsRoot h256 h256
  | WrongReceiptsRoot h256 h256
  | WrongLogsBloom bloom bloom
  | UnknownParent
  | WrongDifficulty
  | GasAboveLimit u64 u64
  | InvalidGasLimit
  | InvalidTimestamp u64 u64
  | ExtraDataTooLong
  | WrongDaoExtraData
  | WrongBaseFee "u256 option" "u256 option"
  | InvalidSeal
  | MissingSender
  | SenderNoEOA address
  | WrongNonce address u64 u64
  | IntrinsicGas
  | InsufficientFunds address u512 u512
  | BlockGasLimitExceeded u64 u64
  | MaxFeeLessThanBase
  | MaxPriorityFeeGreaterThanMax
  | TooManyOmmers
  | InvalidOmmerHeader
  | NotAnOmmer
  | DuplicateOmmer
  | WrongBlockGas u64 u64 "(nat \<times> u64) list"
  | InvalidSignature
  | WrongChainId
  | UnsupportedTransactionType

text \<open>
  \<open>anyhow::Error\<close> as the callers can tell its values apart: a validation error, a failure
  of the database or of another library call, and a panic, which ends the thread.
  \<open>OutOfFuel\<close> is no value of the program: it says that the bound on the number of
  interpreter steps that the model of the EVM takes was too small.
\<close>

datatype exec_error = Validation validation_error | DbError string | Panic | OutOfFuel

section \<open>Signatures and fees\<close>

lemma u64_shift_parity:
  fixes w :: u64
  shows "drop_bit 1 w * 2 + of_bool (w mod 2 \<noteq> 0) = w"
proof -
  have "w mod 2 = of_bool (w mod 2 \<noteq> 0)"
    by (simp add: mod2_eq_if)
  moreover have "drop_bit 1 w = w div 2"
    by (simp add: drop_bit_Suc drop_bit_eq_div)
  moreover have "w div 2 * 2 + w mod 2 = w" by (rule div_mult_mod_eq)
  ultimately show ?thesis by simp
qed

lemma to_v_from_v: "from_v v = Some y \<Longrightarrow> to_v y = v"
  using u64_shift_parity [of "v - 35"]
  by (auto simp: from_v_def to_v_def Let_def algebra_simps split: if_splits)

lemma from_v_to_v:
  assumes "\<And>c. yp_chain_id y = Some c \<Longrightarrow> unat c * 2 + 36 < 2 ^ 64"
  shows "from_v (to_v y) = Some y"
proof (cases "yp_chain_id y")
  case None
  then show ?thesis by (cases y) (auto simp: from_v_def to_v_def)
next
  case (Some c)
  let ?p = "of_bool (odd_y_parity y) :: u64"
  have small: "unat c * 2 + 36 < 2 ^ 64" using assms Some by simp
  have eq: "unat (c * 2 + 35 + ?p) = unat c * 2 + 35 + of_bool (odd_y_parity y)"
    using small by (auto simp: unat_word_ariths)
  have ge: "35 \<le> c * 2 + 35 + ?p" by (simp only: word_le_nat_alt eq) simp
  have ne: "c * 2 + 35 + ?p \<noteq> 27" "c * 2 + 35 + ?p \<noteq> 28"
    by (rule word_neI, simp only: eq, simp)+
  have w: "c * 2 + 35 + ?p - 35 = c * 2 + ?p" by simp
  have uw: "unat (c * 2 + ?p) = unat c * 2 + of_bool (odd_y_parity y)"
    using small by (auto simp: unat_word_ariths)
  have "unat ((c * 2 + ?p) div 2) = unat c" by (simp only: unat_div uw) simp
  then have "(c * 2 + ?p) div 2 = c" by (rule word_unat_eq_iff [THEN iffD2])
  then have "drop_bit 1 (c * 2 + ?p) = c" by (simp only: drop_bit_eq_div power_one_right)
  moreover have "(c * 2 + ?p) mod 2 \<noteq> 0 \<longleftrightarrow> odd_y_parity y"
    by (simp add: word_unat_eq_iff unat_mod uw)
  ultimately show ?thesis
    using Some ge ne w by (cases y) (simp add: from_v_def to_v_def Let_def)
qed

lemma priority_fee_le:
  assumes "priority_fee_per_gas m b = Some p"
  shows "p \<le> max_priority_fee_per_gas m" and "p \<le> max_fee_per_gas m - b" and "b \<le> max_fee_per_gas m"
  using assms by (auto simp: priority_fee_per_gas_def split: if_splits)

lemma effective_gas_price_bounds:
  assumes "effective_gas_price m b = Some g"
  shows "b \<le> g \<and> g \<le> max_fee_per_gas m"
proof -
  obtain p where p: "priority_fee_per_gas m b = Some p" and g: "g = p + b"
    using assms by (auto simp: effective_gas_price_def)
  let ?m = "max_fee_per_gas m"
  have b: "b \<le> ?m" and "p \<le> ?m - b" using priority_fee_le [OF p] by auto
  then have le: "unat p + unat b \<le> unat ?m"
    using unat_diff_no_wrap [OF b] by (simp add: word_le_nat_alt)
  also have "unat ?m < 2 ^ LENGTH(256)" by (rule unsigned_less)
  finally have "unat g = unat p + unat b" unfolding g by (rule unat_add_no_wrap)
  with le show ?thesis by (simp add: word_le_nat_alt)
qed

end
