(* ===== verification/State_Interface.thy ===== *)
theory State_Interface
  imports Models
begin

text \<open>
  The \<open>State\<close> trait of \<^verbatim>\<open>src/src/state/interface.rs\<close> as a record of operations on a
  database of type \<open>'db\<close> (a trait object is its table of methods), and the objects of
  \<^verbatim>\<open>src/src/state/object.rs\<close> that the intra-block state keeps per address.
\<close>

section \<open>The State trait\<close>

record 'db state_trait =
  read_account :: "'db \<Rightarrow> address \<Rightarrow> exec_error + account option"
  read_code :: "'db \<Rightarrow> h256 \<Rightarrow> exec_error + bytes"
  read_storage :: "'db \<Rightarrow> address \<Rightarrow> u256 \<Rightarrow> exec_error + u256"
  erase_storage :: "'db \<Rightarrow> address \<Rightarrow> exec_error + 'db"
  read_header :: "'db \<Rightarrow> block_number \<Rightarrow> h256 \<Rightarrow> exec_error + block_header option"
  read_body :: "'db \<Rightarrow> block_number \<Rightarrow> h256 \<Rightarrow> exec_error + block_body option"
  total_difficulty :: "'db \<Rightarrow> block_number \<Rightarrow> h256 \<Rightarrow> exec_error + u256 option"
  begin_block :: "'db \<Rightarrow> block_number \<Rightarrow> 'db"
  update_account :: "'db \<Rightarrow> address \<Rightarrow> account option \<Rightarrow> account option \<Rightarrow> 'db"
  update_code :: "'db \<Rightarrow> h256 \<Rightarrow> bytes \<Rightarrow> exec_error + 'db"
  update_storage :: "'db \<Rightarrow> address \<Rightarrow> u256 \<Rightarrow> u256 \<Rightarrow> u256 \<Rightarrow> exec_error + 'db"

section \<open>Objects (state/object.rs)\<close>

record object =
  obj_initial :: "account option"
  obj_current :: "account option"

record committed_value =
  cv_initial :: u256
  cv_original :: u256

record storage =
  st_committed :: "(u256, committed_value) hash_map"
  st_current :: "(u256, u256) hash_map"

definition default_storage :: storage where
  "default_storage = \<lparr> st_committed = [], st_current = [] \<rparr>"

definition default_committed_value :: committed_value where
  "default_committed_value = \<lparr> cv_initial = 0, cv_original = 0 \<rparr>"

end
