(* ===== verification/Intra_Block_State.thy ===== *)
theory Intra_Block_State
  imports State_Interface
begin

text \<open>
  \<open>IntraBlockState\<close> of \<^verbatim>\<open>src/src/state/intra_block_state.rs\<close> and the journal of
  \<^verbatim>\<open>src/src/state/delta.rs\<close>: the cache of accounts and storage a block is executed on,
  every operation on it, and the undo log that snapshots and reverts work on.

  Every operation takes the database's method table \<open>T\<close> and the state and returns an
  error or the result with the new state.  The per-address incarnation counters are
  natural numbers: they count contract creations and destructions within one block, which
  the block gas limit keeps far below \<open>2 ^ 64\<close>.
\<close>

section \<open>The journal and the state\<close>

datatype delta =
    Delta_Create address
  | Delta_Update address object
  | Delta_UpdateBalance address u256
  | Delta_Incarnation address
  | Delta_Selfdestruct address
  | Delta_Touch address
  | Delta_StorageChange address u256 u256
  | Delta_StorageWipe address storage
  | Delta_StorageCreate address
  | Delta_StorageAccess address u256
  | Delta_AccountAccess address

record 'db ibs =
  db :: 'db
  objects :: "(address, object) hash_map"
  storage_map :: "(address, storage) hash_map"
  incarnations :: "(address, nat) hash_map"
  existing_code :: "(h256, bytes) hash_map"
  new_code :: "(h256, bytes) hash_map"
  journal :: "delta list"
  self_destructs :: "address hash_set"
  logs :: "log list"
  touched :: "address hash_set"
  refund :: u64
  accessed_addresses :: "address hash_set"
  accessed_storage_keys :: "(address, u256 hash_set) hash_map"

datatype access_status = Cold | Warm

record snapshot =
  sn_journal_size :: nat
  sn_log_size :: nat
  sn_refund :: u64

definition RIPEMD_ADDRESS :: address where "RIPEMD_ADDRESS = 3"

definition ibs_new :: "'db \<Rightarrow> 'db ibs" where
  "ibs_new d = \<lparr> db = d, objects = [], storage_map = [], incarnations = [],
     existing_code = [], new_code = [], journal = [], self_destructs = [], logs = [],
     touched = [], refund = 0, accessed_addresses = [], accessed_storage_keys = [] \<rparr>"

definition push_delta :: "delta \<Rightarrow> 'db ibs \<Rightarrow> 'db ibs" where
  "push_delta d s = s\<lparr> journal := journal s @ [d] \<rparr>"

section \<open>Objects\<close>

text \<open>\<open>get_object\<close>: the cached object, or the account read from the database, which is
  then cached; \<open>None\<close> when neither has it.\<close>

definition get_object ::
  "'db state_trait \<Rightarrow> address \<Rightarrow> 'db ibs \<Rightarrow> exec_error + object option \<times> 'db ibs" where
  "get_object T a s = (case hm_get (objects s) a of
       Some obj \<Rightarrow> Inr (Some obj, s)
     | None \<Rightarrow> bind_r (read_account T (db s) a) (\<lambda>accdata. case accdata of
           Some acc \<Rightarrow>
             (let obj = \<lparr> obj_initial = Some acc, obj_current = Some acc \<rparr>
              in Inr (Some obj, s\<lparr> objects := hm_insert a obj (objects s) \<rparr>))
         | None \<Rightarrow> Inr (None, s)))"

definition ensure_object ::
  "'db state_trait \<Rightarrow> address \<Rightarrow> 'db ibs \<Rightarrow> exec_error + 'db ibs" where
  "ensure_object T a s = bind_r (get_object T a s) (\<lambda>(o', s). case o' of
       Some obj \<Rightarrow>
         (if obj_current obj = None
          then Inr (push_delta (Delta_Update a obj) s
                 \<lparr> objects := hm_insert a (obj\<lparr> obj_current := Some default_account \<rparr>) (objects s) \<rparr>)
          else Inr s)
     | None \<Rightarrow> Inr (push_delta (Delta_Create a) s
         \<lparr> objects := hm_insert a \<lparr> obj_initial = None, obj_current = Some default_account \<rparr>
             (objects s) \<rparr>))"

text \<open>\<open>get_or_create_object\<close> and the \<open>unwrap\<close> of its current account that every caller
  makes.\<close>

definition get_or_create_object ::
  "'db state_trait \<Rightarrow> address \<Rightarrow> 'db ibs \<Rightarrow> exec_error + object \<times> account \<times> 'db ibs" where
  "get_or_create_object T a s = bind_r (ensure_object T a s) (\<lambda>s.
     bind_r (ok_or Panic (hm_get (objects s) a)) (\<lambda>obj.
     bind_r (ok_or Panic (obj_current obj)) (\<lambda>acc. Inr (obj, acc, s))))"

definition exists_account ::
  "'db state_trait \<Rightarrow> address \<Rightarrow> 'db ibs \<Rightarrow> exec_error + bool \<times> 'db ibs" where
  "exists_account T a s = bind_r (get_object T a s) (\<lambda>(o', s). case o' of
       Some obj \<Rightarrow> Inr (obj_current obj \<noteq> None, s)
     | None \<Rightarrow> Inr (False, s))"

definition account_is_dead :: "account \<Rightarrow> bool" where
  "account_is_dead c \<longleftrightarrow> acc_code_hash c = EMPTY_HASH \<and> acc_nonce c = 0 \<and> acc_balance c = 0"

definition is_dead ::
  "'db state_trait \<Rightarrow> address \<Rightarrow> 'db ibs \<Rightarrow> exec_error + bool \<times> 'db ibs" where
  "is_dead T a s = bind_r (get_object T a s) (\<lambda>(o', s). case o' of
       Some obj \<Rightarrow> (case obj_current obj of
           Some c \<Rightarrow> Inr (account_is_dead c, s)
         | None \<Rightarrow> Inr (True, s))
     | None \<Rightarrow> Inr (True, s))"

section \<open>Contract creation and destruction\<close>

definition bump_incarnation :: "address \<Rightarrow> 'db ibs \<Rightarrow> 'db ibs" where
  "bump_incarnation a s =
     s\<lparr> incarnations := hm_insert a (hm_get_or 0 (incarnations s) a + 1) (incarnations s) \<rparr>"

definition create_contract ::
  "'db state_trait \<Rightarrow> address \<Rightarrow> 'db ibs \<Rightarrow> exec_error + 'db ibs" where
  "create_contract T a s = bind_r (get_object T a s) (\<lambda>(prev, s).
     let initial = (case prev of Some p \<Rightarrow> obj_initial p | None \<Rightarrow> None);
         balance = (case prev of
             Some p \<Rightarrow> (case obj_current p of Some c \<Rightarrow> acc_balance c | None \<Rightarrow> 0)
           | None \<Rightarrow> 0);
         current = default_account\<lparr> acc_balance := balance \<rparr>;
         s = push_delta (case prev of Some p \<Rightarrow> Delta_Update a p | None \<Rightarrow> Delta_Create a) s;
         s = push_delta (Delta_Incarnation a) (bump_incarnation a s);
         s = s\<lparr> objects := hm_insert a \<lparr> obj_initial = initial, obj_current = Some current \<rparr>
               (objects s) \<rparr>
     in Inr (case hm_get (storage_map s) a of
         Some removed \<Rightarrow> push_delta (Delta_StorageWipe a removed)
           (s\<lparr> storage_map := hm_remove a (storage_map s) \<rparr>)
       | None \<Rightarrow> push_delta (Delta_StorageCreate a) s))"

definition destruct :: "'db state_trait \<Rightarrow> address \<Rightarrow> 'db ibs \<Rightarrow> exec_error + 'db ibs" where
  "destruct T a s =
     (let s = bump_incarnation a s;
          s = s\<lparr> storage_map := hm_remove a (storage_map s) \<rparr>
      in bind_r (get_object T a s) (\<lambda>(o', s). case o' of
           Some obj \<Rightarrow> Inr (s\<lparr> objects := hm_insert a (obj\<lparr> obj_current := None \<rparr>) (objects s) \<rparr>)
         | None \<Rightarrow> Inr s))"

definition record_selfdestruct :: "address \<Rightarrow> 'db ibs \<Rightarrow> 'db ibs" where
  "record_selfdestruct a s =
     (if a \<in> set (self_destructs s) then s
      else push_delta (Delta_Selfdestruct a) (s\<lparr> self_destructs := hs_insert a (self_destructs s) \<rparr>))"

definition destruct_selfdestructs ::
  "'db state_trait \<Rightarrow> 'db ibs \<Rightarrow> exec_error + 'db ibs" where
  "destruct_selfdestructs T s = fold_r (destruct T) (self_destructs s) s"

definition destruct_touched_dead ::
  "'db state_trait \<Rightarrow> 'db ibs \<Rightarrow> exec_error + 'db ibs" where
  "destruct_touched_dead T s = fold_r
     (\<lambda>a s. bind_r (is_dead T a s) (\<lambda>(dead, s). if dead then destruct T a s else Inr s))
     (touched s) s"

definition number_of_self_destructs :: "'db ibs \<Rightarrow> nat" where
  "number_of_self_destructs s = length (self_destructs s)"

section \<open>Balances, nonces and code\<close>

definition touch :: "address \<Rightarrow> 'db ibs \<Rightarrow> 'db ibs" where
  "touch a s =
     (let inserted = a \<notin> set (touched s);
          s = s\<lparr> touched := hs_insert a (touched s) \<rparr>
      in if inserted \<and> a \<noteq> RIPEMD_ADDRESS then push_delta (Delta_Touch a) s else s)"

definition get_balance ::
  "'db state_trait \<Rightarrow> address \<Rightarrow> 'db ibs \<Rightarrow> exec_error + u256 \<times> 'db ibs" where
  "get_balance T a s = bind_r (get_object T a s) (\<lambda>(o', s).
     Inr (case o' of
         Some obj \<Rightarrow> (case obj_current obj of Some c \<Rightarrow> acc_balance c | None \<Rightarrow> 0)
       | None \<Rightarrow> 0, s))"

text \<open>The common shape of \<open>set_balance\<close>, \<open>add_to_balance\<close> and
  \<open>subtract_from_balance\<close>.\<close>

definition update_balance ::
  "'db state_trait \<Rightarrow> (u256 \<Rightarrow> u256) \<Rightarrow> address \<Rightarrow> 'db ibs \<Rightarrow> exec_error + 'db ibs" where
  "update_balance T f a s = bind_r (get_or_create_object T a s) (\<lambda>(obj, current, s).
     let s = push_delta (Delta_UpdateBalance a (acc_balance current)) s;
         s = s\<lparr> objects := hm_insert a
               (obj\<lparr> obj_current := Some (current\<lparr> acc_balance := f (acc_balance current) \<rparr>) \<rparr>)
               (objects s) \<rparr>
     in Inr (touch a s))"

definition set_balance ::
  "'db state_trait \<Rightarrow> address \<Rightarrow> u256 \<Rightarrow> 'db ibs \<Rightarrow> exec_error + 'db ibs" where
  "set_balance T a v s = update_balance T (\<lambda>_. v) a s"

definition add_to_balance ::
  "'db state_trait \<Rightarrow> address \<Rightarrow> u256 \<Rightarrow> 'db ibs \<Rightarrow> exec_error + 'db ibs" where
  "add_to_balance T a addend s = update_balance T (\<lambda>b. b + addend) a s"

definition subtract_from_balance ::
  "'db state_trait \<Rightarrow> address \<Rightarrow> u256 \<Rightarrow> 'db ibs \<Rightarrow> exec_error + 'db ibs" where
  "subtract_from_balance T a subtrahend s = update_balance T (\<lambda>b. b - subtrahend) a s"

definition get_nonce ::
  "'db state_trait \<Rightarrow> address \<Rightarrow> 'db ibs \<Rightarrow> exec_error + u64 \<times> 'db ibs" where
  "get_nonce T a s = bind_r (get_object T a s) (\<lambda>(o', s). case o' of
       Some obj \<Rightarrow> (case obj_current obj of
           Some c \<Rightarrow> Inr (acc_nonce c, s)
         | None \<Rightarrow> Inr (0, s))
     | None \<Rightarrow> Inr (0, s))"

definition set_nonce ::
  "'db state_trait \<Rightarrow> address \<Rightarrow> u64 \<Rightarrow> 'db ibs \<Rightarrow> exec_error + 'db ibs" where
  "set_nonce T a n s = bind_r (get_or_create_object T a s) (\<lambda>(obj, current, s).
     let s = push_delta (Delta_Update a obj) s
     in Inr (s\<lparr> objects := hm_insert a
           (obj\<lparr> obj_current := Some (current\<lparr> acc_nonce := n \<rparr>) \<rparr>) (objects s) \<rparr>))"

definition get_code ::
  "'db state_trait \<Rightarrow> address \<Rightarrow> 'db ibs \<Rightarrow> exec_error + bytes option \<times> 'db ibs" where
  "get_code T a s = bind_r (get_object T a s) (\<lambda>(o', s). case o' of
       Some obj \<Rightarrow> (case obj_current obj of
           Some c \<Rightarrow>
             (let code_hash = acc_code_hash c in
              if code_hash \<noteq> EMPTY_HASH then
                (case hm_get (new_code s) code_hash of
                   Some code \<Rightarrow> Inr (Some code, s)
                 | None \<Rightarrow> (case hm_get (existing_code s) code_hash of
                     Some code \<Rightarrow> Inr (Some code, s)
                   | None \<Rightarrow> bind_r (read_code T (db s) code_hash) (\<lambda>code.
                       Inr (Some code,
                         s\<lparr> existing_code := hm_insert code_hash code (existing_code s) \<rparr>))))
              else Inr (None, s))
         | None \<Rightarrow> Inr (None, s))
     | None \<Rightarrow> Inr (None, s))"

definition get_code_hash ::
  "'db state_trait \<Rightarrow> address \<Rightarrow> 'db ibs \<Rightarrow> exec_error + h256 \<times> 'db ibs" where
  "get_code_hash T a s = bind_r (get_object T a s) (\<lambda>(o', s). case o' of
       Some obj \<Rightarrow> (case obj_current obj of
           Some c \<Rightarrow> Inr (acc_code_hash c, s)
         | None \<Rightarrow> Inr (EMPTY_HASH, s))
     | None \<Rightarrow> Inr (EMPTY_HASH, s))"

text \<open>\<open>keccak256\<close> comes from the \<open>sha3\<close> crate: it is the parameter \<open>keccak\<close>.\<close>

definition set_code ::
  "'db state_trait \<Rightarrow> (bytes \<Rightarrow> h256) \<Rightarrow> address \<Rightarrow> bytes \<Rightarrow> 'db ibs \<Rightarrow> exec_error + 'db ibs" where
  "set_code T keccak a code s = bind_r (get_or_create_object T a s) (\<lambda>(obj, current, s).
     let s = push_delta (Delta_Update a obj) s;
         h = keccak code;
         s = s\<lparr> objects := hm_insert a
               (obj\<lparr> obj_current := Some (current\<lparr> acc_code_hash := h \<rparr>) \<rparr>) (objects s) \<rparr>
     in Inr (case hm_get (new_code s) h of
         Some _ \<Rightarrow> s
       | None \<Rightarrow> s\<lparr> new_code := hm_insert h code (new_code s) \<rparr>))"

section \<open>EIP-2929 access lists\<close>

definition access_account :: "address \<Rightarrow> 'db ibs \<Rightarrow> access_status \<times> 'db ibs" where
  "access_account a s =
     (if a \<in> set (accessed_addresses s) then (Warm, s)
      else (Cold, push_delta (Delta_AccountAccess a)
             (s\<lparr> accessed_addresses := hs_insert a (accessed_addresses s) \<rparr>)))"

definition access_storage :: "address \<Rightarrow> u256 \<Rightarrow> 'db ibs \<Rightarrow> access_status \<times> 'db ibs" where
  "access_storage a k s =
     (let ks = hm_get_or [] (accessed_storage_keys s) a;
          s' = s\<lparr> accessed_storage_keys := hm_insert a (hs_insert k ks) (accessed_storage_keys s) \<rparr>
      in if k \<in> set ks then (Warm, s') else (Cold, push_delta (Delta_StorageAccess a k) s'))"

section \<open>Storage\<close>

definition get_storage ::
  "'db state_trait \<Rightarrow> address \<Rightarrow> u256 \<Rightarrow> bool \<Rightarrow> 'db ibs \<Rightarrow> exec_error + u256 \<times> 'db ibs" where
  "get_storage T a k original s = bind_r (get_object T a s) (\<lambda>(o', s). case o' of
       Some obj \<Rightarrow>
         (if obj_current obj \<noteq> None then
            (let storage = hm_get_or default_storage (storage_map s) a;
                 s = s\<lparr> storage_map := hm_insert a storage (storage_map s) \<rparr>
             in case (if original then None else hm_get (st_current storage) k) of
                  Some v \<Rightarrow> Inr (v, s)
                | None \<Rightarrow> (case hm_get (st_committed storage) k of
                    Some v \<Rightarrow> Inr (cv_original v, s)
                  | None \<Rightarrow>
                      (if obj_initial obj = None \<or> hm_get (incarnations s) a \<noteq> None
                       then Inr (0, s)
                       else bind_r (read_storage T (db s) a k) (\<lambda>val.
                         Inr (val, s\<lparr> storage_map := hm_insert a
                           (storage\<lparr> st_committed := hm_insert k
                              \<lparr> cv_initial = val, cv_original = val \<rparr> (st_committed storage) \<rparr>)
                           (storage_map s) \<rparr>)))))
          else Inr (0, s))
     | None \<Rightarrow> Inr (0, s))"

definition get_current_storage ::
  "'db state_trait \<Rightarrow> address \<Rightarrow> u256 \<Rightarrow> 'db ibs \<Rightarrow> exec_error + u256 \<times> 'db ibs" where
  "get_current_storage T a k s = get_storage T a k False s"

definition get_original_storage ::
  "'db state_trait \<Rightarrow> address \<Rightarrow> u256 \<Rightarrow> 'db ibs \<Rightarrow> exec_error + u256 \<times> 'db ibs" where
  "get_original_storage T a k s = get_storage T a k True s"

definition put_current :: "address \<Rightarrow> u256 \<Rightarrow> u256 \<Rightarrow> 'db ibs \<Rightarrow> 'db ibs" where
  "put_current a k v s =
     (let st = hm_get_or default_storage (storage_map s) a
      in s\<lparr> storage_map := hm_insert a (st\<lparr> st_current := hm_insert k v (st_current st) \<rparr>)
            (storage_map s) \<rparr>)"

definition set_storage ::
  "'db state_trait \<Rightarrow> address \<Rightarrow> u256 \<Rightarrow> u256 \<Rightarrow> 'db ibs \<Rightarrow> exec_error + 'db ibs" where
  "set_storage T a k v s = bind_r (get_current_storage T a k s) (\<lambda>(previous, s).
     if previous = v then Inr s
     else Inr (push_delta (Delta_StorageChange a k previous) (put_current a k v s)))"

section \<open>Logs and refunds\<close>

definition add_log :: "log \<Rightarrow> 'db ibs \<Rightarrow> 'db ibs" where
  "add_log l s = s\<lparr> logs := logs s @ [l] \<rparr>"

definition add_refund :: "u64 \<Rightarrow> 'db ibs \<Rightarrow> 'db ibs" where
  "add_refund r s = s\<lparr> refund := refund s + r \<rparr>"

definition subtract_refund :: "u64 \<Rightarrow> 'db ibs \<Rightarrow> 'db ibs" where
  "subtract_refund r s = s\<lparr> refund := refund s - r \<rparr>"

section \<open>Snapshots and reverts\<close>

text \<open>\<open>Delta::revert\<close>; its \<open>unwrap\<close>s and \<open>unreachable!\<close> are \<open>Panic\<close>.\<close>

fun revert_delta :: "delta \<Rightarrow> 'db ibs \<Rightarrow> exec_error + 'db ibs" where
  "revert_delta (Delta_Create a) s = Inr (s\<lparr> objects := hm_remove a (objects s) \<rparr>)"
| "revert_delta (Delta_Update a previous) s =
     Inr (s\<lparr> objects := hm_insert a previous (objects s) \<rparr>)"
| "revert_delta (Delta_UpdateBalance a previous) s =
     bind_r (ok_or Panic (hm_get (objects s) a)) (\<lambda>obj.
     bind_r (ok_or Panic (obj_current obj)) (\<lambda>c.
       Inr (s\<lparr> objects := hm_insert a
              (obj\<lparr> obj_current := Some (c\<lparr> acc_balance := previous \<rparr>) \<rparr>) (objects s) \<rparr>)))"
| "revert_delta (Delta_Incarnation a) s =
     bind_r (ok_or Panic (hm_get (incarnations s) a)) (\<lambda>n.
       if n - 1 = 0 then Inr (s\<lparr> incarnations := hm_remove a (incarnations s) \<rparr>)
       else Inr (s\<lparr> incarnations := hm_insert a (n - 1) (incarnations s) \<rparr>))"
| "revert_delta (Delta_Selfdestruct a) s =
     Inr (s\<lparr> self_destructs := hs_remove a (self_destructs s) \<rparr>)"
| "revert_delta (Delta_Touch a) s = Inr (s\<lparr> touched := hs_remove a (touched s) \<rparr>)"
| "revert_delta (Delta_StorageChange a k previous) s = Inr (put_current a k previous s)"
| "revert_delta (Delta_StorageWipe a st) s =
     Inr (s\<lparr> storage_map := hm_insert a st (storage_map s) \<rparr>)"
| "revert_delta (Delta_StorageCreate a) s =
     Inr (s\<lparr> storage_map := hm_remove a (storage_map s) \<rparr>)"
| "revert_delta (Delta_StorageAccess a k) s =
     Inr (s\<lparr> accessed_storage_keys := hm_insert a
            (hs_remove k (hm_get_or [] (accessed_storage_keys s) a)) (accessed_storage_keys s) \<rparr>)"
| "revert_delta (Delta_AccountAccess a) s =
     Inr (s\<lparr> accessed_addresses := hs_remove a (accessed_addresses s) \<rparr>)"

definition take_snapshot :: "'db ibs \<Rightarrow> snapshot" where
  "take_snapshot s = \<lparr> sn_journal_size = length (journal s), sn_log_size = length (logs s),
     sn_refund = refund s \<rparr>"

text \<open>The \<open>for\<close> loop of \<open>revert_to_snapshot\<close>: pop a delta and revert it, \<open>n\<close> times.\<close>

fun revert_n :: "nat \<Rightarrow> 'db ibs \<Rightarrow> exec_error + 'db ibs" where
  "revert_n 0 s = Inr s"
| "revert_n (Suc n) s =
     (if journal s = [] then Inl Panic
      else bind_r (revert_delta (last (journal s)) (s\<lparr> journal := butlast (journal s) \<rparr>))
             (revert_n n))"

definition revert_to_snapshot :: "snapshot \<Rightarrow> 'db ibs \<Rightarrow> exec_error + 'db ibs" where
  "revert_to_snapshot sn s =
     (if length (journal s) < sn_journal_size sn then Inl Panic else
      bind_r (revert_n (length (journal s) - sn_journal_size sn) s) (\<lambda>s.
       Inr (s\<lparr> logs := take (sn_log_size sn) (logs s), refund := sn_refund sn \<rparr>)))"

section \<open>End of transaction and end of block\<close>

definition finalize_storage :: "storage \<Rightarrow> storage" where
  "finalize_storage st = \<lparr>
     st_committed = fold (\<lambda>(k, v) m. hm_insert k
         ((hm_get_or default_committed_value m k)\<lparr> cv_original := v \<rparr>) m)
       (st_current st) (st_committed st),
     st_current = [] \<rparr>"

definition finalize_transaction :: "'db ibs \<Rightarrow> 'db ibs" where
  "finalize_transaction s = s\<lparr> storage_map := hm_map_values finalize_storage (storage_map s) \<rparr>"

definition clear_journal_and_substate :: "'db ibs \<Rightarrow> 'db ibs" where
  "clear_journal_and_substate s = s\<lparr> journal := [], self_destructs := [], logs := [],
     touched := [], refund := 0, accessed_addresses := [], accessed_storage_keys := [] \<rparr>"

definition write_to_db ::
  "'db state_trait \<Rightarrow> block_number \<Rightarrow> 'db ibs \<Rightarrow> exec_error + 'db" where
  "write_to_db T n s =
     bind_r (fold_r (\<lambda>(a, incarnation) d. if incarnation > 0 then erase_storage T d a else Inr d)
       (incarnations s) (begin_block T (db s) n)) (\<lambda>d.
     bind_r (fold_r (\<lambda>(a, storage) d. case hm_get (objects s) a of
           Some obj \<Rightarrow>
             (if obj_current obj \<noteq> None
              then fold_r (\<lambda>(k, val) d. update_storage T d a k (cv_initial val) (cv_original val))
                     (st_committed storage) d
              else Inr d)
         | None \<Rightarrow> Inr d)
       (storage_map s) d) (\<lambda>d.
     fold_r (\<lambda>(h, code) d. update_code T d h code) (new_code s)
       (fold (\<lambda>(a, obj) d. update_account T d a (obj_initial obj) (obj_current obj))
          (objects s) d)))"

end
