(* ===== verification/Journal_Undo.thy ===== *)
theory Journal_Undo
  imports Intra_Block_State
begin

text \<open>
  The contract of the journal.  An intra-block state is observed through its views: the
  account of an address, the current and original value of a storage slot, the
  incarnations and the transaction substate.  Reads fill caches without a journal entry,
  so a revert does not restore the record itself; it restores the views.  The locale
  \<open>undo_log\<close> states what an undo log promises and derives that undoable steps compose;
  the interpretation on \<open>revert_delta\<close> and the lemmas \<open>undoable_\<close> of every operation
  discharge it for the code.
\<close>

section \<open>Undo logs\<close>

locale undo_log =
  fixes ext :: "'s \<Rightarrow> 's \<Rightarrow> bool"
    and undo1 :: "'d \<Rightarrow> 's \<Rightarrow> 'e + 's"
    and log_of :: "'s \<Rightarrow> 'd list"
    and wf :: "'s \<Rightarrow> bool"
  assumes ext_refl: "wf s \<Longrightarrow> ext s s"
    and ext_trans: "ext s t \<Longrightarrow> ext t u \<Longrightarrow> ext s u"
begin

definition undo :: "'d list \<Rightarrow> 's \<Rightarrow> 'e + 's" where
  "undo ds s = fold_r undo1 (rev ds) s"

definition undoable :: "'s \<Rightarrow> 's \<Rightarrow> bool" where
  "undoable s s' \<longleftrightarrow> wf s' \<and> (\<exists>ds. log_of s' = log_of s @ ds \<and>
     (\<forall>t. ext s' t \<longrightarrow> (\<exists>t'. undo ds t = Inr t' \<and> ext s t')))"

lemma undo_append: "undo (ds @ es) s = bind_r (undo es s) (undo ds)"
proof -
  have "undo ds = fold_r undo1 (rev ds)" by (rule ext) (simp add: undo_def)
  then show ?thesis by (simp add: undo_def fold_r_append)
qed

lemma undoable_ext: "wf s' \<Longrightarrow> log_of s' = log_of s \<Longrightarrow> ext s s' \<Longrightarrow> undoable s s'"
  unfolding undoable_def by (rule conjI, assumption, rule exI [where x = "[]"])
    (auto simp: undo_def intro: ext_trans)

lemma undoable_refl: "wf s \<Longrightarrow> undoable s s"
  by (simp add: undoable_ext ext_refl)

lemma undoable_step:
  assumes "wf s'" and "log_of s' = log_of s @ [d]"
    and "\<And>t. ext s' t \<Longrightarrow> \<exists>t'. undo1 d t = Inr t' \<and> ext s t'"
  shows "undoable s s'"
  unfolding undoable_def using assms
  by (intro conjI exI [where x = "[d]"]) (auto simp: undo_def)

lemma undoable_trans:
  assumes "undoable s t" and "undoable t u"
  shows "undoable s u"
proof -
  obtain ds where ds: "log_of t = log_of s @ ds"
    "\<And>x. ext t x \<Longrightarrow> \<exists>y. undo ds x = Inr y \<and> ext s y"
    using assms(1) by (auto simp: undoable_def)
  obtain es where es: "log_of u = log_of t @ es"
    "\<And>x. ext u x \<Longrightarrow> \<exists>y. undo es x = Inr y \<and> ext t y"
    using assms(2) by (auto simp: undoable_def)
  have "\<exists>y. undo (ds @ es) x = Inr y \<and> ext s y" if "ext u x" for x
    using es(2) [OF that] ds(2) by (fastforce simp: undo_append)
  moreover have "log_of u = log_of s @ ds @ es" using ds es by simp
  ultimately show ?thesis using assms(2) unfolding undoable_def by blast
qed

end

section \<open>The views\<close>

definition account_view ::
  "'db state_trait \<Rightarrow> 'db ibs \<Rightarrow> address \<Rightarrow> exec_error + account option" where
  "account_view T s a = (case hm_get (objects s) a of
       Some obj \<Rightarrow> Inr (obj_current obj)
     | None \<Rightarrow> read_account T (db s) a)"

definition base_storage ::
  "'db state_trait \<Rightarrow> 'db ibs \<Rightarrow> address \<Rightarrow> u256 \<Rightarrow> exec_error + u256" where
  "base_storage T s a k =
     (if read_account T (db s) a = Inr None \<or> hm_get (incarnations s) a \<noteq> None then Inr 0
      else read_storage T (db s) a k)"

definition stored_value :: "storage \<Rightarrow> bool \<Rightarrow> u256 \<Rightarrow> u256 option" where
  "stored_value st original k =
     (case (if original then None else hm_get (st_current st) k) of
        Some v \<Rightarrow> Some v
      | None \<Rightarrow> map_option cv_original (hm_get (st_committed st) k))"

definition storage_view ::
  "'db state_trait \<Rightarrow> 'db ibs \<Rightarrow> bool \<Rightarrow> address \<Rightarrow> u256 \<Rightarrow> exec_error + u256" where
  "storage_view T s original a k =
     (case stored_value (hm_get_or default_storage (storage_map s) a) original k of
        Some v \<Rightarrow> Inr v
      | None \<Rightarrow> base_storage T s a k)"

definition touched_view :: "'db ibs \<Rightarrow> address set" where
  "touched_view s = set (touched s) - {RIPEMD_ADDRESS}"

definition keys_view :: "'db ibs \<Rightarrow> address \<Rightarrow> u256 set" where
  "keys_view s a = set (hm_get_or [] (accessed_storage_keys s) a)"

text \<open>Well-formedness: a cached object remembers what the database holds, and an
  incarnation counter that is present is positive.\<close>

definition ibs_wf :: "'db state_trait \<Rightarrow> 'db ibs \<Rightarrow> bool" where
  "ibs_wf T s \<longleftrightarrow>
     (\<forall>a obj. hm_get (objects s) a = Some obj \<longrightarrow> read_account T (db s) a = Inr (obj_initial obj)) \<and>
     (\<forall>a. hm_get (incarnations s) a \<noteq> Some 0)"

text \<open>\<open>extends T s t\<close>: \<open>t\<close> has the views of \<open>s\<close> and caches at least its objects.\<close>

definition same_accounts :: "'db state_trait \<Rightarrow> 'db ibs \<Rightarrow> 'db ibs \<Rightarrow> bool" where
  "same_accounts T s t \<longleftrightarrow> account_view T t = account_view T s \<and>
     (\<forall>a. hm_get (objects s) a \<noteq> None \<longrightarrow> hm_get (objects t) a \<noteq> None)"

definition same_storage :: "'db state_trait \<Rightarrow> 'db ibs \<Rightarrow> 'db ibs \<Rightarrow> bool" where
  "same_storage T s t \<longleftrightarrow> storage_view T t = storage_view T s \<and>
     hm_get (incarnations t) = hm_get (incarnations s)"

definition same_substate :: "'db ibs \<Rightarrow> 'db ibs \<Rightarrow> bool" where
  "same_substate s t \<longleftrightarrow> set (self_destructs t) = set (self_destructs s) \<and>
     touched_view t = touched_view s \<and>
     set (accessed_addresses t) = set (accessed_addresses s) \<and> keys_view t = keys_view s"

definition extends :: "'db state_trait \<Rightarrow> 'db ibs \<Rightarrow> 'db ibs \<Rightarrow> bool" where
  "extends T s t \<longleftrightarrow> db t = db s \<and> ibs_wf T t \<and> same_accounts T s t \<and> same_storage T s t \<and>
     same_substate s t"

lemmas same_defs = same_accounts_def same_storage_def same_substate_def

interpretation ibs: undo_log "extends T" revert_delta journal "ibs_wf T" for T
  by unfold_locales (auto simp: extends_def same_defs)

section \<open>Every operation is undoable\<close>

abbreviation undoable :: "'db state_trait \<Rightarrow> 'db ibs \<Rightarrow> 'db ibs \<Rightarrow> bool" where
  "undoable T \<equiv> undo_log.undoable (extends T) revert_delta journal (ibs_wf T)"

lemma push_delta_simps [simp]:
  "db (push_delta d s) = db s" "objects (push_delta d s) = objects s"
  "storage_map (push_delta d s) = storage_map s" "incarnations (push_delta d s) = incarnations s"
  "existing_code (push_delta d s) = existing_code s" "new_code (push_delta d s) = new_code s"
  "journal (push_delta d s) = journal s @ [d]" "self_destructs (push_delta d s) = self_destructs s"
  "logs (push_delta d s) = logs s" "touched (push_delta d s) = touched s"
  "refund (push_delta d s) = refund s" "accessed_addresses (push_delta d s) = accessed_addresses s"
  "accessed_storage_keys (push_delta d s) = accessed_storage_keys s"
  by (simp_all add: push_delta_def)

text \<open>Each view reads few fields, so an update of any other field leaves it alone.\<close>

lemma account_view_cong: "db t = db s \<Longrightarrow> objects t = objects s \<Longrightarrow> account_view T t = account_view T s"
  by (simp add: account_view_def fun_eq_iff split: option.splits)

lemma storage_view_cong:
  "db t = db s \<Longrightarrow> storage_map t = storage_map s \<Longrightarrow> incarnations t = incarnations s \<Longrightarrow>
   storage_view T t = storage_view T s"
  by (simp add: storage_view_def base_storage_def fun_eq_iff split: option.splits)

lemma ibs_wf_cong:
  "db t = db s \<Longrightarrow> objects t = objects s \<Longrightarrow> incarnations t = incarnations s \<Longrightarrow>
   ibs_wf T t = ibs_wf T s"
  by (simp add: ibs_wf_def)

lemma same_accounts_cong:
  "db t' = db t \<Longrightarrow> objects t' = objects t \<Longrightarrow> db s' = db s \<Longrightarrow> objects s' = objects s \<Longrightarrow>
   same_accounts T s' t' = same_accounts T s t"
  by (simp add: same_accounts_def account_view_cong [of t' t] account_view_cong [of s' s])

lemma same_storage_cong:
  "db t' = db t \<Longrightarrow> storage_map t' = storage_map t \<Longrightarrow> incarnations t' = incarnations t \<Longrightarrow>
   db s' = db s \<Longrightarrow> storage_map s' = storage_map s \<Longrightarrow> incarnations s' = incarnations s \<Longrightarrow>
   same_storage T s' t' = same_storage T s t"
  by (simp add: same_storage_def storage_view_cong [of t' t] storage_view_cong [of s' s])

lemma same_substate_cong:
  "self_destructs t' = self_destructs t \<Longrightarrow> touched t' = touched t \<Longrightarrow>
   accessed_addresses t' = accessed_addresses t \<Longrightarrow>
   accessed_storage_keys t' = accessed_storage_keys t \<Longrightarrow>
   self_destructs s' = self_destructs s \<Longrightarrow> touched s' = touched s \<Longrightarrow>
   accessed_addresses s' = accessed_addresses s \<Longrightarrow>
   accessed_storage_keys s' = accessed_storage_keys s \<Longrightarrow>
   same_substate s' t' = same_substate s t"
  by (simp add: same_substate_def touched_view_def keys_view_def fun_eq_iff)

lemma extends_db: "extends T s t \<Longrightarrow> db t = db s"
  by (simp add: extends_def)

lemma extends_wf: "extends T s t \<Longrightarrow> ibs_wf T t"
  by (simp add: extends_def)

text \<open>An operation that replaces the object of one address.\<close>

definition put_object :: "address \<Rightarrow> object \<Rightarrow> 'db ibs \<Rightarrow> 'db ibs" where
  "put_object a obj s = s\<lparr> objects := hm_insert a obj (objects s) \<rparr>"

lemma ibs_wf_object: "ibs_wf T s \<Longrightarrow> hm_get (objects s) a = Some obj \<Longrightarrow>
    read_account T (db s) a = Inr (obj_initial obj)"
  by (simp add: ibs_wf_def)

lemma ibs_wf_put_object:
  "ibs_wf T s \<Longrightarrow> read_account T (db s) a = Inr (obj_initial obj) \<Longrightarrow> ibs_wf T (put_object a obj s)"
  by (simp add: ibs_wf_def put_object_def)

lemma account_view_put_object:
  "account_view T (put_object a obj s) = (account_view T s)(a := Inr (obj_current obj))"
  by (auto simp: account_view_def put_object_def fun_eq_iff split: option.splits)

text \<open>\<open>extends\<close> of states that differ in one component.\<close>

lemma extends_put_object:
  assumes "extends T s t" and "read_account T (db s) a = Inr (obj_initial obj)"
  shows "extends T (put_object a obj s) (put_object a obj t)"
proof -
  have "same_storage T (put_object a obj s) (put_object a obj t) = same_storage T s t"
    "same_substate (put_object a obj s) (put_object a obj t) = same_substate s t"
    by (rule same_storage_cong same_substate_cong; simp add: put_object_def)+
  moreover have "same_accounts T (put_object a obj s) (put_object a obj t)"
    using assms(1) by (auto simp: extends_def same_accounts_def account_view_put_object)
      (auto simp: put_object_def)
  ultimately show ?thesis
    using assms by (auto simp: extends_def ibs_wf_put_object) (auto simp: put_object_def)
qed

lemma extends_read_cache:
  assumes "ibs_wf T s" and "hm_get (objects s) a = None" and "read_account T (db s) a = Inr (Some acc)"
  shows "extends T s (put_object a \<lparr> obj_initial = Some acc, obj_current = Some acc \<rparr> s)"
    (is "extends T s ?t")
proof -
  have "same_storage T s ?t = same_storage T s s" "same_substate s ?t = same_substate s s"
    by (rule same_storage_cong same_substate_cong; simp add: put_object_def)+
  moreover have "account_view T ?t = account_view T s"
    using assms by (auto simp: account_view_put_object account_view_def fun_eq_iff)
  ultimately show ?thesis
    using assms by (auto simp: extends_def same_defs ibs_wf_put_object)
      (auto simp: put_object_def)
qed

lemma get_object_extends:
  assumes "get_object T a s = Inr (o', s')" and "ibs_wf T s"
  shows "extends T s s'" and "journal s' = journal s" and "logs s' = logs s \<and> refund s' = refund s"
    and "hm_get (objects s') a = o'"
    and "o' = None \<Longrightarrow> read_account T (db s) a = Inr None \<and> s' = s"
proof -
  have *: "(o' = None \<and> s' = s \<and> hm_get (objects s) a = None \<and> read_account T (db s) a = Inr None) \<or>
     (s' = s \<and> hm_get (objects s) a = o') \<or>
     (\<exists>acc. hm_get (objects s) a = None \<and> read_account T (db s) a = Inr (Some acc) \<and>
        o' = Some \<lparr> obj_initial = Some acc, obj_current = Some acc \<rparr> \<and>
        s' = put_object a \<lparr> obj_initial = Some acc, obj_current = Some acc \<rparr> s)"
    using assms(1)
    by (auto simp: get_object_def put_object_def Let_def result_simps split: option.splits)
  show "extends T s s'" using * assms(2) by (auto intro: ibs.ext_refl extends_read_cache)
  show "journal s' = journal s" "logs s' = logs s \<and> refund s' = refund s" using * by (auto simp: put_object_def)
  show "hm_get (objects s') a = o'" using * by (auto simp: put_object_def)
  show "o' = None \<Longrightarrow> read_account T (db s) a = Inr None \<and> s' = s"
    using * assms(1) by (auto simp: get_object_def Let_def result_simps split: option.splits)
qed

lemma undoable_get_object:
  assumes "get_object T a s = Inr (o', s')" and "ibs_wf T s"
  shows "undoable T s s'"
  using get_object_extends [OF assms] by (auto intro: ibs.undoable_ext extends_wf)

text \<open>Reverting a delta is compatible with \<open>extends\<close>, except for an incarnation, which
  is only ever reverted together with the storage of its contract.\<close>

fun delta_ok :: "'db state_trait \<Rightarrow> 'db \<Rightarrow> delta \<Rightarrow> bool" where
  "delta_ok T d (Delta_Update a obj) \<longleftrightarrow> read_account T d a = Inr (obj_initial obj)"
| "delta_ok T d (Delta_Incarnation a) \<longleftrightarrow> False"
| "delta_ok T d _ \<longleftrightarrow> True"

lemma extends_objects:
  assumes "extends T s t"
    and "\<And>b. b \<noteq> a \<Longrightarrow> hm_get os b = hm_get (objects s) b"
    and "\<And>b. b \<noteq> a \<Longrightarrow> hm_get ot b = hm_get (objects t) b"
    and "hm_get ot a = hm_get os a"
    and "\<And>obj. hm_get ot a = Some obj \<Longrightarrow> read_account T (db s) a = Inr (obj_initial obj)"
  shows "extends T (s\<lparr> objects := os \<rparr>) (t\<lparr> objects := ot \<rparr>)"
proof -
  have "same_storage T (s\<lparr> objects := os \<rparr>) (t\<lparr> objects := ot \<rparr>) = same_storage T s t"
    "same_substate (s\<lparr> objects := os \<rparr>) (t\<lparr> objects := ot \<rparr>) = same_substate s t"
    by (rule same_storage_cong same_substate_cong; simp)+
  moreover have db: "db t = db s" using assms(1) by (rule extends_db)
  moreover have "account_view T (t\<lparr> objects := ot \<rparr>) b = account_view T (s\<lparr> objects := os \<rparr>) b" for b
    using assms db by (cases "b = a") (auto simp: extends_def same_accounts_def account_view_def fun_eq_iff
        cong: option.case_cong)
  moreover have "hm_get os b \<noteq> None \<Longrightarrow> hm_get ot b \<noteq> None" for b
    using assms(1-4) by (cases "b = a") (auto simp: extends_def same_accounts_def)
  moreover have "ibs_wf T (t\<lparr> objects := ot \<rparr>)"
    using assms db by (auto simp: extends_def ibs_wf_def) (metis (full_types))
  ultimately show ?thesis
    using assms(1) by (auto simp: extends_def same_accounts_def)
qed

lemma extends_storage:
  assumes "extends T s t"
    and "\<And>b. b \<noteq> a \<Longrightarrow> hm_get ms b = hm_get (storage_map s) b"
    and "\<And>b. b \<noteq> a \<Longrightarrow> hm_get mt b = hm_get (storage_map t) b"
    and "\<And>original k. storage_view T (t\<lparr> storage_map := mt \<rparr>) original a k
         = storage_view T (s\<lparr> storage_map := ms \<rparr>) original a k"
  shows "extends T (s\<lparr> storage_map := ms \<rparr>) (t\<lparr> storage_map := mt \<rparr>)"
proof -
  have "same_accounts T (s\<lparr> storage_map := ms \<rparr>) (t\<lparr> storage_map := mt \<rparr>) = same_accounts T s t"
    "same_substate (s\<lparr> storage_map := ms \<rparr>) (t\<lparr> storage_map := mt \<rparr>) = same_substate s t"
    by (rule same_accounts_cong same_substate_cong; simp)+
  moreover have "storage_view T (u\<lparr> storage_map := m \<rparr>) original b k = storage_view T u original b k"
    if "hm_get m b = hm_get (storage_map u) b" for u m original b k
    using that by (simp add: storage_view_def base_storage_def hm_get_or_def cong: option.case_cong)
  then have "storage_view T (t\<lparr> storage_map := mt \<rparr>) original b k
      = storage_view T (s\<lparr> storage_map := ms \<rparr>) original b k" for original b k
    using assms by (cases "b = a") (auto simp: extends_def same_storage_def)
  ultimately show ?thesis
    using assms(1) by (auto simp: extends_def same_storage_def ibs_wf_def fun_eq_iff)
qed

lemma storage_view_put_current:
  "storage_view T (put_current a k v s) original b j =
     (if b = a \<and> j = k \<and> \<not> original then Inr v else storage_view T s original b j)"
  by (auto simp: storage_view_def put_current_def Let_def base_storage_def stored_value_def
      split: option.splits)

lemma extends_substate:
  assumes "extends T s t" and "same_substate s' t'"
    and "db s' = db s" "objects s' = objects s" "storage_map s' = storage_map s"
    "incarnations s' = incarnations s"
    and "db t' = db t" "objects t' = objects t" "storage_map t' = storage_map t"
    "incarnations t' = incarnations t"
  shows "extends T s' t'"
  using assms same_accounts_cong [of t' t s' s T] same_storage_cong [of t' t s' s T]
    ibs_wf_cong [of t' t T]
  by (simp add: extends_def)

lemma revert_delta_cong:
  assumes wf: "ibs_wf T s" and ext: "extends T s t" and ok: "delta_ok T (db s) d" and rev: "revert_delta d s = Inr s1"
  shows "\<exists>t1. revert_delta d t = Inr t1 \<and> extends T s1 t1"
proof (cases d)
  case (Delta_Create a)
  with rev show ?thesis by (auto intro!: extends_objects [OF ext, where a = a])
next
  case (Delta_Update a obj)
  with rev ok show ?thesis by (auto intro!: extends_objects [OF ext, where a = a])
next
  case (Delta_UpdateBalance a v)
  with rev obtain obj c where o1: "hm_get (objects s) a = Some obj" "obj_current obj = Some c"
    and s1: "s1 = s\<lparr> objects := hm_insert a (obj\<lparr> obj_current := Some (c\<lparr> acc_balance := v \<rparr>) \<rparr>) (objects s) \<rparr>"
    by (auto simp: result_simps)
  from o1 ext obtain obj' where o2: "hm_get (objects t) a = Some obj'"
    by (auto simp: extends_def same_accounts_def)
  have cur: "obj_current obj' = Some c"
    using ext o1 o2 by (auto simp: extends_def same_accounts_def account_view_def fun_eq_iff
        dest!: spec [where x = a])
  have "ibs_wf T t" "db t = db s" using ext by (auto simp: extends_def)
  then have "read_account T (db s) a = Inr (obj_initial obj')"
    using o2 by (auto simp: ibs_wf_def)
  with ibs_wf_object [OF wf o1(1)] cur o1 have "obj' = obj" by simp
  with Delta_UpdateBalance s1 o1 o2 ibs_wf_object [OF wf o1(1)] show ?thesis
    by (auto intro!: extends_objects [OF ext, where a = a])
next
  case (Delta_StorageChange a k v)
  with rev show ?thesis
    by (auto simp: put_current_def Let_def intro!: extends_storage [OF ext, where a = a])
      (use ext in \<open>auto simp: storage_view_put_current [unfolded put_current_def Let_def] extends_def same_storage_def\<close>)
next
  case (Delta_StorageWipe a st)
  have "storage_view T (t\<lparr> storage_map := hm_insert a st (storage_map t) \<rparr>) original a k
     = storage_view T (s\<lparr> storage_map := hm_insert a st (storage_map s) \<rparr>) original a k" for original k
    using ext by (auto simp: storage_view_def base_storage_def extends_def same_storage_def cong: option.case_cong)
  with Delta_StorageWipe rev show ?thesis
    by (auto intro!: extends_storage [OF ext, where a = a])
next
  case (Delta_StorageCreate a)
  have "storage_view T (t\<lparr> storage_map := hm_remove a (storage_map t) \<rparr>) original a k
     = storage_view T (s\<lparr> storage_map := hm_remove a (storage_map s) \<rparr>) original a k" for original k
    using ext by (auto simp: storage_view_def base_storage_def extends_def same_storage_def cong: option.case_cong)
  with Delta_StorageCreate rev show ?thesis
    by (auto intro!: extends_storage [OF ext, where a = a])
next
  case (Delta_Incarnation a)
  with ok show ?thesis by simp
next
  case (Delta_Selfdestruct a)
  with rev ext show ?thesis
    by (auto intro!: extends_substate [OF ext]) (simp add: extends_def same_substate_def touched_view_def keys_view_def fun_eq_iff)
next
  case (Delta_Touch a)
  with rev ext show ?thesis
    by (auto intro!: extends_substate [OF ext]) (auto simp: extends_def same_substate_def touched_view_def keys_view_def fun_eq_iff)
next
  case (Delta_StorageAccess a k)
  with rev ext show ?thesis
    by (auto intro!: extends_substate [OF ext]) (auto simp: extends_def same_substate_def touched_view_def keys_view_def fun_eq_iff)
next
  case (Delta_AccountAccess a)
  with rev ext show ?thesis
    by (auto intro!: extends_substate [OF ext]) (simp add: extends_def same_substate_def touched_view_def keys_view_def fun_eq_iff)
qed

lemma undoable_logged:
  assumes wf: "ibs_wf T s'" and j: "journal s' = journal s @ [d]" and ok: "delta_ok T (db s') d"
    and rev: "revert_delta d s' = Inr r" and ext: "extends T s r"
  shows "undoable T s s'"
proof (rule ibs.undoable_step [OF wf j])
  fix t assume "extends T s' t"
  from revert_delta_cong [OF wf this ok rev] ext
  show "\<exists>t'. revert_delta d t = Inr t' \<and> extends T s t'" by (blast intro: ibs.ext_trans)
qed

text \<open>States whose maps answer every lookup alike extend each other.\<close>

lemma extends_same_lookups:
  assumes "ibs_wf T s" and "db t = db s"
    and "hm_get (objects t) = hm_get (objects s)" and "hm_get (storage_map t) = hm_get (storage_map s)"
    and "hm_get (incarnations t) = hm_get (incarnations s)" and "same_substate s t"
  shows "extends T s t"
  using assms by (auto simp: extends_def same_accounts_def same_storage_def ibs_wf_def account_view_def
      storage_view_def base_storage_def hm_get_or_def fun_eq_iff cong: option.case_cong)

lemma same_substate_refl [simp]: "same_substate s s"
  by (simp add: same_substate_def)

lemma same_substate_fields:
  "self_destructs t = self_destructs s \<Longrightarrow> touched t = touched s \<Longrightarrow>
   accessed_addresses t = accessed_addresses s \<Longrightarrow>
   accessed_storage_keys t = accessed_storage_keys s \<Longrightarrow> same_substate s t"
  by (simp add: same_substate_def touched_view_def keys_view_def fun_eq_iff)

lemma undoable_put_object:
  assumes wf: "ibs_wf T s" and obj: "hm_get (objects s) a = Some obj"
    and init: "obj_initial obj' = obj_initial obj"
  shows "undoable T s (push_delta (Delta_Update a obj) (put_object a obj' s))" (is "undoable T s ?s'")
proof (rule undoable_logged [where r = "put_object a obj ?s'"])
  show "ibs_wf T ?s'" "delta_ok T (db ?s') (Delta_Update a obj)"
    using wf ibs_wf_object [OF wf obj] init by (auto simp: ibs_wf_def put_object_def)
  show "extends T s (put_object a obj ?s')"
    using wf obj
    by (auto intro!: extends_same_lookups same_substate_fields simp: put_object_def)
qed (auto simp: put_object_def)

lemma undoable_create_object:
  assumes wf: "ibs_wf T s" and obj: "hm_get (objects s) a = None" "read_account T (db s) a = Inr None"
    and init: "obj_initial obj' = None"
  shows "undoable T s (push_delta (Delta_Create a) (put_object a obj' s))" (is "undoable T s ?s'")
proof (rule undoable_logged [where r = "?s'\<lparr> objects := hm_remove a (objects ?s') \<rparr>"])
  show "ibs_wf T ?s'" using wf obj init by (auto simp: ibs_wf_def put_object_def)
  show "extends T s (?s'\<lparr> objects := hm_remove a (objects ?s') \<rparr>)"
    using wf obj
    by (auto intro!: extends_same_lookups same_substate_fields simp: put_object_def)
qed (auto simp: put_object_def)

lemma push_put_object:
  "(push_delta d s)\<lparr> objects := hm_insert a obj (objects s) \<rparr> = push_delta d (put_object a obj s)"
  by (simp add: push_delta_def put_object_def)

lemma undoable_ensure_object:
  assumes "ensure_object T a s = Inr s'" and wf: "ibs_wf T s"
  shows "undoable T s s'" and "\<exists>obj acc. hm_get (objects s') a = Some obj \<and> obj_current obj = Some acc"
proof -
  obtain o' s1 where g: "get_object T a s = Inr (o', s1)"
    using assms by (auto simp: ensure_object_def result_simps)
  note ge = get_object_extends [OF g wf]
  have u1: "undoable T s s1" and wf1: "ibs_wf T s1"
    using undoable_get_object [OF g wf] ge(1) by (auto intro: extends_wf)
  show "undoable T s s'"
  proof (cases o')
    case None
    then have "undoable T s1 s'"
      using assms(1) g ge(4,5) wf1
      by (auto simp: ensure_object_def push_put_object intro!: undoable_create_object)
    with u1 show ?thesis by (rule ibs.undoable_trans)
  next
    case (Some obj)
    then have "undoable T s1 s'"
      using assms(1) g ge(4) wf1
      by (auto simp: ensure_object_def push_put_object intro!: undoable_put_object ibs.undoable_refl
          split: if_splits)
    with u1 show ?thesis by (rule ibs.undoable_trans)
  qed
  show "\<exists>obj acc. hm_get (objects s') a = Some obj \<and> obj_current obj = Some acc"
    using assms(1) g ge(4)
    by (auto simp: ensure_object_def push_delta_def split: option.splits if_splits)
qed

lemma undoable_get_or_create_object:
  assumes "get_or_create_object T a s = Inr (obj, acc, s')" and "ibs_wf T s"
  shows "undoable T s s'" and "hm_get (objects s') a = Some obj" and "obj_current obj = Some acc"
    and "ibs_wf T s'"
proof -
  have e: "ensure_object T a s = Inr s'" and "hm_get (objects s') a = Some obj" "obj_current obj = Some acc"
    using assms(1) by (auto simp: get_or_create_object_def result_simps)
  then show "hm_get (objects s') a = Some obj" "obj_current obj = Some acc" by auto
  show u: "undoable T s s'" using e assms(2) by (rule undoable_ensure_object)
  show "ibs_wf T s'" using u by (simp add: ibs.undoable_def)
qed

lemma undoable_wf: "undoable T s s' \<Longrightarrow> ibs_wf T s'"
  by (simp add: ibs.undoable_def)

lemma undoable_touch:
  assumes "ibs_wf T s"
  shows "undoable T s (touch a s)"
proof (cases "a \<notin> set (touched s) \<and> a \<noteq> RIPEMD_ADDRESS")
  case True
  then have t: "touch a s = push_delta (Delta_Touch a) (s\<lparr> touched := hs_insert a (touched s) \<rparr>)" (is "_ = ?t")
    by (simp add: touch_def)
  show ?thesis unfolding t
  proof (rule undoable_logged [where r = "?t\<lparr> touched := hs_remove a (touched ?t) \<rparr>"])
    show "ibs_wf T ?t" using assms by (simp add: ibs_wf_def)
    show "extends T s (?t\<lparr> touched := hs_remove a (touched ?t) \<rparr>)"
      using assms True by (intro extends_same_lookups)
        (auto simp: same_substate_def touched_view_def keys_view_def fun_eq_iff)
  qed auto
next
  case False
  then have t: "touch a s = s\<lparr> touched := hs_insert a (touched s) \<rparr>"
    by (auto simp: touch_def)
  show ?thesis unfolding t
  proof (rule ibs.undoable_ext)
    show "extends T s (s\<lparr> touched := hs_insert a (touched s) \<rparr>)"
      using assms False by (intro extends_same_lookups)
        (auto simp: same_substate_def touched_view_def keys_view_def fun_eq_iff)
  qed (use assms in \<open>auto simp: ibs_wf_def\<close>)
qed

lemma undoable_update_balance:
  assumes "update_balance T f a s = Inr s'" and "ibs_wf T s"
  shows "undoable T s s'"
proof -
  obtain obj acc s1 where g: "get_or_create_object T a s = Inr (obj, acc, s1)"
    using assms by (auto simp: update_balance_def result_simps)
  note gc = undoable_get_or_create_object [OF g assms(2)]
  let ?o = "obj\<lparr> obj_current := Some (acc\<lparr> acc_balance := f (acc_balance acc) \<rparr>) \<rparr>"
  let ?s2 = "push_delta (Delta_UpdateBalance a (acc_balance acc)) (put_object a ?o s1)"
  have s': "s' = touch a ?s2"
    using assms(1) g by (auto simp: update_balance_def push_put_object)
  have "undoable T s1 ?s2"
  proof (rule undoable_logged [where r = "put_object a obj ?s2"])
    show wf2: "ibs_wf T ?s2" using gc ibs_wf_object [OF gc(4,2)] by (auto simp: ibs_wf_def put_object_def)
    show "revert_delta (Delta_UpdateBalance a (acc_balance acc)) ?s2 = Inr (put_object a obj ?s2)"
    proof -
      have "obj\<lparr> obj_current := Some acc \<rparr> = obj" using gc(3) by (cases obj) simp
      then show ?thesis by (simp add: put_object_def)
    qed
    show "extends T s1 (put_object a obj ?s2)"
      using gc by (auto intro!: extends_same_lookups same_substate_fields simp: put_object_def)
  qed (auto simp: put_object_def)
  then have "undoable T s ?s2" using gc(1) ibs.undoable_trans by blast
  then show ?thesis unfolding s'
    by (rule ibs.undoable_trans) (rule undoable_touch, rule undoable_wf, fact)
qed

lemma undoable_put_account:
  assumes "get_or_create_object T a s = Inr (obj, acc, s1)" and "ibs_wf T s"
    and "obj_initial obj' = obj_initial obj"
  shows "undoable T s (push_delta (Delta_Update a obj) (put_object a obj' s1))"
  using undoable_get_or_create_object [OF assms(1,2)] assms(3)
  by (blast intro: ibs.undoable_trans undoable_put_object)

lemma undoable_set_nonce:
  "set_nonce T a n s = Inr s' \<Longrightarrow> ibs_wf T s \<Longrightarrow> undoable T s s'"
  by (auto simp: set_nonce_def result_simps push_put_object intro!: undoable_put_account)

text \<open>Fields outside the views.\<close>

lemma undoable_frame:
  assumes "ibs_wf T s" and "db t = db s" "objects t = objects s" "storage_map t = storage_map s"
    "incarnations t = incarnations s" "journal t = journal s" and "same_substate s t"
  shows "undoable T s t"
  using assms by (intro ibs.undoable_ext extends_same_lookups) (auto simp: ibs_wf_def)

lemma undoable_set_code:
  assumes "set_code T keccak a code s = Inr s'" and "ibs_wf T s"
  shows "undoable T s s'"
proof -
  obtain obj acc s1 where g: "get_or_create_object T a s = Inr (obj, acc, s1)"
    using assms by (auto simp: set_code_def result_simps)
  let ?o = "obj\<lparr> obj_current := Some (acc\<lparr> acc_code_hash := keccak code \<rparr>) \<rparr>"
  let ?s2 = "push_delta (Delta_Update a obj) (put_object a ?o s1)"
  have u: "undoable T s ?s2" by (rule undoable_put_account [OF g assms(2)]) simp
  have "undoable T ?s2 s'"
    using assms(1) g by (intro undoable_frame [OF undoable_wf [OF u]])
      (auto simp: set_code_def push_put_object put_object_def Let_def intro!: same_substate_fields
        split: option.splits)
  with u show ?thesis by (rule ibs.undoable_trans)
qed

lemma undoable_record_selfdestruct:
  assumes "ibs_wf T s"
  shows "undoable T s (record_selfdestruct a s)"
proof (cases "a \<in> set (self_destructs s)")
  case True
  with assms show ?thesis by (simp add: record_selfdestruct_def ibs.undoable_refl)
next
  case False
  then have t: "record_selfdestruct a s =
      push_delta (Delta_Selfdestruct a) (s\<lparr> self_destructs := hs_insert a (self_destructs s) \<rparr>)" (is "_ = ?t")
    by (simp add: record_selfdestruct_def)
  show ?thesis unfolding t
  proof (rule undoable_logged [where r = "?t\<lparr> self_destructs := hs_remove a (self_destructs ?t) \<rparr>"])
    show "extends T s (?t\<lparr> self_destructs := hs_remove a (self_destructs ?t) \<rparr>)"
      using assms False by (intro extends_same_lookups)
        (auto simp: same_substate_def touched_view_def keys_view_def fun_eq_iff)
  qed (use assms in \<open>auto simp: ibs_wf_def\<close>)
qed

lemma undoable_access_account:
  assumes "ibs_wf T s"
  shows "undoable T s (snd (access_account a s))"
proof (cases "a \<in> set (accessed_addresses s)")
  case True
  with assms show ?thesis by (simp add: access_account_def ibs.undoable_refl)
next
  case False
  then have t: "snd (access_account a s) =
      push_delta (Delta_AccountAccess a) (s\<lparr> accessed_addresses := hs_insert a (accessed_addresses s) \<rparr>)"
    (is "_ = ?t") by (simp add: access_account_def)
  show ?thesis unfolding t
  proof (rule undoable_logged [where r = "?t\<lparr> accessed_addresses := hs_remove a (accessed_addresses ?t) \<rparr>"])
    show "extends T s (?t\<lparr> accessed_addresses := hs_remove a (accessed_addresses ?t) \<rparr>)"
      using assms False by (intro extends_same_lookups)
        (auto simp: same_substate_def touched_view_def keys_view_def fun_eq_iff)
  qed (use assms in \<open>auto simp: ibs_wf_def\<close>)
qed

lemma undoable_access_storage:
  assumes "ibs_wf T s"
  shows "undoable T s (snd (access_storage a k s))"
proof -
  let ?ks = "hm_get_or [] (accessed_storage_keys s) a"
  let ?u = "s\<lparr> accessed_storage_keys := hm_insert a (hs_insert k ?ks) (accessed_storage_keys s) \<rparr>"
  show ?thesis
  proof (cases "k \<in> set ?ks")
    case True
    then have "same_substate s ?u"
      by (auto simp: same_substate_def touched_view_def keys_view_def fun_eq_iff)
    with assms True show ?thesis by (auto simp: access_storage_def intro!: undoable_frame)
  next
    case False
    then have t: "snd (access_storage a k s) = push_delta (Delta_StorageAccess a k) ?u" (is "_ = ?t")
      by (simp add: access_storage_def)
    let ?r = "?t\<lparr> accessed_storage_keys := hm_insert a (hs_remove k (hs_insert k ?ks)) (accessed_storage_keys ?t) \<rparr>"
    show ?thesis unfolding t
    proof (rule undoable_logged [where r = ?r])
      have "same_substate s ?r"
        using False by (auto simp: same_substate_def touched_view_def keys_view_def fun_eq_iff)
      then show "extends T s ?r" using assms by (intro extends_same_lookups) auto
    qed (use assms in \<open>auto simp: ibs_wf_def\<close>)
  qed
qed

text \<open>Reading a slot returns its view and changes no view.\<close>

lemma extends_cache_storage:
  assumes "ibs_wf T s"
    and "\<And>original k. storage_view T (s\<lparr> storage_map := hm_insert a st (storage_map s) \<rparr>) original a k
       = storage_view T s original a k"
  shows "extends T s (s\<lparr> storage_map := hm_insert a st (storage_map s) \<rparr>)"
  using extends_storage [OF ibs.ext_refl [OF assms(1)], where a = a and ms = "storage_map s"
      and mt = "hm_insert a st (storage_map s)"] assms(2) by simp

lemma storage_view_insert:
  "storage_view T (s\<lparr> storage_map := hm_insert a st m \<rparr>) original a k =
     (case stored_value st original k of Some v \<Rightarrow> Inr v | None \<Rightarrow> base_storage T s a k)"
  by (simp add: storage_view_def base_storage_def split: option.split)

lemma get_storage_cases:
  assumes "get_storage T a k original s = Inr (v, s')"
  obtains o' s1 where "get_object T a s = Inr (o', s1)"
    "(\<forall>obj. o' = Some obj \<longrightarrow> obj_current obj = None)" "v = 0" "s' = s1"
  | obj s1 where "get_object T a s = Inr (Some obj, s1)" "obj_current obj \<noteq> None"
    "stored_value (hm_get_or default_storage (storage_map s1) a) original k = Some v \<or>
     (stored_value (hm_get_or default_storage (storage_map s1) a) original k = None \<and> v = 0 \<and>
      (obj_initial obj = None \<or> hm_get (incarnations s1) a \<noteq> None))"
    "s' = s1\<lparr> storage_map := hm_insert a (hm_get_or default_storage (storage_map s1) a) (storage_map s1) \<rparr>"
  | obj s1 st where "get_object T a s = Inr (Some obj, s1)" "obj_current obj \<noteq> None"
    "st = hm_get_or default_storage (storage_map s1) a" "stored_value st original k = None"
    "obj_initial obj \<noteq> None" "hm_get (incarnations s1) a = None" "read_storage T (db s1) a k = Inr v"
    "s' = s1\<lparr> storage_map := hm_insert a
         (st\<lparr> st_committed := hm_insert k \<lparr> cv_initial = v, cv_original = v \<rparr> (st_committed st) \<rparr>)
         (hm_insert a st (storage_map s1)) \<rparr>"
proof -
  obtain o' s1 where g: "get_object T a s = Inr (o', s1)"
    using assms by (auto simp: get_storage_def result_simps)
  show thesis
  proof (cases "\<exists>obj. o' = Some obj \<and> obj_current obj \<noteq> None")
    case False
    with assms g show thesis by (auto simp: get_storage_def split: option.splits if_splits intro: that(1))
  next
    case True
    then obtain obj where obj: "o' = Some obj" "obj_current obj \<noteq> None" by blast
    let ?st = "hm_get_or default_storage (storage_map s1) a"
    show thesis
    proof (cases "stored_value ?st original k = None \<and> obj_initial obj \<noteq> None \<and> hm_get (incarnations s1) a = None")
      case True
      with assms g obj show thesis
        by (intro that(3) [of obj s1 ?st])
          (auto simp: get_storage_def Let_def stored_value_def result_simps split: option.splits if_splits)
    next
      case False
      with assms g obj show thesis
        by (intro that(2) [of obj s1])
          (auto simp: get_storage_def Let_def stored_value_def split: option.splits if_splits)
    qed
  qed
qed

lemma account_view_get_object:
  assumes "get_object T a s = Inr (o', s1)" and "ibs_wf T s"
  shows "account_view T s a = Inr (case o' of None \<Rightarrow> None | Some obj \<Rightarrow> obj_current obj)"
proof -
  note g = get_object_extends [OF assms]
  have "account_view T s a = account_view T s1 a"
    using g(1) by (simp add: extends_def same_accounts_def)
  with g(4,5) extends_db [OF g(1)] show ?thesis by (cases o') (auto simp: account_view_def)
qed

lemma get_storage_extends:
  assumes "get_storage T a k original s = Inr (v, s')" and wf: "ibs_wf T s"
  shows "extends T s s'" and "journal s' = journal s" and "logs s' = logs s \<and> refund s' = refund s"
    and "account_view T s a = Inr (Some acc) \<Longrightarrow> storage_view T s original a k = Inr v"
    and "account_view T s a = Inr None \<Longrightarrow> v = 0"
proof -
  have "extends T s s' \<and> journal s' = journal s \<and> (logs s' = logs s \<and> refund s' = refund s) \<and>
    (\<forall>acc. account_view T s a = Inr (Some acc) \<longrightarrow> storage_view T s original a k = Inr v) \<and>
    (account_view T s a = Inr None \<longrightarrow> v = 0)"
    using assms(1)
  proof (cases rule: get_storage_cases)
    case (1 o' s1)
    then show ?thesis using get_object_extends [OF 1(1) wf] account_view_get_object [OF 1(1) wf]
      by (auto split: option.splits)
  next
    case (2 obj s1)
    note g = get_object_extends [OF 2(1) wf]
    have wf1: "ibs_wf T s1" using g(1) by (rule extends_wf)
    have "storage_view T s' original a k = storage_view T s1 original a k" for original k
      unfolding 2(4) by (simp add: storage_view_insert) (simp add: storage_view_def)
    then have e: "extends T s1 s'" unfolding 2(4) by (intro extends_cache_storage wf1) auto
    have "storage_view T s1 original a k = Inr v"
      using 2(3) ibs_wf_object [OF wf1 g(4)] by (auto simp: storage_view_def base_storage_def)
    then have "storage_view T s original a k = Inr v"
      using g(1) by (simp add: extends_def same_storage_def)
    with e g 2 account_view_get_object [OF 2(1) wf] show ?thesis by (auto intro: ibs.ext_trans)
  next
    case (3 obj s1 st)
    note g = get_object_extends [OF 3(1) wf]
    have wf1: "ibs_wf T s1" using g(1) by (rule extends_wf)
    let ?st' = "st\<lparr> st_committed := hm_insert k \<lparr> cv_initial = v, cv_original = v \<rparr> (st_committed st) \<rparr>"
    have base: "base_storage T s1 a k = Inr v"
      using 3(5-7) ibs_wf_object [OF wf1 g(4)] by (auto simp: base_storage_def)
    have stn: "hm_get (st_committed st) k = None" "original \<or> hm_get (st_current st) k = None"
      using 3(4) by (auto simp: stored_value_def split: option.splits if_splits)
    have "storage_view T s' orig a j = storage_view T s1 orig a j" for orig j
      unfolding 3(8) storage_view_insert using base stn 3(3)
      by (auto simp: storage_view_def stored_value_def split: option.splits)
    then have e: "extends T s1 s'"
      unfolding 3(8) using extends_storage [OF ibs.ext_refl [OF wf1], where a = a and ms = "storage_map s1"
          and mt = "hm_insert a ?st' (hm_insert a st (storage_map s1))"] by simp
    have "storage_view T s1 original a k = Inr v"
      using 3(3,4) base by (auto simp: storage_view_def)
    then have "storage_view T s original a k = Inr v"
      using g(1) by (simp add: extends_def same_storage_def)
    with e g 3 account_view_get_object [OF 3(1) wf] show ?thesis by (auto intro: ibs.ext_trans)
  qed
  then show "extends T s s'" and "journal s' = journal s" and "logs s' = logs s \<and> refund s' = refund s"
    and "account_view T s a = Inr (Some acc) \<Longrightarrow> storage_view T s original a k = Inr v"
    and "account_view T s a = Inr None \<Longrightarrow> v = 0"
    by auto
qed

lemma undoable_set_storage:
  assumes "set_storage T a k v s = Inr s'" and wf: "ibs_wf T s"
    and live: "account_view T s a = Inr (Some acc)"
  shows "undoable T s s'"
proof -
  obtain p s1 where g: "get_storage T a k False s = Inr (p, s1)"
    using assms by (auto simp: set_storage_def get_current_storage_def result_simps)
  note ge = get_storage_extends [OF g wf]
  have wf1: "ibs_wf T s1" using ge(1) by (rule extends_wf)
  have u1: "undoable T s s1" using ge wf1 by (intro ibs.undoable_ext)
  have view: "storage_view T s1 False a k = Inr p"
    using ge(1) ge(4) [OF live] by (simp add: extends_def same_storage_def)
  show ?thesis
  proof (cases "p = v")
    case True
    with assms(1) g u1 show ?thesis by (simp add: set_storage_def get_current_storage_def)
  next
    case False
    let ?t = "push_delta (Delta_StorageChange a k p) (put_current a k v s1)"
    have s': "s' = ?t" using assms(1) g False by (simp add: set_storage_def get_current_storage_def)
    have "undoable T s1 ?t"
    proof (rule undoable_logged [where r = "put_current a k p ?t"])
      have fields: "objects (put_current a k p ?t) = objects s1" "db (put_current a k p ?t) = db s1"
        "incarnations (put_current a k p ?t) = incarnations s1"
        by (simp_all add: put_current_def Let_def)
      have push: "storage_view T (push_delta d x) = storage_view T x" for d x
        by (rule storage_view_cong) auto
      have "storage_view T (put_current a k p ?t) = storage_view T s1"
        using view by (auto simp: storage_view_put_current push fun_eq_iff)
      moreover have "same_substate s1 (put_current a k p ?t)"
        by (rule same_substate_fields) (simp_all add: put_current_def Let_def)
      moreover have "same_accounts T s1 (put_current a k p ?t)"
        using fields account_view_cong [of "put_current a k p ?t" s1] by (simp add: same_accounts_def)
      ultimately show "extends T s1 (put_current a k p ?t)"
        using fields wf1 by (simp add: extends_def same_storage_def ibs_wf_def)
    qed (use wf1 in \<open>auto simp: ibs_wf_def put_current_def Let_def\<close>)
    with u1 show ?thesis unfolding s' by (rule ibs.undoable_trans)
  qed
qed

text \<open>Creating a contract logs three deltas, which are reverted together.\<close>

definition contract_object :: "object option \<Rightarrow> object" where
  "contract_object prev = \<lparr>
     obj_initial = (case prev of Some p \<Rightarrow> obj_initial p | None \<Rightarrow> None),
     obj_current = Some (default_account\<lparr> acc_balance := (case prev of
         Some p \<Rightarrow> (case obj_current p of Some c \<Rightarrow> acc_balance c | None \<Rightarrow> 0) | None \<Rightarrow> 0) \<rparr>) \<rparr>"

definition contract_deltas :: "address \<Rightarrow> object option \<Rightarrow> storage option \<Rightarrow> delta list" where
  "contract_deltas a prev st =
     [case prev of Some p \<Rightarrow> Delta_Update a p | None \<Rightarrow> Delta_Create a, Delta_Incarnation a,
      case st of Some x \<Rightarrow> Delta_StorageWipe a x | None \<Rightarrow> Delta_StorageCreate a]"

definition restore :: "'k \<Rightarrow> 'v option \<Rightarrow> ('k, 'v) hash_map \<Rightarrow> ('k, 'v) hash_map" where
  "restore k v m = (case v of Some x \<Rightarrow> hm_insert k x m | None \<Rightarrow> hm_remove k m)"

lemma hm_get_restore [simp]: "hm_get (restore k v m) j = (if j = k then v else hm_get m j)"
  by (cases v) (auto simp: restore_def)

lemma create_contract_eq:
  assumes "create_contract T a s = Inr s'"
  obtains prev s1 where "get_object T a s = Inr (prev, s1)"
    "db s' = db s1" "objects s' = hm_insert a (contract_object prev) (objects s1)"
    "\<And>b. hm_get (storage_map s') b = (if b = a then None else hm_get (storage_map s1) b)"
    "incarnations s' = hm_insert a (hm_get_or 0 (incarnations s1) a + 1) (incarnations s1)"
    "journal s' = journal s1 @ contract_deltas a prev (hm_get (storage_map s1) a)"
    "same_substate s1 s'" "logs s' = logs s1" "refund s' = refund s1"
proof -
  obtain prev s1 where g: "get_object T a s = Inr (prev, s1)"
    using assms by (auto simp: create_contract_def result_simps)
  show thesis
  proof (rule that [OF g])
  qed (use assms g in \<open>auto simp: create_contract_def Let_def bump_incarnation_def contract_object_def
      contract_deltas_def push_delta_def intro!: same_substate_fields split: option.splits\<close>)
qed

lemma undo_contract_deltas:
  assumes "hm_get (incarnations t) a = Some (Suc n)"
  shows "ibs.undo (contract_deltas a prev st) t = Inr (t\<lparr>
     storage_map := restore a st (storage_map t),
     incarnations := restore a (if n = 0 then None else Some n) (incarnations t),
     objects := restore a prev (objects t) \<rparr>)"
  using assms
  by (auto simp: ibs.undo_def contract_deltas_def restore_def split: option.splits)

lemma storage_view_lookup_cong:
  assumes "db t = db s" and "hm_get (storage_map t) a = hm_get (storage_map s) a"
    and "hm_get (incarnations t) a = hm_get (incarnations s) a"
  shows "storage_view T t original a k = storage_view T s original a k"
  using assms by (simp add: storage_view_def base_storage_def hm_get_or_def cong: option.case_cong)

lemma account_view_lookup_cong:
  "db t = db s \<Longrightarrow> hm_get (objects t) a = hm_get (objects s) a \<Longrightarrow> account_view T t a = account_view T s a"
  by (simp add: account_view_def cong: option.case_cong)

lemma undoable_create_contract:
  assumes "create_contract T a s = Inr s'" and wf: "ibs_wf T s"
  shows "undoable T s s'"
  using assms(1)
proof (cases rule: create_contract_eq)
  case (1 prev s1)
  note g = get_object_extends [OF 1(1) wf]
  have wf1: "ibs_wf T s1" using g(1) by (rule extends_wf)
  define old where "old = hm_get (incarnations s1) a"
  define n where "n = hm_get_or 0 (incarnations s1) a"
  have old: "old = (if n = 0 then None else Some n)"
  proof -
    have "hm_get (incarnations s1) a \<noteq> Some 0" using wf1 by (simp add: ibs_wf_def)
    then show ?thesis by (cases "hm_get (incarnations s1) a") (auto simp: old_def n_def hm_get_or_def)
  qed
  have read: "read_account T (db s1) a = Inr (obj_initial (contract_object prev))"
    using g(4,5) extends_db [OF g(1)]
    by (cases prev) (auto simp: contract_object_def dest: ibs_wf_object [OF wf1])
  have wf': "ibs_wf T s'"
    using wf1 1 read by (auto simp: ibs_wf_def)
  have "\<exists>t'. ibs.undo (contract_deltas a prev (hm_get (storage_map s1) a)) t = Inr t' \<and> extends T s1 t'"
    if ext: "extends T s' t" for t
  proof -
    have db: "db t = db s1" using ext 1(2) by (simp add: extends_def)
    have inc: "hm_get (incarnations t) = hm_get (incarnations s')"
      using ext by (simp add: extends_def same_storage_def)
    then have "hm_get (incarnations t) a = Some (Suc n)" by (simp add: 1(5) n_def)
    note undo = undo_contract_deltas [OF this, of prev "hm_get (storage_map s1) a"]
    let ?t = "t\<lparr> storage_map := restore a (hm_get (storage_map s1) a) (storage_map t),
       incarnations := restore a old (incarnations t), objects := restore a prev (objects t) \<rparr>"
    have acc: "account_view T ?t b = account_view T s1 b" for b
    proof (cases "b = a")
      case True
      then show ?thesis using db g(4) by (intro account_view_lookup_cong) auto
    next
      case False
      then have "account_view T ?t b = account_view T t b" "account_view T s' b = account_view T s1 b"
        using 1 by (intro account_view_lookup_cong; simp)+
      with ext show ?thesis by (simp add: extends_def same_accounts_def)
    qed
    have st: "storage_view T ?t original b k = storage_view T s1 original b k" for original b k
    proof (cases "b = a")
      case True
      then show ?thesis using db by (intro storage_view_lookup_cong) (auto simp: old_def)
    next
      case False
      then have "storage_view T ?t original b k = storage_view T t original b k"
        "storage_view T s' original b k = storage_view T s1 original b k"
        using 1 by (intro storage_view_lookup_cong; simp)+
      with ext show ?thesis by (simp add: extends_def same_storage_def)
    qed
    have "hm_get (objects s1) b \<noteq> None \<Longrightarrow> hm_get (objects ?t) b \<noteq> None" for b
      using ext 1(3) g(4) by (auto simp: extends_def same_accounts_def)
    with acc have "same_accounts T s1 ?t" by (auto simp: same_accounts_def fun_eq_iff)
    moreover have "same_storage T s1 ?t"
      using st inc by (auto simp: same_storage_def fun_eq_iff 1(5) old_def)
    moreover have "same_substate s1 ?t"
      using ext 1(7) by (auto simp: extends_def same_substate_def touched_view_def keys_view_def fun_eq_iff)
    moreover have "ibs_wf T ?t"
      using ext wf1 db g(4) old by (auto simp: extends_def ibs_wf_def)
    ultimately have "extends T s1 ?t" using db by (simp add: extends_def)
    with undo show ?thesis unfolding old by blast
  qed
  with wf' 1(6) have "undoable T s1 s'" unfolding ibs.undoable_def by blast
  then show ?thesis using undoable_get_object [OF 1(1) wf] ibs.undoable_trans by blast
qed

section \<open>Runs of the host between a snapshot and its revert\<close>

text \<open>
  \<open>host_run T keccak s t\<close>: from \<open>s\<close> the interpreter's host calls reach \<open>t\<close>.  Every
  operation the EVM uses is a rule, and so is a nested call that fails: a run from a
  snapshot followed by its revert.  Storage is only written for an account that exists:
  the executing contract's.
\<close>

inductive host_run ::
  "'db state_trait \<Rightarrow> (bytes \<Rightarrow> h256) \<Rightarrow> 'db ibs \<Rightarrow> 'db ibs \<Rightarrow> bool"
  for T :: "'db state_trait" and keccak :: "bytes \<Rightarrow> h256" where
  hr_refl: "host_run T keccak s s"
| hr_exists: "host_run T keccak s t \<Longrightarrow> exists_account T a t = Inr (x, u) \<Longrightarrow> host_run T keccak s u"
| hr_is_dead: "host_run T keccak s t \<Longrightarrow> is_dead T a t = Inr (x, u) \<Longrightarrow> host_run T keccak s u"
| hr_get_balance: "host_run T keccak s t \<Longrightarrow> get_balance T a t = Inr (y, u) \<Longrightarrow> host_run T keccak s u"
| hr_get_nonce: "host_run T keccak s t \<Longrightarrow> get_nonce T a t = Inr (n, u) \<Longrightarrow> host_run T keccak s u"
| hr_get_code: "host_run T keccak s t \<Longrightarrow> get_code T a t = Inr (c, u) \<Longrightarrow> host_run T keccak s u"
| hr_get_code_hash:
    "host_run T keccak s t \<Longrightarrow> get_code_hash T a t = Inr (h, u) \<Longrightarrow> host_run T keccak s u"
| hr_get_storage:
    "host_run T keccak s t \<Longrightarrow> get_storage T a k orig t = Inr (y, u) \<Longrightarrow> host_run T keccak s u"
| hr_create_contract:
    "host_run T keccak s t \<Longrightarrow> create_contract T a t = Inr u \<Longrightarrow> host_run T keccak s u"
| hr_record_selfdestruct: "host_run T keccak s t \<Longrightarrow> host_run T keccak s (record_selfdestruct a t)"
| hr_touch: "host_run T keccak s t \<Longrightarrow> host_run T keccak s (touch a t)"
| hr_set_balance: "host_run T keccak s t \<Longrightarrow> set_balance T a y t = Inr u \<Longrightarrow> host_run T keccak s u"
| hr_add_to_balance:
    "host_run T keccak s t \<Longrightarrow> add_to_balance T a y t = Inr u \<Longrightarrow> host_run T keccak s u"
| hr_subtract_from_balance:
    "host_run T keccak s t \<Longrightarrow> subtract_from_balance T a y t = Inr u \<Longrightarrow> host_run T keccak s u"
| hr_set_nonce: "host_run T keccak s t \<Longrightarrow> set_nonce T a n t = Inr u \<Longrightarrow> host_run T keccak s u"
| hr_set_code:
    "host_run T keccak s t \<Longrightarrow> set_code T keccak a code t = Inr u \<Longrightarrow> host_run T keccak s u"
| hr_access_account:
    "host_run T keccak s t \<Longrightarrow> access_account a t = (st, u) \<Longrightarrow> host_run T keccak s u"
| hr_access_storage:
    "host_run T keccak s t \<Longrightarrow> access_storage a k t = (st, u) \<Longrightarrow> host_run T keccak s u"
| hr_set_storage:
    "host_run T keccak s t \<Longrightarrow> account_view T t a = Inr (Some acc) \<Longrightarrow>
     set_storage T a k y t = Inr u \<Longrightarrow> host_run T keccak s u"
| hr_add_log: "host_run T keccak s t \<Longrightarrow> host_run T keccak s (add_log l t)"
| hr_add_refund: "host_run T keccak s t \<Longrightarrow> host_run T keccak s (add_refund r t)"
| hr_subtract_refund: "host_run T keccak s t \<Longrightarrow> host_run T keccak s (subtract_refund r t)"
| hr_nested:
    "host_run T keccak s t \<Longrightarrow> host_run T keccak t u \<Longrightarrow>
     revert_to_snapshot (take_snapshot t) u = Inr w \<Longrightarrow> host_run T keccak s w"

lemma revert_delta_frame:
  "revert_delta d (s\<lparr> journal := j \<rparr>) = map_sum id (\<lambda>t. t\<lparr> journal := j \<rparr>) (revert_delta d s)"
  by (cases d) (auto simp: put_current_def Let_def split: option.splits bind_r_split simp: ok_or_def)

lemma revert_delta_logs:
  "revert_delta d s = Inr t \<Longrightarrow> logs t = logs s \<and> journal t = journal s"
  by (cases d) (auto simp: put_current_def Let_def result_simps split: if_splits)

lemma undo_snoc: "ibs.undo (ds @ [d]) s = bind_r (revert_delta d s) (ibs.undo ds)"
  unfolding ibs.undo_append by (simp add: ibs.undo_def)

lemma undo_frame:
  "ibs.undo ds (s\<lparr> journal := j \<rparr>) = map_sum id (\<lambda>t. t\<lparr> journal := j \<rparr>) (ibs.undo ds s)"
proof (induction ds arbitrary: s rule: rev_induct)
  case Nil
  show ?case by (simp add: ibs.undo_def)
next
  case (snoc d ds)
  then show ?case
    by (cases "revert_delta d s") (auto simp: undo_snoc revert_delta_frame)
qed

lemma revert_n_undo:
  "journal s = js @ ds \<Longrightarrow> revert_n (length ds) s = map_sum id (\<lambda>t. t\<lparr> journal := js \<rparr>) (ibs.undo ds s)"
proof (induction ds arbitrary: s rule: rev_induct)
  case Nil
  then show ?case by (simp add: ibs.undo_def)
next
  case (snoc d ds)
  show ?case
  proof (cases "revert_delta d s")
    case (Inl e)
    with snoc.prems show ?thesis by (simp add: revert_delta_frame undo_snoc butlast_append)
  next
    case (Inr t)
    have "revert_n (length (ds @ [d])) s = revert_n (length ds) (t\<lparr> journal := js @ ds \<rparr>)"
      using snoc.prems Inr by (simp add: revert_delta_frame butlast_append)
    also have "\<dots> = map_sum id (\<lambda>t. t\<lparr> journal := js \<rparr>) (ibs.undo ds t)"
      by (subst snoc.IH) (simp_all add: undo_frame sum.map_comp comp_def id_def)
    also have "ibs.undo ds t = ibs.undo (ds @ [d]) s"
      using Inr by (simp add: undo_snoc)
    finally show ?thesis .
  qed
qed

lemma undo_logs: "ibs.undo ds s = Inr t \<Longrightarrow> logs t = logs s"
  unfolding ibs.undo_def
  by (erule fold_r_invariant [where P = "\<lambda>t. logs t = logs s"]) (auto dest: revert_delta_logs)

text \<open>States that agree in every view and in the journal, the logs and the refund counter.\<close>

definition restored :: "'db state_trait \<Rightarrow> 'db ibs \<Rightarrow> 'db ibs \<Rightarrow> bool" where
  "restored T s t \<longleftrightarrow> extends T s t \<and> journal t = journal s \<and> logs t = logs s \<and> refund t = refund s"

lemma extends_ignores:
  "extends T s (t\<lparr> journal := j \<rparr>) = extends T s t"
  "extends T s (t\<lparr> logs := l \<rparr>) = extends T s t"
  "extends T s (t\<lparr> refund := r \<rparr>) = extends T s t"
  by (auto simp: extends_def same_defs ibs_wf_def touched_view_def keys_view_def fun_eq_iff
      account_view_cong [of "t\<lparr> journal := j \<rparr>" t] storage_view_cong [of "t\<lparr> journal := j \<rparr>" t]
      account_view_cong [of "t\<lparr> logs := l \<rparr>" t] storage_view_cong [of "t\<lparr> logs := l \<rparr>" t]
      account_view_cong [of "t\<lparr> refund := r \<rparr>" t] storage_view_cong [of "t\<lparr> refund := r \<rparr>" t])

lemma undoable_revert:
  assumes u: "undoable T s t" and l: "logs t = logs s @ ls"
  shows "\<exists>w. revert_to_snapshot (take_snapshot s) t = Inr w \<and> restored T s w"
proof -
  obtain ds where j: "journal t = journal s @ ds"
    and rb: "\<And>x. extends T t x \<Longrightarrow> \<exists>y. ibs.undo ds x = Inr y \<and> extends T s y"
    using u by (auto simp: ibs.undoable_def)
  obtain y where y: "ibs.undo ds t = Inr y" "extends T s y"
    using rb ibs.ext_refl [OF undoable_wf [OF u]] by blast
  let ?w = "y\<lparr> journal := journal s, logs := logs s, refund := refund s \<rparr>"
  have "revert_to_snapshot (take_snapshot s) t = Inr ?w"
    using j l y(1) revert_n_undo [OF j] undo_logs [OF y(1)]
    by (simp add: revert_to_snapshot_def take_snapshot_def)
  moreover have "restored T s ?w"
    using y(2) by (simp add: restored_def extends_ignores)
  ultimately show ?thesis by blast
qed

text \<open>No operation but \<open>add_log\<close> changes the logs.\<close>

lemma get_object_logs: "get_object T a s = Inr (o', s') \<Longrightarrow> logs s' = logs s"
  by (auto simp: get_object_def Let_def split: option.splits)

lemma get_or_create_object_logs: "get_or_create_object T a s = Inr (obj, acc, s') \<Longrightarrow> logs s' = logs s"
  by (auto simp: get_or_create_object_def ensure_object_def split: option.splits if_splits
      dest!: get_object_logs)

lemma touch_logs [simp]: "logs (touch a s) = logs s"
  by (simp add: touch_def Let_def)

lemma substate_logs [simp]:
  "logs (record_selfdestruct a s) = logs s" "logs (add_refund r s) = logs s"
  "logs (subtract_refund r s) = logs s"
  by (simp_all add: record_selfdestruct_def add_refund_def subtract_refund_def)

lemma update_balance_logs: "update_balance T f a s = Inr s' \<Longrightarrow> logs s' = logs s"
  by (auto simp: update_balance_def Let_def dest!: get_or_create_object_logs)

lemma set_account_logs:
  "set_nonce T a n s = Inr s' \<Longrightarrow> logs s' = logs s"
  "set_code T keccak a code s = Inr s' \<Longrightarrow> logs s' = logs s"
  by (auto simp: set_nonce_def set_code_def Let_def dest!: get_or_create_object_logs
      split: option.splits)

lemma read_logs:
  "exists_account T a s = Inr (x, s') \<Longrightarrow> logs s' = logs s"
  "is_dead T a s = Inr (x, s') \<Longrightarrow> logs s' = logs s"
  "get_balance T a s = Inr (y, s') \<Longrightarrow> logs s' = logs s"
  "get_nonce T a s = Inr (n, s') \<Longrightarrow> logs s' = logs s"
  "get_code_hash T a s = Inr (h, s') \<Longrightarrow> logs s' = logs s"
  by (auto simp: exists_account_def is_dead_def get_balance_def get_nonce_def get_code_hash_def
      split: option.splits dest!: get_object_logs)

lemma get_code_logs: "get_code T a s = Inr (c, s') \<Longrightarrow> logs s' = logs s"
  by (auto simp: get_code_def Let_def split: option.splits if_splits dest!: get_object_logs)

lemma create_contract_logs: "create_contract T a s = Inr s' \<Longrightarrow> logs s' = logs s"
  by (erule create_contract_eq) (auto dest: get_object_logs)

lemma get_storage_logs: "get_storage T a k original s = Inr (v, s') \<Longrightarrow> logs s' = logs s"
  by (erule get_storage_cases) (auto dest: get_object_logs)

lemma set_storage_logs: "set_storage T a k v s = Inr s' \<Longrightarrow> logs s' = logs s"
  by (auto simp: set_storage_def get_current_storage_def put_current_def Let_def
      split: if_splits dest!: get_storage_logs)

lemma access_logs:
  "access_account a s = (st, s') \<Longrightarrow> logs s' = logs s"
  "access_storage a k s = (st, s') \<Longrightarrow> logs s' = logs s"
  by (auto simp: access_account_def access_storage_def Let_def split: if_splits)

text \<open>The reads through \<open>get_object\<close> only fill caches.\<close>

lemma undoable_reads:
  assumes "ibs_wf T s"
  shows "exists_account T a s = Inr (x, s') \<Longrightarrow> undoable T s s'"
    "is_dead T a s = Inr (x, s') \<Longrightarrow> undoable T s s'"
    "get_balance T a s = Inr (y, s') \<Longrightarrow> undoable T s s'"
    "get_nonce T a s = Inr (n, s') \<Longrightarrow> undoable T s s'"
    "get_code_hash T a s = Inr (h, s') \<Longrightarrow> undoable T s s'"
  using assms
  by (auto simp: exists_account_def is_dead_def get_balance_def get_nonce_def get_code_hash_def
      split: option.splits intro: undoable_get_object)

lemma undoable_get_code:
  assumes "get_code T a s = Inr (c, s')" and "ibs_wf T s"
  shows "undoable T s s'"
proof -
  obtain o' s1 where g: "get_object T a s = Inr (o', s1)"
    using assms by (auto simp: get_code_def)
  have u: "undoable T s s1" using g assms(2) by (rule undoable_get_object)
  have "s' = s1 \<or> (\<exists>m. s' = s1\<lparr> existing_code := m \<rparr>)"
    using assms(1) g by (auto simp: get_code_def Let_def split: option.splits if_splits)
  then have "undoable T s1 s'"
    using undoable_wf [OF u] by (auto intro!: undoable_frame same_substate_fields)
  with u show ?thesis by (rule ibs.undoable_trans)
qed

lemmas undoable_ops = undoable_reads undoable_get_code undoable_create_contract
  undoable_record_selfdestruct undoable_touch undoable_update_balance undoable_set_nonce
  undoable_set_code undoable_set_storage

lemma undoable_get_storage:
  assumes "get_storage T a k original s = Inr (v, s')" and "ibs_wf T s"
  shows "undoable T s s'"
  using get_storage_extends(1,2) [OF assms] by (auto intro: ibs.undoable_ext extends_wf)

lemma undoable_substate:
  assumes "ibs_wf T s"
  shows "undoable T s (add_log l s)" "undoable T s (add_refund r s)" "undoable T s (subtract_refund r s)"
  using assms
  by (auto simp: add_log_def add_refund_def subtract_refund_def intro!: undoable_frame same_substate_fields)

lemmas balance_defs = set_balance_def add_to_balance_def subtract_from_balance_def

lemmas op_logs = read_logs get_code_logs get_storage_logs create_contract_logs update_balance_logs
  set_account_logs set_storage_logs access_logs

definition run_ok :: "'db state_trait \<Rightarrow> 'db ibs \<Rightarrow> 'db ibs \<Rightarrow> bool" where
  "run_ok T s t \<longleftrightarrow> undoable T s t \<and> (\<exists>ls. logs t = logs s @ ls)"

lemma run_ok_step:
  assumes "ibs_wf T s \<Longrightarrow> run_ok T s t" and "ibs_wf T s" and "ibs_wf T t \<Longrightarrow> undoable T t u"
    and "logs u = logs t"
  shows "run_ok T s u"
  using assms by (auto simp: run_ok_def intro: ibs.undoable_trans undoable_wf)

lemma host_run_ok: "host_run T keccak s t \<Longrightarrow> ibs_wf T s \<Longrightarrow> run_ok T s t"
proof (induction rule: host_run.induct)
  case (hr_refl s)
  then show ?case by (simp add: run_ok_def ibs.undoable_refl)
next
  case (hr_add_log s t l)
  then show ?case
    by (auto simp: run_ok_def add_log_def [of l t] intro: ibs.undoable_trans undoable_wf
        undoable_substate(1) [of T t l, unfolded add_log_def])
next
  case (hr_nested s t u w)
  then have st: "run_ok T s t" by blast
  then have "ibs_wf T t" by (auto simp: run_ok_def intro: undoable_wf)
  with hr_nested have "run_ok T t u" by blast
  then obtain w' where "revert_to_snapshot (take_snapshot t) u = Inr w'" "restored T t w'"
    by (auto simp: run_ok_def dest: undoable_revert)
  with hr_nested have r: "restored T t w" by simp
  then have "undoable T t w" by (auto simp: restored_def intro: ibs.undoable_ext extends_wf)
  with st r show ?case by (auto simp: run_ok_def restored_def intro: ibs.undoable_trans)
next
  case (hr_access_account s t a st u)
  then show ?case
    by (elim run_ok_step) (auto dest: op_logs undoable_access_account [of T t a])
next
  case (hr_access_storage s t a k st u)
  then show ?case
    by (elim run_ok_step) (auto dest: op_logs undoable_access_storage [of T t a k])
qed (erule run_ok_step, assumption, (auto simp: balance_defs intro: undoable_ops undoable_get_storage
      undoable_substate dest: op_logs)[2])+

end
