(* ===== verification/World_Spec.thy ===== *)
theory World_Spec
  imports Journal_Undo
begin

text \<open>
  An abstract specification of the intra-block state: a world is a function from addresses
  to accounts and a function from slots to values, and every operation updates one point of
  them.  The intra-block state, with its object cache, its storage cache, its incarnation
  counters and its journal, refines it: whatever sequence of host operations runs, failed
  calls that are rolled back included, the two stay related and every read returns what the
  world holds.
\<close>

section \<open>The world\<close>

record world =
  w_accounts :: "address \<Rightarrow> account option"
  w_storage :: "address \<Rightarrow> u256 \<Rightarrow> u256"
  w_original :: "address \<Rightarrow> u256 \<Rightarrow> u256"

definition w_account :: "world \<Rightarrow> address \<Rightarrow> account" where
  "w_account w a = (case w_accounts w a of Some acc \<Rightarrow> acc | None \<Rightarrow> default_account)"

definition w_put :: "address \<Rightarrow> account option \<Rightarrow> world \<Rightarrow> world" where
  "w_put a acc w = w\<lparr> w_accounts := (w_accounts w)(a := acc) \<rparr>"

datatype host_op =
  Op_SetBalance address u256
| Op_AddToBalance address u256
| Op_SubtractFromBalance address u256
| Op_SetNonce address u64
| Op_SetCode address bytes
| Op_CreateContract address
| Op_SetStorage address u256 u256
| Op_RecordSelfdestruct address
| Op_Touch address
| Op_AccessAccount address
| Op_AccessStorage address u256
| Op_AddLog log
| Op_AddRefund u64
| Op_SubtractRefund u64
| Op_Failed "host_op list"

text \<open>The effect of an operation on the world; \<open>None\<close> where the host never calls it.  A
  failed call has no effect.\<close>

fun spec_op :: "(bytes \<Rightarrow> h256) \<Rightarrow> host_op \<Rightarrow> world \<Rightarrow> world option"
and spec_ops :: "(bytes \<Rightarrow> h256) \<Rightarrow> host_op list \<Rightarrow> world \<Rightarrow> world option" where
  "spec_op kc (Op_SetBalance a v) w = Some (w_put a (Some (w_account w a\<lparr> acc_balance := v \<rparr>)) w)"
| "spec_op kc (Op_AddToBalance a v) w =
     Some (w_put a (Some (w_account w a\<lparr> acc_balance := acc_balance (w_account w a) + v \<rparr>)) w)"
| "spec_op kc (Op_SubtractFromBalance a v) w =
     Some (w_put a (Some (w_account w a\<lparr> acc_balance := acc_balance (w_account w a) - v \<rparr>)) w)"
| "spec_op kc (Op_SetNonce a n) w = Some (w_put a (Some (w_account w a\<lparr> acc_nonce := n \<rparr>)) w)"
| "spec_op kc (Op_SetCode a code) w =
     Some (w_put a (Some (w_account w a\<lparr> acc_code_hash := kc code \<rparr>)) w)"
| "spec_op kc (Op_CreateContract a) w =
     Some ((w_put a (Some (default_account\<lparr> acc_balance := acc_balance (w_account w a) \<rparr>)) w)
       \<lparr> w_storage := (w_storage w)(a := \<lambda>_. 0), w_original := (w_original w)(a := \<lambda>_. 0) \<rparr>)"
| "spec_op kc (Op_SetStorage a k v) w =
     (if w_accounts w a = None then None
      else Some (w\<lparr> w_storage := (w_storage w)(a := (w_storage w a)(k := v)) \<rparr>))"
| "spec_op kc (Op_RecordSelfdestruct a) w = Some w"
| "spec_op kc (Op_Touch a) w = Some w"
| "spec_op kc (Op_AccessAccount a) w = Some w"
| "spec_op kc (Op_AccessStorage a k) w = Some w"
| "spec_op kc (Op_AddLog l) w = Some w"
| "spec_op kc (Op_AddRefund r) w = Some w"
| "spec_op kc (Op_SubtractRefund r) w = Some w"
| "spec_op kc (Op_Failed ops) w = (case spec_ops kc ops w of None \<Rightarrow> None | Some _ \<Rightarrow> Some w)"
| "spec_ops kc [] w = Some w"
| "spec_ops kc (op # ops) w = (case spec_op kc op w of None \<Rightarrow> None | Some w \<Rightarrow> spec_ops kc ops w)"

text \<open>The same operations on the intra-block state; a failed call is a snapshot, its
  operations, and the revert.\<close>

fun run_op :: "'db state_trait \<Rightarrow> (bytes \<Rightarrow> h256) \<Rightarrow> host_op \<Rightarrow> 'db ibs \<Rightarrow> exec_error + 'db ibs"
and run_ops :: "'db state_trait \<Rightarrow> (bytes \<Rightarrow> h256) \<Rightarrow> host_op list \<Rightarrow> 'db ibs \<Rightarrow> exec_error + 'db ibs" where
  "run_op T kc (Op_SetBalance a v) s = set_balance T a v s"
| "run_op T kc (Op_AddToBalance a v) s = add_to_balance T a v s"
| "run_op T kc (Op_SubtractFromBalance a v) s = subtract_from_balance T a v s"
| "run_op T kc (Op_SetNonce a n) s = set_nonce T a n s"
| "run_op T kc (Op_SetCode a code) s = set_code T kc a code s"
| "run_op T kc (Op_CreateContract a) s = create_contract T a s"
| "run_op T kc (Op_SetStorage a k v) s = set_storage T a k v s"
| "run_op T kc (Op_RecordSelfdestruct a) s = Inr (record_selfdestruct a s)"
| "run_op T kc (Op_Touch a) s = Inr (touch a s)"
| "run_op T kc (Op_AccessAccount a) s = Inr (snd (access_account a s))"
| "run_op T kc (Op_AccessStorage a k) s = Inr (snd (access_storage a k s))"
| "run_op T kc (Op_AddLog l) s = Inr (add_log l s)"
| "run_op T kc (Op_AddRefund r) s = Inr (add_refund r s)"
| "run_op T kc (Op_SubtractRefund r) s = Inr (subtract_refund r s)"
| "run_op T kc (Op_Failed ops) s = bind_r (run_ops T kc ops s) (revert_to_snapshot (take_snapshot s))"
| "run_ops T kc [] s = Inr s"
| "run_ops T kc (op # ops) s = bind_r (run_op T kc op s) (run_ops T kc ops)"

definition represents :: "'db state_trait \<Rightarrow> 'db ibs \<Rightarrow> world \<Rightarrow> bool" where
  "represents T s w \<longleftrightarrow> ibs_wf T s \<and> account_view T s = (\<lambda>a. Inr (w_accounts w a)) \<and>
     storage_view T s False = (\<lambda>a k. Inr (w_storage w a k)) \<and>
     storage_view T s True = (\<lambda>a k. Inr (w_original w a k))"

section \<open>The operations on the views\<close>

lemma view_simps:
  "account_view T (push_delta d s) = account_view T s"
  "storage_view T (push_delta d s) = storage_view T s"
  "storage_view T (put_object a obj s) = storage_view T s"
  "account_view T (touch a s) = account_view T s"
  "storage_view T (touch a s) = storage_view T s"
  "account_view T (put_current a k v s) = account_view T s"
  by (rule account_view_cong storage_view_cong;
      auto simp: put_object_def touch_def Let_def put_current_def)+

lemma objects_put_object: "objects (put_object a obj s) = hm_insert a obj (objects s)"
  by (simp add: put_object_def)

lemma get_object_total:
  assumes "account_view T s a = Inr x"
  shows "\<exists>o' s'. get_object T a s = Inr (o', s')"
  using assms by (auto simp: get_object_def account_view_def Let_def split: option.splits)

lemma get_or_create_object_view:
  assumes wf: "ibs_wf T s" and v: "account_view T s a = Inr x"
  defines "acc \<equiv> (case x of Some acc \<Rightarrow> acc | None \<Rightarrow> default_account)"
  shows "\<exists>obj s1. get_or_create_object T a s = Inr (obj, acc, s1) \<and>
    account_view T s1 = (account_view T s)(a := Inr (Some acc)) \<and> storage_view T s1 = storage_view T s \<and>
    hm_get (objects s1) a = Some obj \<and> ibs_wf T s1"
proof -
  obtain o' s0 where g: "get_object T a s = Inr (o', s0)" using get_object_total [OF v] by blast
  note ge = get_object_extends [OF g wf]
  have x: "x = (case o' of None \<Rightarrow> None | Some obj \<Rightarrow> obj_current obj)"
    using account_view_get_object [OF g wf] v by simp
  have av: "account_view T s0 = account_view T s" and sv: "storage_view T s0 = storage_view T s"
    using ge(1) by (auto simp: extends_def same_defs)
  have "\<exists>obj s1. get_or_create_object T a s = Inr (obj, acc, s1) \<and>
    account_view T s1 = (account_view T s0)(a := Inr (Some acc)) \<and> storage_view T s1 = storage_view T s0 \<and>
    hm_get (objects s1) a = Some obj"
  proof (cases "x")
    case None
    then have "acc = default_account" by (simp add: acc_def)
    then show ?thesis using g None x ge(4)
      by (cases o') (auto simp: get_or_create_object_def ensure_object_def push_put_object
          account_view_put_object view_simps objects_put_object)
  next
    case (Some acc')
    then show ?thesis using g x ge(4)
      by (cases o') (auto simp: get_or_create_object_def ensure_object_def acc_def account_view_def)
  qed
  then obtain obj s1 where "get_or_create_object T a s = Inr (obj, acc, s1)"
    "account_view T s1 = (account_view T s0)(a := Inr (Some acc))" "storage_view T s1 = storage_view T s0"
    "hm_get (objects s1) a = Some obj" by blast
  moreover from this have "ibs_wf T s1" using undoable_get_or_create_object(4) wf by blast
  ultimately show ?thesis using av sv by auto
qed

text \<open>The three kinds of account update.\<close>

lemma update_account_view:
  assumes r: "represents T s w"
  shows "\<exists>t. update_balance T f a s = Inr t \<and>
      represents T t (w_put a (Some (w_account w a\<lparr> acc_balance := f (acc_balance (w_account w a)) \<rparr>)) w)"
    and "\<exists>t. set_nonce T a n s = Inr t \<and>
      represents T t (w_put a (Some (w_account w a\<lparr> acc_nonce := n \<rparr>)) w)"
    and "\<exists>t. set_code T kc a code s = Inr t \<and>
      represents T t (w_put a (Some (w_account w a\<lparr> acc_code_hash := kc code \<rparr>)) w)"
proof -
  have wf: "ibs_wf T s" and av: "account_view T s a = Inr (w_accounts w a)"
    using r by (auto simp: represents_def)
  obtain obj s1 where g: "get_or_create_object T a s = Inr (obj, w_account w a, s1)"
    and v: "account_view T s1 = (account_view T s)(a := Inr (Some (w_account w a)))"
      "storage_view T s1 = storage_view T s" "hm_get (objects s1) a = Some obj" "ibs_wf T s1"
    using get_or_create_object_view [OF wf av] by (auto simp: w_account_def)
  have rep: "represents T t (w_put a (Some acc) w)"
    if "ibs_wf T t" "account_view T t = (account_view T s1)(a := Inr (Some acc))" "storage_view T t = storage_view T s1"
    for t acc
    using that r v by (auto simp: represents_def w_put_def fun_eq_iff)
  obtain t where t: "update_balance T f a s = Inr t" using g by (auto simp: update_balance_def Let_def)
  then have "t = touch a (push_delta (Delta_UpdateBalance a (acc_balance (w_account w a)))
      (put_object a (obj\<lparr> obj_current := Some (w_account w a\<lparr> acc_balance := f (acc_balance (w_account w a)) \<rparr>) \<rparr>) s1))"
    using g by (simp add: update_balance_def push_put_object)
  then show "\<exists>t. update_balance T f a s = Inr t \<and>
      represents T t (w_put a (Some (w_account w a\<lparr> acc_balance := f (acc_balance (w_account w a)) \<rparr>)) w)"
    using t undoable_wf [OF undoable_update_balance [OF t wf]]
    by (auto intro!: rep simp: view_simps account_view_put_object)
  obtain t where t: "set_nonce T a n s = Inr t" using g by (auto simp: set_nonce_def Let_def)
  then have "t = push_delta (Delta_Update a obj)
      (put_object a (obj\<lparr> obj_current := Some (w_account w a\<lparr> acc_nonce := n \<rparr>) \<rparr>) s1)"
    using g by (simp add: set_nonce_def push_put_object)
  then show "\<exists>t. set_nonce T a n s = Inr t \<and> represents T t (w_put a (Some (w_account w a\<lparr> acc_nonce := n \<rparr>)) w)"
    using t undoable_wf [OF undoable_set_nonce [OF t wf]]
    by (auto intro!: rep simp: view_simps account_view_put_object)
  obtain t where t: "set_code T kc a code s = Inr t" using g by (auto simp: set_code_def Let_def)
  let ?u = "push_delta (Delta_Update a obj)
      (put_object a (obj\<lparr> obj_current := Some (w_account w a\<lparr> acc_code_hash := kc code \<rparr>) \<rparr>) s1)"
  have "db t = db ?u" "objects t = objects ?u" "storage_map t = storage_map ?u" "incarnations t = incarnations ?u"
    using t g by (auto simp: set_code_def Let_def push_put_object split: option.splits)
  then have "account_view T t = account_view T ?u" "storage_view T t = storage_view T ?u"
    by (auto intro: account_view_cong storage_view_cong)
  then show "\<exists>t. set_code T kc a code s = Inr t \<and>
      represents T t (w_put a (Some (w_account w a\<lparr> acc_code_hash := kc code \<rparr>)) w)"
    using t undoable_wf [OF undoable_set_code [OF t wf]]
    by (auto intro!: rep simp: view_simps account_view_put_object)
qed

lemma create_contract_view:
  assumes r: "represents T s w"
  shows "\<exists>t w'. create_contract T a s = Inr t \<and> spec_op kc (Op_CreateContract a) w = Some w' \<and> represents T t w'"
proof -
  have wf: "ibs_wf T s" and av: "account_view T s a = Inr (w_accounts w a)"
    using r by (auto simp: represents_def)
  obtain o' s0 where g: "get_object T a s = Inr (o', s0)" using get_object_total [OF av] by blast
  then obtain t where t: "create_contract T a s = Inr t" by (auto simp: create_contract_def Let_def)
  from t show ?thesis
  proof (cases rule: create_contract_eq)
    case (1 prev s1)
    note ge = get_object_extends [OF 1(1) wf]
    have "account_view T s1 = account_view T s" "storage_view T s1 = storage_view T s"
      using ge(1) by (auto simp: extends_def same_defs)
    have "w_accounts w a = (case prev of None \<Rightarrow> None | Some obj \<Rightarrow> obj_current obj)"
      using account_view_get_object [OF 1(1) wf] av by simp
    then have cur: "obj_current (contract_object prev) = Some (default_account\<lparr> acc_balance := acc_balance (w_account w a) \<rparr>)"
      by (auto simp: contract_object_def w_account_def default_account_def split: option.splits)
    have a: "account_view T t b = ((account_view T s1)(a := Inr (obj_current (contract_object prev)))) b" for b
      using 1 by (auto simp: account_view_def split: option.splits)
    have st: "storage_view T t original b k = (if b = a then Inr 0 else storage_view T s1 original b k)" for original b k
    proof (cases "b = a")
      case True
      then show ?thesis using 1 by (auto simp: storage_view_def base_storage_def stored_value_def default_storage_def hm_get_or_def)
    next
      case False
      then have "storage_view T t original b k = storage_view T s1 original b k"
        using 1 by (intro storage_view_lookup_cong) auto
      with False show ?thesis by simp
    qed
    let ?w = "(w_put a (Some (default_account\<lparr> acc_balance := acc_balance (w_account w a) \<rparr>)) w)
       \<lparr> w_storage := (w_storage w)(a := \<lambda>_. 0), w_original := (w_original w)(a := \<lambda>_. 0) \<rparr>"
    have "account_view T t = (\<lambda>b. Inr (w_accounts ?w b))"
      using a cur r \<open>account_view T s1 = account_view T s\<close> by (auto simp: represents_def w_put_def)
    moreover have "storage_view T t False = (\<lambda>b k. Inr (w_storage ?w b k))"
      "storage_view T t True = (\<lambda>b k. Inr (w_original ?w b k))"
      using st r \<open>storage_view T s1 = storage_view T s\<close> by (auto simp: represents_def w_put_def fun_eq_iff)
    ultimately have "represents T t ?w"
      using undoable_wf [OF undoable_create_contract [OF t wf]] by (simp add: represents_def)
    with t show ?thesis by simp
  qed
qed

lemma get_storage_view:
  assumes r: "represents T s w"
  shows "\<exists>s'. get_storage T a k original s = Inr (if w_accounts w a = None then 0
      else if original then w_original w a k else w_storage w a k, s') \<and> represents T s' w"
proof -
  have wf: "ibs_wf T s" and av: "account_view T s a = Inr (w_accounts w a)"
    using r by (auto simp: represents_def)
  obtain o' s0 where g: "get_object T a s = Inr (o', s0)" using get_object_total [OF av] by blast
  note ge = get_object_extends [OF g wf]
  have base: "storage_view T s0 original a k \<noteq> Inl e" for e
    using ge(1) r by (cases original) (auto simp: represents_def extends_def same_storage_def)
  have "\<exists>v s'. get_storage T a k original s = Inr (v, s')"
  proof (cases "\<exists>obj. o' = Some obj \<and> obj_current obj \<noteq> None \<and> obj_initial obj \<noteq> None \<and>
      hm_get (incarnations s0) a = None \<and> stored_value (hm_get_or default_storage (storage_map s0) a) original k = None")
    case True
    then have "read_storage T (db s0) a k \<noteq> Inl e" for e
      using base [of e] ibs_wf_object [OF extends_wf [OF ge(1)] ] ge(4)
      by (auto simp: storage_view_def base_storage_def)
    then obtain v where "read_storage T (db s0) a k = Inr v" by (cases "read_storage T (db s0) a k") auto
    with g show ?thesis by (auto simp: get_storage_def Let_def split: option.split)
  next
    case False
    then show ?thesis using g by (auto simp: get_storage_def Let_def stored_value_def split: option.splits if_splits)
  qed
  then obtain v s' where gs: "get_storage T a k original s = Inr (v, s')" by blast
  note e = get_storage_extends [OF gs wf]
  have "represents T s' w" using e(1) r by (auto simp: represents_def extends_def same_defs)
  moreover have "v = (if w_accounts w a = None then 0 else if original then w_original w a k else w_storage w a k)"
    using e(4,5) r av by (cases "w_accounts w a"; cases original) (auto simp: represents_def)
  ultimately show ?thesis using gs by blast
qed

lemma set_storage_view:
  assumes r: "represents T s w" and live: "w_accounts w a \<noteq> None"
  shows "\<exists>t. set_storage T a k v s = Inr t \<and>
    represents T t (w\<lparr> w_storage := (w_storage w)(a := (w_storage w a)(k := v)) \<rparr>)"
proof -
  obtain s' where g: "get_storage T a k False s = Inr (w_storage w a k, s')" and r': "represents T s' w"
    using get_storage_view [OF r, of a k False] live by auto
  show ?thesis
  proof (cases "w_storage w a k = v")
    case True
    then have "w\<lparr> w_storage := (w_storage w)(a := (w_storage w a)(k := v)) \<rparr> = w" by auto
    with g r' True show ?thesis by (simp add: set_storage_def get_current_storage_def)
  next
    case False
    let ?t = "push_delta (Delta_StorageChange a k (w_storage w a k)) (put_current a k v s')"
    have "ibs_wf T ?t" using r' by (auto simp: represents_def ibs_wf_def put_current_def Let_def)
    then have "represents T ?t (w\<lparr> w_storage := (w_storage w)(a := (w_storage w a)(k := v)) \<rparr>)"
      using r' by (auto simp: represents_def view_simps storage_view_put_current fun_eq_iff)
    with g False show ?thesis by (auto simp: set_storage_def get_current_storage_def)
  qed
qed

lemma represents_extends: "represents T s w \<Longrightarrow> extends T s t \<Longrightarrow> represents T t w"
  by (auto simp: represents_def extends_def same_defs)

lemma substate_view:
  assumes r: "represents T s w"
  shows "represents T (record_selfdestruct a s) w" "represents T (touch a s) w"
    "represents T (snd (access_account a s)) w" "represents T (snd (access_storage a k s)) w"
    "represents T (add_log l s) w" "represents T (add_refund n s) w" "represents T (subtract_refund n s) w"
proof -
  have *: "represents T t w" if "db t = db s" "objects t = objects s" "storage_map t = storage_map s"
    "incarnations t = incarnations s" for t
    using r that account_view_cong [OF that(1,2), of T] storage_view_cong [OF that(1,3,4), of T]
      ibs_wf_cong [OF that(1,2,4), of T] by (simp add: represents_def)
  show "represents T (record_selfdestruct a s) w" "represents T (touch a s) w"
    "represents T (snd (access_account a s)) w" "represents T (snd (access_storage a k s)) w"
    "represents T (add_log l s) w" "represents T (add_refund n s) w" "represents T (subtract_refund n s) w"
    by (rule *; auto simp: record_selfdestruct_def touch_def access_account_def access_storage_def
        add_log_def add_refund_def subtract_refund_def Let_def split: if_splits)+
qed

section \<open>Refinement\<close>

lemma host_run_trans:
  "host_run T kc t u \<Longrightarrow> host_run T kc s t \<Longrightarrow> host_run T kc s u"
  by (induction rule: host_run.induct) (auto intro: host_run.intros)

lemmas host_run_substate = hr_record_selfdestruct [OF hr_refl] hr_touch [OF hr_refl]
  hr_access_account [OF hr_refl surjective_pairing] hr_access_storage [OF hr_refl surjective_pairing]
  hr_add_log [OF hr_refl] hr_add_refund [OF hr_refl] hr_subtract_refund [OF hr_refl]

lemma failed_view:
  assumes r: "represents T s w" and run: "host_run T kc s t"
  shows "\<exists>u. revert_to_snapshot (take_snapshot s) t = Inr u \<and> represents T u w"
proof -
  have "run_ok T s t" using host_run_ok [OF run] r by (simp add: represents_def)
  then obtain u where "revert_to_snapshot (take_snapshot s) t = Inr u" "restored T s u"
    by (auto simp: run_ok_def dest: undoable_revert)
  then show ?thesis using r represents_extends by (auto simp: restored_def)
qed

lemma op_refines:
  "represents T s w \<Longrightarrow> spec_op kc op w = Some w' \<Longrightarrow>
     \<exists>t. run_op T kc op s = Inr t \<and> represents T t w' \<and> host_run T kc s t"
  "represents T s w \<Longrightarrow> spec_ops kc ops w = Some w' \<Longrightarrow>
     \<exists>t. run_ops T kc ops s = Inr t \<and> represents T t w' \<and> host_run T kc s t"
proof (induction kc op w and kc ops w arbitrary: s w' and s w' rule: spec_op_spec_ops.induct)
  case (1 kc a v w)
  then show ?case using update_account_view(1) [OF 1(1), of "\<lambda>_. v" a]
    by (auto simp: set_balance_def intro!: hr_set_balance [OF hr_refl])
next
  case (2 kc a v w)
  then show ?case using update_account_view(1) [OF 2(1), of "\<lambda>x. x + v" a]
    by (auto simp: add_to_balance_def intro!: hr_add_to_balance [OF hr_refl])
next
  case (3 kc a v w)
  then show ?case using update_account_view(1) [OF 3(1), of "\<lambda>x. x - v" a]
    by (auto simp: subtract_from_balance_def intro!: hr_subtract_from_balance [OF hr_refl])
next
  case (4 kc a n w)
  then show ?case using update_account_view(2) [OF 4(1), of a n] by (auto intro!: hr_set_nonce [OF hr_refl])
next
  case (5 kc a code w)
  then show ?case using update_account_view(3) [OF 5(1), of kc a code] by (auto intro!: hr_set_code [OF hr_refl])
next
  case (6 kc a w)
  then show ?case using create_contract_view [OF 6(1), of a kc] by (auto intro!: hr_create_contract [OF hr_refl])
next
  case (7 kc a k v w)
  then obtain acc where live: "w_accounts w a = Some acc"
    and w': "w' = w\<lparr> w_storage := (w_storage w)(a := (w_storage w a)(k := v)) \<rparr>"
    by (auto split: if_splits)
  obtain t where t: "set_storage T a k v s = Inr t" "represents T t w'"
    using set_storage_view [OF 7(1)] live w' by blast
  have "account_view T s a = Inr (Some acc)" using 7(1) live by (simp add: represents_def)
  then have "host_run T kc s t" using t(1) by (rule hr_set_storage [OF hr_refl])
  with t show ?case by simp
next
  case (15 kc ops w)
  then obtain w1 where "spec_ops kc ops w = Some w1" and w': "w' = w" by (auto split: option.splits)
  with 15 obtain t where t: "run_ops T kc ops s = Inr t" "host_run T kc s t" by blast
  obtain u where u: "revert_to_snapshot (take_snapshot s) t = Inr u" "represents T u w"
    using failed_view [OF 15(2) t(2)] by blast
  moreover have "host_run T kc s u" by (rule hr_nested [OF hr_refl t(2) u(1)])
  ultimately show ?case using t w' by auto
next
  case (17 kc op ops w)
  then obtain w1 where w1: "spec_op kc op w = Some w1" "spec_ops kc ops w1 = Some w'" by (auto split: option.splits)
  obtain t where t: "run_op T kc op s = Inr t" "represents T t w1" "host_run T kc s t"
    using 17(1) [OF 17(3) w1(1)] by blast
  obtain u where "run_ops T kc ops t = Inr u" "represents T u w'" "host_run T kc t u"
    using 17(2) [OF w1(1) t(2) w1(2)] by blast
  with t show ?case by (auto intro: host_run_trans)
qed (auto simp: substate_view intro: host_run_substate hr_refl)

end
