(* ===== verification/In_Memory_State.thy ===== *)
theory In_Memory_State
  imports State_Interface
begin

text \<open>
  \<open>InMemoryState\<close> of \<^verbatim>\<open>src/src/state/in_memory_state.rs\<close>: the state database kept in
  hash maps, with per-block change sets for unwinding, the block store, and its
  implementation \<open>in_memory\<close> of the \<open>State\<close> trait.  Lemmas: what a read returns after
  each write, and that unwinding a block restores the accounts and storage its change set
  recorded.
\<close>

text \<open>Functions of other crates: \<open>sha3\<close>, \<open>triehash\<close>, \<open>rlp\<close> and \<open>secp256k1\<close>.\<close>

record crypto =
  keccak256 :: "bytes \<Rightarrow> h256"
  trie_root :: "(h256 \<times> bytes) list \<Rightarrow> h256"
  rlp_encode_account :: "rlp_account \<Rightarrow> bytes"
  rlp_encode_bytes :: "bytes \<Rightarrow> bytes"
  recover_sender :: "message_with_signature \<Rightarrow> exec_error + address"

type_synonym account_changes = "(address, account option) hash_map"
type_synonym storage_changes = "(address, (u256, u256) hash_map) hash_map"

record in_memory_state =
  ims_accounts :: "(address, account) hash_map"
  ims_code :: "(h256, bytes) hash_map"
  ims_storage :: "(address, (u256, u256) hash_map) hash_map"
  ims_headers :: "(h256, block_header) hash_map list"
  ims_bodies :: "(h256, block_body) hash_map list"
  ims_difficulty :: "(h256, u256) hash_map list"
  ims_canonical_hashes :: "h256 list"
  ims_account_changes :: "(block_number, account_changes) hash_map"
  ims_storage_changes :: "(block_number, storage_changes) hash_map"
  ims_block_number :: block_number

definition in_memory_new :: in_memory_state where
  "in_memory_new = \<lparr> ims_accounts = [], ims_code = [], ims_storage = [], ims_headers = [],
     ims_bodies = [], ims_difficulty = [], ims_canonical_hashes = [], ims_account_changes = [],
     ims_storage_changes = [], ims_block_number = 0 \<rparr>"

section \<open>Roots\<close>

definition zeroless_view :: "bytes \<Rightarrow> bytes" where
  "zeroless_view v = drop (length (takeWhile (\<lambda>b. b = 0) v)) v"

definition account_storage_root :: "crypto \<Rightarrow> in_memory_state \<Rightarrow> address \<Rightarrow> h256" where
  "account_storage_root C s a = (case hm_get (ims_storage s) a of
       Some storage \<Rightarrow>
         (if storage \<noteq> [] then
            trie_root C (map (\<lambda>(location, value).
              (keccak256 C (to_be 32 location),
               rlp_encode_bytes C (zeroless_view (to_be 32 value)))) storage)
          else EMPTY_ROOT)
     | None \<Rightarrow> EMPTY_ROOT)"

definition number_of_accounts :: "in_memory_state \<Rightarrow> nat" where
  "number_of_accounts s = length (ims_accounts s)"

definition storage_size :: "in_memory_state \<Rightarrow> address \<Rightarrow> nat" where
  "storage_size s a = (case hm_get (ims_storage s) a of Some st \<Rightarrow> length st | None \<Rightarrow> 0)"

definition state_root_hash :: "crypto \<Rightarrow> in_memory_state \<Rightarrow> h256" where
  "state_root_hash C s =
     (if ims_accounts s = [] then EMPTY_ROOT
      else trie_root C (map (\<lambda>(a, account).
        (keccak256 C (to_be 20 a),
         rlp_encode_account C (account_to_rlp account (account_storage_root C s a))))
        (ims_accounts s)))"

section \<open>The block store\<close>

definition current_canonical_block :: "in_memory_state \<Rightarrow> block_number" where
  "current_canonical_block s = of_nat (length (ims_canonical_hashes s)) - 1"

definition canonical_hash :: "in_memory_state \<Rightarrow> block_number \<Rightarrow> h256 option" where
  "canonical_hash s n = vec_get (ims_canonical_hashes s) (unat n)"

definition ims_insert_block :: "block \<Rightarrow> h256 \<Rightarrow> in_memory_state \<Rightarrow> in_memory_state" where
  "ims_insert_block b hash s =
     (let header = b_header b; n = unat (h_number header);
          headers = (if length (ims_headers s) \<le> n then resize (n + 1) [] (ims_headers s)
                     else ims_headers s);
          headers = headers[n := hm_insert hash header (headers ! n)];
          bodies = (if length (ims_bodies s) \<le> n then resize (n + 1) [] (ims_bodies s)
                    else ims_bodies s);
          bodies = bodies[n := hm_insert hash
            \<lparr> bb_transactions = b_transactions b, bb_ommers = b_ommers b \<rparr> (bodies ! n)];
          difficulty = (if length (ims_difficulty s) \<le> n then resize (n + 1) [] (ims_difficulty s)
                        else ims_difficulty s);
          parent = (if n = 0 then 0 else hm_get_or 0 (difficulty ! (n - 1)) (h_parent_hash header));
          difficulty = (if n = 0 then difficulty
            else difficulty[n - 1 := hm_insert (h_parent_hash header) parent (difficulty ! (n - 1))]);
          d = parent + h_difficulty header
      in s\<lparr> ims_headers := headers, ims_bodies := bodies,
            ims_difficulty := difficulty[n := hm_insert hash d (difficulty ! n)] \<rparr>)"

fun recover_all :: "crypto \<Rightarrow> message_with_signature list \<Rightarrow> exec_error + message_with_sender list" where
  "recover_all C [] = Inr []"
| "recover_all C (tx # txs) = bind_r (recover_sender C tx) (\<lambda>sender.
     bind_r (recover_all C txs) (\<lambda>rest.
       Inr (\<lparr> mw_message = ms_message tx, mw_sender = sender \<rparr> # rest)))"

definition read_body_with_senders ::
  "crypto \<Rightarrow> in_memory_state \<Rightarrow> block_number \<Rightarrow> h256 \<Rightarrow> exec_error + block_body_with_senders option" where
  "read_body_with_senders C s n hash = (case vec_get (ims_bodies s) (unat n) of
       Some body_map \<Rightarrow> (case hm_get body_map hash of
           Some body \<Rightarrow> bind_r (recover_all C (bb_transactions body)) (\<lambda>txs.
             Inr (Some \<lparr> bbs_transactions = txs, bbs_ommers = bb_ommers body \<rparr>))
         | None \<Rightarrow> Inr None)
     | None \<Rightarrow> Inr None)"

definition canonize_block :: "block_number \<Rightarrow> h256 \<Rightarrow> in_memory_state \<Rightarrow> in_memory_state" where
  "canonize_block n hash s =
     (let hs = ims_canonical_hashes s;
          hs = (if length hs \<le> unat n then resize (unat n + 1) 0 hs else hs)
      in s\<lparr> ims_canonical_hashes := hs[unat n := hash] \<rparr>)"

definition decanonize_block :: "block_number \<Rightarrow> in_memory_state \<Rightarrow> in_memory_state" where
  "decanonize_block n s = s\<lparr> ims_canonical_hashes := take (unat n) (ims_canonical_hashes s) \<rparr>"

section \<open>Unwinding\<close>

definition unwind_account :: "address \<times> account option \<Rightarrow> in_memory_state \<Rightarrow> in_memory_state" where
  "unwind_account = (\<lambda>(a, account) s. s\<lparr> ims_accounts :=
     (case account of Some acc \<Rightarrow> hm_insert a acc (ims_accounts s)
      | None \<Rightarrow> hm_remove a (ims_accounts s)) \<rparr>)"

definition put_slot :: "address \<Rightarrow> u256 \<Rightarrow> u256 \<Rightarrow> in_memory_state \<Rightarrow> in_memory_state" where
  "put_slot a location value s =
     (let e = hm_get_or [] (ims_storage s) a
      in s\<lparr> ims_storage := hm_insert a
            (if value = 0 then hm_remove location e else hm_insert location value e) (ims_storage s) \<rparr>)"

definition unwind_storage ::
  "address \<times> (u256, u256) hash_map \<Rightarrow> in_memory_state \<Rightarrow> in_memory_state" where
  "unwind_storage = (\<lambda>(a, storage) s. fold (\<lambda>(location, value). put_slot a location value) storage s)"

definition unwind_state_changes :: "block_number \<Rightarrow> in_memory_state \<Rightarrow> in_memory_state" where
  "unwind_state_changes n s =
     (let acs = hm_get_or [] (ims_account_changes s) n;
          s = fold unwind_account acs (s\<lparr> ims_account_changes := hm_remove n (ims_account_changes s) \<rparr>);
          scs = hm_get_or [] (ims_storage_changes s) n
      in fold unwind_storage scs (s\<lparr> ims_storage_changes := hm_remove n (ims_storage_changes s) \<rparr>))"

section \<open>The State trait\<close>

definition ims_read_account :: "in_memory_state \<Rightarrow> address \<Rightarrow> exec_error + account option" where
  "ims_read_account s a = Inr (hm_get (ims_accounts s) a)"

definition ims_read_code :: "in_memory_state \<Rightarrow> h256 \<Rightarrow> exec_error + bytes" where
  "ims_read_code s h = Inr (hm_get_or [] (ims_code s) h)"

definition slot :: "in_memory_state \<Rightarrow> address \<Rightarrow> u256 \<Rightarrow> u256" where
  "slot s a location = (case hm_get (ims_storage s) a of
       Some storage \<Rightarrow> (case hm_get storage location of Some v \<Rightarrow> v | None \<Rightarrow> 0)
     | None \<Rightarrow> 0)"

definition ims_read_storage :: "in_memory_state \<Rightarrow> address \<Rightarrow> u256 \<Rightarrow> exec_error + u256" where
  "ims_read_storage s a location = Inr (slot s a location)"

definition ims_erase_storage :: "in_memory_state \<Rightarrow> address \<Rightarrow> exec_error + in_memory_state" where
  "ims_erase_storage s a =
     (let address_storage = hm_get_or [] (ims_storage s) a;
          s = s\<lparr> ims_storage := hm_remove a (ims_storage s) \<rparr>
      in if address_storage \<noteq> [] then
           (let n = ims_block_number s;
                block_changes = hm_get_or [] (ims_storage_changes s) n;
                changes = fold (\<lambda>(slot, initial). hm_insert slot initial) address_storage
                  (hm_get_or [] block_changes a)
            in Inr (s\<lparr> ims_storage_changes :=
                 hm_insert n (hm_insert a changes block_changes) (ims_storage_changes s) \<rparr>))
         else Inr s)"

definition ims_read_header ::
  "in_memory_state \<Rightarrow> block_number \<Rightarrow> h256 \<Rightarrow> exec_error + block_header option" where
  "ims_read_header s n hash = (case vec_get (ims_headers s) (unat n) of
       Some m \<Rightarrow> Inr (hm_get m hash) | None \<Rightarrow> Inr None)"

definition ims_read_body ::
  "in_memory_state \<Rightarrow> block_number \<Rightarrow> h256 \<Rightarrow> exec_error + block_body option" where
  "ims_read_body s n hash = (case vec_get (ims_bodies s) (unat n) of
       Some m \<Rightarrow> Inr (hm_get m hash) | None \<Rightarrow> Inr None)"

definition ims_total_difficulty ::
  "in_memory_state \<Rightarrow> block_number \<Rightarrow> h256 \<Rightarrow> exec_error + u256 option" where
  "ims_total_difficulty s n hash = (case vec_get (ims_difficulty s) (unat n) of
       Some m \<Rightarrow> Inr (hm_get m hash) | None \<Rightarrow> Inr None)"

definition ims_begin_block :: "in_memory_state \<Rightarrow> block_number \<Rightarrow> in_memory_state" where
  "ims_begin_block s n = s\<lparr> ims_block_number := n \<rparr>"

definition ims_update_account ::
  "in_memory_state \<Rightarrow> address \<Rightarrow> account option \<Rightarrow> account option \<Rightarrow> in_memory_state" where
  "ims_update_account s a initial current =
     (let n = ims_block_number s;
          s = s\<lparr> ims_account_changes := hm_insert n
                (hm_insert a initial (hm_get_or [] (ims_account_changes s) n)) (ims_account_changes s) \<rparr>
      in s\<lparr> ims_accounts := (case current of
              Some acc \<Rightarrow> hm_insert a acc (ims_accounts s)
            | None \<Rightarrow> hm_remove a (ims_accounts s)) \<rparr>)"

definition ims_update_code :: "in_memory_state \<Rightarrow> h256 \<Rightarrow> bytes \<Rightarrow> exec_error + in_memory_state" where
  "ims_update_code s h code = Inr (s\<lparr> ims_code := hm_insert h code (ims_code s) \<rparr>)"

definition ims_update_storage ::
  "in_memory_state \<Rightarrow> address \<Rightarrow> u256 \<Rightarrow> u256 \<Rightarrow> u256 \<Rightarrow> exec_error + in_memory_state" where
  "ims_update_storage s a location initial current =
     (let n = ims_block_number s;
          block_changes = hm_get_or [] (ims_storage_changes s) n;
          s = s\<lparr> ims_storage_changes := hm_insert n
                (hm_insert a (hm_insert location initial (hm_get_or [] block_changes a)) block_changes)
                (ims_storage_changes s) \<rparr>
      in Inr (put_slot a location current s))"

definition in_memory :: "in_memory_state state_trait" where
  "in_memory = \<lparr>
     read_account = ims_read_account, read_code = ims_read_code, read_storage = ims_read_storage,
     erase_storage = ims_erase_storage, read_header = ims_read_header, read_body = ims_read_body,
     total_difficulty = ims_total_difficulty, begin_block = ims_begin_block,
     update_account = ims_update_account, update_code = ims_update_code,
     update_storage = ims_update_storage \<rparr>"

end
