(* ===== verification/State_Persistence.thy ===== *)
theory State_Persistence
  imports In_Memory_State Journal_Undo
begin

text \<open>
  Writing a block to the in-memory database and unwinding it again.  A write is recorded in
  the change sets with the value it replaces; the invariant \<open>changes_ok\<close> says that what
  the change sets of block \<open>n\<close> record is the state before the block, and that everything
  else is unchanged.
\<close>

section \<open>The change sets\<close>

definition account_change :: "block_number \<Rightarrow> in_memory_state \<Rightarrow> address \<Rightarrow> account option option" where
  "account_change n s a = hm_get (hm_get_or [] (ims_account_changes s) n) a"

definition slot_changes :: "block_number \<Rightarrow> in_memory_state \<Rightarrow> address \<Rightarrow> (u256, u256) hash_map" where
  "slot_changes n s a = hm_get_or [] (hm_get_or [] (ims_storage_changes s) n) a"

definition maps_ok :: "block_number \<Rightarrow> in_memory_state \<Rightarrow> bool" where
  "maps_ok n s \<longleftrightarrow> hm_ok (hm_get_or [] (ims_account_changes s) n) \<and>
     hm_ok (hm_get_or [] (ims_storage_changes s) n) \<and> (\<forall>a. hm_ok (slot_changes n s a)) \<and>
     (\<forall>a. hm_ok (hm_get_or [] (ims_storage s) a))"

text \<open>A recorded change holds the original value; without one the value is the original.\<close>

definition change_ok :: "'v option \<Rightarrow> 'v \<Rightarrow> 'v \<Rightarrow> bool" where
  "change_ok change now orig \<longleftrightarrow> (case change of Some v \<Rightarrow> v = orig | None \<Rightarrow> now = orig)"

definition changes_ok :: "block_number \<Rightarrow> in_memory_state \<Rightarrow> in_memory_state \<Rightarrow> bool" where
  "changes_ok n s0 s \<longleftrightarrow> maps_ok n s \<and>
     (\<forall>a. change_ok (account_change n s a) (hm_get (ims_accounts s) a) (hm_get (ims_accounts s0) a)) \<and>
     (\<forall>a k. change_ok (hm_get (slot_changes n s a) k) (slot s a k) (slot s0 a k))"

lemma change_ok_simps [simp]:
  "change_ok (Some v) now orig \<longleftrightarrow> v = orig" "change_ok None now orig \<longleftrightarrow> now = orig"
  by (simp_all add: change_ok_def)

lemma slot_alt: "slot s a k = hm_get_or 0 (hm_get_or [] (ims_storage s) a) k"
  by (auto simp: slot_def hm_get_or_def split: option.split)

lemma slot_put_slot: "slot (put_slot a k v s) b j = (if b = a \<and> j = k then v else slot s b j)"
  by (auto simp: slot_alt put_slot_def Let_def)

lemma put_slot_fields [simp]:
  "ims_accounts (put_slot a k v s) = ims_accounts s"
  "ims_account_changes (put_slot a k v s) = ims_account_changes s"
  "ims_storage_changes (put_slot a k v s) = ims_storage_changes s"
  "ims_block_number (put_slot a k v s) = ims_block_number s"
  by (simp_all add: put_slot_def Let_def)

lemma hm_ok_put_slot:
  "hm_ok (hm_get_or [] (ims_storage s) a) \<Longrightarrow> hm_ok (hm_get_or [] (ims_storage s) b) \<Longrightarrow>
   hm_ok (hm_get_or [] (ims_storage (put_slot a k v s)) b)"
  by (simp add: put_slot_def Let_def)

lemma slot_cong: "ims_storage t = ims_storage s \<Longrightarrow> slot t = slot s"
  by (simp add: slot_def fun_eq_iff)

lemma changes_ok_begin:
  assumes "hm_get (ims_account_changes s) n = None" "hm_get (ims_storage_changes s) n = None"
    and "\<And>a. hm_ok (hm_get_or [] (ims_storage s) a)"
  shows "changes_ok n s (ims_begin_block s n)"
  using assms slot_cong [of "ims_begin_block s n" s]
  by (auto simp: changes_ok_def maps_ok_def account_change_def slot_changes_def
      ims_begin_block_def hm_get_or_def)

lemma update_account_changes:
  "account_change n (ims_update_account s a i c) b =
     (if n = ims_block_number s \<and> b = a then Some i else account_change n s b)"
  "slot_changes n (ims_update_account s a i c) = slot_changes n s"
  "slot (ims_update_account s a i c) = slot s"
  "ims_storage (ims_update_account s a i c) = ims_storage s"
  "hm_get (ims_accounts (ims_update_account s a i c)) b =
     (if b = a then c else hm_get (ims_accounts s) b)"
  "ims_block_number (ims_update_account s a i c) = ims_block_number s"
  by (auto simp: ims_update_account_def Let_def account_change_def slot_changes_def fun_eq_iff slot_def
      split: option.splits)

lemma update_account_maps_ok: "maps_ok n s \<Longrightarrow> maps_ok n (ims_update_account s a i c)"
  by (auto simp: maps_ok_def update_account_changes) (auto simp: ims_update_account_def Let_def)

lemma changes_ok_update_account:
  assumes "changes_ok n s0 s" and "ims_block_number s = n" and "i = hm_get (ims_accounts s0) a"
  shows "changes_ok n s0 (ims_update_account s a i c)"
  using assms by (auto simp: changes_ok_def update_account_changes update_account_maps_ok)

lemma update_storage_changes:
  assumes "ims_update_storage s a k i c = Inr t"
  shows "account_change n t = account_change n s" "ims_accounts t = ims_accounts s"
    "hm_get (slot_changes n t b) j =
       (if n = ims_block_number s \<and> b = a \<and> j = k then Some i else hm_get (slot_changes n s b) j)"
    "slot t b j = (if b = a \<and> j = k then c else slot s b j)"
    "ims_block_number t = ims_block_number s" "maps_ok n s \<Longrightarrow> maps_ok n t"
proof -
  show "account_change n t = account_change n s" "ims_accounts t = ims_accounts s"
    "hm_get (slot_changes n t b) j =
       (if n = ims_block_number s \<and> b = a \<and> j = k then Some i else hm_get (slot_changes n s b) j)"
    "ims_block_number t = ims_block_number s"
    using assms by (auto simp: ims_update_storage_def Let_def account_change_def slot_changes_def fun_eq_iff)
  show "slot t b j = (if b = a \<and> j = k then c else slot s b j)"
    using assms by (auto simp: ims_update_storage_def Let_def slot_put_slot) (simp_all add: slot_def)
  show "maps_ok n s \<Longrightarrow> maps_ok n t"
    using assms by (auto simp: maps_ok_def ims_update_storage_def Let_def slot_changes_def intro!: hm_ok_put_slot)
qed

lemma changes_ok_update_storage:
  assumes "changes_ok n s0 s" and "ims_block_number s = n" and "i = slot s0 a k"
    and "ims_update_storage s a k i c = Inr t"
  shows "changes_ok n s0 t"
  using assms by (auto simp: changes_ok_def update_storage_changes [OF assms(4)])

text \<open>Erasing the storage of an address records every slot that is still original.\<close>

lemma erase_storage_changes:
  assumes "ims_erase_storage s a = Inr t" and "maps_ok n s"
  shows "account_change n t = account_change n s" "ims_accounts t = ims_accounts s"
    "hm_get (slot_changes n t b) j =
       (if n = ims_block_number s \<and> b = a then
          (case hm_get (hm_get_or [] (ims_storage s) a) j of
             Some v \<Rightarrow> Some v | None \<Rightarrow> hm_get (slot_changes n s b) j)
        else hm_get (slot_changes n s b) j)"
    "slot t b j = (if b = a then 0 else slot s b j)"
    "ims_block_number t = ims_block_number s" "maps_ok n t"
proof -
  have ok: "hm_ok (hm_get_or [] (ims_storage s) a)" using assms(2) by (simp add: maps_ok_def)
  show "account_change n t = account_change n s" "ims_accounts t = ims_accounts s"
    "ims_block_number t = ims_block_number s" "slot t b j = (if b = a then 0 else slot s b j)"
    using assms(1) by (auto simp: ims_erase_storage_def Let_def account_change_def slot_def fun_eq_iff
        split: if_splits)
  show "hm_get (slot_changes n t b) j =
       (if n = ims_block_number s \<and> b = a then
          (case hm_get (hm_get_or [] (ims_storage s) a) j of
             Some v \<Rightarrow> Some v | None \<Rightarrow> hm_get (slot_changes n s b) j)
        else hm_get (slot_changes n s b) j)"
    using assms(1) ok by (auto simp: ims_erase_storage_def Let_def slot_changes_def hm_get_fold_insert
        split: if_splits cong: option.case_cong)
  show "maps_ok n t"
    using assms by (auto simp: maps_ok_def ims_erase_storage_def Let_def slot_changes_def hm_ok_fold_insert
        split: if_splits)
qed

lemma changes_ok_erase_storage:
  assumes ok: "changes_ok n s0 s" and n: "ims_block_number s = n" and e: "ims_erase_storage s a = Inr t"
    and fresh: "\<And>k v. hm_get (hm_get_or [] (ims_storage s) a) k = Some v \<Longrightarrow> v = slot s0 a k"
  shows "changes_ok n s0 t"
proof -
  have m: "maps_ok n s" using ok by (simp add: changes_ok_def)
  note ch = erase_storage_changes [OF e m]
  have "change_ok (hm_get (slot_changes n t b) j) (slot t b j) (slot s0 b j)" for b j
  proof (cases "b = a \<and> hm_get (hm_get_or [] (ims_storage s) a) j \<noteq> None")
    case True
    then show ?thesis using ch(3) n fresh [of j] by auto
  next
    case False
    have "change_ok (hm_get (slot_changes n s b) j) (slot s b j) (slot s0 b j)"
      using ok by (simp add: changes_ok_def)
    moreover have "slot t b j = slot s b j"
      using False ch(4) [of b j] by (auto simp: slot_alt hm_get_or_def split: option.splits)
    moreover have "hm_get (slot_changes n t b) j = hm_get (slot_changes n s b) j"
      using False ch(3) [of b j] n by auto
    ultimately show ?thesis by simp
  qed
  with ok ch show ?thesis by (simp add: changes_ok_def)
qed

section \<open>Unwinding\<close>

lemma unwind_accounts_fold:
  "hm_ok acs \<Longrightarrow> hm_get (ims_accounts (fold unwind_account acs s)) b =
     (case hm_get acs b of Some i \<Rightarrow> i | None \<Rightarrow> hm_get (ims_accounts s) b)"
  by (induction acs arbitrary: s)
    (auto simp: unwind_account_def hm_ok_Cons hm_get_Cons split: option.splits)

lemma unwind_account_fields:
  "ims_storage (fold unwind_account acs s) = ims_storage s"
  "ims_storage_changes (fold unwind_account acs s) = ims_storage_changes s"
  by (induction acs arbitrary: s) (auto simp: unwind_account_def)

lemma unwind_slots_fold:
  "hm_ok st \<Longrightarrow> slot (fold (\<lambda>(k, v). put_slot a k v) st s) b j =
     (if b = a then (case hm_get st j of Some v \<Rightarrow> v | None \<Rightarrow> slot s b j) else slot s b j)"
  by (induction st arbitrary: s)
    (auto simp: hm_ok_Cons hm_get_Cons slot_put_slot split: option.splits)

lemma unwind_slots_accounts:
  "ims_accounts (fold (\<lambda>(k, v). put_slot a k v) st s) = ims_accounts s"
  by (induction st arbitrary: s) auto

lemma unwind_storage_fold:
  assumes "hm_ok scs" and "\<And>a st. hm_get scs a = Some st \<Longrightarrow> hm_ok st"
  shows "slot (fold unwind_storage scs s) b j =
     (case hm_get (hm_get_or [] scs b) j of Some v \<Rightarrow> v | None \<Rightarrow> slot s b j)"
  using assms
proof (induction scs arbitrary: s)
  case Nil
  then show ?case by simp
next
  case (Cons x scs)
  obtain a st where x: "x = (a, st)" by (cases x)
  have ok: "hm_ok st" "hm_get scs a = None" "hm_ok scs"
    using Cons.prems(1) Cons.prems(2) [of a st] x by (auto simp: hm_ok_Cons hm_get_Cons)
  have rest: "hm_ok st'" if "hm_get scs a' = Some st'" for a' st'
    using that Cons.prems(2) [of a' st'] ok(2) x by (cases "a' = a") (auto simp: hm_get_Cons)
  from ok have "hm_get_or [] scs a = []" by (simp add: hm_get_or_def)
  then show ?case
    using Cons.IH [OF ok(3) rest] x ok
    by (auto simp: unwind_storage_def unwind_slots_fold hm_get_or_def hm_get_Cons split: option.splits)
qed

lemma unwind_storage_accounts: "ims_accounts (fold unwind_storage scs s) = ims_accounts s"
  by (induction scs arbitrary: s) (auto simp: unwind_storage_def unwind_slots_accounts)

lemma unwind_restores:
  assumes ok: "changes_ok n s0 s"
  shows "hm_get (ims_accounts (unwind_state_changes n s)) = hm_get (ims_accounts s0)"
    and "slot (unwind_state_changes n s) = slot s0"
proof -
  let ?acs = "hm_get_or [] (ims_account_changes s) n"
  let ?s1 = "fold unwind_account ?acs (s\<lparr> ims_account_changes := hm_remove n (ims_account_changes s) \<rparr>)"
  let ?scs = "hm_get_or [] (ims_storage_changes s) n"
  have un: "unwind_state_changes n s =
      fold unwind_storage ?scs (?s1\<lparr> ims_storage_changes := hm_remove n (ims_storage_changes s) \<rparr>)"
    by (simp add: unwind_state_changes_def Let_def unwind_account_fields)
  have m: "hm_ok ?acs" "hm_ok ?scs" "\<And>a st. hm_get ?scs a = Some st \<Longrightarrow> hm_ok st"
    using ok by (auto simp: changes_ok_def maps_ok_def slot_changes_def hm_get_or_def split: option.splits)
  have "hm_get (ims_accounts (unwind_state_changes n s)) a = hm_get (ims_accounts s0) a" for a
  proof -
    have "change_ok (hm_get ?acs a) (hm_get (ims_accounts s) a) (hm_get (ims_accounts s0) a)"
      using ok by (simp add: changes_ok_def account_change_def)
    then show ?thesis unfolding un using unwind_accounts_fold [OF m(1)]
      by (cases "hm_get ?acs a") (auto simp: unwind_storage_accounts)
  qed
  then show "hm_get (ims_accounts (unwind_state_changes n s)) = hm_get (ims_accounts s0)" by blast
  have sl: "slot (?s1\<lparr> ims_storage_changes := x \<rparr>) = slot s" for x
    by (rule slot_cong) (simp add: unwind_account_fields)
  have "slot (unwind_state_changes n s) a k = slot s0 a k" for a k
  proof -
    have "change_ok (hm_get (hm_get_or [] ?scs a) k) (slot s a k) (slot s0 a k)"
      using ok by (simp add: changes_ok_def slot_changes_def)
    then show ?thesis unfolding un
      by (cases "hm_get (hm_get_or [] ?scs a) k") (simp_all add: unwind_storage_fold m sl)
  qed
  then show "slot (unwind_state_changes n s) = slot s0" by blast
qed

section \<open>Writing a block\<close>

lemma in_memory_sel [simp]:
  "read_account in_memory = ims_read_account" "read_storage in_memory = ims_read_storage"
  "read_code in_memory = ims_read_code" "erase_storage in_memory = ims_erase_storage"
  "begin_block in_memory = ims_begin_block" "update_account in_memory = ims_update_account"
  "update_code in_memory = ims_update_code" "update_storage in_memory = ims_update_storage"
  "read_header in_memory = ims_read_header" "read_body in_memory = ims_read_body"
  "total_difficulty in_memory = ims_total_difficulty"
  by (simp_all add: in_memory_def)

text \<open>What \<open>write_to_db\<close> needs of the intra-block state: the initial values it hands to the
  database are the database's.\<close>

definition initials_ok :: "in_memory_state ibs \<Rightarrow> bool" where
  "initials_ok s \<longleftrightarrow> hm_ok (objects s) \<and>
     (\<forall>(a, st) \<in> set (storage_map s). \<forall>(k, cv) \<in> set (st_committed st).
        cv_initial cv = slot (db s) a k)"

lemma initials_okD:
  "initials_ok s \<Longrightarrow> (a, st) \<in> set (storage_map s) \<Longrightarrow> (k, cv) \<in> set (st_committed st) \<Longrightarrow>
   cv_initial cv = slot (db s) a k"
  unfolding initials_ok_def by blast

definition writing :: "block_number \<Rightarrow> in_memory_state \<Rightarrow> in_memory_state \<Rightarrow> bool" where
  "writing n s0 d \<longleftrightarrow> changes_ok n s0 d \<and> ims_block_number d = n"

definition erasing :: "block_number \<Rightarrow> in_memory_state \<Rightarrow> in_memory_state \<Rightarrow> bool" where
  "erasing n s0 d \<longleftrightarrow> writing n s0 d \<and>
     (\<forall>a k v. hm_get (hm_get_or [] (ims_storage d) a) k = Some v \<longrightarrow> v = slot s0 a k)"

lemma erase_storage_ok:
  assumes "erasing n s0 d"
  shows "\<exists>d'. ims_erase_storage d a = Inr d' \<and> erasing n s0 d'"
proof -
  obtain d' where e: "ims_erase_storage d a = Inr d'"
    by (cases "ims_erase_storage d a") (auto simp: ims_erase_storage_def Let_def split: if_splits)
  have st: "ims_storage d' = hm_remove a (ims_storage d)"
    using e by (auto simp: ims_erase_storage_def Let_def split: if_splits)
  have "changes_ok n s0 d'"
    using assms e by (intro changes_ok_erase_storage [of n s0 d a d']) (auto simp: erasing_def writing_def)
  moreover have "ims_block_number d' = n"
    using assms erase_storage_changes(5) [OF e] by (auto simp: erasing_def writing_def changes_ok_def)
  ultimately show ?thesis using assms e st by (auto simp: erasing_def writing_def)
qed

lemma update_storage_ok:
  assumes "writing n s0 d" and "i = slot s0 a k"
  shows "\<exists>d'. ims_update_storage d a k i c = Inr d' \<and> writing n s0 d'"
proof -
  obtain d' where e: "ims_update_storage d a k i c = Inr d'"
    by (auto simp: ims_update_storage_def Let_def)
  then show ?thesis
    using assms changes_ok_update_storage [OF _ _ assms(2) e] update_storage_changes(5) [OF e]
    by (auto simp: writing_def)
qed

lemma update_accounts_ok:
  assumes "writing n s0 d" and "\<And>a obj. (a, obj) \<in> set os \<Longrightarrow> obj_initial obj = hm_get (ims_accounts s0) a"
  shows "writing n s0 (fold (\<lambda>(a, obj) d. ims_update_account d a (obj_initial obj) (obj_current obj)) os d)"
  using assms
proof (induction os arbitrary: d)
  case Nil
  then show ?case by simp
next
  case (Cons x os)
  obtain a obj where x: "x = (a, obj)" by (cases x)
  have "writing n s0 (ims_update_account d a (obj_initial obj) (obj_current obj))"
    using Cons.prems x by (auto simp: writing_def update_account_changes intro!: changes_ok_update_account)
  with Cons x show ?case by auto
qed

lemma changes_ok_code: "changes_ok n s0 (d\<lparr> ims_code := m \<rparr>) = changes_ok n s0 d"
  using slot_cong [of "d\<lparr> ims_code := m \<rparr>" d]
  by (simp add: changes_ok_def maps_ok_def account_change_def slot_changes_def)

lemma write_to_db_writing:
  assumes wf: "ibs_wf in_memory s" and init: "initials_ok s"
    and clean: "hm_get (ims_account_changes (db s)) n = None"
      "hm_get (ims_storage_changes (db s)) n = None"
      "\<And>a. hm_ok (hm_get_or [] (ims_storage (db s)) a)"
  shows "\<exists>d. write_to_db in_memory n s = Inr d \<and> writing n (db s) d"
proof -
  let ?P1 = "erasing n (db s)" and ?P2 = "writing n (db s)"
  have start: "?P1 (ims_begin_block (db s) n)"
    using changes_ok_begin [OF clean] slot_cong [of "ims_begin_block (db s) n" "db s"]
    by (auto simp: erasing_def writing_def ims_begin_block_def slot_def hm_get_or_def split: option.splits)
  let ?erase = "\<lambda>(a, incarnation :: nat) d. if incarnation > 0 then ims_erase_storage d a else Inr d"
  have "\<exists>t. fold_r ?erase (incarnations s) (ims_begin_block (db s) n) = Inr t \<and> ?P1 t"
    by (rule fold_r_total [where P = ?P1]) (auto intro: erase_storage_ok start)
  then obtain d1 where d1: "fold_r ?erase (incarnations s) (ims_begin_block (db s) n) = Inr d1" "?P2 d1"
    by (auto simp: erasing_def)
  let ?upd = "\<lambda>a (k, val) d. ims_update_storage d a k (cv_initial val) (cv_original val)"
  have upd: "\<exists>t. fold_r (?upd a) (st_committed st) d = Inr t \<and> ?P2 t"
    if "(a, st) \<in> set (storage_map s)" "?P2 d" for a st d
  proof (rule fold_r_total [where P = ?P2])
    fix x d assume "x \<in> set (st_committed st)" and d: "?P2 d"
    then have "cv_initial (snd x) = slot (db s) a (fst x)"
      using initials_okD [OF init that(1), of "fst x" "snd x"] by simp
    from update_storage_ok [OF d this, of "cv_original (snd x)"]
    show "\<exists>t. ?upd a x d = Inr t \<and> ?P2 t" by (auto simp: case_prod_beta)
  qed (rule that)
  let ?body = "\<lambda>(a, storage) d. case hm_get (objects s) a of
           Some obj \<Rightarrow> (if obj_current obj \<noteq> None then fold_r (?upd a) (st_committed storage) d else Inr d)
         | None \<Rightarrow> Inr d"
  have "\<exists>t. fold_r ?body (storage_map s) d1 = Inr t \<and> ?P2 t"
    by (rule fold_r_total [where P = ?P2]) (auto split: option.split intro: upd d1(2))
  then obtain d2 where d2: "fold_r ?body (storage_map s) d1 = Inr d2" "?P2 d2" by blast
  have oi: "obj_initial obj = hm_get (ims_accounts (db s)) a" if "(a, obj) \<in> set (objects s)" for a obj
  proof -
    have "hm_get (objects s) a = Some obj" using that init by (simp add: initials_ok_def hm_ok_in_set)
    with ibs_wf_object [OF wf this] show ?thesis by (simp add: ims_read_account_def)
  qed
  let ?d3 = "fold (\<lambda>(a, obj) d. ims_update_account d a (obj_initial obj) (obj_current obj)) (objects s) d2"
  have d3: "?P2 ?d3"
    by (rule update_accounts_ok [OF d2(2) oi])
  have "\<exists>t. fold_r (\<lambda>(h, code) d. ims_update_code d h code) (new_code s) ?d3 = Inr t \<and> ?P2 t"
    by (rule fold_r_total [where P = ?P2, OF _ d3]) (auto simp: ims_update_code_def writing_def changes_ok_code)
  then obtain d4 where "fold_r (\<lambda>(h, code) d. ims_update_code d h code) (new_code s) ?d3 = Inr d4" "?P2 d4"
    by blast
  with d1 d2 show ?thesis unfolding write_to_db_def in_memory_sel by simp
qed

section \<open>The initial values\<close>

text \<open>
  \<open>initials_ok\<close> follows from an invariant of the storage map that the reads, the writes to
  live accounts and the end of a transaction keep, as long as no contract is created: a slot
  with a current value has a committed one, or is zero in the database.
\<close>

definition storage_ok :: "in_memory_state \<Rightarrow> address \<Rightarrow> storage \<Rightarrow> bool" where
  "storage_ok d a st \<longleftrightarrow>
     (\<forall>(k, cv) \<in> set (st_committed st). cv_initial cv = slot d a k) \<and>
     (\<forall>k \<in> fst ` set (st_current st). hm_get (st_committed st) k \<noteq> None \<or> slot d a k = 0)"

definition slots_ok :: "in_memory_state ibs \<Rightarrow> bool" where
  "slots_ok s \<longleftrightarrow> hm_ok (objects s) \<and> (\<forall>(a, st) \<in> set (storage_map s). storage_ok (db s) a st)"

definition db_ok :: "in_memory_state \<Rightarrow> bool" where
  "db_ok d \<longleftrightarrow> (\<forall>a. hm_get (ims_accounts d) a = None \<longrightarrow> (\<forall>k. slot d a k = 0))"

lemma hm_insert_in_set: "(j, w) \<in> set (hm_insert k v m) \<Longrightarrow> (j, w) = (k, v) \<or> (j, w) \<in> set m"
  by (induction m) (auto simp: hm_insert_def split: if_splits)

lemma hm_get_in_set: "hm_get m k = Some v \<Longrightarrow> (k, v) \<in> set m"
  by (simp add: hm_get_def map_of_SomeD)

lemma hm_get_None_iff: "hm_get m k = None \<longleftrightarrow> k \<notin> fst ` set m"
  by (simp add: hm_get_def map_of_eq_None_iff)

lemma slots_ok_initials: "slots_ok s \<Longrightarrow> initials_ok s"
  by (fastforce simp: slots_ok_def initials_ok_def storage_ok_def)

lemma slots_ok_new: "slots_ok (ibs_new d)"
  by (simp add: slots_ok_def ibs_new_def)

lemma storage_ok_default: "storage_ok d a default_storage"
  by (simp add: storage_ok_def default_storage_def)

lemma slots_ok_storage: "slots_ok s \<Longrightarrow> storage_ok (db s) a (hm_get_or default_storage (storage_map s) a)"
  by (auto simp: slots_ok_def hm_get_or_def storage_ok_default dest!: hm_get_in_set split: option.splits)

lemma slots_ok_insert:
  "slots_ok s \<Longrightarrow> storage_ok (db s) a st \<Longrightarrow>
   slots_ok (s\<lparr> storage_map := hm_insert a st (storage_map s) \<rparr>)"
  unfolding slots_ok_def by (auto dest!: hm_insert_in_set)

lemma slots_ok_get_object:
  assumes "get_object in_memory a s = Inr (o', s1)" and "slots_ok s"
  shows "slots_ok s1" "db s1 = db s" "storage_map s1 = storage_map s" "incarnations s1 = incarnations s"
  using assms by (auto simp: get_object_def slots_ok_def ims_read_account_def Let_def split: option.splits)

lemma storage_ok_read:
  "storage_ok d a st \<Longrightarrow> v = slot d a k \<Longrightarrow>
   storage_ok d a (st\<lparr> st_committed := hm_insert k \<lparr> cv_initial = v, cv_original = v' \<rparr> (st_committed st) \<rparr>)"
  unfolding storage_ok_def by (fastforce dest!: hm_insert_in_set)

lemma storage_ok_write:
  "storage_ok d a st \<Longrightarrow> hm_get (st_committed st) k \<noteq> None \<or> slot d a k = 0 \<Longrightarrow>
   storage_ok d a (st\<lparr> st_current := hm_insert k v (st_current st) \<rparr>)"
  unfolding storage_ok_def by (auto dest!: hm_insert_in_set)

text \<open>After a read of a live account that was not created in this block, the slot is cached or
  zero in the database.\<close>

lemma slots_ok_get_storage:
  assumes g: "get_storage in_memory a k original s = Inr (v, s')" and ok: "slots_ok s"
    and wf: "ibs_wf in_memory s" and dbk: "db_ok (db s)" and inc: "incarnations s = []"
  shows "slots_ok s'" and "db s' = db s" and "incarnations s' = []"
    and "account_view in_memory s a \<noteq> Inr None \<Longrightarrow> original = False \<Longrightarrow>
      hm_get (st_committed (hm_get_or default_storage (storage_map s') a)) k \<noteq> None \<or> slot (db s) a k = 0"
proof -
  have "slots_ok s' \<and> db s' = db s \<and> incarnations s' = [] \<and>
    (account_view in_memory s a \<noteq> Inr None \<longrightarrow> original = False \<longrightarrow>
      hm_get (st_committed (hm_get_or default_storage (storage_map s') a)) k \<noteq> None \<or> slot (db s) a k = 0)"
    using g
  proof (cases rule: get_storage_cases)
    case (1 o' s1)
    then show ?thesis using slots_ok_get_object [OF 1(1) ok] inc account_view_get_object [OF 1(1) wf]
      by (auto split: option.splits)
  next
    case (2 obj s1)
    let ?st = "hm_get_or default_storage (storage_map s1) a"
    note so = slots_ok_get_object [OF 2(1) ok] and ge = get_object_extends [OF 2(1) wf]
    have st: "storage_ok (db s) a ?st" using slots_ok_storage [OF so(1)] so(2) by simp
    have ini: "obj_initial obj = None \<Longrightarrow> slot (db s) a k = 0"
      using dbk ibs_wf_object [OF extends_wf [OF ge(1)] ge(4)] so(2)
      by (auto simp: db_ok_def ims_read_account_def)
    have "hm_get (st_committed ?st) k \<noteq> None \<or> slot (db s) a k = 0" if "\<not> original"
    proof (cases "hm_get (st_current ?st) k")
      case None
      then show ?thesis using 2(3) ini so(4) inc by (auto simp: stored_value_def split: option.splits if_splits)
    next
      case (Some w)
      then have "k \<in> fst ` set (st_current ?st)" by (force dest: hm_get_in_set)
      with st show ?thesis unfolding storage_ok_def by blast
    qed
    then show ?thesis using so slots_ok_insert [OF so(1)] st 2(4) inc by auto
  next
    case (3 obj s1 st)
    note so = slots_ok_get_object [OF 3(1) ok]
    have st: "storage_ok (db s1) a st" using slots_ok_storage [OF so(1)] 3(3) by simp
    have v: "v = slot (db s1) a k" using 3(7) by (simp add: ims_read_storage_def)
    let ?st' = "st\<lparr> st_committed := hm_insert k \<lparr> cv_initial = v, cv_original = v \<rparr> (st_committed st) \<rparr>"
    have "slots_ok (s1\<lparr> storage_map := hm_insert a st (storage_map s1) \<rparr>)"
      by (rule slots_ok_insert [OF so(1) st])
    from slots_ok_insert [OF this, of a ?st'] storage_ok_read [OF st v]
    have "slots_ok s'" unfolding 3(8) by simp
    with 3(8) so inc show ?thesis by auto
  qed
  then show "slots_ok s'" and "db s' = db s" and "incarnations s' = []"
    and "account_view in_memory s a \<noteq> Inr None \<Longrightarrow> original = False \<Longrightarrow>
      hm_get (st_committed (hm_get_or default_storage (storage_map s') a)) k \<noteq> None \<or> slot (db s) a k = 0"
    by auto
qed

lemma slots_ok_set_storage:
  assumes e: "set_storage in_memory a k v s = Inr s'" and ok: "slots_ok s" and wf: "ibs_wf in_memory s"
    and dbk: "db_ok (db s)" and inc: "incarnations s = []" and live: "account_view in_memory s a = Inr (Some acc)"
  shows "slots_ok s'" and "db s' = db s" and "incarnations s' = []"
    and "ibs_wf in_memory s'" and "account_view in_memory s' = account_view in_memory s"
proof -
  obtain prev s1 where g: "get_storage in_memory a k False s = Inr (prev, s1)"
    and s': "s' = (if prev = v then s1 else push_delta (Delta_StorageChange a k prev) (put_current a k v s1))"
    using e by (auto simp: set_storage_def get_current_storage_def split: if_splits)
  note gs = slots_ok_get_storage [OF g ok wf dbk inc]
  note ge = get_storage_extends(1) [OF g wf]
  let ?st = "hm_get_or default_storage (storage_map s1) a"
  let ?st' = "?st\<lparr> st_current := hm_insert k v (st_current ?st) \<rparr>"
  have "storage_ok (db s1) a ?st'"
    using storage_ok_write slots_ok_storage [OF gs(1)] gs(2) gs(4) live by auto
  from slots_ok_insert [OF gs(1) this]
  show "slots_ok s'"
    using gs(1) s' by (auto simp: put_current_def Let_def push_delta_def slots_ok_def)
  show "db s' = db s" and "incarnations s' = []"
    using gs s' by (auto simp: put_current_def Let_def push_delta_def)
  have fr: "objects s' = objects s1" "db s' = db s1" "incarnations s' = incarnations s1"
    using s' by (auto simp: put_current_def Let_def push_delta_def)
  show "ibs_wf in_memory s'" using extends_wf [OF ge] fr by (simp add: ibs_wf_def)
  show "account_view in_memory s' = account_view in_memory s"
    using account_view_cong [OF fr(2,1), of in_memory] ge by (simp add: extends_def same_accounts_def)
qed

text \<open>The end of a transaction: every current value becomes the original of its slot.\<close>

abbreviation commit_slot ::
  "u256 \<times> u256 \<Rightarrow> (u256, committed_value) hash_map \<Rightarrow> (u256, committed_value) hash_map" where
  "commit_slot \<equiv> \<lambda>(k, v) m. hm_insert k ((hm_get_or default_committed_value m k)\<lparr> cv_original := v \<rparr>) m"

lemma commit_slots_ok:
  assumes "\<forall>(k, cv) \<in> set m. cv_initial cv = f k"
    and "\<forall>k \<in> fst ` set cur. hm_get m k \<noteq> None \<or> f k = 0"
  shows "\<forall>(k, cv) \<in> set (fold commit_slot cur m). cv_initial cv = f k"
  using assms
proof (induction cur arbitrary: m)
  case Nil
  then show ?case by simp
next
  case (Cons x cur)
  obtain k v where x: "x = (k, v)" by (cases x)
  have "cv_initial (hm_get_or default_committed_value m k) = f k"
  proof (cases "hm_get m k")
    case None
    then show ?thesis using Cons.prems(2) x by (simp add: hm_get_or_def default_committed_value_def)
  next
    case (Some cv)
    then show ?thesis using Cons.prems(1) hm_get_in_set by (fastforce simp: hm_get_or_def)
  qed
  then have "\<forall>(k, cv) \<in> set (commit_slot x m). cv_initial cv = f k"
    using Cons.prems(1) x by (auto dest!: hm_insert_in_set)
  moreover have "\<forall>k \<in> fst ` set cur. hm_get (commit_slot x m) k \<noteq> None \<or> f k = 0"
    using Cons.prems(2) x by auto
  ultimately show ?case using Cons.IH by simp
qed

lemma slots_ok_finalize: "slots_ok s \<Longrightarrow> slots_ok (finalize_transaction s)"
  using commit_slots_ok
  by (fastforce simp: slots_ok_def storage_ok_def finalize_transaction_def finalize_storage_def hm_map_values_def)

section \<open>A block of storage writes\<close>

definition run_writes :: "(address \<times> u256 \<times> u256) list \<Rightarrow> in_memory_state ibs \<Rightarrow>
    exec_error + in_memory_state ibs" where
  "run_writes ws s = bind_r (fold_r (\<lambda>(a, k, v). set_storage in_memory a k v) ws s)
     (\<lambda>s. Inr (finalize_transaction s))"

definition block_state_ok :: "in_memory_state \<Rightarrow> in_memory_state ibs \<Rightarrow> bool" where
  "block_state_ok d s \<longleftrightarrow> slots_ok s \<and> ibs_wf in_memory s \<and> db s = d \<and> incarnations s = [] \<and>
     account_view in_memory s = (\<lambda>a. Inr (hm_get (ims_accounts d) a))"

lemma block_state_ok_new: "block_state_ok d (ibs_new d)"
  using slots_ok_new by (auto simp: block_state_ok_def ibs_wf_def ibs_new_def account_view_def ims_read_account_def)

lemma get_object_in_memory_total: "\<exists>r. get_object in_memory a s = Inr r"
  by (auto simp: get_object_def ims_read_account_def Let_def split: option.splits)

lemma set_storage_in_memory_total: "\<exists>t. set_storage in_memory a k v s = Inr t"
proof -
  obtain o' s1 where "get_object in_memory a s = Inr (o', s1)" using get_object_in_memory_total by fastforce
  then have "\<exists>r. get_storage in_memory a k False s = Inr r"
    by (cases o') (auto simp: get_storage_def ims_read_storage_def Let_def split: option.splits)
  then show ?thesis by (auto simp: set_storage_def get_current_storage_def)
qed

lemma block_state_ok_set_storage:
  assumes "block_state_ok d s" and "db_ok d" and "hm_get (ims_accounts d) a \<noteq> None"
  shows "\<exists>t. set_storage in_memory a k v s = Inr t \<and> block_state_ok d t"
proof -
  obtain t where t: "set_storage in_memory a k v s = Inr t" using set_storage_in_memory_total by blast
  obtain acc where "account_view in_memory s a = Inr (Some acc)"
    using assms by (auto simp: block_state_ok_def)
  then show ?thesis using slots_ok_set_storage [OF t] assms t by (auto simp: block_state_ok_def)
qed

lemma block_state_ok_finalize: "block_state_ok d s \<Longrightarrow> block_state_ok d (finalize_transaction s)"
  using slots_ok_finalize account_view_cong [of "finalize_transaction s" s in_memory]
  by (auto simp: block_state_ok_def ibs_wf_def finalize_transaction_def)

lemma block_state_ok_run_writes:
  assumes "block_state_ok d s" and "db_ok d" and "\<forall>(a, k, v) \<in> set ws. hm_get (ims_accounts d) a \<noteq> None"
  shows "\<exists>t. run_writes ws s = Inr t \<and> block_state_ok d t"
proof -
  have "\<exists>t. fold_r (\<lambda>(a, k, v). set_storage in_memory a k v) ws s = Inr t \<and> block_state_ok d t"
    using assms by (intro fold_r_total [where P = "block_state_ok d"]) (auto intro: block_state_ok_set_storage)
  then show ?thesis by (auto simp: run_writes_def intro: block_state_ok_finalize)
qed

text \<open>What \<open>write_to_db\<close> leaves in the account table: the current objects.\<close>

lemma fold_update_account_accounts:
  "hm_ok os \<Longrightarrow> hm_get (ims_accounts (fold (\<lambda>(a, obj) d. ims_update_account d a (obj_initial obj) (obj_current obj)) os d)) b =
     (case hm_get os b of Some obj \<Rightarrow> obj_current obj | None \<Rightarrow> hm_get (ims_accounts d) b)"
  by (induction os arbitrary: d) (auto simp: hm_ok_Cons hm_get_Cons update_account_changes split: option.splits)

lemma accounts_frame:
  "ims_update_storage d a k i c = Inr d' \<Longrightarrow> ims_accounts d' = ims_accounts d"
  "ims_erase_storage d a = Inr d' \<Longrightarrow> ims_accounts d' = ims_accounts d"
  "ims_update_code d h code = Inr d' \<Longrightarrow> ims_accounts d' = ims_accounts d"
  by (auto simp: ims_update_storage_def ims_erase_storage_def ims_update_code_def Let_def split: if_splits)

lemma fold_r_accounts_frame:
  assumes "fold_r f xs d = Inr d'" and "\<And>x d d'. f x d = Inr d' \<Longrightarrow> ims_accounts d' = ims_accounts d"
  shows "ims_accounts d' = ims_accounts d"
  using fold_r_invariant [where P = "\<lambda>x. ims_accounts x = ims_accounts d", OF assms(1)] assms(2) by simp

lemma update_slots_accounts:
  "fold_r (\<lambda>(k, val) d. ims_update_storage d a k (cv_initial val) (cv_original val)) cs d = Inr d' \<Longrightarrow>
   ims_accounts d' = ims_accounts d"
  by (erule fold_r_accounts_frame) (auto simp: accounts_frame)

lemma write_to_db_accounts:
  assumes "write_to_db in_memory n s = Inr d" and "hm_ok (objects s)"
  shows "Inr (hm_get (ims_accounts d) a) = account_view in_memory s a"
proof -
  obtain d1 d2 where
    d1: "fold_r (\<lambda>(a, i). \<lambda>d. if i > 0 then ims_erase_storage d a else Inr d) (incarnations s) (ims_begin_block (db s) n) = Inr d1"
    and d2: "fold_r (\<lambda>(a, storage) d. case hm_get (objects s) a of
           Some obj \<Rightarrow> (if obj_current obj \<noteq> None
              then fold_r (\<lambda>(k, val) d. ims_update_storage d a k (cv_initial val) (cv_original val)) (st_committed storage) d
              else Inr d)
         | None \<Rightarrow> Inr d) (storage_map s) d1 = Inr d2"
    and d3: "fold_r (\<lambda>(h, code) d. ims_update_code d h code) (new_code s)
       (fold (\<lambda>(a, obj) d. ims_update_account d a (obj_initial obj) (obj_current obj)) (objects s) d2) = Inr d"
    using assms(1) unfolding write_to_db_def in_memory_sel by blast
  have "ims_accounts d1 = ims_accounts (ims_begin_block (db s) n)"
    by (rule fold_r_accounts_frame [OF d1]) (auto simp: accounts_frame split: if_splits)
  moreover have "ims_accounts d2 = ims_accounts d1"
    by (rule fold_r_accounts_frame [OF d2]) (auto split: option.splits if_splits dest: update_slots_accounts)
  moreover have "ims_accounts d = ims_accounts (fold (\<lambda>(a, obj) d. ims_update_account d a (obj_initial obj) (obj_current obj)) (objects s) d2)"
    by (rule fold_r_accounts_frame [OF d3]) (auto simp: accounts_frame)
  ultimately show ?thesis
    using fold_update_account_accounts [OF assms(2), of d2 a]
    by (auto simp: account_view_def ims_read_account_def ims_begin_block_def split: option.splits)
qed

end
