(* ===== verification/State_Properties.thy ===== *)
theory State_Properties
  imports World_Spec State_Persistence
begin

text \<open>
  The properties of the state layer: snapshots and reverts, refinement of the abstract
  world, reads, the end of a transaction, and persistence with unwinding.
\<close>

section \<open>A concrete state for the witnesses\<close>

definition sample_account :: account where
  "sample_account = default_account\<lparr> acc_balance := 10, acc_nonce := 1 \<rparr>"

definition sample_db :: in_memory_state where
  "sample_db = in_memory_new\<lparr> ims_accounts := [(1, sample_account)], ims_storage := [(1, [(5, 7)])] \<rparr>"

definition sample_world :: world where
  "sample_world = \<lparr> w_accounts = (\<lambda>a. if a = 1 then Some sample_account else None),
     w_storage = slot sample_db, w_original = slot sample_db \<rparr>"

lemma represents_sample: "represents in_memory (ibs_new sample_db) sample_world"
  by (auto simp: represents_def ibs_wf_def ibs_new_def account_view_def storage_view_def stored_value_def
      base_storage_def default_storage_def sample_world_def sample_db_def in_memory_new_def hm_get_Cons
      ims_read_account_def ims_read_storage_def slot_def fun_eq_iff)

section \<open>Snapshots\<close>

text \<open>
  C1.  Whatever the host does between a snapshot and its revert, nested failed calls included,
  the revert succeeds (the journal never runs short and no \<open>unwrap\<close> fails) and restores
  every account, every storage value, original and current, the incarnations, the
  self-destructs, the touched set up to the RIPEMD exception, the access lists, the journal,
  the logs and the refund counter.
\<close>

theorem revert_restores:
  assumes "host_run T keccak s t" and "ibs_wf T s"
  shows "\<exists>w. revert_to_snapshot (take_snapshot s) t = Inr w \<and> restored T s w"
  using host_run_ok [OF assms] by (auto simp: run_ok_def intro: undoable_revert)

lemma sample_run:
  "host_run in_memory (\<lambda>_. 0) (ibs_new sample_db)
     (touch 2 (add_refund 15 (record_selfdestruct 1 (ibs_new sample_db))))"
  by (intro hr_touch hr_add_refund hr_record_selfdestruct hr_refl)

theorem revert_restores_witness:
  "\<exists>w. revert_to_snapshot (take_snapshot (ibs_new sample_db))
      (touch 2 (add_refund 15 (record_selfdestruct 1 (ibs_new sample_db)))) = Inr w \<and>
    restored in_memory (ibs_new sample_db) w"
  using revert_restores [OF sample_run] represents_sample by (simp add: represents_def)

section \<open>Refinement of the world\<close>

text \<open>
  C3.  The intra-block state refines the abstract world: a sequence of host operations that the
  world can make, failed calls that are rolled back included, succeeds on the intra-block
  state and leaves it representing the resulting world.
\<close>

theorem ibs_refines_world:
  assumes "represents T s w" and "spec_ops kc ops w = Some w'"
  shows "\<exists>t. run_ops T kc ops s = Inr t \<and> represents T t w'"
  using op_refines(2) [OF assms] by blast

definition sample_ops :: "host_op list" where
  "sample_ops = [Op_SetStorage 1 5 9, Op_Failed [Op_AddToBalance 2 3, Op_SetStorage 1 5 0], Op_SubtractFromBalance 1 4]"

theorem ibs_refines_world_witness:
  "\<exists>t w'. spec_ops (\<lambda>_. 0) sample_ops sample_world = Some w' \<and> w_storage w' 1 5 = 9 \<and>
     run_ops in_memory (\<lambda>_. 0) sample_ops (ibs_new sample_db) = Inr t \<and> represents in_memory t w'"
proof -
  obtain w' where "spec_ops (\<lambda>_. 0) sample_ops sample_world = Some w'" "w_storage w' 1 5 = 9"
    by (auto simp: sample_ops_def sample_world_def w_put_def)
  with ibs_refines_world [OF represents_sample this(1)] show ?thesis by blast
qed

lemma reads_view:
  assumes "represents T s w"
  shows "\<exists>t. get_balance T a s = Inr (acc_balance (w_account w a), t) \<and> represents T t w"
    and "\<exists>t. get_nonce T a s = Inr (acc_nonce (w_account w a), t) \<and> represents T t w"
    and "\<exists>t. get_code_hash T a s = Inr (acc_code_hash (w_account w a), t) \<and> represents T t w"
    and "\<exists>t. exists_account T a s = Inr (w_accounts w a \<noteq> None, t) \<and> represents T t w"
    and "\<exists>t. is_dead T a s = Inr (account_is_dead (w_account w a), t) \<and> represents T t w"
    and "\<exists>t. get_storage T a k original s = Inr (if w_accounts w a = None then 0
      else if original then w_original w a k else w_storage w a k, t) \<and> represents T t w"
proof -
  have av: "account_view T s a = Inr (w_accounts w a)" and wf: "ibs_wf T s"
    using assms by (auto simp: represents_def)
  obtain o' t where g: "get_object T a s = Inr (o', t)" using get_object_total [OF av] by blast
  have t: "represents T t w" using represents_extends [OF assms get_object_extends(1) [OF g wf]] .
  have "w_accounts w a = (case o' of None \<Rightarrow> None | Some obj \<Rightarrow> obj_current obj)"
    using account_view_get_object [OF g wf] av by simp
  with g t show "\<exists>t. get_balance T a s = Inr (acc_balance (w_account w a), t) \<and> represents T t w"
    and "\<exists>t. get_nonce T a s = Inr (acc_nonce (w_account w a), t) \<and> represents T t w"
    and "\<exists>t. get_code_hash T a s = Inr (acc_code_hash (w_account w a), t) \<and> represents T t w"
    and "\<exists>t. exists_account T a s = Inr (w_accounts w a \<noteq> None, t) \<and> represents T t w"
    and "\<exists>t. is_dead T a s = Inr (account_is_dead (w_account w a), t) \<and> represents T t w"
    by (auto simp: get_balance_def get_nonce_def get_code_hash_def exists_account_def is_dead_def
        w_account_def default_account_def account_is_dead_def split: option.splits)
  show "\<exists>t. get_storage T a k original s = Inr (if w_accounts w a = None then 0
      else if original then w_original w a k else w_storage w a k, t) \<and> represents T t w"
    by (rule get_storage_view [OF assms])
qed

text \<open>
  Every read of the intra-block state returns what the world holds, and leaves the
  represented world unchanged: an account that does not exist has balance 0, nonce 0, the
  empty code hash and no storage.
\<close>

theorem reads_return_world:
  assumes "represents T s w"
  shows "(\<exists>t. get_balance T a s = Inr (acc_balance (w_account w a), t) \<and> represents T t w)
    \<and> (\<exists>t. get_nonce T a s = Inr (acc_nonce (w_account w a), t) \<and> represents T t w)
    \<and> (\<exists>t. get_code_hash T a s = Inr (acc_code_hash (w_account w a), t) \<and> represents T t w)
    \<and> (\<exists>t. exists_account T a s = Inr (w_accounts w a \<noteq> None, t) \<and> represents T t w)
    \<and> (\<exists>t. is_dead T a s = Inr (account_is_dead (w_account w a), t) \<and> represents T t w)
    \<and> (\<exists>t. get_storage T a k original s = Inr (if w_accounts w a = None then 0
      else if original then w_original w a k else w_storage w a k, t) \<and> represents T t w)"
  by (intro conjI reads_view [OF assms])

theorem reads_return_world_witness:
  "\<exists>t. get_balance in_memory 1 (ibs_new sample_db) = Inr (10, t)"
  using reads_return_world [OF represents_sample, of 1]
  by (auto simp: w_account_def sample_world_def sample_account_def)

section \<open>The end of a transaction\<close>

lemma hm_get_commit_slots:
  assumes "hm_ok cur"
  shows "map_option cv_original (hm_get (fold commit_slot cur m) k) =
    (case hm_get cur k of Some v \<Rightarrow> Some v | None \<Rightarrow> map_option cv_original (hm_get m k))"
  using assms
proof (induction cur arbitrary: m)
  case Nil
  then show ?case by simp
next
  case (Cons x cur)
  obtain j v where x: "x = (j, v)" by (cases x)
  with Cons show ?case by (auto simp: hm_ok_Cons hm_get_Cons split: option.splits)
qed

lemma stored_value_finalize:
  "hm_ok (st_current st) \<Longrightarrow> stored_value (finalize_storage st) original k = stored_value st False k"
  using hm_get_commit_slots [of "st_current st" "st_committed st" k]
  by (auto simp: stored_value_def finalize_storage_def split: option.splits)

text \<open>
  The end of a transaction makes the current value of every slot its original value and
  changes neither accounts nor current values (the storage caches have no repeated key).
\<close>

theorem finalize_transaction_original:
  assumes "represents T s w" and "\<forall>(a, st) \<in> set (storage_map s). hm_ok (st_current st)"
  shows "represents T (finalize_transaction s) (w\<lparr> w_original := w_storage w \<rparr>)"
proof -
  have sv: "storage_view T (finalize_transaction s) original a k = storage_view T s False a k" for original a k
  proof (cases "hm_get (storage_map s) a")
    case None
    then show ?thesis
      by (simp add: storage_view_def finalize_transaction_def hm_get_or_def base_storage_def
          stored_value_def default_storage_def)
  next
    case (Some st)
    then have "hm_ok (st_current st)" using assms(2) by (auto dest!: hm_get_in_set)
    with Some show ?thesis
      by (simp add: storage_view_def finalize_transaction_def hm_get_or_def base_storage_def stored_value_finalize
          split: option.split)
  qed
  have "account_view T (finalize_transaction s) = account_view T s"
    by (rule account_view_cong) (auto simp: finalize_transaction_def)
  moreover have "ibs_wf T (finalize_transaction s) = ibs_wf T s"
    by (rule ibs_wf_cong) (auto simp: finalize_transaction_def)
  ultimately show ?thesis using assms(1) by (auto simp: represents_def sv fun_eq_iff)
qed

lemma put_current_fields:
  "db (put_current a k v s) = db s" "objects (put_current a k v s) = objects s"
  "incarnations (put_current a k v s) = incarnations s"
  by (simp_all add: put_current_def Let_def)

lemma represents_sample_written:
  "represents in_memory (put_current 1 5 9 (ibs_new sample_db))
     (sample_world\<lparr> w_storage := (w_storage sample_world)(1 := (w_storage sample_world 1)(5 := 9)) \<rparr>)"
  using represents_sample ibs_wf_cong [of "put_current 1 5 9 (ibs_new sample_db)" "ibs_new sample_db" in_memory]
  by (auto simp: represents_def view_simps storage_view_put_current fun_eq_iff put_current_fields)

theorem finalize_transaction_original_witness:
  "\<exists>w. represents in_memory (finalize_transaction (put_current 1 5 9 (ibs_new sample_db))) w \<and>
     w_original w 1 5 = 9 \<and> w_original sample_world 1 5 = 7"
proof -
  have "\<forall>(a, st) \<in> set (storage_map (put_current 1 5 9 (ibs_new sample_db))). hm_ok (st_current st)"
    by (simp add: put_current_def ibs_new_def hm_insert_def default_storage_def hm_ok_def)
  from finalize_transaction_original [OF represents_sample_written this]
  show ?thesis by (auto intro!: exI simp: sample_world_def sample_db_def slot_def hm_get_Cons)
qed

section \<open>Persistence\<close>

text \<open>
  C4.  Unwinding a block restores the database: after \<open>write_to_db\<close> of an intra-block state
  whose caches hold the database's values as initial ones, \<open>unwind_state_changes\<close> brings
  back every account and every storage slot, whatever was written and whatever storage was
  erased.
\<close>

theorem write_then_unwind:
  assumes "ibs_wf in_memory s" and "initials_ok s"
    and "hm_get (ims_account_changes (db s)) n = None" "hm_get (ims_storage_changes (db s)) n = None"
    and "\<And>a. hm_ok (hm_get_or [] (ims_storage (db s)) a)"
  shows "\<exists>d. write_to_db in_memory n s = Inr d \<and>
    hm_get (ims_accounts (unwind_state_changes n d)) = hm_get (ims_accounts (db s)) \<and>
    slot (unwind_state_changes n d) = slot (db s)"
  using write_to_db_writing [OF assms] by (auto simp: writing_def unwind_restores)

lemma sample_db_maps:
  "hm_get (ims_account_changes sample_db) n = None" "hm_get (ims_storage_changes sample_db) n = None"
  "hm_ok (hm_get_or [] (ims_storage sample_db) a)"
  by (simp_all add: sample_db_def in_memory_new_def hm_get_or_def hm_get_Cons hm_ok_def)

lemma sample_slot: "slot sample_db 1 5 = 7"
  by (simp add: sample_db_def slot_def hm_get_Cons)

definition sample_destroyed :: "in_memory_state ibs" where
  "sample_destroyed = (ibs_new sample_db)\<lparr> incarnations := [(1, 1)],
     objects := [(1, \<lparr> obj_initial = Some sample_account, obj_current = None \<rparr>)] \<rparr>"

lemma sample_destroyed_destruct: "destruct in_memory 1 (ibs_new sample_db) = Inr sample_destroyed"
  by (simp add: destruct_def get_object_def sample_destroyed_def ibs_new_def bump_incarnation_def
      ims_read_account_def sample_db_def hm_get_Cons hm_insert_def hm_remove_def Let_def)

lemma sample_destroyed_ok:
  "ibs_wf in_memory sample_destroyed" "initials_ok sample_destroyed" "db sample_destroyed = sample_db"
  by (simp_all add: ibs_wf_def initials_ok_def sample_destroyed_def ibs_new_def hm_get_Cons sample_db_def
      ims_read_account_def hm_ok_def)

theorem write_then_unwind_witness:
  "\<exists>d. write_to_db in_memory 3 sample_destroyed = Inr d \<and> slot (unwind_state_changes 3 d) 1 5 = 7"
proof -
  from sample_destroyed_ok write_then_unwind [of sample_destroyed 3] sample_db_maps sample_slot
  show ?thesis by auto
qed

text \<open>
  A block of transactions that write the storage of existing accounts is written and
  unwound without loss: from a fresh intra-block state every transaction succeeds, the block
  is written, and unwinding it restores every account and slot of the database.
\<close>

theorem block_of_writes_unwinds:
  assumes "db_ok d" and "\<forall>ws \<in> set txs. \<forall>(a, k, v) \<in> set ws. hm_get (ims_accounts d) a \<noteq> None"
    and "hm_get (ims_account_changes d) n = None" "hm_get (ims_storage_changes d) n = None"
    and "\<And>a. hm_ok (hm_get_or [] (ims_storage d) a)"
  shows "\<exists>s d'. fold_r run_writes txs (ibs_new d) = Inr s \<and> write_to_db in_memory n s = Inr d' \<and>
    hm_get (ims_accounts (unwind_state_changes n d')) = hm_get (ims_accounts d) \<and>
    slot (unwind_state_changes n d') = slot d"
proof -
  have "\<exists>s. fold_r run_writes txs (ibs_new d) = Inr s \<and> block_state_ok d s"
    by (rule fold_r_total [where P = "block_state_ok d"])
      (use assms(1,2) block_state_ok_run_writes block_state_ok_new in blast)+
  then obtain s where s: "fold_r run_writes txs (ibs_new d) = Inr s" "block_state_ok d s" by blast
  then obtain d' where "write_to_db in_memory n s = Inr d'" "writing n (db s) d'"
    using write_to_db_writing [of s n] assms(3-5) by (auto simp: block_state_ok_def slots_ok_initials)
  with s show ?thesis by (auto simp: block_state_ok_def writing_def unwind_restores)
qed

theorem block_of_writes_unwinds_witness:
  "\<exists>s d'. fold_r run_writes [[(1, 5, 9), (1, 6, 2)], [(1, 5, 0)]] (ibs_new sample_db) = Inr s \<and>
     write_to_db in_memory 3 s = Inr d' \<and> slot (unwind_state_changes 3 d') 1 5 = 7"
proof -
  have "db_ok sample_db"
    by (auto simp: db_ok_def sample_db_def slot_def hm_get_Cons)
  moreover have "\<forall>ws \<in> set [[(1, 5, 9), (1, 6, 2)], [(1, 5, 0)]]. \<forall>(a, k, v :: u256) \<in> set ws.
      hm_get (ims_accounts sample_db) a \<noteq> None"
    by (simp add: sample_db_def hm_get_Cons)
  ultimately show ?thesis
    using block_of_writes_unwinds [of sample_db "[[(1, 5, 9), (1, 6, 2)], [(1, 5, 0)]]" 3] sample_db_maps sample_slot
    by metis
qed

text \<open>
  After \<open>write_to_db\<close> the account table of the database holds the accounts of the
  intra-block state: reading an address gives its current account, and a destructed one is
  gone.
\<close>

theorem write_to_db_commits_accounts:
  assumes "write_to_db in_memory n s = Inr d" and "hm_ok (objects s)"
  shows "ims_read_account d a = account_view in_memory s a"
  using write_to_db_accounts [OF assms] by (simp add: ims_read_account_def)

theorem write_to_db_commits_accounts_witness:
  "\<exists>d. write_to_db in_memory 3 sample_destroyed = Inr d \<and> ims_read_account d 1 = Inr None"
proof -
  obtain d where "write_to_db in_memory 3 sample_destroyed = Inr d"
    using write_to_db_writing [of sample_destroyed 3] sample_destroyed_ok sample_db_maps by auto
  moreover have "hm_ok (objects sample_destroyed)" by (simp add: sample_destroyed_def hm_ok_def)
  ultimately show ?thesis
    using write_to_db_commits_accounts [of 3 sample_destroyed d 1]
    by (auto simp: account_view_def sample_destroyed_def hm_get_Cons)
qed

text \<open>
  The change set of a contract that is destroyed and created again in one block is wrong:
  the slot the database held (7) is recorded as 0, because the end of the transaction gives
  the new committed value the default initial 0 and \<open>update_storage\<close> overwrites what
  \<open>erase_storage\<close> recorded; unwinding the block then loses the slot.
\<close>

theorem recreated_contract_loses_slot:
  "bind_r (destruct in_memory 1 (ibs_new sample_db)) (\<lambda>s.
   bind_r (run_ops in_memory (\<lambda>_. 0) [Op_CreateContract 1, Op_SetStorage 1 5 9] s) (\<lambda>s.
   bind_r (write_to_db in_memory 3 (finalize_transaction s)) (\<lambda>d.
     Inr (slot sample_db 1 5, slot d 1 5, slot (unwind_state_changes 3 d) 1 5)))) = Inr (7, 9, 0)"
  by code_simp

end
