(* ===== verification/Account_Codec.thy ===== *)
theory Account_Codec
  imports Models
begin

text \<open>
  Byte-string helpers of \<^verbatim>\<open>src/src/util.rs\<close> and the storage format of accounts of
  \<^verbatim>\<open>src/src/models/account.rs\<close>: a flag byte with the length of the nonce and a bit for
  the code hash, the nonce without leading zeros, the code hash when it is not the empty
  one, and the balance without leading zeros.  Lemmas: the padding functions keep the number
  a byte string denotes, encoding never overruns its fixed buffer, and decoding inverts it.
\<close>

section \<open>Padding (util.rs)\<close>

datatype codec_error = Codec_Error string | Codec_Panic

definition static_left_pad :: "nat \<Rightarrow> bytes \<Rightarrow> codec_error + bytes" where
  "static_left_pad len unpadded =
     (if length unpadded \<le> len then Inr (replicate (len - length unpadded) 0 @ unpadded)
      else Inl Codec_Panic)"

definition pad :: "bool \<Rightarrow> bytes \<Rightarrow> nat \<Rightarrow> bytes" where
  "pad is_left buffer min_size =
     (if length buffer \<ge> min_size then buffer
      else (let point = (if is_left then min_size - length buffer else 0);
                b = replicate min_size 0
            in take point b @ buffer @ drop (point + length buffer) b))"

definition left_pad :: "bytes \<Rightarrow> nat \<Rightarrow> bytes" where
  "left_pad buffer min_size = pad True buffer min_size"

definition right_pad :: "bytes \<Rightarrow> nat \<Rightarrow> bytes" where
  "right_pad buffer min_size = pad False buffer min_size"

definition u256_to_h256 :: "u256 \<Rightarrow> bytes" where
  "u256_to_h256 v = to_be 32 v"

definition h256_to_u256 :: "bytes \<Rightarrow> u256" where
  "h256_to_u256 v = of_be v"

section \<open>Accounts in storage (models/account.rs)\<close>

text \<open>\<open>bytes_to_u64\<close> writes into eight bytes from the end; a ninth byte is an index out of
  range.\<close>

definition bytes_to_u64 :: "bytes \<Rightarrow> codec_error + u64" where
  "bytes_to_u64 buf =
     (if length buf \<le> 8 then (let decoded = resize 8 0 (rev buf) in Inr (of_be (rev decoded)))
      else Inl Codec_Panic)"

text \<open>\<open>AccountStorageFlags\<close>: four bits of length, one bit for the code hash.\<close>

record account_storage_flags =
  nonce_len :: nat
  has_code_hash :: bool

definition flags_into_byte :: "account_storage_flags \<Rightarrow> u8" where
  "flags_into_byte f = word_of_nat (nonce_len f) OR (if has_code_hash f then push_bit 4 1 else 0)"

definition flags_from_byte :: "u8 \<Rightarrow> account_storage_flags" where
  "flags_from_byte b = \<lparr> nonce_len = unat (b AND 15), has_code_hash = bit b 4 \<rparr>"

definition MAX_ACCOUNT_LEN :: nat where
  "MAX_ACCOUNT_LEN = 1 + (1 + 32) + (1 + 32) + (1 + 8)"

definition write_compact :: "bytes \<Rightarrow> bytes" where
  "write_compact input = dropWhile (\<lambda>v. v = 0) input"

text \<open>\<open>try_extend_from_slice\<close> on the fixed-capacity buffer, unwrapped.\<close>

definition extend_buffer :: "nat \<Rightarrow> bytes \<Rightarrow> bytes \<Rightarrow> codec_error + bytes" where
  "extend_buffer cap src buffer =
     (if length buffer + length src \<le> cap then Inr (buffer @ src) else Inl Codec_Panic)"

definition encode_for_storage :: "account \<Rightarrow> codec_error + bytes" where
  "encode_for_storage a =
     (let fs = \<lparr> nonce_len = 0, has_code_hash = False \<rparr>;
          buffer = [0];
          b = write_compact (to_be 8 (acc_nonce a))
      in bind_r (if acc_nonce a \<noteq> 0
                 then bind_r (extend_buffer MAX_ACCOUNT_LEN b buffer)
                        (\<lambda>buffer. Inr (fs\<lparr> nonce_len := length b \<rparr>, buffer))
                 else Inr (fs, buffer)) (\<lambda>(fs, buffer).
         bind_r (if acc_code_hash a \<noteq> EMPTY_HASH
                 then bind_r (extend_buffer MAX_ACCOUNT_LEN (to_be 32 (acc_code_hash a)) buffer)
                        (\<lambda>buffer. Inr (fs\<lparr> has_code_hash := True \<rparr>, buffer))
                 else Inr (fs, buffer)) (\<lambda>(fs, buffer).
         bind_r (if acc_balance a \<noteq> 0
                 then extend_buffer MAX_ACCOUNT_LEN (write_compact (to_be 32 (acc_balance a))) buffer
                 else Inr buffer) (\<lambda>buffer.
           Inr (buffer[0 := flags_into_byte fs])))))"

text \<open>Slicing a byte string past its end is a panic.\<close>

definition split_bytes :: "nat \<Rightarrow> bytes \<Rightarrow> codec_error + bytes \<times> bytes" where
  "split_bytes n enc = (if n \<le> length enc then Inr (take n enc, drop n enc) else Inl Codec_Panic)"

definition decode_for_storage :: "bytes \<Rightarrow> codec_error + account option" where
  "decode_for_storage enc = (case enc of
       [] \<Rightarrow> Inr None
     | flag # enc \<Rightarrow>
         (let a = default_account; field_set = flags_from_byte flag;
              decode_length = nonce_len field_set
          in bind_r (if decode_length > 0
                     then bind_r (split_bytes decode_length enc) (\<lambda>(b, enc).
                            bind_r (bytes_to_u64 b) (\<lambda>n. Inr (a\<lparr> acc_nonce := n \<rparr>, enc)))
                     else Inr (a, enc)) (\<lambda>(a, enc).
             bind_r (if has_code_hash field_set
                     then bind_r (split_bytes KECCAK_LENGTH enc) (\<lambda>(h, enc).
                            Inr (a\<lparr> acc_code_hash := of_be h \<rparr>, enc))
                     else Inr (a, enc)) (\<lambda>(a, enc).
             if length enc > 32 then Inl (Codec_Error ''balance cannot be longer than 32 bytes'')
             else bind_r (static_left_pad 32 enc) (\<lambda>b.
               Inr (Some (a\<lparr> acc_balance := of_be b \<rparr>)))))))"

section \<open>Lemmas\<close>

lemma static_left_pad_value:
  "length b \<le> n \<Longrightarrow> bind_r (static_left_pad n b) (\<lambda>p. Inr (of_be p :: 'a::len word)) = Inr (of_be b)"
  by (simp add: static_left_pad_def of_be_zeros)

lemma bytes_to_u64_eq: "bytes_to_u64 b = (if length b \<le> 8 then Inr (of_be b) else Inl Codec_Panic)"
  by (simp add: bytes_to_u64_def resize_def of_be_zeros)

lemma pad_shape:
  "left_pad b n = replicate (n - length b) 0 @ b" "right_pad b n = b @ replicate (n - length b) 0"
  by (auto simp: left_pad_def right_pad_def pad_def Let_def)

lemma flags_from_into:
  assumes "nonce_len f \<le> 8"
  shows "flags_from_byte (flags_into_byte f) = f"
proof -
  have "nonce_len f \<in> {0, 1, 2, 3, 4, 5, 6, 7, 8}" using assms by auto
  moreover have "f = \<lparr> nonce_len = nonce_len f, has_code_hash = has_code_hash f \<rparr>" by (cases f) simp
  moreover have "\<forall>n \<in> {0, 1, 2, 3, 4, 5, 6, 7, 8}. \<forall>c.
      flags_from_byte (flags_into_byte \<lparr> nonce_len = n, has_code_hash = c \<rparr>) = \<lparr> nonce_len = n, has_code_hash = c \<rparr>"
    by code_simp
  ultimately show ?thesis by metis
qed

lemma length_write_compact: "length (write_compact b) \<le> length b"
  by (simp add: write_compact_def length_dropWhile_le)

lemma of_be_write_compact:
  "LENGTH('a) \<le> 8 * n \<Longrightarrow> (of_be (write_compact (to_be n (w :: 'a::len word))) :: 'a word) = w"
  by (simp add: write_compact_def of_be_dropWhile_zero of_be_to_be)

lemma write_compact_nonempty:
  assumes "(w :: 'a::len word) \<noteq> 0" and "LENGTH('a) \<le> 8 * n"
  shows "write_compact (to_be n w) \<noteq> []"
proof
  assume "write_compact (to_be n w) = []"
  then have "of_be (write_compact (to_be n w)) = (0 :: 'a word)" by (simp add: of_be_def)
  with assms show False by (simp add: of_be_write_compact)
qed

text \<open>The encoding as one expression.\<close>

definition account_bytes :: "account \<Rightarrow> bytes" where
  "account_bytes a =
     (let b = (if acc_nonce a \<noteq> 0 then write_compact (to_be 8 (acc_nonce a)) else []);
          h = (if acc_code_hash a \<noteq> EMPTY_HASH then to_be 32 (acc_code_hash a) else []);
          v = (if acc_balance a \<noteq> 0 then write_compact (to_be 32 (acc_balance a)) else [])
      in flags_into_byte \<lparr> nonce_len = length b, has_code_hash = (acc_code_hash a \<noteq> EMPTY_HASH) \<rparr> # b @ h @ v)"

lemma encode_for_storage_eq: "encode_for_storage a = Inr (account_bytes a)"
proof -
  have "length (write_compact (to_be 8 (acc_nonce a))) \<le> 8" "length (write_compact (to_be 32 (acc_balance a))) \<le> 32"
    using length_write_compact by (metis length_to_be)+
  then show ?thesis
    by (simp add: encode_for_storage_def account_bytes_def Let_def extend_buffer_def MAX_ACCOUNT_LEN_def)
qed

lemma length_account_bytes: "length (account_bytes a) \<le> 73"
  using length_write_compact [of "to_be 8 (acc_nonce a)"] length_write_compact [of "to_be 32 (acc_balance a)"]
  by (simp add: account_bytes_def Let_def)

lemma decode_account_bytes: "decode_for_storage (account_bytes a) = Inr (Some a)"
proof -
  let ?b = "if acc_nonce a \<noteq> 0 then write_compact (to_be 8 (acc_nonce a)) else []"
  let ?h = "if acc_code_hash a \<noteq> EMPTY_HASH then to_be 32 (acc_code_hash a) else []"
  let ?v = "if acc_balance a \<noteq> 0 then write_compact (to_be 32 (acc_balance a)) else []"
  have len: "length (write_compact (to_be 8 (acc_nonce a))) \<le> 8" "length (write_compact (to_be 32 (acc_balance a))) \<le> 32"
    using length_write_compact by (metis length_to_be)+
  then have fl: "flags_from_byte (flags_into_byte \<lparr> nonce_len = length ?b, has_code_hash = c \<rparr>)
      = \<lparr> nonce_len = length ?b, has_code_hash = c \<rparr>" for c
    by (intro flags_from_into) simp
  have v: "of_be ?v = acc_balance a" by (simp add: of_be_write_compact) (simp add: of_be_def)
  have n: "acc_nonce a \<noteq> 0 \<Longrightarrow> write_compact (to_be 8 (acc_nonce a)) \<noteq> []"
    by (simp add: write_compact_nonempty)
  have "decode_for_storage (account_bytes a) = Inr (Some \<lparr> acc_nonce = acc_nonce a, acc_balance = of_be ?v,
      acc_code_hash = acc_code_hash a \<rparr>)"
    using len n unfolding account_bytes_def Let_def decode_for_storage_def list.case fl
    by (auto simp: split_bytes_def bytes_to_u64_eq of_be_write_compact of_be_to_be KECCAK_LENGTH_def
        static_left_pad_def of_be_zeros default_account_def)
  then show ?thesis unfolding v by simp
qed

text \<open>
  Decoding an encoded account gives the account back, and encoding never fails: the
  encoding fits the fixed buffer with room to spare.
\<close>

theorem account_storage_roundtrip:
  "\<exists>enc. encode_for_storage a = Inr enc \<and> length enc \<le> MAX_ACCOUNT_LEN \<and> decode_for_storage enc = Inr (Some a)"
  using length_account_bytes [of a] decode_account_bytes [of a]
  by (simp add: encode_for_storage_eq MAX_ACCOUNT_LEN_def)

text \<open>
  Decoding never yields a value for a malformed account: a nonce length above eight, a
  nonce or a code hash past the end of the input are panics, and a balance of more than 32
  bytes is an error; every other input decodes.
\<close>

theorem decode_for_storage_errors:
  "decode_for_storage enc = (case enc of [] \<Rightarrow> Inr None | flag # rest \<Rightarrow>
     (let n = nonce_len (flags_from_byte flag); h = (if has_code_hash (flags_from_byte flag) then 32 else 0)
      in if n > length rest \<or> n > 8 \<or> n + h > length rest then Inl Codec_Panic
         else if n + h + 32 < length rest then Inl (Codec_Error ''balance cannot be longer than 32 bytes'')
         else Inr (Some \<lparr> acc_nonce = of_be (take n rest), acc_balance = of_be (drop (n + h) rest),
           acc_code_hash = (if h = 0 then EMPTY_HASH else of_be (take 32 (drop n rest))) \<rparr>)))"
proof (cases enc)
  case Nil
  then show ?thesis by (simp add: decode_for_storage_def)
next
  case (Cons flag rest)
  have "of_be [] = (0 :: u64)" by (simp add: of_be_def)
  then show ?thesis unfolding Cons decode_for_storage_def list.case Let_def
    by (auto simp: split_bytes_def bytes_to_u64_eq KECCAK_LENGTH_def
        static_left_pad_def of_be_zeros of_be_zeros [where bs = "[]", simplified] default_account_def add.commute)
qed

end
