(* ===== verification/Chain_Spec.thy ===== *)
theory Chain_Spec
  imports Models
begin

text \<open>
  Chain configuration: the fee schedule and protocol parameters of
  \<^verbatim>\<open>src/src/chain/protocol_param.rs\<close>, the intrinsic gas of
  \<^verbatim>\<open>src/src/chain/intrinsic_gas.rs\<close>, and the chain specification of
  \<^verbatim>\<open>src/src/models/chainspec.rs\<close> with the queries on it.  A \<open>BTreeMap\<close> is its list of
  entries by ascending key, a \<open>BTreeSet\<close> its ascending list.  Lemmas: the intrinsic gas is
  the sum of its parts and does not wrap, the revision of a block is the latest fork it has
  reached, and the delay of the difficulty bomb is the last one activated.
\<close>

section \<open>Protocol parameters (chain/protocol_param.rs)\<close>

definition G_SLOAD_TANGERINE_WHISTLE :: u64 where "G_SLOAD_TANGERINE_WHISTLE = 200"
definition G_SLOAD_ISTANBUL :: u64 where "G_SLOAD_ISTANBUL = 800"
definition WARM_STORAGE_READ_COST :: u64 where "WARM_STORAGE_READ_COST = 100"
definition COLD_SLOAD_COST :: u64 where "COLD_SLOAD_COST = 2100"
definition ACCESS_LIST_STORAGE_KEY_COST :: u64 where "ACCESS_LIST_STORAGE_KEY_COST = 1900"
definition ACCESS_LIST_ADDRESS_COST :: u64 where "ACCESS_LIST_ADDRESS_COST = 2400"
definition G_SSET :: u64 where "G_SSET = 20000"
definition G_SRESET :: u64 where "G_SRESET = 5000"
definition R_SCLEAR :: u64 where "R_SCLEAR = 15000"
definition R_SELF_DESTRUCT :: u64 where "R_SELF_DESTRUCT = 24000"
definition G_CODE_DEPOSIT :: u64 where "G_CODE_DEPOSIT = 200"
definition G_TX_CREATE :: u64 where "G_TX_CREATE = 32000"
definition G_TX_DATA_ZERO :: u64 where "G_TX_DATA_ZERO = 4"
definition G_TX_DATA_NON_ZERO_FRONTIER :: u64 where "G_TX_DATA_NON_ZERO_FRONTIER = 68"
definition G_TX_DATA_NON_ZERO_ISTANBUL :: u64 where "G_TX_DATA_NON_ZERO_ISTANBUL = 16"
definition G_TRANSACTION :: u64 where "G_TRANSACTION = 21000"

definition MAX_CODE_SIZE :: nat where "MAX_CODE_SIZE = 0x6000"
definition BLOCK_REWARD_FRONTIER :: u128 where "BLOCK_REWARD_FRONTIER = 5 * ETHER"
definition BLOCK_REWARD_BYZANTIUM :: u128 where "BLOCK_REWARD_BYZANTIUM = 3 * ETHER"
definition BLOCK_REWARD_CONSTANTINOPLE :: u128 where "BLOCK_REWARD_CONSTANTINOPLE = 2 * ETHER"
definition G_QUAD_DIVISOR_BYZANTIUM :: u64 where "G_QUAD_DIVISOR_BYZANTIUM = 20"
definition G_QUAD_DIVISOR_BERLIN :: u64 where "G_QUAD_DIVISOR_BERLIN = 3"
definition MAX_REFUND_QUOTIENT_FRONTIER :: u64 where "MAX_REFUND_QUOTIENT_FRONTIER = 2"
definition MAX_REFUND_QUOTIENT_LONDON :: u64 where "MAX_REFUND_QUOTIENT_LONDON = 5"
definition INITIAL_BASE_FEE :: u64 where "INITIAL_BASE_FEE = 1000000000"
definition BASE_FEE_MAX_CHANGE_DENOMINATOR :: u64 where "BASE_FEE_MAX_CHANGE_DENOMINATOR = 8"
definition ELASTICITY_MULTIPLIER :: u64 where "ELASTICITY_MULTIPLIER = 2"

lemmas fee_defs = G_SLOAD_TANGERINE_WHISTLE_def G_SLOAD_ISTANBUL_def WARM_STORAGE_READ_COST_def
  COLD_SLOAD_COST_def ACCESS_LIST_STORAGE_KEY_COST_def ACCESS_LIST_ADDRESS_COST_def G_SSET_def
  G_SRESET_def R_SCLEAR_def R_SELF_DESTRUCT_def G_CODE_DEPOSIT_def G_TX_CREATE_def G_TX_DATA_ZERO_def
  G_TX_DATA_NON_ZERO_FRONTIER_def G_TX_DATA_NON_ZERO_ISTANBUL_def G_TRANSACTION_def

lemmas param_defs = MAX_CODE_SIZE_def MAX_REFUND_QUOTIENT_FRONTIER_def MAX_REFUND_QUOTIENT_LONDON_def
  INITIAL_BASE_FEE_def BASE_FEE_MAX_CHANGE_DENOMINATOR_def ELASTICITY_MULTIPLIER_def

section \<open>Intrinsic gas (chain/intrinsic_gas.rs)\<close>

definition intrinsic_gas :: "message \<Rightarrow> bool \<Rightarrow> bool \<Rightarrow> u128" where
  "intrinsic_gas txn homestead istanbul =
     (let gas = ucast G_TRANSACTION :: u128;
          gas = (if msg_action txn = Create \<and> homestead then gas + ucast G_TX_CREATE else gas);
          gas = gas + of_nat (length (msg_access_list txn)) * ucast ACCESS_LIST_ADDRESS_COST;
          gas = fold (\<lambda>e gas. gas + of_nat (length (ali_slots e)) * ucast ACCESS_LIST_STORAGE_KEY_COST)
                  (msg_access_list txn) gas
      in if msg_input txn = [] then gas
         else (let non_zero_bytes = of_nat (length (filter (\<lambda>c. c \<noteq> 0) (msg_input txn)));
                   non_zero_gas = ucast (if istanbul then G_TX_DATA_NON_ZERO_ISTANBUL
                                         else G_TX_DATA_NON_ZERO_FRONTIER);
                   gas = gas + non_zero_bytes * non_zero_gas;
                   zero_bytes = of_nat (length (msg_input txn)) - non_zero_bytes
               in gas + zero_bytes * ucast G_TX_DATA_ZERO))"

text \<open>The same sum on natural numbers.\<close>

definition intrinsic_gas_sum :: "message \<Rightarrow> bool \<Rightarrow> bool \<Rightarrow> nat" where
  "intrinsic_gas_sum txn homestead istanbul =
     21000 + (if msg_action txn = Create \<and> homestead then 32000 else 0)
     + 2400 * length (msg_access_list txn)
     + 1900 * sum_list (map (\<lambda>e. length (ali_slots e)) (msg_access_list txn))
     + (if istanbul then 16 else 68) * length (filter (\<lambda>c. c \<noteq> 0) (msg_input txn))
     + 4 * length (filter (\<lambda>c. c = 0) (msg_input txn))"

lemma fold_slots_word:
  "fold (\<lambda>e gas. gas + of_nat (length (ali_slots e)) * c) l (g :: u128)
   = g + of_nat (sum_list (map (\<lambda>e. length (ali_slots e)) l)) * c"
  by (induction l arbitrary: g) (simp_all add: algebra_simps)

lemma length_zero_nonzero:
  "length xs = length (filter (\<lambda>c. c \<noteq> 0) xs) + length (filter (\<lambda>c. c = 0) xs)"
  using sum_length_filter_compl [of "\<lambda>c. c \<noteq> 0" xs] by simp

lemma intrinsic_gas_of_nat:
  "intrinsic_gas txn homestead istanbul = of_nat (intrinsic_gas_sum txn homestead istanbul)"
proof -
  define nz z where "nz = length (filter (\<lambda>c. c \<noteq> 0) (msg_input txn))"
    and "z = length (filter (\<lambda>c. c = 0) (msg_input txn))"
  have len: "length (msg_input txn) = nz + z"
    unfolding nz_def z_def by (rule length_zero_nonzero)
  have empty: "msg_input txn = [] \<longleftrightarrow> nz = 0 \<and> z = 0" using len by (metis add_is_0 length_0_conv)
  show ?thesis
    unfolding intrinsic_gas_def intrinsic_gas_sum_def Let_def fold_slots_word fee_defs
      nz_def [symmetric] z_def [symmetric] len
    by (cases "msg_input txn = []") (simp_all add: empty)
qed

section \<open>Revisions\<close>

text \<open>\<open>evmodin::Revision\<close>, whose order is the order of the releases.\<close>

datatype revision = Frontier | Homestead | Tangerine | Spurious | Byzantium | Constantinople
  | Petersburg | Istanbul | Berlin | London | Shanghai

primrec rev_index :: "revision \<Rightarrow> nat" where
  "rev_index Frontier = 0"
| "rev_index Homestead = 1"
| "rev_index Tangerine = 2"
| "rev_index Spurious = 3"
| "rev_index Byzantium = 4"
| "rev_index Constantinople = 5"
| "rev_index Petersburg = 6"
| "rev_index Istanbul = 7"
| "rev_index Berlin = 8"
| "rev_index London = 9"
| "rev_index Shanghai = 10"

lemma rev_index_inject: "rev_index a = rev_index b \<longleftrightarrow> a = b"
  by (cases a; cases b) auto

instantiation revision :: linorder
begin

definition less_eq_revision :: "revision \<Rightarrow> revision \<Rightarrow> bool" where
  "less_eq_revision a b \<longleftrightarrow> rev_index a \<le> rev_index b"

definition less_revision :: "revision \<Rightarrow> revision \<Rightarrow> bool" where
  "less_revision a b \<longleftrightarrow> rev_index a < rev_index b"

instance
  by standard (auto simp: less_eq_revision_def less_revision_def rev_index_inject)

end

section \<open>The chain specification (models/chainspec.rs)\<close>

type_synonym ('k, 'v) btree_map = "('k \<times> 'v) list"

record upgrades =
  up_homestead :: "block_number option"
  up_tangerine :: "block_number option"
  up_spurious :: "block_number option"
  up_byzantium :: "block_number option"
  up_constantinople :: "block_number option"
  up_petersburg :: "block_number option"
  up_istanbul :: "block_number option"
  up_berlin :: "block_number option"
  up_london :: "block_number option"

record params =
  pa_chain_id :: chain_id
  pa_network_id :: u64
  pa_min_gas_limit :: u64

record difficulty_bomb =
  delays :: "(block_number, block_number) btree_map"

datatype seal_verification_params =
  Clique_params u64 u64
| Ethash_params u64 "(block_number, u256) btree_map" "block_number option" "block_number option"
    "difficulty_bomb option" bool

record consensus_params =
  seal_verification :: seal_verification_params
  eip1559_block :: "block_number option"

datatype mod_exp_version = ModExp198 | ModExp2565

datatype precompile_spec =
  EcRecover u64 u64 | Sha256 u64 u64 | Ripemd160 u64 u64 | Identity u64 u64
| ModExp mod_exp_version | AltBn128Add u64 | AltBn128Mul u64 | AltBn128Pairing u64 u64 | Blake2F u64

datatype contract = Contract_code bytes | Precompile precompile_spec

datatype block_score = NoTurn | InTurn

datatype seal = Ethash_seal bytes u256 h64 h256 | Clique_seal h256 block_score "address list"

fun seal_difficulty :: "seal \<Rightarrow> u256" where
  "seal_difficulty (Ethash_seal vanity d nonce mix_hash) = d"
| "seal_difficulty (Clique_seal vanity score signers) = (case score of NoTurn \<Rightarrow> 1 | InTurn \<Rightarrow> 2)"

fun seal_extra_data :: "seal \<Rightarrow> bytes" where
  "seal_extra_data (Ethash_seal vanity d nonce mix_hash) = vanity"
| "seal_extra_data (Clique_seal vanity score signers) =
     to_be 32 vanity @ concat (map (to_be 20) signers) @ replicate 65 0"

fun seal_mix_hash :: "seal \<Rightarrow> h256" where
  "seal_mix_hash (Ethash_seal vanity d nonce mix_hash) = mix_hash"
| "seal_mix_hash (Clique_seal vanity score signers) = 0"

fun seal_nonce :: "seal \<Rightarrow> h64" where
  "seal_nonce (Ethash_seal vanity d nonce mix_hash) = nonce"
| "seal_nonce (Clique_seal vanity score signers) = 0"

record genesis =
  ge_number :: block_number
  ge_author :: address
  ge_gas_limit :: u64
  ge_timestamp :: u64
  ge_seal :: seal

record p2p_params =
  bootnodes :: "string list"
  preverified_hashes :: "h256 list"

record chain_spec =
  cs_name :: string
  cs_consensus :: consensus_params
  cs_upgrades :: upgrades
  cs_params :: params
  cs_genesis :: genesis
  cs_contracts :: "(block_number, (address, contract) hash_map) btree_map"
  cs_balances :: "(block_number, (address, u256) hash_map) btree_map"
  cs_p2p :: p2p_params

record block_execution_spec =
  bes_revision :: revision
  active_transitions :: "revision hash_set"
  bes_params :: params
  system_contract_changes :: "(address, contract) hash_map"
  balance_changes :: "(address, u256) hash_map"

text \<open>The fork list in the order of the loop, and the loop with its \<open>break\<close>.\<close>

definition fork_table :: "upgrades \<Rightarrow> (block_number option \<times> revision) list" where
  "fork_table u = [(up_london u, London), (up_berlin u, Berlin), (up_istanbul u, Istanbul),
     (up_petersburg u, Petersburg), (up_constantinople u, Constantinople),
     (up_byzantium u, Byzantium), (up_spurious u, Spurious), (up_tangerine u, Tangerine),
     (up_homestead u, Homestead)]"

fun scan_forks ::
  "block_number \<Rightarrow> (block_number option \<times> revision) list \<Rightarrow> revision \<Rightarrow> revision hash_set \<Rightarrow>
   revision \<times> revision hash_set" where
  "scan_forks n [] current active = (current, active)"
| "scan_forks n ((fork, r) # forks) current active = (case fork of
       Some fork_block \<Rightarrow>
         (if n \<ge> fork_block then
            (if current = Frontier then r else current,
             if n = fork_block then hs_insert r active else active)
          else scan_forks n forks current active)
     | None \<Rightarrow> scan_forks n forks current active)"

definition collect_block_spec :: "chain_spec \<Rightarrow> block_number \<Rightarrow> block_execution_spec" where
  "collect_block_spec cs n =
     (let (current, active) = scan_forks n (fork_table (cs_upgrades cs)) Frontier []
      in \<lparr> bes_revision = current, active_transitions = active, bes_params = cs_params cs,
           system_contract_changes = fold (\<lambda>(bn, contracts) acc.
               if n \<ge> bn then fold (\<lambda>(addr, c). hm_insert addr c) contracts acc else acc)
             (cs_contracts cs) [],
           balance_changes = (case map_of (cs_balances cs) n of Some m \<Rightarrow> m | None \<Rightarrow> []) \<rparr>)"

definition opt_list :: "'a option \<Rightarrow> 'a list" where
  "opt_list x = (case x of None \<Rightarrow> [] | Some v \<Rightarrow> [v])"

definition btree_set :: "'a::linorder list \<Rightarrow> 'a list" where
  "btree_set xs = sort (remdups xs)"

fun seal_gather_forks :: "seal_verification_params \<Rightarrow> block_number list" where
  "seal_gather_forks (Ethash_params dl block_reward homestead_formula byzantium_formula bomb skip) =
     btree_set (map fst block_reward @ opt_list homestead_formula @ opt_list byzantium_formula
       @ (case bomb of Some v \<Rightarrow> map fst (delays v) | None \<Rightarrow> []))"
| "seal_gather_forks (Clique_params _ _) = []"

definition gather_forks :: "chain_spec \<Rightarrow> block_number list" where
  "gather_forks cs =
     (let u = cs_upgrades cs;
          forks = btree_set (concat (map opt_list [up_homestead u, up_tangerine u, up_spurious u,
              up_byzantium u, up_constantinople u, up_petersburg u, up_istanbul u, up_berlin u, up_london u])
            @ opt_list (eip1559_block (cs_consensus cs))
            @ seal_gather_forks (seal_verification (cs_consensus cs))
            @ map fst (cs_contracts cs) @ map fst (cs_balances cs))
      in filter (\<lambda>n. n \<noteq> 0) forks)"

definition get_delay_to :: "difficulty_bomb \<Rightarrow> block_number \<Rightarrow> block_number" where
  "get_delay_to bomb n =
     (let active = List.map_filter (\<lambda>(activation, delay_to). if n \<ge> activation then Some delay_to else None)
            (delays bomb)
      in if active = [] then 0 else last active)"

definition switch_is_active :: "block_number option \<Rightarrow> block_number \<Rightarrow> bool" where
  "switch_is_active switch n \<longleftrightarrow> n \<ge> (case switch of Some s \<Rightarrow> s | None \<Rightarrow> - 1)"

section \<open>Properties\<close>

text \<open>
  The intrinsic gas of a transaction is the sum of the base cost, the creation cost, the
  access list costs and the data costs: the 128-bit computation does not wrap for any
  message whose input and access list fit in memory.
\<close>

theorem intrinsic_gas_exact:
  assumes "length (msg_input txn) < 2 ^ 64" and "length (msg_access_list txn) < 2 ^ 64"
    and "sum_list (map (\<lambda>e. length (ali_slots e)) (msg_access_list txn)) < 2 ^ 64"
  shows "unat (intrinsic_gas txn homestead istanbul) = intrinsic_gas_sum txn homestead istanbul"
proof -
  define nz z sl al where "nz = length (filter (\<lambda>c. c \<noteq> 0) (msg_input txn))"
    and "z = length (filter (\<lambda>c. c = 0) (msg_input txn))"
    and "sl = sum_list (map (\<lambda>e. length (ali_slots e)) (msg_access_list txn))"
    and "al = length (msg_access_list txn)"
  have "nz < 2 ^ 64" "z < 2 ^ 64" "sl < 2 ^ 64" "al < 2 ^ 64"
    using assms length_zero_nonzero [of "msg_input txn"] unfolding nz_def z_def sl_def al_def by linarith+
  then have "intrinsic_gas_sum txn homestead istanbul < 2 ^ 128"
    unfolding intrinsic_gas_sum_def nz_def [symmetric] z_def [symmetric] sl_def [symmetric] al_def [symmetric]
    by simp
  then show ?thesis by (simp add: intrinsic_gas_of_nat unat_of_nat)
qed

theorem intrinsic_gas_exact_witness:
  "unat (intrinsic_gas (Legacy None 0 0 0 Create 0 [1, 0, 2]) True True) = 53036"
  using intrinsic_gas_exact [of "Legacy None 0 0 0 Create 0 [1, 0, 2]" True True]
  by (simp add: intrinsic_gas_sum_def)

text \<open>The scan stops at the first fork reached, which is the latest one.\<close>

lemma scan_forks_found:
  assumes "sorted (rev (map snd forks))" and "Frontier \<notin> set (map snd forks)"
  shows "fst (scan_forks n forks Frontier []) = Max (insert Frontier {r. \<exists>b. (Some b, r) \<in> set forks \<and> b \<le> n})"
  using assms
proof (induction forks)
  case Nil
  then show ?case by simp
next
  case (Cons x forks)
  obtain fork r where x: "x = (fork, r)" by (cases x)
  let ?S = "\<lambda>forks. {r. \<exists>b. (Some b, r) \<in> set forks \<and> b \<le> n}"
  have le: "r' \<le> r" if "r' \<in> set (map snd forks)" for r'
    using Cons.prems(1) that x by (auto simp: sorted_append)
  have fin: "finite (?S forks')" for forks'
    by (rule finite_subset [of _ "snd ` set forks'"]) force+
  show ?case
  proof (cases "\<exists>b. fork = Some b \<and> b \<le> n")
    case True
    have "r' \<le> r" if "r' \<in> insert Frontier (?S (x # forks))" for r'
    proof -
      have "Frontier \<le> r" by (simp add: less_eq_revision_def)
      moreover have "r' \<le> r" if "(Some b, r') \<in> set forks" for b using le [of r'] that by force
      ultimately show ?thesis using \<open>r' \<in> insert Frontier (?S (x # forks))\<close> x by auto
    qed
    moreover have "r \<in> insert Frontier (?S (x # forks))" using True x by auto
    ultimately have "Max (insert Frontier (?S (x # forks))) = r"
      by (intro Max_eqI finite.insertI fin)
    with True x show ?thesis by auto
  next
    case False
    then have "?S (x # forks) = ?S forks" using x by auto
    moreover have "scan_forks n (x # forks) Frontier [] = scan_forks n forks Frontier []"
      using False x by (auto split: option.splits)
    ultimately show ?thesis using Cons by (auto simp: sorted_append)
  qed
qed

text \<open>
  The revision a block executes under is the latest fork whose activation block it has
  reached, whatever order the activation blocks have, and \<open>Frontier\<close> when it has reached
  none.
\<close>

theorem collect_block_spec_revision:
  "bes_revision (collect_block_spec cs n) =
     Max (insert Frontier {r. \<exists>b. (Some b, r) \<in> set (fork_table (cs_upgrades cs)) \<and> b \<le> n})"
proof -
  have "sorted (rev (map snd (fork_table (cs_upgrades cs))))"
    by (simp add: fork_table_def less_eq_revision_def)
  moreover have "Frontier \<notin> set (map snd (fork_table (cs_upgrades cs)))"
    by (simp add: fork_table_def)
  ultimately show ?thesis
    using scan_forks_found by (simp add: collect_block_spec_def case_prod_beta Let_def)
qed

text \<open>
  The delay of the difficulty bomb at a block is the one with the greatest activation
  block not above it, and 0 before the first.
\<close>

theorem get_delay_to_latest:
  assumes "sorted (map fst (delays bomb))" and "distinct (map fst (delays bomb))"
    and "(a, d) \<in> set (delays bomb)" and "a \<le> n" and "\<forall>(b, e) \<in> set (delays bomb). b \<le> n \<longrightarrow> b \<le> a"
  shows "get_delay_to bomb n = d"
proof -
  obtain pre post where split: "delays bomb = pre @ (a, d) # post" using assms(3) split_list by metis
  have post: "b > n" if "(b, e) \<in> set post" for b e
  proof (rule ccontr)
    assume "\<not> b > n"
    moreover have "b \<in> fst ` set post" using that by force
    then have "a \<le> b" "a \<noteq> b" using assms(1,2) unfolding split by (auto simp: sorted_append)
    moreover have "(b, e) \<in> set (delays bomb)" using that split by simp
    ultimately show False using assms(5) by (auto dest!: bspec)
  qed
  let ?f = "\<lambda>(activation, delay_to). if n \<ge> activation then Some delay_to else None"
  have "List.map_filter ?f post = []"
    using post by (fastforce simp: List.map_filter_def filter_empty_conv)
  then have "List.map_filter ?f (delays bomb) = List.map_filter ?f pre @ [d]"
    using assms(4) by (simp add: split List.map_filter_def)
  then show ?thesis by (simp add: get_delay_to_def)
qed

theorem get_delay_to_latest_witness:
  "get_delay_to \<lparr> delays = [(10, 3), (20, 5), (30, 9)] \<rparr> 25 = 5"
  using get_delay_to_latest [of "\<lparr> delays = [(10, 3), (20, 5), (30, 9)] \<rparr>" 20 5 25] by simp

text \<open>
  \<open>gather_forks\<close> lists every activation block above zero once, in ascending order.
\<close>

theorem gather_forks_sorted:
  "sorted (gather_forks cs) \<and> distinct (gather_forks cs) \<and> 0 \<notin> set (gather_forks cs) \<and>
   {b. b \<noteq> 0 \<and> (\<exists>r. (Some b, r) \<in> set (fork_table (cs_upgrades cs)))} \<subseteq> set (gather_forks cs)"
proof -
  have "b \<in> set (gather_forks cs)" if "(Some b, r) \<in> set (fork_table (cs_upgrades cs))" "b \<noteq> 0" for b r
    using that by (auto simp: gather_forks_def Let_def btree_set_def fork_table_def opt_list_def)
  then show ?thesis
    by (auto simp: gather_forks_def Let_def btree_set_def intro: sorted_filter [where f = id, simplified])
qed

end
