(* ===== verification/Evm.thy ===== *)
theory Evm
  imports Chain_Spec Journal_Undo
begin

text \<open>
  The host side of the EVM, \<^verbatim>\<open>src/src/execution/evm.rs\<close>, and the contract addresses of
  \<^verbatim>\<open>src/src/execution/address.rs\<close>.  The byte-code interpreter is the \<open>evmodin\<close> crate: it
  is the parameter \<open>I\<close>, a machine that stops at every request to the host (an
  \<open>interrupt\<close>) and is resumed with the answer.  The host answers every request on the
  intra-block state, and calls and creations run the interpreter again.  The loop over
  interrupts is bounded by a fuel argument, since nothing here limits how many requests a
  program makes; running out is the error \<open>OutOfFuel\<close>, which no theorem confuses with a
  result.  The tracer (a debugging aid) and the cache of code analyses (a function of the
  code, looked up by its hash) leave no trace in the state and are not modelled.
\<close>

section \<open>Messages\<close>

text \<open>The gas of a message and of an output is an \<open>i64\<close>; it is kept as an integer.\<close>

datatype status_code = Success | Failure | Revert | OutOfGas | InvalidInstruction
  | InsufficientBalance | ContractValidationFailure | PrecompileFailure | OtherStatus nat

datatype call_kind = CK_Call | CK_DelegateCall | CK_CallCode

record evm_message =
  em_kind :: call_kind
  em_is_static :: bool
  em_depth :: int
  em_gas :: int
  em_recipient :: address
  em_code_address :: address
  em_sender :: address
  em_input_data :: bytes
  em_value :: u256

record create_message =
  cm_depth :: int
  cm_gas :: int
  cm_sender :: address
  cm_initcode :: bytes
  cm_endowment :: u256
  cm_salt :: "u256 option"

record evm_output =
  out_status_code :: status_code
  out_gas_left :: int
  out_output_data :: bytes
  out_create_address :: "address option"

datatype storage_status = Unchanged | Added | Deleted | Modified | ModifiedAgain

record tx_context =
  tc_tx_gas_price :: u256
  tc_tx_origin :: address
  tc_block_coinbase :: address
  tc_block_number :: u64
  tc_block_timestamp :: u64
  tc_block_gas_limit :: u64
  tc_block_difficulty :: u256
  tc_chain_id :: u256
  tc_block_base_fee :: u256

text \<open>The requests of the interpreter, each with the continuation \<open>'k\<close>, and the answers.\<close>

datatype 'k interrupt =
  I_InstructionStart
| I_AccountExists address 'k
| I_GetBalance address 'k
| I_GetCodeSize address 'k
| I_GetStorage address u256 'k
| I_SetStorage address u256 u256 'k
| I_GetCodeHash address 'k
| I_CopyCode address nat nat 'k
| I_Selfdestruct address address 'k
| I_Create create_message 'k
| I_Call evm_message 'k
| I_GetTxContext 'k
| I_GetBlockHash u64 'k
| I_EmitLog address bytes "u256 list" 'k
| I_AccessAccount address 'k
| I_AccessStorage address u256 'k
| I_Complete "status_code + evm_output"

datatype resume_data =
  R_Unit
| R_AccountExists bool
| R_Balance u256
| R_CodeSize u256
| R_StorageValue u256
| R_StorageStatus storage_status
| R_CodeHash u256
| R_Code bytes
| R_CallOutput evm_output
| R_TxContext tx_context
| R_BlockHash u256
| R_AccessAccount access_status
| R_AccessStorage access_status

record 'k interpreter =
  execute_resumable :: "bytes \<Rightarrow> evm_message \<Rightarrow> revision \<Rightarrow> 'k interrupt"
  resume :: "'k \<Rightarrow> resume_data \<Rightarrow> 'k interrupt"

text \<open>The fields of \<open>Evm\<close> that do not change, with the functions of other crates: the
  Keccak hash and the \<open>rlp\<close> encoding of an address and a nonce.  The precompiled contracts
  are a table of gas and run functions, by their number.\<close>

record evm_env =
  ev_header :: partial_header
  ev_block_spec :: block_execution_spec
  ev_txn :: message_with_sender
  ev_keccak :: "bytes \<Rightarrow> h256"
  ev_rlp_caller_nonce :: "address \<Rightarrow> u64 \<Rightarrow> bytes"
  ev_contract_gas :: "nat \<Rightarrow> bytes \<Rightarrow> revision \<Rightarrow> u64 option"
  ev_contract_run :: "nat \<Rightarrow> bytes \<Rightarrow> bytes option"

abbreviation ev_revision :: "evm_env \<Rightarrow> revision" where
  "ev_revision V \<equiv> bes_revision (ev_block_spec V)"

section \<open>Addresses (execution/address.rs)\<close>

definition address_of_hash :: "h256 \<Rightarrow> address" where
  "address_of_hash h = of_be (drop 12 (to_be 32 h))"

definition create_address :: "evm_env \<Rightarrow> address \<Rightarrow> u64 \<Rightarrow> address" where
  "create_address V caller nonce = address_of_hash (ev_keccak V (ev_rlp_caller_nonce V caller nonce))"

definition create2_address :: "evm_env \<Rightarrow> address \<Rightarrow> u256 \<Rightarrow> h256 \<Rightarrow> address" where
  "create2_address V caller salt code_hash =
     address_of_hash (ev_keccak V (0xff # to_be 20 caller @ to_be 32 salt @ to_be 32 code_hash))"

section \<open>Precompiled contracts\<close>

definition NUM_OF_FRONTIER_CONTRACTS :: nat where "NUM_OF_FRONTIER_CONTRACTS = 4"
definition NUM_OF_BYZANTIUM_CONTRACTS :: nat where "NUM_OF_BYZANTIUM_CONTRACTS = 8"
definition NUM_OF_ISTANBUL_CONTRACTS :: nat where "NUM_OF_ISTANBUL_CONTRACTS = 9"

definition number_of_precompiles :: "revision \<Rightarrow> nat" where
  "number_of_precompiles r =
     (if r \<in> {Frontier, Homestead, Tangerine, Spurious} then NUM_OF_FRONTIER_CONTRACTS
      else if r \<in> {Byzantium, Constantinople, Petersburg} then NUM_OF_BYZANTIUM_CONTRACTS
      else NUM_OF_ISTANBUL_CONTRACTS)"

definition is_precompiled :: "revision \<Rightarrow> address \<Rightarrow> bool" where
  "is_precompiled r contract =
     (if contract = 0 then False else contract \<le> of_nat (number_of_precompiles r))"

text \<open>The last byte of the address selects the contract.\<close>

definition run_precompiled :: "evm_env \<Rightarrow> evm_message \<Rightarrow> evm_output \<Rightarrow> evm_output" where
  "run_precompiled V message res =
     (let num = unat (last (to_be 20 (em_code_address message)));
          input = em_input_data message
      in case ev_contract_gas V num input (ev_revision V) of
           Some g \<Rightarrow>
             (if unat g < 2 ^ 63 then
                if int (unat g) > em_gas message then res\<lparr> out_status_code := OutOfGas \<rparr>
                else (case ev_contract_run V num input of
                    Some result \<Rightarrow> res\<lparr> out_status_code := Success,
                      out_gas_left := em_gas message - int (unat g), out_output_data := result \<rparr>
                  | None \<Rightarrow> res\<lparr> out_status_code := PrecompileFailure \<rparr>)
              else res\<lparr> out_status_code := OutOfGas \<rparr>)
         | None \<Rightarrow> res\<lparr> out_status_code := OutOfGas \<rparr>)"

section \<open>Creation and calls\<close>

text \<open>\<open>exec\<close> runs a message on a code; the loop below provides it.\<close>

type_synonym 'db exec = "evm_message \<Rightarrow> bytes \<Rightarrow> 'db ibs \<Rightarrow> exec_error + evm_output \<times> 'db ibs"

definition deploy_code ::
  "'db state_trait \<Rightarrow> evm_env \<Rightarrow> address \<Rightarrow> evm_output \<Rightarrow> 'db ibs \<Rightarrow> exec_error + evm_output \<times> 'db ibs" where
  "deploy_code T V contract_addr res s =
     (if out_status_code res = Success then
        (let code_len = length (out_output_data res);
             code_deploy_gas = of_nat code_len * G_CODE_DEPOSIT :: u64;
             r = ev_revision V
         in if r \<ge> London \<and> code_len > 0 \<and> out_output_data res ! 0 = 0xEF
            then Inr (res\<lparr> out_status_code := ContractValidationFailure \<rparr>, s)
            else if r \<ge> Spurious \<and> code_len > MAX_CODE_SIZE
            then Inr (res\<lparr> out_status_code := OutOfGas \<rparr>, s)
            else if out_gas_left res \<ge> 0 \<and> word_of_int (out_gas_left res) \<ge> code_deploy_gas
            then bind_r (set_code T (ev_keccak V) contract_addr (out_output_data res) s) (\<lambda>s.
                   Inr (res\<lparr> out_gas_left := out_gas_left res - sint code_deploy_gas \<rparr>, s))
            else if r \<ge> Homestead then Inr (res\<lparr> out_status_code := OutOfGas \<rparr>, s)
            else Inr (res, s))
      else Inr (res, s))"

definition output_of :: "int \<Rightarrow> evm_output" where
  "output_of gas = \<lparr> out_status_code = Success, out_gas_left = gas, out_output_data = [],
     out_create_address = None \<rparr>"

text \<open>The end of a creation or a call: on failure the state goes back to the snapshot, and only
  a revert keeps the gas.\<close>

definition close_frame ::
  "snapshot \<Rightarrow> evm_output \<Rightarrow> 'db ibs \<Rightarrow> exec_error + evm_output \<times> 'db ibs" where
  "close_frame snapshot res s =
     bind_r (revert_to_snapshot snapshot s) (\<lambda>s.
       Inr (if out_status_code res \<noteq> Revert then res\<lparr> out_gas_left := 0 \<rparr> else res, s))"

text \<open>A creation past the collision check: the new contract, its endowment, its code.\<close>

definition create_frame ::
  "'db state_trait \<Rightarrow> evm_env \<Rightarrow> 'db exec \<Rightarrow> create_message \<Rightarrow> address \<Rightarrow> 'db ibs \<Rightarrow> exec_error + evm_output \<times> 'db ibs" where
  "create_frame T V exec m addr s =
     bind_r (create_contract T addr s) (\<lambda>s'.
     bind_r (if ev_revision V \<ge> Spurious then set_nonce T addr 1 s' else Inr s') (\<lambda>s'.
     bind_r (subtract_from_balance T (cm_sender m) (cm_endowment m) s') (\<lambda>s'.
     bind_r (add_to_balance T addr (cm_endowment m) s') (\<lambda>s'.
     bind_r (exec \<lparr> em_kind = CK_Call, em_is_static = False, em_depth = cm_depth m, em_gas = cm_gas m,
               em_recipient = addr, em_code_address = 0, em_sender = cm_sender m, em_input_data = [],
               em_value = cm_endowment m \<rparr> (cm_initcode m) s') (\<lambda>(res, s').
     bind_r (deploy_code T V addr res s') (\<lambda>(res, s').
       if out_status_code res = Success then Inr (res\<lparr> out_create_address := Some addr \<rparr>, s')
       else close_frame (take_snapshot s) res s'))))))"

definition create_with ::
  "'db state_trait \<Rightarrow> evm_env \<Rightarrow> 'db exec \<Rightarrow> create_message \<Rightarrow> 'db ibs \<Rightarrow> exec_error + evm_output \<times> 'db ibs" where
  "create_with T V exec message s =
     (let res = output_of (cm_gas message); sender = cm_sender message
      in bind_r (get_balance T sender s) (\<lambda>(balance, s).
         if balance < cm_endowment message
         then Inr (res\<lparr> out_status_code := InsufficientBalance \<rparr>, s) else
         bind_r (get_nonce T sender s) (\<lambda>(nonce, s).
         bind_r (set_nonce T sender (nonce + 1) s) (\<lambda>s.
         let contract_addr = (case cm_salt message of
                 Some salt \<Rightarrow> create2_address V sender salt (ev_keccak V (cm_initcode message))
               | None \<Rightarrow> create_address V sender nonce);
             s = snd (access_account contract_addr s)
         in bind_r (get_nonce T contract_addr s) (\<lambda>(contract_nonce, s).
            bind_r (if contract_nonce \<noteq> 0 then Inr (True, s)
                    else bind_r (get_code_hash T contract_addr s) (\<lambda>(h, s). Inr (h \<noteq> EMPTY_HASH, s)))
              (\<lambda>(collision, s).
            if collision
            then Inr (res\<lparr> out_status_code := InvalidInstruction, out_gas_left := 0 \<rparr>, s)
            else create_frame T V exec message contract_addr s))))))"

definition call_with ::
  "'db state_trait \<Rightarrow> evm_env \<Rightarrow> 'db exec \<Rightarrow> evm_message \<Rightarrow> 'db ibs \<Rightarrow> exec_error + evm_output \<times> 'db ibs" where
  "call_with T V exec message s =
     (let res = output_of (em_gas message); value = em_value message;
          precompiled = is_precompiled (ev_revision V) (em_code_address message)
      in bind_r (if em_kind message \<noteq> CK_DelegateCall
                 then bind_r (get_balance T (em_sender message) s) (\<lambda>(balance, s). Inr (balance < value, s))
                 else Inr (False, s)) (\<lambda>(short, s).
         if short then Inr (res\<lparr> out_status_code := InsufficientBalance \<rparr>, s) else
         bind_r (if \<not> precompiled then get_code T (em_code_address message) s else Inr (None, s)) (\<lambda>(code, s).
         bind_r (if value = 0 \<and> ev_revision V \<ge> Spurious \<and> \<not> precompiled
                 then bind_r (exists_account T (em_code_address message) s) (\<lambda>(e, s). Inr (\<not> e, s))
                 else Inr (False, s)) (\<lambda>(absent, s).
         if absent then Inr (res, s) else
         let snapshot = take_snapshot s
         in bind_r (if em_kind message = CK_Call then
                      if em_is_static message then Inr (touch (em_recipient message) s)
                      else bind_r (subtract_from_balance T (em_sender message) value s) (\<lambda>s.
                             add_to_balance T (em_recipient message) value s)
                    else Inr s) (\<lambda>s.
            if precompiled then
              (let res = run_precompiled V message res
               in if out_status_code res \<noteq> Success then close_frame snapshot res s else Inr (res, s))
            else
              (let code = (case code of Some c \<Rightarrow> c | None \<Rightarrow> [])
               in if code = [] then Inr (res, s)
                  else bind_r (get_code_hash T (em_code_address message) s) (\<lambda>(code_hash, s).
                       bind_r (exec message code s) (\<lambda>(res, s).
                       if out_status_code res \<noteq> Success then close_frame snapshot res s
                       else Inr (res, s)))))))))"

section \<open>Answering the interpreter\<close>

text \<open>\<open>sstore\<close>: the refund of a storage write and the status the interpreter charges by
  (EIP-1283, EIP-2200 and EIP-3529).\<close>

definition sload_cost :: "revision \<Rightarrow> u64" where
  "sload_cost r = (if r \<ge> Berlin then WARM_STORAGE_READ_COST
     else if r \<ge> Istanbul then G_SLOAD_ISTANBUL else G_SLOAD_TANGERINE_WHISTLE)"

definition sstore_reset_gas :: "revision \<Rightarrow> u64" where
  "sstore_reset_gas r = (if r \<ge> Berlin then G_SRESET - COLD_SLOAD_COST else G_SRESET)"

definition sstore_clears_refund :: "revision \<Rightarrow> u64" where
  "sstore_clears_refund r =
     (if r \<ge> London then sstore_reset_gas r + ACCESS_LIST_STORAGE_KEY_COST else R_SCLEAR)"

definition eip1283 :: "revision \<Rightarrow> bool" where
  "eip1283 r \<longleftrightarrow> r \<ge> Istanbul \<or> r = Constantinople"

definition sstore_net ::
  "revision \<Rightarrow> u256 \<Rightarrow> u256 \<Rightarrow> u256 \<Rightarrow> 'db ibs \<Rightarrow> storage_status \<times> 'db ibs" where
  "sstore_net r original_val current_val new_val s =
     (if original_val = current_val then
        if original_val = 0 then (Added, s)
        else (Modified, if new_val = 0 then add_refund (sstore_clears_refund r) s else s)
      else
        (let s = (if original_val \<noteq> 0 then
                    (let s = (if current_val = 0 then subtract_refund (sstore_clears_refund r) s else s)
                     in if new_val = 0 then add_refund (sstore_clears_refund r) s else s)
                  else s);
             s = (if original_val = new_val then
                    add_refund (if original_val = 0 then G_SSET - sload_cost r
                                else sstore_reset_gas r - sload_cost r) s
                  else s)
         in (ModifiedAgain, s)))"

definition sstore ::
  "'db state_trait \<Rightarrow> revision \<Rightarrow> address \<Rightarrow> u256 \<Rightarrow> u256 \<Rightarrow> 'db ibs \<Rightarrow>
   exec_error + storage_status \<times> 'db ibs" where
  "sstore T r a k new_val s =
     bind_r (get_current_storage T a k s) (\<lambda>(current_val, s).
     if current_val = new_val then Inr (Unchanged, s) else
     bind_r (set_storage T a k new_val s) (\<lambda>s.
     if \<not> eip1283 r then
       Inr (if current_val = 0 then (Added, s)
            else if new_val = 0 then (Deleted, add_refund R_SCLEAR s)
            else (Modified, s))
     else bind_r (get_original_storage T a k s) (\<lambda>(original_val, s).
       Inr (sstore_net r original_val current_val new_val s))))"

definition copy_code :: "bytes \<Rightarrow> nat \<Rightarrow> nat \<Rightarrow> bytes" where
  "copy_code code offset max_size =
     (let buffer = replicate max_size 0;
          copied = (if offset < length code then min max_size (length code - offset) else 0);
          buffer = take copied (drop offset code) @ drop copied buffer
      in take copied buffer)"

fun block_hash_walk ::
  "'db state_trait \<Rightarrow> 'db \<Rightarrow> u64 \<Rightarrow> nat \<Rightarrow> nat \<Rightarrow> h256 \<Rightarrow> exec_error + h256" where
  "block_hash_walk T d base_number i 0 hash = Inr hash"
| "block_hash_walk T d base_number i (Suc n) hash =
     bind_r (read_header T d (base_number - of_nat i) hash) (\<lambda>h.
     bind_r (ok_or (DbError ''no header'') h) (\<lambda>h.
       block_hash_walk T d base_number (Suc i) n (h_parent_hash h)))"

definition get_block_hash ::
  "'db state_trait \<Rightarrow> 'db \<Rightarrow> partial_header \<Rightarrow> u64 \<Rightarrow> exec_error + u256" where
  "get_block_hash T d header n =
     (let base_number = ph_number header; distance = base_number - n
      in if distance \<le> 256
         then block_hash_walk T d base_number 1 (unat distance - 1) (ph_parent_hash header)
         else Inl Panic)"

definition tx_context_of :: "evm_env \<Rightarrow> exec_error + tx_context" where
  "tx_context_of V =
     (let header = ev_header V;
          base_fee = (case ph_base_fee_per_gas header of Some b \<Rightarrow> b | None \<Rightarrow> 0)
      in bind_r (ok_or Panic (effective_gas_price (mw_message (ev_txn V)) base_fee)) (\<lambda>price.
         Inr \<lparr> tc_tx_gas_price = price, tc_tx_origin = mw_sender (ev_txn V),
           tc_block_coinbase = ph_beneficiary header, tc_block_number = ph_number header,
           tc_block_timestamp = ph_timestamp header, tc_block_gas_limit = ph_gas_limit header,
           tc_block_difficulty = ph_difficulty header,
           tc_chain_id = ucast (pa_chain_id (bes_params (ev_block_spec V))),
           tc_block_base_fee = base_fee \<rparr>))"

definition selfdestruct ::
  "'db state_trait \<Rightarrow> address \<Rightarrow> address \<Rightarrow> 'db ibs \<Rightarrow> exec_error + 'db ibs" where
  "selfdestruct T a beneficiary s =
     (let s = record_selfdestruct a s
      in bind_r (get_balance T a s) (\<lambda>(balance, s).
         bind_r (add_to_balance T beneficiary balance s) (\<lambda>s.
           set_balance T a 0 s)))"

text \<open>Every request but calls and completion: the continuation, the answer, the new state.\<close>

fun answer ::
  "'db state_trait \<Rightarrow> evm_env \<Rightarrow> 'k interrupt \<Rightarrow> 'db ibs \<Rightarrow> exec_error + 'k \<times> resume_data \<times> 'db ibs" where
  "answer T V (I_AccountExists a k) s =
     (if ev_revision V \<ge> Spurious
      then bind_r (is_dead T a s) (\<lambda>(dead, s). Inr (k, R_AccountExists (\<not> dead), s))
      else bind_r (exists_account T a s) (\<lambda>(e, s). Inr (k, R_AccountExists e, s)))"
| "answer T V (I_GetBalance a k) s = bind_r (get_balance T a s) (\<lambda>(v, s). Inr (k, R_Balance v, s))"
| "answer T V (I_GetCodeSize a k) s = bind_r (get_code T a s) (\<lambda>(code, s).
     Inr (k, R_CodeSize (of_nat (case code of Some c \<Rightarrow> length c | None \<Rightarrow> 0)), s))"
| "answer T V (I_GetStorage a key k) s =
     bind_r (get_current_storage T a key s) (\<lambda>(v, s). Inr (k, R_StorageValue v, s))"
| "answer T V (I_SetStorage a key v k) s =
     bind_r (sstore T (ev_revision V) a key v s) (\<lambda>(st, s). Inr (k, R_StorageStatus st, s))"
| "answer T V (I_GetCodeHash a k) s = bind_r (is_dead T a s) (\<lambda>(dead, s).
     if dead then Inr (k, R_CodeHash 0, s)
     else bind_r (get_code_hash T a s) (\<lambda>(h, s). Inr (k, R_CodeHash h, s)))"
| "answer T V (I_CopyCode a offset max_size k) s = bind_r (get_code T a s) (\<lambda>(code, s).
     Inr (k, R_Code (copy_code (case code of Some c \<Rightarrow> c | None \<Rightarrow> []) offset max_size), s))"
| "answer T V (I_Selfdestruct a b k) s = bind_r (selfdestruct T a b s) (\<lambda>s. Inr (k, R_Unit, s))"
| "answer T V (I_GetTxContext k) s = bind_r (tx_context_of V) (\<lambda>c. Inr (k, R_TxContext c, s))"
| "answer T V (I_GetBlockHash n k) s =
     bind_r (get_block_hash T (db s) (ev_header V) n) (\<lambda>h. Inr (k, R_BlockHash h, s))"
| "answer T V (I_EmitLog a d topics k) s =
     Inr (k, R_Unit, add_log \<lparr> log_address = a, log_topics = topics, log_data = d \<rparr> s)"
| "answer T V (I_AccessAccount a k) s =
     (if is_precompiled (ev_revision V) a then Inr (k, R_AccessAccount Warm, s)
      else (let (st, s) = access_account a s in Inr (k, R_AccessAccount st, s)))"
| "answer T V (I_AccessStorage a key k) s =
     (let (st, s) = access_storage a key s in Inr (k, R_AccessStorage st, s))"
| "answer T V _ s = Inl Panic"

definition complete :: "status_code + evm_output \<Rightarrow> evm_output" where
  "complete res = (case res of Inr out \<Rightarrow> out
     | Inl status \<Rightarrow> \<lparr> out_status_code = status, out_gas_left = 0, out_output_data = [],
         out_create_address = None \<rparr>)"

text \<open>The loop of \<open>Evm::execute\<close>.\<close>

fun evm_loop ::
  "'db state_trait \<Rightarrow> evm_env \<Rightarrow> 'k interpreter \<Rightarrow> nat \<Rightarrow> 'k interrupt \<Rightarrow> 'db ibs \<Rightarrow>
   exec_error + evm_output \<times> 'db ibs" where
  "evm_loop T V I 0 i s = Inl OutOfFuel"
| "evm_loop T V I (Suc n) i s =
     (let exec = (\<lambda>m code s. evm_loop T V I n (execute_resumable I code m (ev_revision V)) s)
      in case i of
           I_Complete res \<Rightarrow> Inr (complete res, s)
         | I_Create m k \<Rightarrow> bind_r (create_with T V exec m s) (\<lambda>(res, s).
             let res = (if out_status_code res \<noteq> Revert then res\<lparr> out_output_data := [] \<rparr> else res)
             in evm_loop T V I n (resume I k (R_CallOutput res)) s)
         | I_Call m k \<Rightarrow> bind_r (call_with T V exec m s) (\<lambda>(res, s).
             evm_loop T V I n (resume I k (R_CallOutput res)) s)
         | _ \<Rightarrow> bind_r (answer T V i s) (\<lambda>(k, r, s). evm_loop T V I n (resume I k r) s))"

definition evm_exec :: "'db state_trait \<Rightarrow> evm_env \<Rightarrow> 'k interpreter \<Rightarrow> nat \<Rightarrow> 'db exec" where
  "evm_exec T V I fuel m code s = evm_loop T V I fuel (execute_resumable I code m (ev_revision V)) s"

definition evm_create where
  "evm_create T V I fuel m s = create_with T V (evm_exec T V I fuel) m s"

definition evm_call where
  "evm_call T V I fuel m s = call_with T V (evm_exec T V I fuel) m s"

text \<open>\<open>evm::execute\<close>: run a transaction with the given gas.\<close>

definition evm_execute ::
  "'db state_trait \<Rightarrow> evm_env \<Rightarrow> 'k interpreter \<Rightarrow> nat \<Rightarrow> u64 \<Rightarrow> 'db ibs \<Rightarrow> exec_error + evm_output \<times> 'db ibs" where
  "evm_execute T V I fuel gas s =
     (let txn = mw_message (ev_txn V); sender = mw_sender (ev_txn V)
      in case msg_action txn of
           Call to \<Rightarrow> evm_call T V I fuel \<lparr> em_kind = CK_Call, em_is_static = False, em_depth = 0,
               em_gas = sint gas, em_recipient = to, em_code_address = to, em_sender = sender,
               em_input_data = msg_input txn, em_value = msg_value txn \<rparr> s
         | Create \<Rightarrow> evm_create T V I fuel \<lparr> cm_depth = 0, cm_gas = sint gas, cm_sender = sender,
               cm_initcode = msg_input txn, cm_endowment = msg_value txn, cm_salt = None \<rparr> s)"

end
