(* ===== verification/Consensus.thy ===== *)
theory Consensus
  imports Chain_Spec State_Interface
begin

text \<open>
  Block validation: \<open>ConsensusEngineBase\<close> of \<^verbatim>\<open>src/src/consensus/base.rs\<close>, the
  transaction checks and the engine factory of \<^verbatim>\<open>src/src/consensus/mod.rs\<close>, and the
  Ethash engine of \<^verbatim>\<open>src/src/consensus/ethash\<close>.  Lemmas: exactly which headers are valid,
  the bounds of the base fee, the difficulty formula on integers, the ommer rules, and the
  block rewards.
\<close>

text \<open>What other crates and the clock provide: \<open>rlp\<close> encodings, the Keccak hash, the ordered
  trie root, and the two functions of the \<open>ethash\<close> crate.\<close>

record consensus_env =
  env_now :: "u64 option"
  env_keccak :: "bytes \<Rightarrow> h256"
  rlp_encode_headers :: "block_header list \<Rightarrow> bytes"
  rlp_encode_header :: "block_header \<Rightarrow> bytes"
  rlp_encode_truncated :: "block_header \<Rightarrow> bytes"
  trie_encode_tx :: "message_with_signature \<Rightarrow> bytes"
  ordered_trie_root :: "bytes list \<Rightarrow> h256"
  hashimoto :: "block_number \<Rightarrow> h256 \<Rightarrow> h64 \<Rightarrow> h256 \<times> h256"
  cross_boundary :: "u256 \<Rightarrow> u256"

definition ommers_hash :: "consensus_env \<Rightarrow> block_header list \<Rightarrow> h256" where
  "ommers_hash E ommers = env_keccak E (rlp_encode_headers E ommers)"

definition transactions_root :: "consensus_env \<Rightarrow> message_with_signature list \<Rightarrow> h256" where
  "transactions_root E txs = ordered_trie_root E (map (trie_encode_tx E) txs)"

definition block_new ::
  "consensus_env \<Rightarrow> partial_header \<Rightarrow> message_with_signature list \<Rightarrow> block_header list \<Rightarrow> block" where
  "block_new E ph txs ommers = \<lparr>
     b_header = block_header_new ph (ommers_hash E ommers) (transactions_root E txs),
     b_transactions = txs, b_ommers = ommers \<rparr>"

definition header_hash :: "consensus_env \<Rightarrow> block_header \<Rightarrow> h256" where
  "header_hash E h = env_keccak E (rlp_encode_header E h)"

definition truncated_hash :: "consensus_env \<Rightarrow> block_header \<Rightarrow> h256" where
  "truncated_hash E h = env_keccak E (rlp_encode_truncated E h)"

section \<open>The base engine (consensus/base.rs)\<close>

record consensus_engine_base =
  ceb_chain_id :: chain_id
  ceb_eip1559_block :: "block_number option"

definition saturating_sub :: "'a::len word \<Rightarrow> 'a word \<Rightarrow> 'a word" where
  "saturating_sub a b = (if b \<le> a then a - b else 0)"

text \<open>The \<open>unwrap\<close> of the parent's base fee and a division by zero are panics.\<close>

definition expected_base_fee_per_gas ::
  "consensus_engine_base \<Rightarrow> block_header \<Rightarrow> block_header \<Rightarrow> exec_error + u256 option" where
  "expected_base_fee_per_gas self header parent = (case ceb_eip1559_block self of
       Some fork_block \<Rightarrow>
         (if h_number header \<ge> fork_block then
            if h_number header = fork_block then Inr (Some (ucast INITIAL_BASE_FEE))
            else
              (let parent_gas_target = h_gas_limit parent div ELASTICITY_MULTIPLIER in
               bind_r (ok_or Panic (h_base_fee_per_gas parent)) (\<lambda>parent_base_fee.
               if h_gas_used parent = parent_gas_target then Inr (Some parent_base_fee)
               else if parent_gas_target = 0 then Inl Panic
               else if h_gas_used parent > parent_gas_target then
                 (let gas_used_delta = h_gas_used parent - parent_gas_target;
                      delta = max 1 (parent_base_fee * ucast gas_used_delta div ucast parent_gas_target
                                       div ucast BASE_FEE_MAX_CHANGE_DENOMINATOR)
                  in Inr (Some (parent_base_fee + delta)))
               else
                 (let gas_used_delta = parent_gas_target - h_gas_used parent;
                      delta = parent_base_fee * ucast gas_used_delta div ucast parent_gas_target
                                div ucast BASE_FEE_MAX_CHANGE_DENOMINATOR
                  in Inr (Some (saturating_sub parent_base_fee delta)))))
          else Inr None)
     | None \<Rightarrow> Inr None)"

definition I64_MAX :: u64 where "I64_MAX = 0x7fffffffffffffff"

definition check :: "bool \<Rightarrow> validation_error \<Rightarrow> exec_error + unit" where
  "check bad e = (if bad then Inl (Validation e) else Inr ())"

definition validate_block_header ::
  "consensus_env \<Rightarrow> consensus_engine_base \<Rightarrow> block_header \<Rightarrow> block_header \<Rightarrow> bool \<Rightarrow> exec_error + unit" where
  "validate_block_header E self header parent with_future_timestamp_check =
     bind_r (if with_future_timestamp_check then
               bind_r (ok_or (DbError ''SystemTimeError'') (env_now E)) (\<lambda>now.
                 check (h_timestamp header > now) (FutureBlock now (h_timestamp header)))
             else Inr ()) (\<lambda>_.
     bind_r (check (h_gas_used header > h_gas_limit header)
               (GasAboveLimit (h_gas_used header) (h_gas_limit header))) (\<lambda>_.
     bind_r (check (h_gas_limit header < 5000) InvalidGasLimit) (\<lambda>_.
     bind_r (check (h_gas_limit header > I64_MAX) InvalidGasLimit) (\<lambda>_.
     bind_r (check (length (h_extra_data header) > 32) ExtraDataTooLong) (\<lambda>_.
     bind_r (check (h_timestamp header \<le> h_timestamp parent)
               (InvalidTimestamp (h_timestamp parent) (h_timestamp header))) (\<lambda>_.
     let parent_gas_limit = (case ceb_eip1559_block self of
             Some fork_block \<Rightarrow>
               (if fork_block = h_number header then h_gas_limit parent * ELASTICITY_MULTIPLIER
                else h_gas_limit parent)
           | None \<Rightarrow> h_gas_limit parent);
         gas_delta = (if h_gas_limit header > parent_gas_limit
                      then h_gas_limit header - parent_gas_limit
                      else parent_gas_limit - h_gas_limit header)
     in bind_r (check (gas_delta \<ge> parent_gas_limit div 1024) InvalidGasLimit) (\<lambda>_.
        bind_r (expected_base_fee_per_gas self header parent) (\<lambda>expected.
          check (h_base_fee_per_gas header \<noteq> expected)
            (WrongBaseFee expected (h_base_fee_per_gas header))))))))))"

definition get_parent_header ::
  "'db state_trait \<Rightarrow> 'db \<Rightarrow> block_header \<Rightarrow> exec_error + block_header option" where
  "get_parent_header T d header =
     (if h_number header \<ge> 1 then read_header T d (h_number header - 1) (h_parent_hash header)
      else Inr None)"

fun is_kin ::
  "'db state_trait \<Rightarrow> 'db \<Rightarrow> block_header \<Rightarrow> block_header \<Rightarrow> h256 \<Rightarrow> nat \<Rightarrow> block_header list \<Rightarrow>
   exec_error + bool \<times> block_header list" where
  "is_kin T d branch_header mainline_header mainline_hash 0 old_ommers = Inr (False, old_ommers)"
| "is_kin T d branch_header mainline_header mainline_hash (Suc n) old_ommers =
     (if branch_header \<noteq> mainline_header then
        bind_r (read_body T d (h_number mainline_header) mainline_hash) (\<lambda>body. case body of
          Some mainline_body \<Rightarrow>
            (let old_ommers = old_ommers @ bb_ommers mainline_body in
             bind_r (get_parent_header T d mainline_header) (\<lambda>mainline_parent.
             bind_r (get_parent_header T d branch_header) (\<lambda>branch_parent.
             case mainline_parent of
               Some mp \<Rightarrow>
                 (if branch_parent = Some mp then Inr (True, old_ommers)
                  else is_kin T d branch_header mp (h_parent_hash mainline_header) n old_ommers)
             | None \<Rightarrow> Inr (False, old_ommers))))
        | None \<Rightarrow> Inr (False, old_ommers))
      else Inr (False, old_ommers))"

definition get_beneficiary :: "block_header \<Rightarrow> address" where
  "get_beneficiary header = h_beneficiary header"

definition pre_validate_transaction ::
  "message \<Rightarrow> chain_id \<Rightarrow> u256 option \<Rightarrow> exec_error + unit" where
  "pre_validate_transaction txn canonical_chain_id base_fee_per_gas =
     bind_r (case msg_chain_id txn of
         Some c \<Rightarrow> check (c \<noteq> canonical_chain_id) WrongChainId
       | None \<Rightarrow> Inr ()) (\<lambda>_.
     bind_r (case base_fee_per_gas of
         Some b \<Rightarrow> check (max_fee_per_gas txn < b) MaxFeeLessThanBase
       | None \<Rightarrow> Inr ()) (\<lambda>_.
     check (max_priority_fee_per_gas txn > max_fee_per_gas txn) MaxPriorityFeeGreaterThanMax))"

text \<open>\<open>.context(e)?\<close>: a returned error is reported as \<open>e\<close>; a panic is not caught.\<close>

definition with_context :: "validation_error \<Rightarrow> exec_error + 'a \<Rightarrow> exec_error + 'a" where
  "with_context e r = (case r of Inr x \<Rightarrow> Inr x | Inl Panic \<Rightarrow> Inl Panic | Inl OutOfFuel \<Rightarrow> Inl OutOfFuel
     | Inl _ \<Rightarrow> Inl (Validation e))"

definition require_parent ::
  "'db state_trait \<Rightarrow> 'db \<Rightarrow> block_header \<Rightarrow> exec_error + block_header" where
  "require_parent T d header = bind_r (get_parent_header T d header)
     (ok_or (Validation UnknownParent))"

definition validate_ommer ::
  "consensus_env \<Rightarrow> consensus_engine_base \<Rightarrow> 'db state_trait \<Rightarrow> 'db \<Rightarrow> block \<Rightarrow> block_header \<Rightarrow>
   block_header \<Rightarrow> exec_error + unit" where
  "validate_ommer E self T d blk parent ommer =
     bind_r (require_parent T d ommer) (\<lambda>ommer_parent.
     bind_r (with_context InvalidOmmerHeader
              (validate_block_header E self ommer ommer_parent False)) (\<lambda>_.
     bind_r (is_kin T d ommer parent (h_parent_hash (b_header blk)) 6 []) (\<lambda>(kin, old_ommers).
     bind_r (check (\<not> kin) NotAnOmmer) (\<lambda>_.
       fold_r (\<lambda>oo _. check (oo = ommer) DuplicateOmmer) old_ommers ()))))"

definition pre_validate_block ::
  "consensus_env \<Rightarrow> consensus_engine_base \<Rightarrow> 'db state_trait \<Rightarrow> 'db \<Rightarrow> block \<Rightarrow> exec_error + unit" where
  "pre_validate_block E self T d blk =
     (let header = b_header blk; ommers = b_ommers blk;
          expected_ommers_hash = ommers_hash E ommers;
          expected_transactions_root = transactions_root E (b_transactions blk)
      in bind_r (check (h_ommers_hash header \<noteq> expected_ommers_hash)
                  (WrongOmmersHash expected_ommers_hash (h_ommers_hash header))) (\<lambda>_.
         bind_r (check (h_transactions_root header \<noteq> expected_transactions_root)
                  (WrongTransactionsRoot expected_transactions_root (h_transactions_root header))) (\<lambda>_.
         bind_r (check (length ommers > 2) TooManyOmmers) (\<lambda>_.
         bind_r (check (length ommers = 2 \<and> ommers ! 0 = ommers ! 1) DuplicateOmmer) (\<lambda>_.
         bind_r (require_parent T d header) (\<lambda>parent.
         bind_r (fold_r (\<lambda>ommer _. validate_ommer E self T d blk parent ommer) ommers ()) (\<lambda>_.
           fold_r (\<lambda>txn _. pre_validate_transaction (ms_message txn) (ceb_chain_id self)
             (h_base_fee_per_gas header)) (b_transactions blk) ())))))))"

section \<open>Difficulty (consensus/ethash/difficulty.rs)\<close>

definition MIN_DIFFICULTY :: u256 where "MIN_DIFFICULTY = 131072"

text \<open>\<open>difficulty_bomb\<close> is the \<open>delay_to\<close> of the configuration.  The shift distance of
  \<open>U256\<close> is taken modulo the width.\<close>

definition canonical_difficulty ::
  "block_number \<Rightarrow> u64 \<Rightarrow> u256 \<Rightarrow> u64 \<Rightarrow> bool \<Rightarrow> bool \<Rightarrow> bool \<Rightarrow> block_number option \<Rightarrow> u256" where
  "canonical_difficulty n block_timestamp parent_difficulty parent_timestamp parent_has_uncles
     byzantium_formula homestead_formula difficulty_bomb =
     (let x = drop_bit 11 parent_difficulty;
          dt = block_timestamp - parent_timestamp;
          difficulty =
            (if byzantium_formula then
               (let difficulty = parent_difficulty - x * 99;
                    y = (if parent_has_uncles then 2 else 1);
                    z = dt div 9
                in if 99 + y > z then difficulty + ucast (99 + y - z) * x else difficulty)
             else if homestead_formula then
               (let difficulty = parent_difficulty - x * 99;
                    z = dt div 10
                in if 100 > z then difficulty + ucast (100 - z) * x else difficulty)
             else if dt < 13 then parent_difficulty + x else parent_difficulty - x);
          difficulty = (case difficulty_bomb of
              Some delay_to \<Rightarrow>
                (let k = saturating_sub n delay_to div 100000
                 in if k \<ge> 2 then difficulty + push_bit (unat (k - 2) mod 256) 1 else difficulty)
            | None \<Rightarrow> difficulty)
      in max difficulty MIN_DIFFICULTY)"

section \<open>Ethash (consensus/ethash/mod.rs)\<close>

record ethash =
  eth_base :: consensus_engine_base
  eth_duration_limit :: u64
  eth_block_reward :: "(block_number, u256) btree_map"
  eth_homestead_formula :: "block_number option"
  eth_byzantium_formula :: "block_number option"
  eth_difficulty_bomb :: "difficulty_bomb option"
  eth_skip_pow_verification :: bool

datatype finalization_change = Reward address u256

definition ethash_validate_block_header ::
  "consensus_env \<Rightarrow> ethash \<Rightarrow> 'db state_trait \<Rightarrow> 'db \<Rightarrow> block_header \<Rightarrow> bool \<Rightarrow> exec_error + unit" where
  "ethash_validate_block_header E self T d header with_future_timestamp_check =
     bind_r (require_parent T d header) (\<lambda>parent.
     bind_r (validate_block_header E (eth_base self) header parent with_future_timestamp_check) (\<lambda>_.
     let parent_has_uncles = (h_ommers_hash parent \<noteq> EMPTY_LIST_HASH);
         difficulty = canonical_difficulty (h_number header) (h_timestamp header)
           (h_difficulty parent) (h_timestamp parent) parent_has_uncles
           (switch_is_active (eth_byzantium_formula self) (h_number header))
           (switch_is_active (eth_homestead_formula self) (h_number header))
           (map_option (\<lambda>b. get_delay_to b (h_number header)) (eth_difficulty_bomb self))
     in check (difficulty \<noteq> h_difficulty header) WrongDifficulty))"

definition validate_seal :: "consensus_env \<Rightarrow> ethash \<Rightarrow> block_header \<Rightarrow> exec_error + unit" where
  "validate_seal E self header =
     (if \<not> eth_skip_pow_verification self then
        (let (mixh, final_hash) = hashimoto E (h_number header) (truncated_hash E header) (h_nonce header)
         in bind_r (check (mixh \<noteq> h_mix_hash header) InvalidSeal) (\<lambda>_.
              check (final_hash > cross_boundary E (h_difficulty header)) InvalidSeal))
      else Inr ())"

definition ethash_finalize ::
  "partial_header \<Rightarrow> block_header list \<Rightarrow> revision \<Rightarrow> finalization_change list" where
  "ethash_finalize header ommers revn =
     (let block_reward = (if revn \<ge> Constantinople then BLOCK_REWARD_CONSTANTINOPLE
            else if revn \<ge> Byzantium then BLOCK_REWARD_BYZANTIUM
            else BLOCK_REWARD_FRONTIER);
          (changes, miner_reward) = fold (\<lambda>ommer (changes, miner_reward).
              (let ommer_reward = drop_bit 3
                     (ucast (8 + h_number ommer - ph_number header) * ucast block_reward)
               in (changes @ [Reward (h_beneficiary ommer) ommer_reward],
                   miner_reward + block_reward div 32)))
            ommers ([], block_reward)
      in changes @ [Reward (ph_beneficiary header) (ucast miner_reward)])"

definition engine_factory :: "chain_spec \<Rightarrow> exec_error + ethash" where
  "engine_factory cs = (case seal_verification (cs_consensus cs) of
       Ethash_params duration_limit block_reward homestead_formula byzantium_formula bomb skip \<Rightarrow>
         Inr \<lparr> eth_base = \<lparr> ceb_chain_id = pa_chain_id (cs_params cs),
                 ceb_eip1559_block = eip1559_block (cs_consensus cs) \<rparr>,
               eth_duration_limit = duration_limit, eth_block_reward = block_reward,
               eth_homestead_formula = homestead_formula, eth_byzantium_formula = byzantium_formula,
               eth_difficulty_bomb = bomb, eth_skip_pow_verification = skip \<rparr>
     | Clique_params _ _ \<Rightarrow> Inl (DbError ''unsupported consensus engine''))"

section \<open>Headers\<close>

lemma check_Inr [simp]: "check bad e = Inr u \<longleftrightarrow> \<not> bad"
  by (simp add: check_def)

lemma bind_check_Inr: "bind_r (check bad e) f = Inr y \<longleftrightarrow> \<not> bad \<and> f () = Inr y"
  by (simp add: check_def)

definition gas_limit_base :: "consensus_engine_base \<Rightarrow> block_header \<Rightarrow> block_header \<Rightarrow> u64" where
  "gas_limit_base self header parent =
     (if ceb_eip1559_block self = Some (h_number header) then h_gas_limit parent * 2 else h_gas_limit parent)"

text \<open>
  C6.  A header is accepted exactly when it obeys the rules of the yellow paper, Section 4.3.4,
  and of EIP-1559: it is not from the future (when that is checked), uses no more gas than
  its limit, has a limit of at least 5000 and at most the largest signed 64-bit number that
  differs from the parent's (doubled at the London block) by less than a 1024th, at most 32
  bytes of extra data, a later timestamp than its parent, and the expected base fee.
\<close>

theorem validate_block_header_iff:
  "validate_block_header E self header parent future = Inr () \<longleftrightarrow>
     (future \<longrightarrow> (\<exists>now. env_now E = Some now \<and> h_timestamp header \<le> now)) \<and>
     h_gas_used header \<le> h_gas_limit header \<and>
     5000 \<le> h_gas_limit header \<and> h_gas_limit header \<le> 2 ^ 63 - 1 \<and>
     length (h_extra_data header) \<le> 32 \<and> h_timestamp parent < h_timestamp header \<and>
     (let base = gas_limit_base self header parent; limit = h_gas_limit header
      in (if limit > base then limit - base else base - limit) < base div 1024) \<and>
     expected_base_fee_per_gas self header parent = Inr (h_base_fee_per_gas header)"
proof -
  have lim: "(case ceb_eip1559_block self of None \<Rightarrow> h_gas_limit parent
      | Some fork_block \<Rightarrow> if fork_block = h_number header then h_gas_limit parent * ELASTICITY_MULTIPLIER
          else h_gas_limit parent) = gas_limit_base self header parent"
    by (auto simp: gas_limit_base_def ELASTICITY_MULTIPLIER_def split: option.splits)
  have fut: "bind_r (ok_or (DbError ''SystemTimeError'') (env_now E)) (\<lambda>now.
        check (h_timestamp header > now) (FutureBlock now (h_timestamp header))) = Inr ()
     \<longleftrightarrow> (\<exists>now. env_now E = Some now \<and> h_timestamp header \<le> now)"
    by (cases "env_now E") auto
  have bf: "bind_r (expected_base_fee_per_gas self header parent) (\<lambda>expected.
        check (h_base_fee_per_gas header \<noteq> expected) (WrongBaseFee expected (h_base_fee_per_gas header))) = Inr ()
     \<longleftrightarrow> expected_base_fee_per_gas self header parent = Inr (h_base_fee_per_gas header)"
    by (cases "expected_base_fee_per_gas self header parent") auto
  show ?thesis
    unfolding validate_block_header_def lim Let_def bind_r_Inr_iff [of _ "\<lambda>_. bind_r _ _"]
    by (cases future) (simp_all add: fut bind_check_Inr bf I64_MAX_def not_less not_le)
qed

section \<open>The base fee\<close>

text \<open>The fee change on natural numbers.\<close>

definition fee_delta :: "nat \<Rightarrow> nat \<Rightarrow> nat \<Rightarrow> nat" where
  "fee_delta fee gas_delta target = fee * gas_delta div target div 8"

lemma unat_fee_delta:
  assumes "unat fee < 2 ^ 192"
  shows "unat ((fee :: u256) * ucast (g :: u64) div ucast (t :: u64) div ucast BASE_FEE_MAX_CHANGE_DENOMINATOR)
    = fee_delta (unat fee) (unat g) (unat t)"
proof -
  have "unat g < 2 ^ LENGTH(64)" by (rule unsigned_less)
  then have "unat fee * unat g < 2 ^ 192 * 2 ^ 64"
    using assms by (intro mult_strict_mono) auto
  then have "unat (fee * ucast g) = unat fee * unat g"
    by (subst unat_mult_no_wrap) (simp_all add: unat_ucast_up)
  then show ?thesis
    by (simp add: unat_div unat_ucast_up fee_delta_def BASE_FEE_MAX_CHANGE_DENOMINATOR_def)
qed

lemma fee_delta_le: "g \<le> t \<Longrightarrow> 8 * fee_delta fee g t \<le> fee"
proof (cases "t = 0")
  case False
  assume "g \<le> t"
  then have "fee * g div t \<le> fee * t div t" by (intro div_le_mono) simp
  also have "\<dots> = fee" using False by simp
  finally show ?thesis unfolding fee_delta_def by (meson div_times_less_eq_dividend mult.commute order.trans times_div_less_eq_dividend)
qed (simp add: fee_delta_def)

text \<open>
  C37.  The base fee follows EIP-1559 without wrapping, for a parent base fee below $2^{192}$:
  the initial fee at the London block, then the parent's fee moved by at least one when the
  parent used more gas than its target, and by the eighth of the relative deviation from the
  target otherwise; it never underflows.
\<close>

theorem expected_base_fee_formula:
  assumes fork: "ceb_eip1559_block self = Some fork" and n: "fork < h_number header"
    and fee: "h_base_fee_per_gas parent = Some fee" and small: "unat fee < 2 ^ 192"
    and target: "target = unat (h_gas_limit parent) div 2" "0 < target"
  shows "\<exists>new. expected_base_fee_per_gas self header parent = Inr (Some new) \<and>
    unat new = (if unat (h_gas_used parent) = target then unat fee
      else if unat (h_gas_used parent) > target
        then unat fee + max 1 (fee_delta (unat fee) (unat (h_gas_used parent) - target) target)
      else unat fee - fee_delta (unat fee) (target - unat (h_gas_used parent)) target)"
proof -
  let ?t = "h_gas_limit parent div ELASTICITY_MULTIPLIER" and ?u = "h_gas_used parent"
  have n: "fork \<le> h_number header" "h_number header \<noteq> fork" using n by auto
  have t: "unat ?t = target" by (simp add: unat_div ELASTICITY_MULTIPLIER_def target)
  then have t0: "?t \<noteq> 0" using target(2) by auto
  let ?d = "\<lambda>g. fee * ucast g div ucast ?t div ucast BASE_FEE_MAX_CHANGE_DENOMINATOR"
  have d: "unat (?d g) = fee_delta (unat fee) (unat g) target" for g :: u64
    using unat_fee_delta [OF small] t by simp
  have bound: "unat fee + max 1 (fee_delta (unat fee) (unat g) target) < 2 ^ LENGTH(256)" for g :: u64
  proof -
    have "unat g < 2 ^ LENGTH(64)" by (rule unsigned_less)
    then have "unat fee * unat g < 2 ^ 192 * 2 ^ 64" using small by (intro mult_strict_mono) auto
    moreover have "fee_delta (unat fee) (unat g) target \<le> unat fee * unat g div 8"
      unfolding fee_delta_def by (intro div_le_mono) simp
    ultimately show ?thesis using small by simp
  qed
  consider "unat ?u = target" | "unat ?u > target" | "unat ?u < target" by linarith
  then show ?thesis
  proof cases
    case 1
    then have "?u = ?t" using t by (simp add: word_unat_eq_iff)
    then show ?thesis using 1 fork n fee by (simp add: expected_base_fee_per_gas_def)
  next
    case 2
    then have lt: "?t < ?u" using t by (simp add: word_less_nat_alt)
    let ?new = "fee + max 1 (?d (?u - ?t))"
    have u: "unat (?u - ?t) = unat ?u - target" using lt t by (simp add: unat_diff_no_wrap)
    have "unat (max 1 (?d (?u - ?t))) = max 1 (fee_delta (unat fee) (unat ?u - target) target)"
      using d [of "?u - ?t"] u by (simp add: max_def word_le_nat_alt)
    then have "unat ?new = unat fee + max 1 (fee_delta (unat fee) (unat ?u - target) target)"
      using bound [of "?u - ?t"] u by (subst unat_add_no_wrap) auto
    moreover have "expected_base_fee_per_gas self header parent = Inr (Some ?new)"
      using lt t0 fork n fee by (simp add: expected_base_fee_per_gas_def Let_def)
    ultimately show ?thesis using 2 by auto
  next
    case 3
    then have lt: "?u < ?t" using t by (simp add: word_less_nat_alt)
    let ?new = "saturating_sub fee (?d (?t - ?u))"
    have u: "unat (?t - ?u) = target - unat ?u" using lt t by (simp add: unat_diff_no_wrap)
    have "8 * fee_delta (unat fee) (target - unat ?u) target \<le> unat fee" by (rule fee_delta_le) simp
    then have le: "?d (?t - ?u) \<le> fee" using d [of "?t - ?u"] u by (simp add: word_le_nat_alt)
    then have "unat ?new = unat fee - fee_delta (unat fee) (target - unat ?u) target"
      using d [of "?t - ?u"] u by (simp add: saturating_sub_def unat_diff_no_wrap)
    moreover have "expected_base_fee_per_gas self header parent = Inr (Some ?new)"
      using lt t0 fork n fee by (auto simp: expected_base_fee_per_gas_def Let_def)
    ultimately show ?thesis using 3 by auto
  qed
qed

definition sample_header :: block_header where
  "sample_header = \<lparr> h_parent_hash = 0, h_ommers_hash = 0, h_beneficiary = 1, h_state_root = 0,
     h_transactions_root = 0, h_receipts_root = 0, h_logs_bloom = 0, h_difficulty = 2 ^ 20,
     h_number = 7, h_gas_limit = 20000, h_gas_used = 15000, h_timestamp = 100, h_extra_data = [],
     h_mix_hash = 0, h_nonce = 0, h_base_fee_per_gas = Some 1000 \<rparr>"

theorem expected_base_fee_formula_witness:
  "\<exists>new. expected_base_fee_per_gas \<lparr> ceb_chain_id = 1, ceb_eip1559_block = Some 5 \<rparr>
      (sample_header\<lparr> h_number := 8 \<rparr>) sample_header = Inr (Some new) \<and> unat new = 1062"
  using expected_base_fee_formula [of "\<lparr> ceb_chain_id = 1, ceb_eip1559_block = Some 5 \<rparr>" 5
      "sample_header\<lparr> h_number := 8 \<rparr>" sample_header 1000 10000]
  by (simp add: sample_header_def fee_delta_def)

section \<open>Difficulty on integers\<close>

text \<open>The adjustment factor of the three formulas and the bomb.\<close>

definition difficulty_factor :: "bool \<Rightarrow> bool \<Rightarrow> bool \<Rightarrow> int \<Rightarrow> int" where
  "difficulty_factor uncles byzantium homestead dt =
     (if byzantium then max ((if uncles then 2 else 1) - dt div 9) (- 99)
      else if homestead then max (1 - dt div 10) (- 99)
      else if dt < 13 then 1 else - 1)"

definition bomb_term :: "block_number option \<Rightarrow> block_number \<Rightarrow> int" where
  "bomb_term bomb n = (case bomb of None \<Rightarrow> 0
     | Some delay \<Rightarrow> (let k = (uint n - uint delay) div 100000 in if k \<ge> 2 then 2 ^ nat (k - 2) else 0))"

lemma uint_add_no_wrap: "uint a + uint b < 2 ^ LENGTH('a) \<Longrightarrow> uint (a + b :: 'a::len word) = uint a + uint b"
  by (simp add: uint_word_ariths)

lemma uint_mult_no_wrap: "uint a * uint b < 2 ^ LENGTH('a) \<Longrightarrow> uint (a * b :: 'a::len word) = uint a * uint b"
  by (simp add: uint_word_ariths)

lemma uint_diff_no_wrap: "b \<le> a \<Longrightarrow> uint (a - b :: 'a::len word) = uint a - uint b"
  by (rule uint_minus_simple_alt [THEN iffD1])

lemma uint_ucast_up:
  "LENGTH('a) \<le> LENGTH('b) \<Longrightarrow> uint (ucast (w :: 'a::len word) :: 'b::len word) = uint w"
  using unat_ucast_up [of w] by (metis uint_nat)

lemma uint_adjust:
  assumes p: "uint P < 2 ^ 250" and x: "uint X = uint P div 2048" and c: "uint c < 200"
  shows "uint (P - X * 99 :: u256) = uint P - 99 * uint X"
    and "uint (P - X * 99 + ucast (c :: u64) * X) = uint P + (uint c - 99) * uint X"
    and "uint (P + X) = uint P + uint X" and "uint (P - X) = uint P - uint X"
proof -
  have ge: "0 \<le> uint P" "0 \<le> uint X" "0 \<le> uint c" by simp_all
  have x99: "99 * uint X \<le> uint P" "uint X \<le> uint P" using x ge(1) by linarith+
  have m: "uint (X * 99) = 99 * uint X"
    using p x ge by (subst uint_mult_no_wrap) auto
  show sub: "uint (P - X * 99) = uint P - 99 * uint X"
    using x99 m by (subst uint_diff_no_wrap) (auto simp: word_le_def)
  have "uint c * uint X \<le> 200 * uint X" using c ge by (intro mult_right_mono) auto
  then have cx: "uint c * uint X < 2 ^ 250" using x p ge(1) by linarith
  have cm: "uint (ucast c * X) = uint c * uint X"
    using cx by (subst uint_mult_no_wrap) (simp_all add: uint_ucast_up)
  have "uint P - 99 * uint X + uint c * uint X < 2 ^ 250 + 2 ^ 250"
    using cx p ge(2) by linarith
  also have "(2 :: int) ^ 250 + 2 ^ 250 \<le> 2 ^ LENGTH(256)" by simp
  finally have "uint (P - X * 99 + ucast c * X) = (uint P - 99 * uint X) + uint c * uint X"
    by (subst uint_add_no_wrap) (simp_all add: sub cm)
  then show "uint (P - X * 99 + ucast c * X) = uint P + (uint c - 99) * uint X"
    by (simp add: algebra_simps)
  show "uint (P + X) = uint P + uint X" using p x99 by (intro uint_add_no_wrap) simp
  show "uint (P - X) = uint P - uint X" using x99 by (intro uint_diff_no_wrap) (simp add: word_le_def)
qed

text \<open>The three formulas before the bomb.\<close>

definition base_difficulty :: "u256 \<Rightarrow> u64 \<Rightarrow> bool \<Rightarrow> bool \<Rightarrow> bool \<Rightarrow> u256" where
  "base_difficulty parent_difficulty dt uncles byzantium homestead =
     (let x = drop_bit 11 parent_difficulty in
      if byzantium then
        (let difficulty = parent_difficulty - x * 99; y = (if uncles then 2 else 1); z = dt div 9
         in if 99 + y > z then difficulty + ucast (99 + y - z) * x else difficulty)
      else if homestead then
        (let difficulty = parent_difficulty - x * 99; z = dt div 10
         in if 100 > z then difficulty + ucast (100 - z) * x else difficulty)
      else if dt < 13 then parent_difficulty + x else parent_difficulty - x)"

lemma uint_base_difficulty:
  assumes p: "uint P < 2 ^ 250"
  shows "uint (base_difficulty P dt uncles byzantium homestead)
    = uint P + uint P div 2048 * difficulty_factor uncles byzantium homestead (uint dt)"
proof -
  let ?X = "drop_bit 11 P"
  have x: "uint ?X = uint P div 2048" by (simp add: drop_bit_eq_div uint_div)
  have adj: "uint (P - ?X * 99 + (if c > z then ucast (c - z) * ?X else 0))
      = uint P + uint ?X * max (uint c - 99 - uint z) (- 99)" if c: "uint c < 200" for c z :: u64
  proof (cases "c > z")
    case True
    then have "uint (c - z) = uint c - uint z" by (simp add: uint_diff_no_wrap)
    moreover have "0 \<le> uint z" by simp
    ultimately have "uint (c - z) < 200" using c by linarith
    from uint_adjust(2) [OF p x this] True show ?thesis
      using \<open>uint (c - z) = uint c - uint z\<close> by (auto simp: word_less_def algebra_simps max_def)
  next
    case False
    then have "uint c \<le> uint z" by (simp add: word_less_def not_less)
    with False uint_adjust(1) [OF p x, of 0] show ?thesis by (simp add: max_def algebra_simps)
  qed
  consider "byzantium" | "\<not> byzantium" "homestead" | "\<not> byzantium" "\<not> homestead" by blast
  then show ?thesis
  proof cases
    case 1
    have "uint (99 + (if uncles then 2 else 1) :: u64) = 99 + (if uncles then 2 else 1)" by simp
    with 1 adj [of "99 + (if uncles then 2 else 1)" "dt div 9"] show ?thesis
      by (auto simp: base_difficulty_def Let_def difficulty_factor_def x uint_div)
  next
    case 2
    with adj [of 100 "dt div 10"] show ?thesis
      by (auto simp: base_difficulty_def Let_def difficulty_factor_def x uint_div)
  next
    case 3
    then show ?thesis using uint_adjust(3,4) [OF p x, of 0]
      by (auto simp: base_difficulty_def Let_def difficulty_factor_def x word_less_def)
  qed
qed

lemma base_difficulty_bounds:
  assumes "uint P < 2 ^ 250"
  shows "0 \<le> uint (base_difficulty P dt uncles byzantium homestead)"
    "uint (base_difficulty P dt uncles byzantium homestead) < 2 ^ 251"
proof -
  have "difficulty_factor uncles byzantium homestead (uint dt) \<le> 2"
    using pos_imp_zdiv_nonneg_iff [of 9 "uint dt"] pos_imp_zdiv_nonneg_iff [of 10 "uint dt"]
    by (auto simp: difficulty_factor_def)
  then have "uint P div 2048 * difficulty_factor uncles byzantium homestead (uint dt) \<le> uint P div 2048 * 2"
    by (intro mult_left_mono) (simp_all add: pos_imp_zdiv_nonneg_iff)
  moreover have "0 \<le> uint P" by simp
  then have "uint P div 2048 * 2 \<le> uint P" by linarith
  ultimately have "uint (base_difficulty P dt uncles byzantium homestead) < 2 * 2 ^ 250"
    using assms uint_base_difficulty [OF assms, of dt uncles byzantium homestead] by linarith
  then show "uint (base_difficulty P dt uncles byzantium homestead) < 2 ^ 251" by simp
qed simp

lemma uint_saturating_sub: "uint (saturating_sub a b) = max 0 (uint a - uint b)"
  by (auto simp: saturating_sub_def uint_diff_no_wrap word_le_def max_def)

lemma canonical_difficulty_alt:
  "canonical_difficulty n ts P pts uncles byzantium homestead bomb =
     max (case bomb of
            Some delay \<Rightarrow> (let k = saturating_sub n delay div 100000 in
              if k \<ge> 2 then base_difficulty P (ts - pts) uncles byzantium homestead + push_bit (unat (k - 2) mod 256) 1
              else base_difficulty P (ts - pts) uncles byzantium homestead)
          | None \<Rightarrow> base_difficulty P (ts - pts) uncles byzantium homestead) MIN_DIFFICULTY"
  by (simp only: canonical_difficulty_def base_difficulty_def Let_def)

lemma uint_two_power:
  assumes "m < 256"
  shows "uint (2 ^ m :: u256) = 2 ^ m"
proof -
  have "(2 :: int) ^ m < 2 ^ 256" using assms by (intro power_strict_increasing) auto
  moreover have "uint (push_bit m (1 :: u256)) = take_bit LENGTH(256) (push_bit m (uint (1 :: u256)))"
    by (rule unsigned_push_bit_eq)
  ultimately show ?thesis using assms by (simp add: take_bit_int_eq_self)
qed

lemma uint_max: "uint (max a b) = max (uint a) (uint b)"
  by (simp add: max_def word_le_def)

text \<open>
  C5.  The difficulty of a block is, on integers and with no wrap-around, the parent's plus a
  2048th of it times the adjustment factor of the active formula (EIP-100 after Byzantium,
  EIP-2 after Homestead, the original one before), plus the difficulty bomb, and at least
  131072.  This holds under three bounds that \<open>canonical_difficulty\<close> itself does not check: a
  parent difficulty below $2^{250}$, a block number below 25 million (the exponent of the bomb is
  then below 249), and a timestamp that is not before the parent's, as the validation of headers
  requires.
\<close>

theorem canonical_difficulty_formula:
  assumes p: "uint P < 2 ^ 250" and ts: "pts \<le> ts" and n: "uint n < 25000000"
  shows "uint (canonical_difficulty n ts P pts uncles byzantium homestead bomb) =
     max (uint P + uint P div 2048 * difficulty_factor uncles byzantium homestead (uint ts - uint pts)
           + bomb_term bomb n) 131072"
proof -
  let ?D = "base_difficulty P (ts - pts) uncles byzantium homestead"
  note D = uint_base_difficulty [OF p, of "ts - pts" uncles byzantium homestead]
  note bounds = base_difficulty_bounds [OF p, of "ts - pts" uncles byzantium homestead]
  have dt: "uint (ts - pts) = uint ts - uint pts" using ts by (rule uint_diff_no_wrap)
  show ?thesis
  proof (cases bomb)
    case None
    then show ?thesis
      by (simp add: canonical_difficulty_alt uint_max MIN_DIFFICULTY_def D dt bomb_term_def)
  next
    case (Some delay)
    let ?k = "saturating_sub n delay div 100000"
    have k: "uint ?k = max 0 (uint n - uint delay) div 100000"
      by (simp add: uint_div uint_saturating_sub)
    have "0 \<le> uint delay" by simp
    then have "max 0 (uint n - uint delay) \<le> 24999999" using n by linarith
    then have k250: "uint ?k < 251" using k zdiv_mono1 [of "max 0 (uint n - uint delay)" 24999999 100000] by simp
    show ?thesis
    proof (cases "?k \<ge> 2")
      case True
      have k2: "uint (?k - 2) = uint ?k - 2" using True by (simp add: uint_diff_no_wrap)
      have m: "unat (?k - 2) < 249" using k250 k2 by (simp add: unat_eq_nat_uint)
      then have pb: "uint (push_bit (unat (?k - 2) mod 256) (1 :: u256)) = 2 ^ unat (?k - 2)"
        by (simp add: uint_two_power)
      have "(2 :: int) ^ unat (?k - 2) \<le> 2 ^ 249" using m by (intro power_increasing) auto
      then have "uint ?D + uint (push_bit (unat (?k - 2) mod 256) (1 :: u256)) < 2 ^ 251 + 2 ^ 250"
        using bounds pb by simp
      then have sum: "uint (?D + push_bit (unat (?k - 2) mod 256) 1) = uint ?D + 2 ^ unat (?k - 2)"
        using pb by (subst uint_add_no_wrap) simp_all
      have "uint ?k = (uint n - uint delay) div 100000" "(uint n - uint delay) div 100000 \<ge> 2"
        using True k by (auto simp: word_le_def max_def split: if_splits)
      then have "bomb_term bomb n = 2 ^ unat (?k - 2)"
        using Some k2 by (simp add: bomb_term_def Let_def unat_eq_nat_uint)
      then show ?thesis
        using True Some sum D dt by (simp add: canonical_difficulty_alt Let_def uint_max MIN_DIFFICULTY_def)
    next
      case False
      then have "(uint n - uint delay) div 100000 < 2"
        using k by (auto simp: word_le_def max_def split: if_splits)
      then have "bomb_term bomb n = 0" using Some by (simp add: bomb_term_def Let_def)
      then show ?thesis
        using False Some D dt by (simp add: canonical_difficulty_alt Let_def uint_max MIN_DIFFICULTY_def)
    qed
  qed
qed

theorem canonical_difficulty_formula_witness:
  "uint (canonical_difficulty 6600000 1030 (2 ^ 40) 1000 True True True (Some 3000000)) = 2 ^ 40 - 2 ^ 29 + 2 ^ 34"
  using canonical_difficulty_formula [of "2 ^ 40" 1000 1030 6600000 True True True "Some 3000000"]
  by (simp add: difficulty_factor_def bomb_term_def)

section \<open>Ommers\<close>

text \<open>The \<open>k\<close>-th ancestor of a header in the block store, and the ommers of the bodies on the
  way.\<close>

fun ancestor :: "'db state_trait \<Rightarrow> 'db \<Rightarrow> nat \<Rightarrow> block_header \<Rightarrow> block_header option" where
  "ancestor T d 0 header = Some header"
| "ancestor T d (Suc k) header = (case get_parent_header T d header of
     Inr (Some parent) \<Rightarrow> ancestor T d k parent | _ \<Rightarrow> None)"

lemma is_kin_ancestor:
  assumes "is_kin T d branch mainline hash n oo = Inr (True, oo')"
  shows "\<exists>k < n. \<exists>A P. ancestor T d k mainline = Some A \<and> A \<noteq> branch \<and>
     get_parent_header T d A = Inr (Some P) \<and> get_parent_header T d branch = Inr (Some P)"
  using assms
proof (induction n arbitrary: mainline hash oo)
  case 0
  then show ?case by simp
next
  case (Suc n)
  then obtain mp bp where step: "branch \<noteq> mainline" "get_parent_header T d mainline = Inr (Some mp)"
    "get_parent_header T d branch = Inr bp"
    and rest: "bp = Some mp \<or> (\<exists>oo. is_kin T d branch mp (h_parent_hash mainline) n oo = Inr (True, oo'))"
    by (auto simp: Let_def split: if_splits option.splits) blast
  from rest show ?case
  proof
    assume "bp = Some mp"
    with step show ?thesis by (intro exI [of _ 0]) auto
  next
    assume "\<exists>oo. is_kin T d branch mp (h_parent_hash mainline) n oo = Inr (True, oo')"
    then obtain k A P where "k < n" "ancestor T d k mp = Some A" "A \<noteq> branch"
      "get_parent_header T d A = Inr (Some P)" "get_parent_header T d branch = Inr (Some P)"
      using Suc.IH by blast
    with step show ?thesis by (intro exI [of _ "Suc k"]) auto
  qed
qed

lemma fold_r_check: "fold_r (\<lambda>x _. check (bad x) e) xs () = Inr () \<longleftrightarrow> (\<forall>x \<in> set xs. \<not> bad x)"
  by (induction xs) (auto simp: bind_check_Inr)

lemma fold_r_unit: "fold_r (\<lambda>x _. f x) xs () = Inr () \<longleftrightarrow> (\<forall>x \<in> set xs. f x = Inr ())"
proof (induction xs)
  case (Cons x xs)
  then show ?case by (cases "f x") auto
qed simp

lemma with_context_Inr [simp]: "with_context e r = Inr x \<longleftrightarrow> r = Inr x"
  by (auto simp: with_context_def split: sum.splits exec_error.splits)

lemma pre_validate_transaction_iff:
  "pre_validate_transaction txn chain base = Inr () \<longleftrightarrow>
     (\<forall>c. msg_chain_id txn = Some c \<longrightarrow> c = chain) \<and>
     (\<forall>b. base = Some b \<longrightarrow> b \<le> max_fee_per_gas txn) \<and>
     max_priority_fee_per_gas txn \<le> max_fee_per_gas txn"
  by (cases "msg_chain_id txn"; cases base) (auto simp: pre_validate_transaction_def bind_check_Inr not_less)

lemma validate_ommer_ok:
  assumes "validate_ommer E self T d blk parent ommer = Inr ()"
  shows "\<exists>op. get_parent_header T d ommer = Inr (Some op) \<and>
      validate_block_header E self ommer op False = Inr () \<and>
      (\<exists>k < 6. \<exists>A. ancestor T d k parent = Some A \<and> A \<noteq> ommer \<and>
         get_parent_header T d A = get_parent_header T d ommer)"
proof -
  obtain op oo where "require_parent T d ommer = Inr op" "validate_block_header E self ommer op False = Inr ()"
    and kin: "is_kin T d ommer parent (h_parent_hash (b_header blk)) 6 [] = Inr (True, oo)"
    using assms by (auto simp: validate_ommer_def bind_check_Inr)
  moreover have "get_parent_header T d ommer = Inr (Some op)"
    using \<open>require_parent T d ommer = Inr op\<close> by (auto simp: require_parent_def ok_or_Inr_iff)
  ultimately show ?thesis using is_kin_ancestor [OF kin] by auto
qed

lemma pre_validate_block_facts:
  assumes "pre_validate_block E self T d blk = Inr ()"
  shows "h_ommers_hash (b_header blk) = ommers_hash E (b_ommers blk)"
    and "h_transactions_root (b_header blk) = transactions_root E (b_transactions blk)"
    and "length (b_ommers blk) \<le> 2" and "distinct (b_ommers blk)"
    and "\<exists>parent. get_parent_header T d (b_header blk) = Inr (Some parent) \<and>
      (\<forall>ommer \<in> set (b_ommers blk). \<exists>op. get_parent_header T d ommer = Inr (Some op) \<and>
        validate_block_header E self ommer op False = Inr () \<and>
        (\<exists>k < 6. \<exists>A. ancestor T d k parent = Some A \<and> A \<noteq> ommer \<and>
           get_parent_header T d A = get_parent_header T d ommer))"
    and "\<forall>txn \<in> set (b_transactions blk).
      (\<forall>c. msg_chain_id (ms_message txn) = Some c \<longrightarrow> c = ceb_chain_id self) \<and>
      (\<forall>b. h_base_fee_per_gas (b_header blk) = Some b \<longrightarrow> b \<le> max_fee_per_gas (ms_message txn))"
proof -
  obtain parent where *: "h_ommers_hash (b_header blk) = ommers_hash E (b_ommers blk)"
    "h_transactions_root (b_header blk) = transactions_root E (b_transactions blk)"
    "length (b_ommers blk) \<le> 2" "\<not> (length (b_ommers blk) = 2 \<and> b_ommers blk ! 0 = b_ommers blk ! 1)"
    "require_parent T d (b_header blk) = Inr parent"
    "\<forall>ommer \<in> set (b_ommers blk). validate_ommer E self T d blk parent ommer = Inr ()"
    "\<forall>txn \<in> set (b_transactions blk).
       pre_validate_transaction (ms_message txn) (ceb_chain_id self) (h_base_fee_per_gas (b_header blk)) = Inr ()"
    using assms by (auto simp: pre_validate_block_def Let_def bind_check_Inr fold_r_unit not_less)
  then show "h_ommers_hash (b_header blk) = ommers_hash E (b_ommers blk)"
    "h_transactions_root (b_header blk) = transactions_root E (b_transactions blk)"
    "length (b_ommers blk) \<le> 2" by auto
  from *(3) consider "b_ommers blk = []" | o1 where "b_ommers blk = [o1]" | o1 o2 where "b_ommers blk = [o1, o2]"
    by (cases "b_ommers blk" rule: list.exhaust; cases "tl (b_ommers blk)"; cases "tl (tl (b_ommers blk))") auto
  then show "distinct (b_ommers blk)" using *(4) by cases auto
  have "get_parent_header T d (b_header blk) = Inr (Some parent)"
    using *(5) by (auto simp: require_parent_def ok_or_Inr_iff)
  then show "\<exists>parent. get_parent_header T d (b_header blk) = Inr (Some parent) \<and>
      (\<forall>ommer \<in> set (b_ommers blk). \<exists>op. get_parent_header T d ommer = Inr (Some op) \<and>
        validate_block_header E self ommer op False = Inr () \<and>
        (\<exists>k < 6. \<exists>A. ancestor T d k parent = Some A \<and> A \<noteq> ommer \<and>
           get_parent_header T d A = get_parent_header T d ommer))"
    using *(6) validate_ommer_ok by (metis (no_types, lifting))
  show "\<forall>txn \<in> set (b_transactions blk).
      (\<forall>c. msg_chain_id (ms_message txn) = Some c \<longrightarrow> c = ceb_chain_id self) \<and>
      (\<forall>b. h_base_fee_per_gas (b_header blk) = Some b \<longrightarrow> b \<le> max_fee_per_gas (ms_message txn))"
    using *(7) by (simp add: pre_validate_transaction_iff)
qed

text \<open>
  C36.  A block that passes \<open>pre_validate_block\<close> commits to its ommers and transactions, has at
  most two distinct ommers, each a valid header whose parent is the parent of one of the six
  nearest ancestors of the block without being that ancestor itself, and only transactions
  of this chain that offer the base fee.
\<close>

theorem pre_validate_block_sound:
  assumes "pre_validate_block E self T d blk = Inr ()"
  shows "h_ommers_hash (b_header blk) = ommers_hash E (b_ommers blk)
    \<and> h_transactions_root (b_header blk) = transactions_root E (b_transactions blk)
    \<and> length (b_ommers blk) \<le> 2 \<and> distinct (b_ommers blk)
    \<and> (\<exists>parent. get_parent_header T d (b_header blk) = Inr (Some parent) \<and>
        (\<forall>ommer \<in> set (b_ommers blk). \<exists>op. get_parent_header T d ommer = Inr (Some op) \<and>
          validate_block_header E self ommer op False = Inr () \<and>
          (\<exists>k < 6. \<exists>A. ancestor T d k parent = Some A \<and> A \<noteq> ommer \<and>
             get_parent_header T d A = get_parent_header T d ommer)))
    \<and> (\<forall>txn \<in> set (b_transactions blk).
        (\<forall>c. msg_chain_id (ms_message txn) = Some c \<longrightarrow> c = ceb_chain_id self) \<and>
        (\<forall>b. h_base_fee_per_gas (b_header blk) = Some b \<longrightarrow> b \<le> max_fee_per_gas (ms_message txn)))"
  by (intro conjI pre_validate_block_facts [OF assms])

text \<open>A block of height 8 with an ommer: a sibling of its parent.\<close>

definition sample_env :: consensus_env where
  "sample_env = \<lparr> env_now = Some 1000, env_keccak = (\<lambda>bs. of_nat (length bs)),
     rlp_encode_headers = (\<lambda>hs. replicate (length hs) 0), rlp_encode_header = h_extra_data,
     rlp_encode_truncated = h_extra_data, trie_encode_tx = (\<lambda>_. []),
     ordered_trie_root = (\<lambda>bs. of_nat (length bs)), hashimoto = (\<lambda>_ _ _. (0, 0)), cross_boundary = (\<lambda>_. 1) \<rparr>"

definition sample_grandparent :: block_header where
  "sample_grandparent = sample_header\<lparr> h_number := 6, h_timestamp := 50, h_base_fee_per_gas := None \<rparr>"

definition sample_parent :: block_header where
  "sample_parent = sample_header\<lparr> h_parent_hash := 6, h_base_fee_per_gas := None \<rparr>"

definition sample_ommer :: block_header where
  "sample_ommer = sample_parent\<lparr> h_timestamp := 60 \<rparr>"

definition sample_trait :: "unit state_trait" where
  "sample_trait = \<lparr> read_account = (\<lambda>_ _. Inr None), read_code = (\<lambda>_ _. Inr []), read_storage = (\<lambda>_ _ _. Inr 0),
     erase_storage = (\<lambda>_ _. Inr ()),
     read_header = (\<lambda>_ n h. Inr (if n = 7 \<and> h = 7 then Some sample_parent
       else if n = 6 \<and> h = 6 then Some sample_grandparent else None)),
     read_body = (\<lambda>_ _ _. Inr (Some \<lparr> bb_transactions = [], bb_ommers = [] \<rparr>)),
     total_difficulty = (\<lambda>_ _ _. Inr None), begin_block = (\<lambda>_ _. ()), update_account = (\<lambda>_ _ _ _. ()),
     update_code = (\<lambda>_ _ _. Inr ()), update_storage = (\<lambda>_ _ _ _ _. Inr ()) \<rparr>"

definition sample_block :: block where
  "sample_block = \<lparr> b_header = sample_header\<lparr> h_number := 8, h_parent_hash := 7, h_ommers_hash := 1,
     h_base_fee_per_gas := None \<rparr>, b_transactions = [], b_ommers = [sample_ommer] \<rparr>"

definition sample_engine :: consensus_engine_base where
  "sample_engine = \<lparr> ceb_chain_id = 1, ceb_eip1559_block = None \<rparr>"

theorem validate_block_header_iff_witness:
  "validate_block_header sample_env sample_engine sample_ommer sample_grandparent True = Inr ()"
  using validate_block_header_iff [of sample_env sample_engine sample_ommer sample_grandparent True]
  by (simp add: sample_env_def sample_engine_def sample_ommer_def sample_parent_def sample_grandparent_def
      sample_header_def gas_limit_base_def expected_base_fee_per_gas_def Let_def)

lemma sample_block_valid: "pre_validate_block sample_env sample_engine sample_trait () sample_block = Inr ()"
  by code_simp

theorem pre_validate_block_sound_witness:
  "distinct (b_ommers sample_block) \<and> (\<exists>op. get_parent_header sample_trait () sample_ommer = Inr (Some op))"
  using pre_validate_block_sound [OF sample_block_valid] by (auto simp: sample_block_def)

section \<open>Rewards\<close>

definition reward_of :: "revision \<Rightarrow> nat" where
  "reward_of r = (if r \<ge> Constantinople then 2 else if r \<ge> Byzantium then 3 else 5) * 10 ^ 18"

primrec change_nat :: "finalization_change \<Rightarrow> address \<times> nat" where
  "change_nat (Reward a v) = (a, unat v)"

lemma reward_word:
  "(if r \<ge> Constantinople then BLOCK_REWARD_CONSTANTINOPLE
    else if r \<ge> Byzantium then BLOCK_REWARD_BYZANTIUM else BLOCK_REWARD_FRONTIER) = (of_nat (reward_of r) :: u128)"
  by (simp add: reward_of_def BLOCK_REWARD_CONSTANTINOPLE_def BLOCK_REWARD_BYZANTIUM_def BLOCK_REWARD_FRONTIER_def ETHER_def)

lemma unat_reward: "unat (of_nat (reward_of r) :: u128) = reward_of r" "reward_of r \<le> 5 * 10 ^ 18"
  by (auto simp: reward_of_def)

lemma finalize_fold:
  "fold (\<lambda>ommer (changes, m). (changes @ [f ommer], m + c)) ommers (cs, m0 :: u128)
   = (cs @ map f ommers, m0 + of_nat (length ommers) * c)"
  by (induction ommers arbitrary: cs m0) (auto simp: algebra_simps)

lemma unat_ommer_reward:
  fixes on n :: u64
  assumes "unat n \<le> unat on + 7" and "unat on < unat n" and "unat n < 2 ^ 63"
  shows "unat (drop_bit 3 (ucast (8 + on - n) * ucast (of_nat (reward_of r) :: u128)) :: u256)
    = (8 + unat on - unat n) * reward_of r div 8"
proof -
  have "unat (8 + on) = 8 + unat on" using assms by (subst unat_add_no_wrap) auto
  then have k: "unat (8 + on - n) = 8 + unat on - unat n"
    using assms by (subst unat_diff_no_wrap) (auto simp: word_le_nat_alt)
  have "(8 + unat on - unat n) * reward_of r \<le> 8 * (5 * 10 ^ 18)"
    using assms unat_reward(2) [of r] by (intro mult_le_mono) auto
  then have "unat (ucast (8 + on - n) * ucast (of_nat (reward_of r) :: u128) :: u256)
      = (8 + unat on - unat n) * reward_of r"
    by (subst unat_mult_no_wrap) (simp_all add: unat_ucast_up k unat_reward)
  then show ?thesis by (simp add: drop_bit_eq_div unat_div)
qed

text \<open>
  C38.  The rewards of a block: every ommer's miner gets the block reward of the revision times
  $(8 - k)/8$, where \<open>k\<close> is the ommer's distance of one to seven generations, and the
  block's miner gets the reward and a 32nd of it per ommer; nothing wraps.
\<close>

theorem ethash_finalize_rewards:
  assumes "\<forall>o' \<in> set ommers. unat (h_number o') < unat (ph_number header) \<and>
      unat (ph_number header) \<le> unat (h_number o') + 7"
    and "unat (ph_number header) < 2 ^ 63" and "length ommers \<le> 2"
  shows "map change_nat (ethash_finalize header ommers r) =
    map (\<lambda>o'. (h_beneficiary o',
        (8 + unat (h_number o') - unat (ph_number header)) * reward_of r div 8)) ommers
    @ [(ph_beneficiary header, reward_of r + length ommers * (reward_of r div 32))]"
proof -
  let ?R = "of_nat (reward_of r) :: u128"
  have eq: "ethash_finalize header ommers r = map (\<lambda>o'. Reward (h_beneficiary o')
        (drop_bit 3 (ucast (8 + h_number o' - ph_number header) * ucast ?R))) ommers
      @ [Reward (ph_beneficiary header) (ucast (?R + of_nat (length ommers) * (?R div 32)))]"
    unfolding ethash_finalize_def reward_word Let_def finalize_fold by simp
  have d: "unat (?R div 32) = reward_of r div 32" by (simp add: unat_div unat_reward)
  have l: "unat (of_nat (length ommers) :: u128) = length ommers"
    using assms(3) by (simp add: unat_of_nat)
  have "length ommers * (reward_of r div 32) \<le> 2 * (5 * 10 ^ 18)"
    using assms(3) unat_reward(2) [of r] by (intro mult_le_mono) auto
  moreover from this have "unat (of_nat (length ommers) * (?R div 32)) = length ommers * (reward_of r div 32)"
    by (subst unat_mult_no_wrap) (simp_all add: d l)
  ultimately have "unat (?R + of_nat (length ommers) * (?R div 32)) = reward_of r + length ommers * (reward_of r div 32)"
    using unat_reward [of r] by (subst unat_add_no_wrap) simp_all
  then show ?thesis
    using assms(1,2) unfolding eq by (auto simp: unat_ucast_up intro!: unat_ommer_reward)
qed

theorem ethash_finalize_rewards_witness:
  "map change_nat (ethash_finalize (partial_header_from (sample_header\<lparr> h_number := 8 \<rparr>)) [sample_header] London)
    = [(1, 1750000000000000000), (1, 2062500000000000000)]"
  using ethash_finalize_rewards [of "[sample_header]" "partial_header_from (sample_header\<lparr> h_number := 8 \<rparr>)" London]
  by (simp add: sample_header_def partial_header_from_def reward_of_def less_eq_revision_def)

end
