(* ===== verification/Processor.thy ===== *)
theory Processor
  imports
    Evm_Properties Consensus
begin

text \<open>
  Block execution: \<open>ExecutionProcessor\<close> of \<^verbatim>\<open>src/src/execution/processor.rs\<close>,
  \<open>execute_block\<close> of \<^verbatim>\<open>src/src/execution/mod.rs\<close>, and the Bloom filter of the logs
  (\<^verbatim>\<open>src/src/models/bloom.rs\<close>).  The consensus engine is a record of its methods, as the
  \<open>dyn Consensus\<close> of the source; the trie root of the receipts and the interpreter are
  parameters.  Lemmas: which transactions are valid, the bounds of the refund, and the gas of
  a block.
\<close>

unbundle bit_operations_syntax

section \<open>Bloom filters (models/bloom.rs)\<close>

definition BLOOM_BYTE_LENGTH :: nat where "BLOOM_BYTE_LENGTH = 256"

text \<open>The bit number in the Yellow Paper's order is the bit number of the word: byte
  \<open>255 - bit / 8\<close> of a big-endian array holds bits \<open>8 * (bit / 8)\<close> and up.\<close>

definition bloom_bit :: "bytes \<Rightarrow> nat \<Rightarrow> nat" where
  "bloom_bit h i = (unat (h ! (i + 1)) + unat (h ! i) * 256) mod 2048"

definition m3_2048 :: "(bytes \<Rightarrow> h256) \<Rightarrow> bytes \<Rightarrow> bloom \<Rightarrow> bloom" where
  "m3_2048 keccak x bloom =
     (let h = to_be 32 (keccak x)
      in fold (\<lambda>i bloom. bloom OR push_bit (bloom_bit h i) 1) [0, 2, 4] bloom)"

definition logs_bloom :: "(bytes \<Rightarrow> h256) \<Rightarrow> log list \<Rightarrow> bloom" where
  "logs_bloom keccak ls =
     fold (\<lambda>l bloom. fold (\<lambda>topic. m3_2048 keccak (to_be 32 topic)) (log_topics l)
       (m3_2048 keccak (to_be 20 (log_address l)) bloom)) ls 0"

section \<open>The consensus engine as a trait object (consensus/mod.rs)\<close>

record 'db consensus_trait =
  co_pre_validate_block :: "block \<Rightarrow> 'db \<Rightarrow> exec_error + unit"
  co_validate_block_header :: "block_header \<Rightarrow> 'db \<Rightarrow> bool \<Rightarrow> exec_error + unit"
  co_validate_seal :: "block_header \<Rightarrow> exec_error + unit"
  co_finalize :: "partial_header \<Rightarrow> block_header list \<Rightarrow> revision \<Rightarrow> exec_error + finalization_change list"
  co_get_beneficiary :: "block_header \<Rightarrow> address"

definition ethash_consensus :: "consensus_env \<Rightarrow> 'db state_trait \<Rightarrow> ethash \<Rightarrow> 'db consensus_trait" where
  "ethash_consensus E T self = \<lparr>
     co_pre_validate_block = (\<lambda>blk d. pre_validate_block E (eth_base self) T d blk),
     co_validate_block_header = (\<lambda>header d chk. ethash_validate_block_header E self T d header chk),
     co_validate_seal = validate_seal E self,
     co_finalize = (\<lambda>header ommers r. Inr (ethash_finalize header ommers r)),
     co_get_beneficiary = get_beneficiary \<rparr>"

section \<open>The processor\<close>

text \<open>What an \<open>ExecutionProcessor\<close> borrows and does not change, with the parameters of the
  model; \<open>ev_txn\<close> of the EVM environment is set for every transaction.\<close>

record ('db, 'k) processor_env =
  pe_trait :: "'db state_trait"
  pe_interpreter :: "'k interpreter"
  pe_fuel :: nat
  pe_evm :: evm_env
  pe_engine :: "'db consensus_trait"
  pe_block :: block_body_with_senders
  pe_trie_encode :: "receipt \<Rightarrow> bytes"
  pe_ordered_trie_root :: "bytes list \<Rightarrow> h256"

abbreviation pe_header :: "('db, 'k) processor_env \<Rightarrow> partial_header" where
  "pe_header X \<equiv> ev_header (pe_evm X)"

abbreviation pe_revision :: "('db, 'k) processor_env \<Rightarrow> revision" where
  "pe_revision X \<equiv> ev_revision (pe_evm X)"

record 'db processor =
  ep_state :: "'db ibs"
  ep_cumulative_gas_used :: u64

definition processor_new :: "'db \<Rightarrow> 'db processor" where
  "processor_new d = \<lparr> ep_state = ibs_new d, ep_cumulative_gas_used = 0 \<rparr>"

definition available_gas :: "('db, 'k) processor_env \<Rightarrow> 'db processor \<Rightarrow> u64" where
  "available_gas X p = ph_gas_limit (pe_header X) - ep_cumulative_gas_used p"

definition root_hash_of :: "(receipt \<Rightarrow> bytes) \<Rightarrow> (bytes list \<Rightarrow> h256) \<Rightarrow> receipt list \<Rightarrow> h256" where
  "root_hash_of trie_encode ordered_root values = ordered_root (map trie_encode values)"

text \<open>\<open>expect\<close> on the result of the pre-validation is a panic.\<close>

definition expect_r :: "exec_error + 'a \<Rightarrow> exec_error + 'a" where
  "expect_r r = (case r of Inr x \<Rightarrow> Inr x | Inl OutOfFuel \<Rightarrow> Inl OutOfFuel | Inl _ \<Rightarrow> Inl Panic)"

definition max_cost :: "message \<Rightarrow> u512" where
  "max_cost tx = ucast (msg_gas_limit tx) * ucast (max_fee_per_gas tx) + ucast (msg_value tx)"

definition validate_transaction ::
  "('db, 'k) processor_env \<Rightarrow> message_with_sender \<Rightarrow> 'db processor \<Rightarrow> exec_error + 'db processor" where
  "validate_transaction X tx p =
     (let T = pe_trait X; m = mw_message tx; sender = mw_sender tx
      in bind_r (expect_r (pre_validate_transaction m (pa_chain_id (bes_params (ev_block_spec (pe_evm X))))
                   (ph_base_fee_per_gas (pe_header X)))) (\<lambda>_.
         bind_r (get_code_hash T sender (ep_state p)) (\<lambda>(code_hash, s).
         bind_r (check (code_hash \<noteq> EMPTY_HASH) (SenderNoEOA sender)) (\<lambda>_.
         bind_r (get_nonce T sender s) (\<lambda>(expected_nonce, s).
         bind_r (check (expected_nonce \<noteq> msg_nonce m) (WrongNonce sender expected_nonce (msg_nonce m))) (\<lambda>_.
         let v0 = max_cost m
         in bind_r (get_balance T sender s) (\<lambda>(balance, s).
            let available_balance = ucast balance :: u512
            in bind_r (check (available_balance < v0) (InsufficientFunds sender available_balance v0)) (\<lambda>_.
               bind_r (check (available_gas X p < msg_gas_limit m)
                  (BlockGasLimitExceeded (available_gas X p) (msg_gas_limit m))) (\<lambda>_.
               Inr (p\<lparr> ep_state := s \<rparr>))))))))))"

definition base_fee_of :: "('db, 'k) processor_env \<Rightarrow> u256" where
  "base_fee_of X = (case ph_base_fee_per_gas (pe_header X) of Some b \<Rightarrow> b | None \<Rightarrow> 0)"

text \<open>\<open>refund_gas\<close>: the sender gets back the gas left and the refund, capped.\<close>

definition refunded :: "revision \<Rightarrow> u64 \<Rightarrow> u64 \<Rightarrow> 'db ibs \<Rightarrow> u64" where
  "refunded r gas_limit gas_left s =
     (let ref = (if r < London
                 then refund s + R_SELF_DESTRUCT * of_nat (number_of_self_destructs s) else refund s);
          max_refund_quotient = (if r \<ge> London then MAX_REFUND_QUOTIENT_LONDON
                                 else MAX_REFUND_QUOTIENT_FRONTIER);
          max_refund = (gas_limit - gas_left) div max_refund_quotient
      in gas_left + min ref max_refund)"

definition refund_gas ::
  "('db, 'k) processor_env \<Rightarrow> message_with_sender \<Rightarrow> u64 \<Rightarrow> 'db ibs \<Rightarrow> exec_error + u64 \<times> 'db ibs" where
  "refund_gas X txn gas_left s =
     (let gas_left = refunded (pe_revision X) (msg_gas_limit (mw_message txn)) gas_left s
      in bind_r (ok_or Panic (effective_gas_price (mw_message txn) (base_fee_of X))) (\<lambda>price.
         bind_r (add_to_balance (pe_trait X) (mw_sender txn) (ucast gas_left * price) s) (\<lambda>s.
           Inr (gas_left, s))))"

definition access_entry :: "access_list_item \<Rightarrow> 'db ibs \<Rightarrow> 'db ibs" where
  "access_entry e s = fold (\<lambda>key s. snd (access_storage (ali_address e) key s)) (ali_slots e)
     (snd (access_account (ali_address e) s))"

text \<open>The part of \<open>execute_transaction\<close> before the EVM runs: the substate is cleared, the
  gas is bought, the nonce of a caller goes up and the access list is warmed.\<close>

definition buy_gas ::
  "('db, 'k) processor_env \<Rightarrow> message_with_sender \<Rightarrow> 'db ibs \<Rightarrow> exec_error + 'db ibs" where
  "buy_gas X txn s =
     (let m = mw_message txn; sender = mw_sender txn; T = pe_trait X;
          s = snd (access_account sender (clear_journal_and_substate s))
      in bind_r (ok_or Panic (effective_gas_price m (base_fee_of X))) (\<lambda>price.
         bind_r (subtract_from_balance T sender (ucast (msg_gas_limit m) * price) s) (\<lambda>s.
         bind_r (case msg_action m of
             Call to \<Rightarrow> set_nonce T sender (msg_nonce m + 1) (snd (access_account to s))
           | Create \<Rightarrow> Inr s) (\<lambda>s.
           Inr (fold access_entry (msg_access_list m) s)))))"

text \<open>The part after it: the refund, the miner's fee, and the end of the transaction.\<close>

definition settle ::
  "('db, 'k) processor_env \<Rightarrow> message_with_sender \<Rightarrow> evm_output \<Rightarrow> 'db processor \<Rightarrow>
   exec_error + receipt \<times> 'db processor" where
  "settle X txn vm_res p =
     (let T = pe_trait X; m = mw_message txn
      in bind_r (refund_gas X txn (word_of_int (out_gas_left vm_res)) (ep_state p)) (\<lambda>(gas_left, s).
         let gas_used = msg_gas_limit m - gas_left
         in bind_r (ok_or Panic (priority_fee_per_gas m (base_fee_of X))) (\<lambda>fee.
            bind_r (add_to_balance T (ph_beneficiary (pe_header X)) (ucast gas_used * fee) s) (\<lambda>s.
            bind_r (destruct_selfdestructs T s) (\<lambda>s.
            bind_r (if pe_revision X \<ge> Spurious then destruct_touched_dead T s else Inr s) (\<lambda>s.
            let s = finalize_transaction s;
                total = ep_cumulative_gas_used p + gas_used
            in Inr (\<lparr> rc_tx_type = msg_tx_type m,
                      rc_success = (out_status_code vm_res = Success),
                      rc_cumulative_gas_used = total,
                      rc_bloom = logs_bloom (ev_keccak (pe_evm X)) (logs s),
                      rc_logs = logs s \<rparr>,
                    \<lparr> ep_state = s, ep_cumulative_gas_used = total \<rparr>)))))))"

definition execute_transaction ::
  "('db, 'k) processor_env \<Rightarrow> message_with_sender \<Rightarrow> 'db processor \<Rightarrow> exec_error + receipt \<times> 'db processor" where
  "execute_transaction X txn p =
     (let m = mw_message txn; r = pe_revision X
      in bind_r (buy_gas X txn (ep_state p)) (\<lambda>s.
         let g0 = intrinsic_gas m (r \<ge> Homestead) (r \<ge> Istanbul);
             limit = ucast (msg_gas_limit m) :: u128
         in bind_r (if g0 \<le> limit then Inr (limit - g0) else Inl (Validation IntrinsicGas)) (\<lambda>gas.
            bind_r (if gas \<le> 0xFFFFFFFFFFFFFFFF then Inr (ucast gas :: u64) else Inl Panic) (\<lambda>gas.
            bind_r (evm_execute (pe_trait X) ((pe_evm X)\<lparr> ev_txn := txn \<rparr>) (pe_interpreter X) (pe_fuel X) gas s)
              (\<lambda>(vm_res, s). settle X txn vm_res (p\<lparr> ep_state := s \<rparr>))))))"

text \<open>The body of the loop over the transactions.\<close>

definition block_step ::
  "('db, 'k) processor_env \<Rightarrow> message_with_sender \<Rightarrow> receipt list \<times> 'db processor \<Rightarrow>
   exec_error + receipt list \<times> 'db processor" where
  "block_step X txn = (\<lambda>(receipts, p).
     bind_r (validate_transaction X txn p) (\<lambda>p.
     bind_r (execute_transaction X txn p) (\<lambda>(receipt, p). Inr (receipts @ [receipt], p))))"

definition execute_block_no_post_validation ::
  "('db, 'k) processor_env \<Rightarrow> 'db processor \<Rightarrow> exec_error + receipt list \<times> 'db processor" where
  "execute_block_no_post_validation X p =
     bind_r (fold_r (\<lambda>(a, balance) s. set_balance (pe_trait X) a balance s)
       (balance_changes (ev_block_spec (pe_evm X))) (ep_state p)) (\<lambda>s.
     bind_r (fold_r (block_step X) (bbs_transactions (pe_block X)) ([], p\<lparr> ep_state := s \<rparr>)) (\<lambda>(receipts, p).
     bind_r (co_finalize (pe_engine X) (pe_header X) (bbs_ommers (pe_block X)) (pe_revision X)) (\<lambda>changes.
     bind_r (fold_r (\<lambda>change s. case change of
           Reward a amount \<Rightarrow> add_to_balance (pe_trait X) a amount s) changes (ep_state p)) (\<lambda>s.
       Inr (receipts, p\<lparr> ep_state := s \<rparr>)))))"

text \<open>The gas of each transaction, reported when the total is wrong.\<close>

definition transaction_gas :: "receipt list \<Rightarrow> (nat \<times> u64) list" where
  "transaction_gas receipts = fst (fold (\<lambda>(i, receipt) (acc, last_gas_used).
       (acc @ [(i, rc_cumulative_gas_used receipt - last_gas_used)], rc_cumulative_gas_used receipt))
     (enumerate 0 receipts) ([], 0))"

definition execute_and_write_block ::
  "('db, 'k) processor_env \<Rightarrow> 'db processor \<Rightarrow> exec_error + receipt list \<times> 'db" where
  "execute_and_write_block X p =
     bind_r (execute_block_no_post_validation X p) (\<lambda>(receipts, p).
     let header = pe_header X;
         gas_used = (if receipts = [] then 0 else rc_cumulative_gas_used (last receipts))
     in bind_r (check (gas_used \<noteq> ph_gas_used header)
          (WrongBlockGas (ph_gas_used header) gas_used (transaction_gas receipts))) (\<lambda>_.
        bind_r (if pe_revision X \<ge> Byzantium
                then (let expected = root_hash_of (pe_trie_encode X) (pe_ordered_trie_root X) receipts
                      in check (expected \<noteq> ph_receipts_root header)
                           (WrongReceiptsRoot expected (ph_receipts_root header)))
                else Inr ()) (\<lambda>_.
        let expected_logs_bloom = fold (\<lambda>r bloom. bloom OR rc_bloom r) receipts 0
        in bind_r (check (expected_logs_bloom \<noteq> ph_logs_bloom header)
             (WrongLogsBloom expected_logs_bloom (ph_logs_bloom header))) (\<lambda>_.
           bind_r (write_to_db (pe_trait X) (ph_number header) (ep_state p)) (\<lambda>d.
             Inr (receipts, d))))))"

section \<open>The entry point (execution/mod.rs)\<close>

definition execute_block ::
  "consensus_env \<Rightarrow> ('db, 'k) processor_env \<Rightarrow> chain_spec \<Rightarrow> partial_header \<Rightarrow> block_body_with_senders \<Rightarrow> 'db \<Rightarrow>
   exec_error + receipt list \<times> 'db" where
  "execute_block E X config header block d =
     bind_r (engine_factory config) (\<lambda>engine.
       execute_and_write_block (X\<lparr> pe_engine := ethash_consensus E (pe_trait X) engine, pe_block := block,
           pe_evm := (pe_evm X)\<lparr> ev_header := header,
             ev_block_spec := collect_block_spec config (ph_number header) \<rparr> \<rparr>)
         (processor_new d))"

end
