(* ===== verification/Database_Frame.thy ===== *)
theory Database_Frame
  imports
    Processor State_Persistence
begin

text \<open>
  The database behind the intra-block state is not written before \<open>write_to_db\<close>: no operation,
  no call of the EVM, whatever the interpreter does, and no transaction changes it.  The
  block tables of the in-memory state are not changed by \<open>write_to_db\<close> and by unwinding
  either.
\<close>

named_theorems db_frame

section \<open>Operations of the intra-block state\<close>

lemma db_get_object [db_frame]: "get_object T a s = Inr (o', t) \<Longrightarrow> db t = db s"
  by (auto simp: get_object_def Let_def split: option.splits)

lemma db_push_delta [simp]: "db (push_delta d s) = db s"
  by (simp add: push_delta_def)

lemma db_bump_incarnation [simp]: "db (bump_incarnation a s) = db s"
  by (simp add: bump_incarnation_def)

lemma db_touch [simp]: "db (touch a s) = db s"
  by (simp add: touch_def Let_def)

lemma db_access [simp]: "db (snd (access_account a s)) = db s" "db (snd (access_storage a k s)) = db s"
  by (simp_all add: access_account_def access_storage_def Let_def)

lemma db_put_current [simp]: "db (put_current a k v s) = db s"
  by (simp add: put_current_def Let_def)

lemma db_refund [simp]: "db (add_refund r s) = db s" "db (subtract_refund r s) = db s" "db (add_log l s) = db s"
  by (simp_all add: add_refund_def subtract_refund_def add_log_def)

lemma db_end [simp]: "db (finalize_transaction s) = db s" "db (clear_journal_and_substate s) = db s"
  by (simp_all add: finalize_transaction_def clear_journal_and_substate_def)

lemma db_record_selfdestruct [simp]: "db (record_selfdestruct a s) = db s"
  by (simp add: record_selfdestruct_def)

lemma db_get_or_create [db_frame]: "get_or_create_object T a s = Inr (obj, acc, t) \<Longrightarrow> db t = db s"
  by (auto simp: get_or_create_object_def ensure_object_def db_frame split: option.splits if_splits)

lemma db_reads [db_frame]:
  "exists_account T a s = Inr (e, t) \<Longrightarrow> db t = db s"
  "is_dead T a s = Inr (e, t) \<Longrightarrow> db t = db s"
  "get_balance T a s = Inr (v, t) \<Longrightarrow> db t = db s"
  "get_nonce T a s = Inr (n, t) \<Longrightarrow> db t = db s"
  "get_code T a s = Inr (c, t) \<Longrightarrow> db t = db s"
  "get_code_hash T a s = Inr (h, t) \<Longrightarrow> db t = db s"
  "get_storage T a k orig s = Inr (v, t) \<Longrightarrow> db t = db s"
  by (auto simp: exists_account_def is_dead_def get_balance_def get_nonce_def get_code_def get_code_hash_def
      get_storage_def Let_def db_frame split: option.splits if_splits)

lemma db_writes [db_frame]:
  "create_contract T a s = Inr t \<Longrightarrow> db t = db s"
  "destruct T a s = Inr t \<Longrightarrow> db t = db s"
  "update_balance T f a s = Inr t \<Longrightarrow> db t = db s"
  "set_nonce T a n s = Inr t \<Longrightarrow> db t = db s"
  "set_code T kc a code s = Inr t \<Longrightarrow> db t = db s"
  by (auto simp: create_contract_def destruct_def update_balance_def set_nonce_def set_code_def Let_def
      db_frame split: option.splits)

lemma db_writes' [db_frame]:
  "set_balance T a v s = Inr t \<Longrightarrow> db t = db s"
  "add_to_balance T a v s = Inr t \<Longrightarrow> db t = db s"
  "subtract_from_balance T a v s = Inr t \<Longrightarrow> db t = db s"
  "get_current_storage T a k s = Inr (w, t) \<Longrightarrow> db t = db s"
  "get_original_storage T a k s = Inr (w, t) \<Longrightarrow> db t = db s"
  "set_storage T a k v s = Inr t \<Longrightarrow> db t = db s"
  by (auto simp: set_balance_def add_to_balance_def subtract_from_balance_def get_current_storage_def
      get_original_storage_def set_storage_def db_frame split: if_splits)

lemma db_destructs [db_frame]:
  "destruct_selfdestructs T s = Inr t \<Longrightarrow> db t = db s"
  "destruct_touched_dead T s = Inr t \<Longrightarrow> db t = db s"
  unfolding destruct_selfdestructs_def destruct_touched_dead_def
  by (erule fold_r_invariant; auto simp: db_frame split: if_splits)+

lemma db_revert_delta [db_frame]: "revert_delta d s = Inr t \<Longrightarrow> db t = db s"
  by (cases d) (auto split: if_splits)

lemma db_revert_n [db_frame]: "revert_n n s = Inr t \<Longrightarrow> db t = db s"
  by (induction n arbitrary: s) (auto simp: db_frame split: if_splits)

lemma db_revert [db_frame]: "revert_to_snapshot sn s = Inr t \<Longrightarrow> db t = db s"
  by (auto simp: revert_to_snapshot_def db_frame split: if_splits)

section \<open>The EVM\<close>

text \<open>Results that keep the database, with rules for the shapes of the code.\<close>

definition keeps_s :: "'db \<Rightarrow> exec_error + 'db ibs \<Rightarrow> bool" where
  "keeps_s d r \<longleftrightarrow> (\<forall>t. r = Inr t \<longrightarrow> db t = d)"

definition keeps :: "'db \<Rightarrow> exec_error + 'a \<times> 'db ibs \<Rightarrow> bool" where
  "keeps d r \<longleftrightarrow> (\<forall>x t. r = Inr (x, t) \<longrightarrow> db t = d)"

named_theorems keeps_rules

lemma keeps_simps [simp]:
  "keeps_s d (Inl e)" "keeps_s d (Inr s) \<longleftrightarrow> db s = d"
  "keeps d (Inl e)" "keeps d (Inr (x, s)) \<longleftrightarrow> db s = d"
  by (simp_all add: keeps_def keeps_s_def)

lemma keeps_shapes [keeps_rules]:
  "db s = d \<Longrightarrow> keeps_s d (Inr s)"
  "db s = d \<Longrightarrow> keeps d (Inr (x, s))"
  "(c \<Longrightarrow> keeps d r) \<Longrightarrow> (\<not> c \<Longrightarrow> keeps d r') \<Longrightarrow> keeps d (if c then r else r')"
  "(c \<Longrightarrow> keeps_s d q) \<Longrightarrow> (\<not> c \<Longrightarrow> keeps_s d q') \<Longrightarrow> keeps_s d (if c then q else q')"
  by auto

lemma keeps_bind [keeps_rules]:
  "keeps_s d q \<Longrightarrow> (\<And>t. db t = d \<Longrightarrow> keeps d (k t)) \<Longrightarrow> keeps d (bind_r q k)"
  "keeps_s d q \<Longrightarrow> (\<And>t. db t = d \<Longrightarrow> keeps_s d (k' t)) \<Longrightarrow> keeps_s d (bind_r q k')"
  "keeps d r \<Longrightarrow> (\<And>x t. db t = d \<Longrightarrow> keeps d (l x t)) \<Longrightarrow> keeps d (bind_r r (case_prod l))"
  "keeps d r \<Longrightarrow> (\<And>x t. db t = d \<Longrightarrow> keeps_s d (l' x t)) \<Longrightarrow> keeps_s d (bind_r r (case_prod l'))"
  by (cases q, simp_all)+ (cases r, auto)+

lemma keeps_ops [keeps_rules]:
  "db s = d \<Longrightarrow> keeps d (exists_account T a s)" "db s = d \<Longrightarrow> keeps d (is_dead T a s)"
  "db s = d \<Longrightarrow> keeps d (get_balance T a s)" "db s = d \<Longrightarrow> keeps d (get_nonce T a s)"
  "db s = d \<Longrightarrow> keeps d (get_code T a s)" "db s = d \<Longrightarrow> keeps d (get_code_hash T a s)"
  "db s = d \<Longrightarrow> keeps_s d (create_contract T a s)" "db s = d \<Longrightarrow> keeps_s d (set_nonce T a n s)"
  "db s = d \<Longrightarrow> keeps_s d (add_to_balance T a v s)" "db s = d \<Longrightarrow> keeps_s d (subtract_from_balance T a v s)"
  "db s = d \<Longrightarrow> keeps d (get_current_storage T a k s)" "db s = d \<Longrightarrow> keeps d (get_original_storage T a k s)"
  "db s = d \<Longrightarrow> keeps_s d (set_storage T a k v s)"
  "db s = d \<Longrightarrow> keeps_s d (set_code T kc a c s)" "db s = d \<Longrightarrow> keeps_s d (revert_to_snapshot sn s)"
  "db s = d \<Longrightarrow> keeps_s d (destruct_selfdestructs T s)" "db s = d \<Longrightarrow> keeps_s d (destruct_touched_dead T s)"
  unfolding keeps_def keeps_s_def by (intro allI impI, drule db_frame, simp)+

definition exec_keeps_db :: "'db exec \<Rightarrow> bool" where
  "exec_keeps_db exec \<longleftrightarrow> (\<forall>m code s. keeps (db s) (exec m code s))"

lemma keeps_exec: "exec_keeps_db exec \<Longrightarrow> db s = d \<Longrightarrow> keeps d (exec m code s)"
  by (auto simp: exec_keeps_db_def)

lemma keeps_frames [keeps_rules]:
  "db s = d \<Longrightarrow> keeps d (close_frame sn res s)"
  "db s = d \<Longrightarrow> keeps d (deploy_code T V a res s)"
  unfolding close_frame_def deploy_code_def Let_def by (intro keeps_rules; simp)+

lemma keeps_create_with:
  assumes "exec_keeps_db exec"
  shows "keeps (db s) (create_with T V exec m s)"
  unfolding create_with_def create_frame_def Let_def by (intro keeps_rules keeps_exec [OF assms]; simp)

lemma keeps_call_with:
  assumes "exec_keeps_db exec"
  shows "keeps (db s) (call_with T V exec m s)"
  unfolding call_with_def Let_def by (intro keeps_rules keeps_exec [OF assms]; simp)

lemma db_sstore_net [simp]: "db (snd (sstore_net r x y z s)) = db s"
  by (simp add: sstore_net_def Let_def)

lemma keeps_pair [keeps_rules]: "db (snd x) = d \<Longrightarrow> keeps d (Inr x)"
  by (auto simp: keeps_def)

lemma keeps_sstore: "keeps (db s) (sstore T r a k v s)"
  unfolding sstore_def by (intro keeps_rules; simp)

lemma db_sstore [db_frame]: "sstore T r a k v s = Inr (st, t) \<Longrightarrow> db t = db s"
  using keeps_sstore unfolding keeps_def by blast

lemma db_selfdestruct [db_frame]: "selfdestruct T a b s = Inr t \<Longrightarrow> db t = db s"
  by (auto simp: selfdestruct_def Let_def db_frame)

lemma db_access_pair [db_frame]:
  "access_account a s = (st, t) \<Longrightarrow> db t = db s" "access_storage a k s = (st, t) \<Longrightarrow> db t = db s"
  by (metis db_access snd_conv)+

lemma db_answer [db_frame]: "answer T V i s = Inr (k, r, t) \<Longrightarrow> db t = db s"
  by (cases i) (auto simp: Let_def db_frame split: if_splits prod.splits)

lemma keeps_evm_loop: "keeps (db s) (evm_loop T V I n i s)"
proof (induction n arbitrary: i s)
  case (Suc n)
  have e: "exec_keeps_db (\<lambda>m code s. evm_loop T V I n (execute_resumable I code m (ev_revision V)) s)"
    using Suc.IH by (auto simp: exec_keeps_db_def)
  have IH: "keeps d (evm_loop T V I n j t)" if "db t = d" for d j t using Suc.IH [of t j] that by simp
  have "keeps (db s) (bind_r (answer T V i s) (\<lambda>(k, r, s). evm_loop T V I n (resume I k r) s))"
    using IH db_answer by (fastforce simp: keeps_def)
  then show ?case
    using keeps_create_with [OF e] keeps_call_with [OF e] IH
    by (cases i) (simp_all add: Let_def keeps_bind keeps_shapes del: answer.simps)
qed (simp add: keeps_def)

lemma keeps_evm_execute [keeps_rules]: "db s = d \<Longrightarrow> keeps d (evm_execute T V I fuel gas s)"
proof -
  have "exec_keeps_db (evm_exec T V I fuel)"
    using keeps_evm_loop by (auto simp: exec_keeps_db_def evm_exec_def)
  then show "db s = d \<Longrightarrow> keeps d (evm_execute T V I fuel gas s)"
    by (auto simp: evm_execute_def evm_call_def evm_create_def Let_def
        intro: keeps_call_with keeps_create_with split: transaction_action.splits)
qed

section \<open>Block execution\<close>

lemma db_access_entries [simp]: "db (fold access_entry l s) = db s"
proof -
  have "db (access_entry e t) = db t" for e and t :: "'a ibs"
  proof -
    have "db (fold (\<lambda>key s. snd (access_storage a key s)) ks t) = db t" for a ks and t :: "'a ibs"
      by (induction ks arbitrary: t) auto
    then show ?thesis by (simp add: access_entry_def)
  qed
  then show ?thesis by (induction l arbitrary: s) auto
qed

lemma db_buy_gas [db_frame]: "buy_gas X txn s = Inr t \<Longrightarrow> db t = db s"
  by (auto simp: buy_gas_def Let_def db_frame split: transaction_action.splits)

lemma db_settle: "settle X txn res p = Inr (r, p') \<Longrightarrow> db (ep_state p') = db (ep_state p)"
  by (auto simp: settle_def refund_gas_def Let_def db_frame split: if_splits)

lemma db_execute_transaction:
  assumes "execute_transaction X txn p = Inr (r, p')"
  shows "db (ep_state p') = db (ep_state p)"
proof -
  obtain s gas out t where "buy_gas X txn (ep_state p) = Inr s"
    and e: "evm_execute (pe_trait X) ((pe_evm X)\<lparr> ev_txn := txn \<rparr>) (pe_interpreter X) (pe_fuel X) gas s = Inr (out, t)"
    and st: "settle X txn out (p\<lparr> ep_state := t \<rparr>) = Inr (r, p')"
    using assms by (auto simp: execute_transaction_def Let_def split: if_splits)
  moreover have "db t = db s" using keeps_evm_execute [OF refl] e unfolding keeps_def by blast
  ultimately show ?thesis using db_settle [OF st] by (simp add: db_frame)
qed

lemma db_validate_transaction:
  "validate_transaction X txn p = Inr p' \<Longrightarrow> db (ep_state p') = db (ep_state p)"
  by (auto simp: validate_transaction_def Let_def db_frame)

lemma db_block_steps:
  assumes "fold_r (block_step X) txns (rs, p) = Inr (rs', p')"
  shows "db (ep_state p') = db (ep_state p)"
proof -
  have "(\<lambda>(rs, q). db (ep_state q) = db (ep_state p)) (rs', p')"
    by (rule fold_r_invariant [OF assms])
      (auto simp: block_step_def db_execute_transaction db_validate_transaction)
  then show ?thesis by simp
qed

lemma db_execute_block:
  assumes "execute_block_no_post_validation X p = Inr (rs, p')"
  shows "db (ep_state p') = db (ep_state p)"
proof -
  obtain s q changes t where 1: "fold_r (\<lambda>(a, balance) s. set_balance (pe_trait X) a balance s)
        (balance_changes (ev_block_spec (pe_evm X))) (ep_state p) = Inr s"
    and 2: "fold_r (block_step X) (bbs_transactions (pe_block X)) ([], p\<lparr> ep_state := s \<rparr>) = Inr (rs, q)"
    and 3: "fold_r (\<lambda>change s. case change of Reward a amount \<Rightarrow> add_to_balance (pe_trait X) a amount s)
        changes (ep_state q) = Inr t" and p': "p' = q\<lparr> ep_state := t \<rparr>"
    using assms by (auto simp: execute_block_no_post_validation_def)
  have "db s = db (ep_state p)" by (rule fold_r_invariant [OF 1]) (auto simp: db_frame)
  moreover have "db t = db (ep_state q)"
    by (rule fold_r_invariant [OF 3]) (auto simp: db_frame split: finalization_change.splits)
  ultimately show ?thesis using db_block_steps [OF 2] p' by simp
qed

section \<open>The block tables of the in-memory state\<close>

definition same_blocks :: "in_memory_state \<Rightarrow> in_memory_state \<Rightarrow> bool" where
  "same_blocks s t \<longleftrightarrow> ims_headers t = ims_headers s \<and> ims_bodies t = ims_bodies s \<and>
     ims_difficulty t = ims_difficulty s \<and> ims_canonical_hashes t = ims_canonical_hashes s"

lemma same_blocks_refl [simp]: "same_blocks s s"
  by (simp add: same_blocks_def)

lemma same_blocks_trans: "same_blocks s t \<Longrightarrow> same_blocks t u \<Longrightarrow> same_blocks s u"
  by (simp add: same_blocks_def)

lemma same_blocks_fold:
  "(\<And>x t. same_blocks t (f x t)) \<Longrightarrow> same_blocks s (fold f xs s)"
  by (induction xs arbitrary: s) (auto intro: same_blocks_trans)

lemma same_blocks_fold_r:
  assumes "fold_r f xs s = Inr t" and "\<And>x t u. f x t = Inr u \<Longrightarrow> same_blocks t u"
  shows "same_blocks s t"
  by (rule fold_r_invariant [OF assms(1)]) (auto intro: same_blocks_trans assms(2))

lemma same_blocks_put_slot [simp]: "same_blocks s (put_slot a l v s)"
  by (simp add: same_blocks_def put_slot_def Let_def)

lemma same_blocks_begin [simp]: "same_blocks s (ims_begin_block s n)"
  by (simp add: same_blocks_def ims_begin_block_def)

lemma same_blocks_update_account [simp]: "same_blocks s (ims_update_account s a i c)"
  by (simp add: same_blocks_def ims_update_account_def Let_def)

lemma same_blocks_updates:
  "ims_update_code s h c = Inr t \<Longrightarrow> same_blocks s t"
  "ims_erase_storage s a = Inr t \<Longrightarrow> same_blocks s t"
  "ims_update_storage s a l i v = Inr t \<Longrightarrow> same_blocks s t"
  by (auto simp: ims_update_code_def ims_erase_storage_def ims_update_storage_def same_blocks_def put_slot_def Let_def
      split: if_splits)

lemma same_blocks_unwind: "same_blocks s (unwind_state_changes n s)"
proof -
  have a: "same_blocks t (unwind_account x t)" for x t
    by (cases x) (simp add: unwind_account_def same_blocks_def)
  have b: "same_blocks t (unwind_storage x t)" for x t
    unfolding unwind_storage_def by (cases x) (auto intro: same_blocks_fold)
  let ?s = "s\<lparr> ims_account_changes := hm_remove n (ims_account_changes s) \<rparr>"
  let ?t = "fold unwind_account (hm_get_or [] (ims_account_changes s) n) ?s"
  let ?u = "?t\<lparr> ims_storage_changes := hm_remove n (ims_storage_changes ?t) \<rparr>"
  have "same_blocks s ?s" "same_blocks ?t ?u" by (simp_all add: same_blocks_def)
  then have "same_blocks s ?u" by (meson a same_blocks_fold same_blocks_trans)
  moreover have "same_blocks ?u (fold unwind_storage (hm_get_or [] (ims_storage_changes ?t) n) ?u)"
    using b by (rule same_blocks_fold)
  ultimately show ?thesis unfolding unwind_state_changes_def Let_def by (rule same_blocks_trans)
qed

lemma same_blocks_write:
  assumes "write_to_db in_memory n s = Inr d"
  shows "same_blocks (db s) d"
proof -
  obtain d1 d2 where
    1: "fold_r (\<lambda>(a, incarnation) d. if incarnation > 0 then ims_erase_storage d a else Inr d)
       (incarnations s) (ims_begin_block (db s) n) = Inr d1"
    and 2: "fold_r (\<lambda>(a, storage) d. case hm_get (objects s) a of
           Some obj \<Rightarrow> (if obj_current obj \<noteq> None
              then fold_r (\<lambda>(k, val) d. ims_update_storage d a k (cv_initial val) (cv_original val))
                     (st_committed storage) d
              else Inr d)
         | None \<Rightarrow> Inr d) (storage_map s) d1 = Inr d2"
    and 3: "fold_r (\<lambda>(h, code) d. ims_update_code d h code) (new_code s)
       (fold (\<lambda>(a, obj) d. ims_update_account d a (obj_initial obj) (obj_current obj)) (objects s) d2) = Inr d"
    using assms unfolding write_to_db_def in_memory_sel by blast
  have b: "same_blocks (ims_begin_block (db s) n) d1"
    by (rule same_blocks_fold_r [OF 1]) (auto dest: same_blocks_updates split: if_splits)
  have inner: "same_blocks t u"
    if "fold_r (\<lambda>(k, val) d. ims_update_storage d a k (cv_initial val) (cv_original val)) kvs t = Inr u" for kvs a t u
    by (rule same_blocks_fold_r [OF that]) (auto dest: same_blocks_updates)
  have "same_blocks d1 d2"
    by (rule same_blocks_fold_r [OF 2]) (auto dest: inner split: if_splits option.splits)
  moreover have "same_blocks d2 (fold (\<lambda>(a, obj) d. ims_update_account d a (obj_initial obj) (obj_current obj)) (objects s) d2)"
    by (rule same_blocks_fold) (auto simp: split_beta)
  moreover have "same_blocks (fold (\<lambda>(a, obj) d. ims_update_account d a (obj_initial obj) (obj_current obj)) (objects s) d2) d"
    by (rule same_blocks_fold_r [OF 3]) (auto dest: same_blocks_updates)
  ultimately show ?thesis using b by (meson same_blocks_begin same_blocks_trans)
qed

lemma same_blocks_execute:
  assumes "execute_and_write_block X (processor_new d) = Inr (rs, d')" and "pe_trait X = in_memory"
  shows "same_blocks d d'"
proof -
  obtain p where p: "execute_block_no_post_validation X (processor_new d) = Inr (rs, p)"
    and w: "write_to_db in_memory (ph_number (pe_header X)) (ep_state p) = Inr d'"
    using assms by (auto simp: execute_and_write_block_def Let_def split: if_splits)
  have "db (ep_state p) = d" using db_execute_block [OF p] by (simp add: processor_new_def ibs_new_def)
  with same_blocks_write [OF w] show ?thesis by simp
qed

end
