(* ===== verification/Blockchain.thy ===== *)
theory Blockchain
  imports
    Database_Frame
begin

text \<open>
  \<open>Blockchain\<close> of \<^verbatim>\<open>src/src/consensus/blockchain.rs\<close>: blocks are inserted on top of an
  in-memory state, executed from the ancestor they share with the canonical chain, and the
  chain with the greater total difficulty becomes canonical.  An operation returns its result
  together with the object it leaves, since a failed insertion leaves one too.
\<close>

section \<open>State\<close>

record 'k blockchain_env =
  bce_consensus :: consensus_env
  bce_crypto :: crypto
  bce_processor :: "(in_memory_state, 'k) processor_env"

record blockchain =
  bc_state :: in_memory_state
  bc_config :: chain_spec
  bc_engine :: "in_memory_state consensus_trait"
  bc_bad_blocks :: "(h256, validation_error) hash_map"
  bc_receipts :: "receipt list"

type_synonym 'a bc_result = "(exec_error + 'a) \<times> blockchain"

text \<open>The operator \<open>?\<close> of the source.\<close>

definition bc_then :: "'a bc_result \<Rightarrow> ('a \<Rightarrow> blockchain \<Rightarrow> 'b bc_result) \<Rightarrow> 'b bc_result" where
  "bc_then r k = (case fst r of Inl e \<Rightarrow> (Inl e, snd r) | Inr x \<Rightarrow> k x (snd r))"

definition new_with_consensus ::
  "'k blockchain_env \<Rightarrow> in_memory_state \<Rightarrow> in_memory_state consensus_trait \<Rightarrow> chain_spec \<Rightarrow> block \<Rightarrow> blockchain" where
  "new_with_consensus B s engine config genesis_block =
     (let hash = header_hash (bce_consensus B) (b_header genesis_block);
          number = h_number (b_header genesis_block)
      in \<lparr> bc_state = canonize_block number hash (ims_insert_block genesis_block hash s),
           bc_config = config, bc_engine = engine, bc_bad_blocks = [], bc_receipts = [] \<rparr>)"

definition blockchain_new ::
  "'k blockchain_env \<Rightarrow> in_memory_state \<Rightarrow> chain_spec \<Rightarrow> block \<Rightarrow> exec_error + blockchain" where
  "blockchain_new B s config genesis_block =
     bind_r (engine_factory config) (\<lambda>engine.
       Inr (new_with_consensus B s (ethash_consensus (bce_consensus B) in_memory engine) config genesis_block))"

section \<open>Walking the chain\<close>

text \<open>\<open>a + 1..=b\<close>.\<close>

definition block_range :: "block_number \<Rightarrow> block_number \<Rightarrow> block_number list" where
  "block_range a b = map of_nat [unat (a + 1)..<Suc (unat b)]"

text \<open>The recursion follows the parents; that it ends rests on the stored headers, so not
  returning is a value of the model.\<close>

partial_function (option) canonical_ancestor ::
  "in_memory_state \<Rightarrow> partial_header \<Rightarrow> h256 \<Rightarrow> (exec_error + block_number) option" where
  "canonical_ancestor s header hash =
     (if canonical_hash s (ph_number header) = Some hash then Some (Inr (ph_number header))
      else (case ims_read_header s (ph_number header - 1) (ph_parent_hash header) of
          Inl e \<Rightarrow> Some (Inl e)
        | Inr None \<Rightarrow> Some (Inl (Validation UnknownParent))
        | Inr (Some parent) \<Rightarrow> canonical_ancestor s (partial_header_from parent) (ph_parent_hash header)))"

declare canonical_ancestor.simps [code]

text \<open>The stored block at a height, with its senders; a block that is not there is a panic.\<close>

definition read_block ::
  "crypto \<Rightarrow> in_memory_state \<Rightarrow> block_number \<Rightarrow> h256 \<Rightarrow> exec_error + block_with_senders" where
  "read_block C s n hash =
     bind_r (read_body_with_senders C s n hash) (\<lambda>body.
     bind_r (ok_or Panic body) (\<lambda>body.
     bind_r (ims_read_header s n hash) (\<lambda>header.
     bind_r (ok_or Panic header) (\<lambda>header.
       Inr \<lparr> bs_header = partial_header_from header, bs_transactions = bbs_transactions body,
             bs_ommers = bbs_ommers body \<rparr>))))"

fun chain_loop ::
  "crypto \<Rightarrow> in_memory_state \<Rightarrow> block_number list \<Rightarrow> h256 \<Rightarrow> exec_error + (block_with_senders \<times> h256) list" where
  "chain_loop C s [] hash = Inr []"
| "chain_loop C s (n # ns) hash =
     bind_r (read_block C s n hash) (\<lambda>block.
     bind_r (chain_loop C s ns (ph_parent_hash (bs_header block))) (\<lambda>chain.
       Inr ((block, hash) # chain)))"

text \<open>The capacity of the vector is the distance; when it is negative the subtraction or the
  allocation panics.\<close>

definition intermediate_chain ::
  "crypto \<Rightarrow> in_memory_state \<Rightarrow> block_number \<Rightarrow> h256 \<Rightarrow> block_number \<Rightarrow>
   exec_error + (block_with_senders \<times> h256) list" where
  "intermediate_chain C s n hash anc =
     (if n < anc then Inl Panic
      else bind_r (chain_loop C s (List.rev (block_range anc n)) hash) (\<lambda>chain. Inr (List.rev chain)))"

section \<open>Execution\<close>

definition bc_execute_block ::
  "'k blockchain_env \<Rightarrow> block_with_senders \<Rightarrow> bool \<Rightarrow> blockchain \<Rightarrow> unit bc_result" where
  "bc_execute_block B blk check_state_root c =
     (let body = \<lparr> bbs_transactions = bs_transactions blk, bbs_ommers = bs_ommers blk \<rparr>;
          header = bs_header blk;
          block_spec = collect_block_spec (bc_config c) (ph_number header);
          X = (bce_processor B)\<lparr> pe_trait := in_memory, pe_engine := bc_engine c, pe_block := body,
                pe_evm := (pe_evm (bce_processor B))\<lparr> ev_header := header, ev_block_spec := block_spec \<rparr> \<rparr>
      in case execute_and_write_block X (processor_new (bc_state c)) of
           Inl e \<Rightarrow> (Inl e, c)
         | Inr (_, s) \<Rightarrow>
             (let state_root = state_root_hash (bce_crypto B) s
              in if check_state_root \<and> state_root \<noteq> ph_state_root header
                 then (Inl (Validation (WrongStateRoot (ph_state_root header) state_root)),
                       c\<lparr> bc_state := unwind_state_changes (ph_number header) s \<rparr>)
                 else (Inr (), c\<lparr> bc_state := s \<rparr>)))"

fun re_execute :: "'k blockchain_env \<Rightarrow> block_number list \<Rightarrow> blockchain \<Rightarrow> unit bc_result" where
  "re_execute B [] c = (Inr (), c)"
| "re_execute B (n # ns) c =
     (case bind_r (ok_or Panic (canonical_hash (bc_state c) n)) (read_block (bce_crypto B) (bc_state c) n) of
        Inl e \<Rightarrow> (Inl e, c)
      | Inr blk \<Rightarrow>
          (let (r, c) = bc_execute_block B blk False c
           in bc_then (expect_r r, c) (\<lambda>_. re_execute B ns)))"

definition re_execute_canonical_chain ::
  "'k blockchain_env \<Rightarrow> block_number \<Rightarrow> block_number \<Rightarrow> blockchain \<Rightarrow> unit bc_result" where
  "re_execute_canonical_chain B anc tip c =
     (if \<not> anc \<le> tip then (Inl Panic, c) else re_execute B (block_range anc tip) c)"

definition unwind_last_changes :: "block_number \<Rightarrow> block_number \<Rightarrow> blockchain \<Rightarrow> unit bc_result" where
  "unwind_last_changes anc tip c =
     (if \<not> anc \<le> tip then (Inl Panic, c)
      else (Inr (), c\<lparr> bc_state := fold unwind_state_changes (List.rev (block_range anc tip)) (bc_state c) \<rparr>))"

section \<open>Insertion\<close>

text \<open>The loop that executes the chain; on failure with the number of executed blocks.\<close>

fun execute_chain ::
  "'k blockchain_env \<Rightarrow> bool \<Rightarrow> (block_with_senders \<times> h256) list \<Rightarrow> u64 \<Rightarrow> blockchain \<Rightarrow>
   (exec_error \<times> u64 + u64) \<times> blockchain" where
  "execute_chain B check_state_root [] executed c = (Inr executed, c)"
| "execute_chain B check_state_root (x # xs) executed c =
     (case bc_execute_block B (fst x) check_state_root c of
        (Inl e, c) \<Rightarrow> (Inl (e, executed), c)
      | (Inr _, c) \<Rightarrow> execute_chain B check_state_root xs (executed + 1) c)"

text \<open>Back to the canonical chain: the executed blocks are unwound and the canonical ones
  executed again.\<close>

definition restore_canonical ::
  "'k blockchain_env \<Rightarrow> block_number \<Rightarrow> u64 \<Rightarrow> block_number \<Rightarrow> blockchain \<Rightarrow> unit bc_result" where
  "restore_canonical B anc executed tip c =
     bc_then (unwind_last_changes anc (anc + executed) c) (\<lambda>_.
       re_execute_canonical_chain B anc tip)"

text \<open>\<open>total_difficulty(..).await?.unwrap()\<close>.\<close>

definition known_difficulty :: "in_memory_state \<Rightarrow> block_number \<Rightarrow> h256 \<Rightarrow> exec_error + u256" where
  "known_difficulty s n hash = bind_r (ims_total_difficulty s n hash) (ok_or Panic)"

definition choose_chain ::
  "'k blockchain_env \<Rightarrow> block_number \<Rightarrow> h256 \<Rightarrow> (block_with_senders \<times> h256) list \<Rightarrow> block_number \<Rightarrow> u64 \<Rightarrow>
   block_number \<Rightarrow> blockchain \<Rightarrow> unit bc_result" where
  "choose_chain B n hash chain anc executed tip c =
     (case bind_r (ok_or Panic (canonical_hash (bc_state c) tip)) (known_difficulty (bc_state c) tip) of
        Inl e \<Rightarrow> (Inl e, c)
      | Inr current_total_difficulty \<Rightarrow>
          (case known_difficulty (bc_state c) n hash of
             Inl e \<Rightarrow> (Inl e, c)
           | Inr d \<Rightarrow>
               (if d > current_total_difficulty then
                  (Inr (), c\<lparr> bc_state := fold (\<lambda>(blk, h). canonize_block (ph_number (bs_header blk)) h) chain
                     (fold decanonize_block (List.rev (block_range anc tip)) (bc_state c)) \<rparr>)
                else restore_canonical B anc executed tip c)))"

definition adopt_block ::
  "'k blockchain_env \<Rightarrow> block \<Rightarrow> h256 \<Rightarrow> block_with_senders \<Rightarrow> block_number \<Rightarrow> bool \<Rightarrow> blockchain \<Rightarrow> unit bc_result" where
  "adopt_block B blk hash b anc check_state_root c =
     (let tip = current_canonical_block (bc_state c); n = ph_number (bs_header b)
      in bc_then (unwind_last_changes anc tip c) (\<lambda>_ c.
         case intermediate_chain (bce_crypto B) (bc_state c) (n - 1) (ph_parent_hash (bs_header b)) anc of
           Inl e \<Rightarrow> (Inl e, c)
         | Inr chain \<Rightarrow>
             (let chain = chain @ [(b, hash)]
              in case execute_chain B check_state_root chain 0 c of
                   (Inl (e, executed), c) \<Rightarrow>
                     (case e of
                        Validation v \<Rightarrow>
                          bc_then (restore_canonical B anc executed tip
                              (c\<lparr> bc_bad_blocks := hm_insert hash v (bc_bad_blocks c) \<rparr>)) (\<lambda>_ c. (Inl e, c))
                      | _ \<Rightarrow> (Inl e, c))
                 | (Inr executed, c) \<Rightarrow>
                     choose_chain B n hash chain anc executed tip
                       (c\<lparr> bc_state := ims_insert_block blk hash (bc_state c) \<rparr>))))"

text \<open>\<open>BlockWithSenders::from\<close>, which panics when a sender cannot be recovered.\<close>

definition block_with_senders_from :: "crypto \<Rightarrow> block \<Rightarrow> exec_error + block_with_senders" where
  "block_with_senders_from C blk =
     bind_r (expect_r (recover_all C (b_transactions blk))) (\<lambda>txs.
       Inr \<lparr> bs_header = partial_header_from (b_header blk), bs_transactions = txs, bs_ommers = b_ommers blk \<rparr>)"

definition insert_block ::
  "'k blockchain_env \<Rightarrow> block \<Rightarrow> bool \<Rightarrow> blockchain \<Rightarrow> unit bc_result option" where
  "insert_block B blk check_state_root c =
     (let hash = header_hash (bce_consensus B) (b_header blk)
      in case bind_r (co_validate_block_header (bc_engine c) (b_header blk) (bc_state c) True) (\<lambda>_.
              bind_r (co_pre_validate_block (bc_engine c) blk (bc_state c)) (\<lambda>_.
              case hm_get (bc_bad_blocks c) hash of Some e \<Rightarrow> Inl (Validation e)
              | None \<Rightarrow> block_with_senders_from (bce_crypto B) blk)) of
           Inl e \<Rightarrow> Some (Inl e, c)
         | Inr b \<Rightarrow>
             (case canonical_ancestor (bc_state c) (bs_header b) hash of
                None \<Rightarrow> None
              | Some (Inl e) \<Rightarrow> Some (Inl e, c)
              | Some (Inr anc) \<Rightarrow> Some (adopt_block B blk hash b anc check_state_root c)))"

end
