(* ===== verification/Processor_Properties.thy ===== *)
theory Processor_Properties
  imports
    Processor
begin

text \<open>
  Properties of block execution: the exact condition under which a transaction is valid; the
  bounds of the gas a transaction and a block use; what a failed transaction leaves alone;
  what the acceptance of a block says about its header; and that the Bloom filter of a block
  has no false negatives.
\<close>

unbundle bit_operations_syntax

section \<open>Well-formedness across a transaction\<close>

lemma wf_clear: "ibs_wf T s \<Longrightarrow> ibs_wf T (clear_journal_and_substate s)"
  by (simp add: ibs_wf_def clear_journal_and_substate_def)

lemma wf_finalize: "ibs_wf T s \<Longrightarrow> ibs_wf T (finalize_transaction s)"
  by (simp add: ibs_wf_def finalize_transaction_def)

lemma get_object_frame:
  assumes "get_object T a s = Inr (o', s')"
  shows "db s' = db s" and "incarnations s' = incarnations s" and "touched s' = touched s"
    and "self_destructs s' = self_destructs s" and "b \<noteq> a \<Longrightarrow> hm_get (objects s') b = hm_get (objects s) b"
  using assms by (auto simp: get_object_def Let_def split: option.splits)

lemma destruct_frame:
  assumes "destruct T a s = Inr t"
  shows "db t = db s" and "touched t = touched s" and "self_destructs t = self_destructs s"
    and "b \<noteq> a \<Longrightarrow> hm_get (objects t) b = hm_get (objects s) b"
  using assms by (auto simp: destruct_def bump_incarnation_def Let_def get_object_frame split: option.splits)

lemma wf_destruct:
  assumes d: "destruct T a s = Inr t" and wf: "ibs_wf T s"
  shows "ibs_wf T t"
proof -
  let ?s = "(bump_incarnation a s)\<lparr> storage_map := hm_remove a (storage_map (bump_incarnation a s)) \<rparr>"
  have wf1: "ibs_wf T ?s"
    using wf by (auto simp: ibs_wf_def bump_incarnation_def)
  obtain o' s1 where g: "get_object T a ?s = Inr (o', s1)"
    and t: "t = (case o' of Some obj \<Rightarrow> s1\<lparr> objects := hm_insert a (obj\<lparr> obj_current := None \<rparr>) (objects s1) \<rparr> | None \<Rightarrow> s1)"
    using d by (auto simp: destruct_def Let_def split: option.splits)
  have e: "extends T ?s s1" and wf2: "ibs_wf T s1"
    using get_object_extends(1) [OF g wf1] extends_wf by auto
  show ?thesis
  proof (cases o')
    case (Some obj)
    then have "hm_get (objects s1) a = Some obj"
      using g by (auto simp: get_object_def Let_def split: option.splits)
    with Some t wf2 show ?thesis by (auto simp: ibs_wf_def)
  qed (use t wf2 in simp)
qed

lemma wf_destruct_selfdestructs:
  "destruct_selfdestructs T s = Inr t \<Longrightarrow> ibs_wf T s \<Longrightarrow> ibs_wf T t"
  unfolding destruct_selfdestructs_def by (erule fold_r_invariant) (auto intro: wf_destruct)

lemma wf_destruct_touched_dead:
  "destruct_touched_dead T s = Inr t \<Longrightarrow> ibs_wf T s \<Longrightarrow> ibs_wf T t"
  unfolding destruct_touched_dead_def
proof (erule fold_r_invariant)
  fix a s t
  assume wf: "ibs_wf T s" and "bind_r (is_dead T a s) (\<lambda>(dead, s). if dead then destruct T a s else Inr s) = Inr t"
  then obtain dead s1 where 1: "is_dead T a s = Inr (dead, s1)" "(if dead then destruct T a s1 else Inr s1) = Inr t"
    by auto
  from read_extends(2) [OF wf 1(1)] have "ibs_wf T s1" by (rule extends_wf)
  with 1(2) show "ibs_wf T t" by (auto split: if_splits intro: wf_destruct)
qed

lemma host_run_access_entry: "host_run T kc s t \<Longrightarrow> host_run T kc s (access_entry e t)"
proof -
  assume r: "host_run T kc s t"
  have "host_run T kc s (fold (\<lambda>key s. snd (access_storage a key s)) ks u)" if "host_run T kc s u" for ks u a
    using that
  proof (induction ks arbitrary: u)
    case (Cons k ks)
    have "host_run T kc s (snd (access_storage a k u))"
      using hr_access_storage [OF Cons.prems] by (metis prod.collapse)
    then show ?case using Cons.IH by simp
  qed simp
  moreover have "host_run T kc s (snd (access_account a t))" for a
    using hr_access_account [OF r] by (metis prod.collapse)
  ultimately show ?thesis by (simp add: access_entry_def)
qed

lemma host_run_access_list:
  "host_run T kc s t \<Longrightarrow> host_run T kc s (fold access_entry es t)"
  by (induction es arbitrary: t) (auto intro: host_run_access_entry)

lemma buy_gas_host_run:
  assumes "buy_gas X txn s = Inr t"
  shows "host_run (pe_trait X) kc (clear_journal_and_substate s) t"
proof -
  let ?T = "pe_trait X" and ?m = "mw_message txn"
  let ?s0 = "snd (access_account (mw_sender txn) (clear_journal_and_substate s))"
  obtain price s1 s2 where
    s1: "subtract_from_balance ?T (mw_sender txn) (ucast (msg_gas_limit ?m) * price) ?s0 = Inr s1"
    and s2: "(case msg_action ?m of
             Call to \<Rightarrow> set_nonce ?T (mw_sender txn) (msg_nonce ?m + 1) (snd (access_account to s1))
           | Create \<Rightarrow> Inr s1) = Inr s2"
    and t: "t = fold access_entry (msg_access_list ?m) s2"
    using assms by (auto simp: buy_gas_def Let_def)
  have "host_run ?T kc (clear_journal_and_substate s) ?s0"
    using hr_access_account [OF hr_refl] by (metis prod.collapse)
  then have r1: "host_run ?T kc (clear_journal_and_substate s) s1"
    using s1 by (rule hr_subtract_from_balance)
  have "host_run ?T kc (clear_journal_and_substate s) (snd (access_account a s1))" for a
    using hr_access_account [OF r1] by (metis prod.collapse)
  with s2 r1 have "host_run ?T kc (clear_journal_and_substate s) s2"
    by (auto split: transaction_action.splits intro: hr_set_nonce)
  with t show ?thesis by (simp add: host_run_access_list)
qed

section \<open>The gas of a transaction\<close>

lemma unat_u64_less: "unat (w :: u64) < 2 ^ 64"
  using unsigned_less [of w, where 'a = nat] by simp

lemma unat_u64_of_int: "0 \<le> x \<Longrightarrow> nat x < 2 ^ 64 \<Longrightarrow> unat (word_of_int x :: u64) = nat x"
proof -
  assume x: "0 \<le> x" "nat x < 2 ^ 64"
  have "(word_of_int x :: u64) = word_of_nat (nat x)" using x(1) by simp
  then show ?thesis using x(2) by (simp only: unat_of_nat) simp
qed

lemma refunded_bounds:
  assumes "gas_left \<le> gas_limit"
  shows "gas_left \<le> refunded r gas_limit gas_left s" and "refunded r gas_limit gas_left s \<le> gas_limit"
    and "unat gas_limit - unat gas_left \<le> 2 * (unat gas_limit - unat (refunded r gas_limit gas_left s))"
proof -
  define q :: u64 where "q = (if r \<ge> London then MAX_REFUND_QUOTIENT_LONDON else MAX_REFUND_QUOTIENT_FRONTIER)"
  define c where "c = min (if r < London then refund s + R_SELF_DESTRUCT * of_nat (number_of_self_destructs s)
      else refund s) ((gas_limit - gas_left) div q)"
  have eq: "refunded r gas_limit gas_left s = gas_left + c"
    by (simp add: refunded_def Let_def q_def c_def)
  have q: "unat q \<ge> 2" by (simp add: q_def param_defs)
  have d: "unat (gas_limit - gas_left) = unat gas_limit - unat gas_left"
    using assms by (rule unat_diff_no_wrap)
  have "c \<le> (gas_limit - gas_left) div q" by (simp add: c_def)
  then have "unat c \<le> (unat gas_limit - unat gas_left) div unat q"
    by (simp add: word_le_nat_alt unat_div d)
  also have "\<dots> \<le> (unat gas_limit - unat gas_left) div 2" using q by (rule div_le_mono2 [rotated]) simp
  finally have c: "2 * unat c \<le> unat gas_limit - unat gas_left" by simp
  have le: "unat gas_left \<le> unat gas_limit" using assms by (simp add: word_le_nat_alt)
  have "unat gas_left + unat c < 2 ^ LENGTH(64)"
    using c le unat_u64_less [of gas_limit] by simp
  then have u: "unat (refunded r gas_limit gas_left s) = unat gas_left + unat c"
    unfolding eq by (rule unat_add_no_wrap)
  show "gas_left \<le> refunded r gas_limit gas_left s" "refunded r gas_limit gas_left s \<le> gas_limit"
    "unat gas_limit - unat gas_left \<le> 2 * (unat gas_limit - unat (refunded r gas_limit gas_left s))"
    using u c le by (simp_all add: word_le_nat_alt)
qed

lemma evm_execute_ok:
  assumes e: "evm_execute T V I fuel gas s = Inr (res, t)" and I: "interp_ok I J" and wf: "ibs_wf T s"
    and g: "unat gas < 2 ^ 63"
  shows "host_run T (ev_keccak V) s t" and "0 \<le> out_gas_left res" and "out_gas_left res \<le> int (unat gas)"
    and "msg_action (mw_message (ev_txn V)) \<noteq> Create \<Longrightarrow> out_status_code res \<noteq> Success \<Longrightarrow> extends T s t"
proof -
  have u: "uint gas = int (unat gas)" by simp
  have "int (unat gas) < int (2 ^ 63)" using g by (simp only: of_nat_less_iff)
  then have "uint gas < 2 ^ 63" unfolding u by simp
  moreover have "- (2 ^ 63) \<le> uint gas" by (rule order_trans [of _ 0]) simp_all
  ultimately have "signed_take_bit 63 (uint gas) = uint gas" by (intro signed_take_bit_int_eq_self)
  then have sg: "sint gas = int (unat gas)" by (simp add: sint_uint)
  have ok: "gas_ok (sint gas)" unfolding gas_ok_def using \<open>uint gas < 2 ^ 63\<close> sg by simp
  have "host_run T (ev_keccak V) s t \<and> within res (sint gas) \<and>
      (msg_action (mw_message (ev_txn V)) \<noteq> Create \<longrightarrow> out_status_code res \<noteq> Success \<longrightarrow> extends T s t)"
  proof (cases "msg_action (mw_message (ev_txn V))")
    case (Call to)
    let ?m = "\<lparr> em_kind = CK_Call, em_is_static = False, em_depth = 0, em_gas = sint gas, em_recipient = to,
      em_code_address = to, em_sender = mw_sender (ev_txn V), em_input_data = msg_input (mw_message (ev_txn V)),
      em_value = msg_value (mw_message (ev_txn V)) \<rparr>"
    have "call_with T V (evm_exec T V I fuel) ?m s = Inr (res, t)"
      using e Call by (simp add: evm_execute_def evm_call_def Let_def)
    from call_with_ok [OF this exec_ok_evm_exec [OF I] wf] ok show ?thesis by simp
  next
    case Create
    let ?m = "\<lparr> cm_depth = 0, cm_gas = sint gas, cm_sender = mw_sender (ev_txn V),
      cm_initcode = msg_input (mw_message (ev_txn V)), cm_endowment = msg_value (mw_message (ev_txn V)), cm_salt = None \<rparr>"
    have "create_with T V (evm_exec T V I fuel) ?m s = Inr (res, t)"
      using e Create by (simp add: evm_execute_def evm_create_def Let_def)
    from create_with_ok [OF this exec_ok_evm_exec [OF I] wf] ok Create show ?thesis by simp
  qed
  then show "host_run T (ev_keccak V) s t" "0 \<le> out_gas_left res" "out_gas_left res \<le> int (unat gas)"
    "msg_action (mw_message (ev_txn V)) \<noteq> Create \<Longrightarrow> out_status_code res \<noteq> Success \<Longrightarrow> extends T s t"
    by (auto simp: within_def sg)
qed

lemma settle_facts:
  assumes st: "settle X txn res p = Inr (receipt, p')" and wf: "ibs_wf (pe_trait X) (ep_state p)"
    and g: "0 \<le> out_gas_left res" "out_gas_left res \<le> int (unat (msg_gas_limit (mw_message txn)))"
  defines "used \<equiv> msg_gas_limit (mw_message txn) -
    refunded (pe_revision X) (msg_gas_limit (mw_message txn)) (word_of_int (out_gas_left res)) (ep_state p)"
  shows "ibs_wf (pe_trait X) (ep_state p')"
    and "rc_cumulative_gas_used receipt = ep_cumulative_gas_used p + used"
    and "ep_cumulative_gas_used p' = ep_cumulative_gas_used p + used"
    and "used \<le> msg_gas_limit (mw_message txn)"
    and "unat (msg_gas_limit (mw_message txn)) - nat (out_gas_left res) \<le> 2 * unat used"
proof -
  let ?T = "pe_trait X" and ?m = "mw_message txn" and ?g = "word_of_int (out_gas_left res) :: u64"
  let ?r = "refunded (pe_revision X) (msg_gas_limit ?m) ?g (ep_state p)"
  have le: "nat (out_gas_left res) \<le> unat (msg_gas_limit ?m)" using g by (simp only: nat_le_iff)
  have "unat ?g = nat (out_gas_left res)"
    using g(1) le unat_u64_less [of "msg_gas_limit ?m"] by (intro unat_u64_of_int) linarith+
  moreover from this have "?g \<le> msg_gas_limit ?m" using le by (simp add: word_le_nat_alt)
  note b = refunded_bounds [OF this, of "pe_revision X" "ep_state p"]
  moreover have "unat used = unat (msg_gas_limit ?m) - unat ?r"
    unfolding used_def using b(2) by (rule unat_diff_no_wrap)
  ultimately show "used \<le> msg_gas_limit ?m" "unat (msg_gas_limit ?m) - nat (out_gas_left res) \<le> 2 * unat used"
    by (simp_all add: word_le_nat_alt)
  obtain price fee s1 s2 s3 s4 where
    1: "add_to_balance ?T (mw_sender txn) (ucast ?r * price) (ep_state p) = Inr s1"
    "add_to_balance ?T (ph_beneficiary (pe_header X)) (ucast used * fee) s1 = Inr s2"
    and 2: "destruct_selfdestructs ?T s2 = Inr s3"
    "(if pe_revision X \<ge> Spurious then destruct_touched_dead ?T s3 else Inr s3) = Inr s4"
    and p': "ep_state p' = finalize_transaction s4"
      "rc_cumulative_gas_used receipt = ep_cumulative_gas_used p + used"
      "ep_cumulative_gas_used p' = ep_cumulative_gas_used p + used"
    using st by (auto simp: settle_def refund_gas_def Let_def used_def)
  have "host_run ?T kc (ep_state p) s2" for kc
    using 1 by (intro hr_add_to_balance [OF hr_add_to_balance [OF hr_refl]])
  then have "ibs_wf ?T s2" using wf by (rule host_run_wf)
  then have "ibs_wf ?T s3" using wf_destruct_selfdestructs [OF 2(1)] by simp
  then have "ibs_wf ?T s4" using 2(2) wf_destruct_touched_dead by (auto split: if_splits)
  then show "ibs_wf ?T (ep_state p')" using p' by (simp add: wf_finalize)
  show "rc_cumulative_gas_used receipt = ep_cumulative_gas_used p + used"
    "ep_cumulative_gas_used p' = ep_cumulative_gas_used p + used" using p' by simp_all
qed

text \<open>What a transaction that executes does to the gas counter: \<open>used\<close> is at least half of
  the intrinsic gas and at most the gas limit.\<close>

definition tx_intrinsic :: "('db, 'k) processor_env \<Rightarrow> message_with_sender \<Rightarrow> nat" where
  "tx_intrinsic X txn =
     unat (intrinsic_gas (mw_message txn) (pe_revision X \<ge> Homestead) (pe_revision X \<ge> Istanbul))"

definition gas_in_range :: "('db, 'k) processor_env \<Rightarrow> u64 \<Rightarrow> message_with_sender \<Rightarrow> bool" where
  "gas_in_range X used txn \<longleftrightarrow> tx_intrinsic X txn \<le> 2 * unat used \<and> used \<le> msg_gas_limit (mw_message txn)"

lemma execute_transaction_run:
  assumes "execute_transaction X txn p = Inr (receipt, p')" and wf: "ibs_wf (pe_trait X) (ep_state p)"
    and I: "interp_ok (pe_interpreter X) J" and g: "unat (msg_gas_limit (mw_message txn)) < 2 ^ 63"
  obtains s t res where "buy_gas X txn (ep_state p) = Inr s" and "ibs_wf (pe_trait X) s"
    and "host_run (pe_trait X) (ev_keccak (pe_evm X)) s t" and "ibs_wf (pe_trait X) t"
    and "0 \<le> out_gas_left res"
    and "nat (out_gas_left res) + tx_intrinsic X txn \<le> unat (msg_gas_limit (mw_message txn))"
    and "msg_action (mw_message txn) \<noteq> Create \<Longrightarrow> out_status_code res \<noteq> Success \<Longrightarrow> extends (pe_trait X) s t"
    and "settle X txn res (p\<lparr> ep_state := t \<rparr>) = Inr (receipt, p')"
proof -
  let ?m = "mw_message txn" and ?T = "pe_trait X" and ?V = "(pe_evm X)\<lparr> ev_txn := txn \<rparr>"
  let ?g0 = "intrinsic_gas ?m (pe_revision X \<ge> Homestead) (pe_revision X \<ge> Istanbul)"
  let ?gas = "ucast (ucast (msg_gas_limit ?m) - ?g0 :: u128) :: u64"
  obtain s res t where b: "buy_gas X txn (ep_state p) = Inr s" and le: "?g0 \<le> ucast (msg_gas_limit ?m)"
    and small: "ucast (msg_gas_limit ?m) - ?g0 \<le> (0xFFFFFFFFFFFFFFFF :: u128)"
    and e: "evm_execute ?T ?V (pe_interpreter X) (pe_fuel X) ?gas s = Inr (res, t)"
    and st: "settle X txn res (p\<lparr> ep_state := t \<rparr>) = Inr (receipt, p')"
    using assms(1) by (auto simp: execute_transaction_def Let_def split: if_splits)
  have l: "unat (ucast (msg_gas_limit ?m) :: u128) = unat (msg_gas_limit ?m)" by (simp add: unat_ucast_up)
  have "unat ?gas = unat (ucast (msg_gas_limit ?m) - ?g0 :: u128)"
    using small by (simp add: unsigned_ucast_eq take_bit_nat_eq_self word_le_nat_alt)
  also have "\<dots> = unat (msg_gas_limit ?m) - tx_intrinsic X txn"
    using unat_diff_no_wrap [OF le] l by (simp add: tx_intrinsic_def)
  finally have gas: "unat ?gas = unat (msg_gas_limit ?m) - tx_intrinsic X txn" .
  have t0: "tx_intrinsic X txn \<le> unat (msg_gas_limit ?m)"
    using le l by (simp add: tx_intrinsic_def word_le_nat_alt)
  have wfs: "ibs_wf ?T s" using host_run_wf [OF buy_gas_host_run [OF b] wf_clear [OF wf]] .
  have "unat ?gas < 2 ^ 63" using gas g by simp
  note ok = evm_execute_ok [OF e I wfs this]
  have "nat (out_gas_left res) \<le> unat ?gas" using ok(2,3) by (simp only: nat_le_iff)
  then have "nat (out_gas_left res) + tx_intrinsic X txn \<le> unat (msg_gas_limit ?m)" using gas t0 by simp
  moreover have "host_run ?T (ev_keccak (pe_evm X)) s t" using ok(1) by simp
  moreover from this have "ibs_wf ?T t" using wfs by (rule host_run_wf)
  ultimately show ?thesis using that [OF b wfs _ _ ok(2) _ _ st] ok(4) by simp
qed

lemma execute_transaction_gas:
  assumes e: "execute_transaction X txn p = Inr (receipt, p')" and wf: "ibs_wf (pe_trait X) (ep_state p)"
    and I: "interp_ok (pe_interpreter X) J" and g: "unat (msg_gas_limit (mw_message txn)) < 2 ^ 63"
  obtains used where "ibs_wf (pe_trait X) (ep_state p')" and "gas_in_range X used txn"
    and "rc_cumulative_gas_used receipt = ep_cumulative_gas_used p + used"
    and "ep_cumulative_gas_used p' = ep_cumulative_gas_used p + used"
proof -
  obtain s t res where r: "ibs_wf (pe_trait X) t" "0 \<le> out_gas_left res"
    "nat (out_gas_left res) + tx_intrinsic X txn \<le> unat (msg_gas_limit (mw_message txn))"
    "settle X txn res (p\<lparr> ep_state := t \<rparr>) = Inr (receipt, p')"
    using execute_transaction_run [OF e wf I g] by blast
  have "out_gas_left res \<le> int (unat (msg_gas_limit (mw_message txn)))"
    using r(3) by (simp only: flip: nat_le_iff)
  from settle_facts [OF r(4) _ r(2) this] r(1,3) show ?thesis
    by (intro that) (simp_all add: gas_in_range_def)
qed

lemma validate_transaction_gas:
  assumes "validate_transaction X txn p = Inr p'" and wf: "ibs_wf (pe_trait X) (ep_state p)"
    and "ep_cumulative_gas_used p \<le> ph_gas_limit (pe_header X)"
  shows "ibs_wf (pe_trait X) (ep_state p')" and "ep_cumulative_gas_used p' = ep_cumulative_gas_used p"
    and "unat (ep_cumulative_gas_used p) + unat (msg_gas_limit (mw_message txn)) \<le> unat (ph_gas_limit (pe_header X))"
proof -
  let ?T = "pe_trait X" and ?a = "mw_sender txn"
  obtain h s1 n s2 b s3 where "get_code_hash ?T ?a (ep_state p) = Inr (h, s1)" "get_nonce ?T ?a s1 = Inr (n, s2)"
    "get_balance ?T ?a s2 = Inr (b, s3)" and p': "p' = p\<lparr> ep_state := s3 \<rparr>"
    and le: "msg_gas_limit (mw_message txn) \<le> available_gas X p"
    using assms(1) by (auto simp: validate_transaction_def Let_def not_less)
  then have "ibs_wf ?T s3"
    using wf by (meson extends_wf read_extends(3) read_extends(4) read_extends(5))
  with p' show "ibs_wf ?T (ep_state p')" "ep_cumulative_gas_used p' = ep_cumulative_gas_used p" by simp_all
  show "unat (ep_cumulative_gas_used p) + unat (msg_gas_limit (mw_message txn)) \<le> unat (ph_gas_limit (pe_header X))"
    using le assms(3) unat_diff_no_wrap [OF assms(3)] by (simp add: available_gas_def word_le_nat_alt)
qed

section \<open>The gas of a block\<close>

text \<open>The gas of every transaction, read off the cumulative gas of the receipts.\<close>

primrec gas_steps :: "u64 \<Rightarrow> receipt list \<Rightarrow> u64 list" where
  "gas_steps g [] = []"
| "gas_steps g (r # rs) = (rc_cumulative_gas_used r - g) # gas_steps (rc_cumulative_gas_used r) rs"

lemma transaction_gas_steps: "map snd (transaction_gas rs) = gas_steps 0 rs"
proof -
  have "map snd (fst (fold (\<lambda>(i, receipt) (acc, last_gas_used).
        (acc @ [(i, rc_cumulative_gas_used receipt - last_gas_used)], rc_cumulative_gas_used receipt))
      (enumerate n rs) (acc, g))) = map snd acc @ gas_steps g rs" for n acc g
    by (induction rs arbitrary: n acc g) auto
  from this [of 0 "[]" 0] show ?thesis by (simp add: transaction_gas_def)
qed

lemma block_step_gas:
  assumes "block_step X txn (rs, p) = Inr (rs', p')" and wf: "ibs_wf (pe_trait X) (ep_state p)"
    and I: "interp_ok (pe_interpreter X) J" and lim: "unat (ph_gas_limit (pe_header X)) < 2 ^ 63"
    and cum: "ep_cumulative_gas_used p \<le> ph_gas_limit (pe_header X)"
  obtains r where "rs' = rs @ [r]" and "ibs_wf (pe_trait X) (ep_state p')"
    and "gas_in_range X (rc_cumulative_gas_used r - ep_cumulative_gas_used p) txn"
    and "rc_cumulative_gas_used r = ep_cumulative_gas_used p'"
    and "ep_cumulative_gas_used p \<le> ep_cumulative_gas_used p'"
    and "ep_cumulative_gas_used p' \<le> ph_gas_limit (pe_header X)"
proof -
  obtain q r where v: "validate_transaction X txn p = Inr q" and e: "execute_transaction X txn q = Inr (r, p')"
    and rs': "rs' = rs @ [r]"
    using assms(1) by (auto simp: block_step_def)
  note vg = validate_transaction_gas [OF v wf cum]
  have "unat (msg_gas_limit (mw_message txn)) < 2 ^ 63" using vg(3) lim by linarith
  then obtain used where u: "ibs_wf (pe_trait X) (ep_state p')" "gas_in_range X used txn"
    "rc_cumulative_gas_used r = ep_cumulative_gas_used p + used"
    "ep_cumulative_gas_used p' = ep_cumulative_gas_used p + used"
    using execute_transaction_gas [OF e vg(1) I] vg(2) by metis
  have "unat used \<le> unat (msg_gas_limit (mw_message txn))"
    using u(2) by (simp add: gas_in_range_def word_le_nat_alt)
  then have "unat (ep_cumulative_gas_used p) + unat used \<le> unat (ph_gas_limit (pe_header X))"
    using vg(3) by linarith
  moreover from this have "unat (ep_cumulative_gas_used p + used) = unat (ep_cumulative_gas_used p) + unat used"
    using lim by (intro unat_add_no_wrap) simp
  ultimately show ?thesis using that [OF rs'] u by (simp add: word_le_nat_alt)
qed

lemma block_steps_gas:
  assumes "fold_r (block_step X) txns (rs, p) = Inr (rs', p')" and "ibs_wf (pe_trait X) (ep_state p)"
    and I: "interp_ok (pe_interpreter X) J" and lim: "unat (ph_gas_limit (pe_header X)) < 2 ^ 63"
    and "ep_cumulative_gas_used p \<le> ph_gas_limit (pe_header X)"
  shows "\<exists>new. rs' = rs @ new
    \<and> list_all2 (gas_in_range X) (gas_steps (ep_cumulative_gas_used p) new) txns
    \<and> sorted (ep_cumulative_gas_used p # map rc_cumulative_gas_used new)
    \<and> (\<forall>r \<in> set new. rc_cumulative_gas_used r \<le> ph_gas_limit (pe_header X))"
  using assms(1,2,5)
proof (induction txns arbitrary: rs p)
  case (Cons txn txns)
  from Cons.prems(1) obtain rs1 p1 where 1: "block_step X txn (rs, p) = Inr (rs1, p1)"
    and rest: "fold_r (block_step X) txns (rs1, p1) = Inr (rs', p')" by auto
  obtain r where r: "rs1 = rs @ [r]" "ibs_wf (pe_trait X) (ep_state p1)"
    "gas_in_range X (rc_cumulative_gas_used r - ep_cumulative_gas_used p) txn"
    "rc_cumulative_gas_used r = ep_cumulative_gas_used p1"
    "ep_cumulative_gas_used p \<le> ep_cumulative_gas_used p1"
    "ep_cumulative_gas_used p1 \<le> ph_gas_limit (pe_header X)"
    using block_step_gas [OF 1 Cons.prems(2) I lim Cons.prems(3)] by blast
  obtain new where "rs' = rs1 @ new"
    "list_all2 (gas_in_range X) (gas_steps (ep_cumulative_gas_used p1) new) txns"
    "sorted (ep_cumulative_gas_used p1 # map rc_cumulative_gas_used new)"
    "\<forall>r \<in> set new. rc_cumulative_gas_used r \<le> ph_gas_limit (pe_header X)"
    using Cons.IH [OF rest r(2,6)] by blast
  with r show ?case by (intro exI [of _ "r # new"]) (auto intro: order_trans)
qed auto

lemma set_balances_wf:
  "fold_r (\<lambda>(a, balance) s. set_balance T a balance s) bs s = Inr t \<Longrightarrow> ibs_wf T s \<Longrightarrow> ibs_wf T t"
  by (erule fold_r_invariant) (auto intro: host_run_wf hr_set_balance [OF hr_refl])

text \<open>
  C7.  The gas of a block: when the transactions of a block execute, there is one receipt per
  transaction, the cumulative gas of the receipts never decreases and never exceeds the gas
  limit of the block, and every transaction is charged at least half of its intrinsic gas (the
  refund is capped) and at most its gas limit.  The counters do not wrap.
\<close>

theorem block_gas_bounded:
  assumes "execute_block_no_post_validation X (processor_new d) = Inr (receipts, p)"
    and "interp_ok (pe_interpreter X) J" and "unat (ph_gas_limit (pe_header X)) < 2 ^ 63"
  shows "list_all2 (gas_in_range X) (map snd (transaction_gas receipts)) (bbs_transactions (pe_block X))
    \<and> sorted (map rc_cumulative_gas_used receipts)
    \<and> (\<forall>r \<in> set receipts. rc_cumulative_gas_used r \<le> ph_gas_limit (pe_header X))"
proof -
  obtain s q where 1: "fold_r (\<lambda>(a, balance) s. set_balance (pe_trait X) a balance s)
        (balance_changes (ev_block_spec (pe_evm X))) (ibs_new d) = Inr s"
    and 2: "fold_r (block_step X) (bbs_transactions (pe_block X))
        ([], \<lparr> ep_state = s, ep_cumulative_gas_used = 0 \<rparr>) = Inr (receipts, q)"
    using assms(1) by (auto simp: execute_block_no_post_validation_def processor_new_def)
  have "ibs_wf (pe_trait X) s"
    by (rule set_balances_wf [OF 1]) (simp add: ibs_wf_def ibs_new_def)
  with block_steps_gas [OF 2 _ assms(2,3)] show ?thesis
    by (auto simp: transaction_gas_steps)
qed

section \<open>The validity of a transaction\<close>

lemma unat_max_cost:
  "unat (max_cost m) = unat (msg_gas_limit m) * unat (max_fee_per_gas m) + unat (msg_value m)"
proof -
  let ?g = "unat (msg_gas_limit m)" and ?f = "unat (max_fee_per_gas m)" and ?v = "unat (msg_value m)"
  have b: "?g \<le> 2 ^ 64" "?f \<le> 2 ^ 256" "?v \<le> 2 ^ 256"
    using unsigned_less [of "msg_gas_limit m", where 'a = nat] unsigned_less [of "max_fee_per_gas m", where 'a = nat]
      unsigned_less [of "msg_value m", where 'a = nat] by simp_all
  then have p: "?g * ?f \<le> 2 ^ 64 * 2 ^ 256" by (intro mult_le_mono)
  then have "unat (ucast (msg_gas_limit m) * ucast (max_fee_per_gas m) :: u512) = ?g * ?f"
    by (subst unat_mult_no_wrap) (simp_all add: unat_ucast_up)
  with p b(3) show ?thesis
    unfolding max_cost_def by (subst unat_add_no_wrap) (simp_all add: unat_ucast_up)
qed

text \<open>
  C10.  A pre-validated transaction is valid exactly when its sender has no code, its nonce is
  the sender's, the sender can pay the gas limit at the maximal fee and the value, and the gas
  limit fits into what is left of the block; the 512-bit cost does not wrap.  Validation
  changes nothing of the state it reads.
\<close>

theorem validate_transaction_iff:
  assumes w: "represents (pe_trait X) (ep_state p) w"
    and pre: "pre_validate_transaction (mw_message tx) (pa_chain_id (bes_params (ev_block_spec (pe_evm X))))
      (ph_base_fee_per_gas (pe_header X)) = Inr ()"
  defines "sender \<equiv> w_account w (mw_sender tx)" and "m \<equiv> mw_message tx"
  shows "(\<exists>p'. validate_transaction X tx p = Inr p' \<and> represents (pe_trait X) (ep_state p') w
      \<and> ep_cumulative_gas_used p' = ep_cumulative_gas_used p) \<longleftrightarrow>
    acc_code_hash sender = EMPTY_HASH \<and> acc_nonce sender = msg_nonce m \<and>
    unat (msg_gas_limit m) * unat (max_fee_per_gas m) + unat (msg_value m) \<le> unat (acc_balance sender) \<and>
    msg_gas_limit m \<le> available_gas X p"
proof -
  obtain s1 where 1: "get_code_hash (pe_trait X) (mw_sender tx) (ep_state p) = Inr (acc_code_hash sender, s1)"
    and w1: "represents (pe_trait X) s1 w" using reads_view(3) [OF w] unfolding sender_def by blast
  obtain s2 where 2: "get_nonce (pe_trait X) (mw_sender tx) s1 = Inr (acc_nonce sender, s2)"
    and w2: "represents (pe_trait X) s2 w" using reads_view(2) [OF w1] unfolding sender_def by blast
  obtain s3 where 3: "get_balance (pe_trait X) (mw_sender tx) s2 = Inr (acc_balance sender, s3)"
    and w3: "represents (pe_trait X) s3 w" using reads_view(1) [OF w2] unfolding sender_def by blast
  have "(ucast (acc_balance sender) :: u512) < max_cost m \<longleftrightarrow>
      \<not> unat (msg_gas_limit m) * unat (max_fee_per_gas m) + unat (msg_value m) \<le> unat (acc_balance sender)"
    by (simp add: word_less_nat_alt unat_max_cost unat_ucast_up not_le)
  then show ?thesis
    using w3 by (auto simp: validate_transaction_def Let_def expect_r_def pre [folded m_def] 1 2 3 check_def
        not_less m_def [symmetric])
qed

section \<open>What a failed transaction leaves alone\<close>

lemma update_balance_other:
  assumes "update_balance T f a s = Inr t" and "b \<noteq> a"
  shows "account_view T t b = account_view T s b"
proof -
  obtain obj acc s1 acc' where "get_or_create_object T a s = Inr (obj, acc, s1)" "db t = db s1"
    "objects t = hm_insert a (obj\<lparr> obj_current := Some acc' \<rparr>) (objects s1)"
    using wrote_account_update(1) [OF assms(1)] by (auto simp: wrote_account_def)
  with get_or_create_object_live [of T a s obj acc s1] assms(2) show ?thesis
    by (intro account_view_lookup_cong) auto
qed

lemma set_nonce_other:
  assumes "set_nonce T a n s = Inr t" and "b \<noteq> a"
  shows "account_view T t b = account_view T s b"
proof -
  obtain obj acc s1 acc' where "get_or_create_object T a s = Inr (obj, acc, s1)" "db t = db s1"
    "objects t = hm_insert a (obj\<lparr> obj_current := Some acc' \<rparr>) (objects s1)"
    using wrote_account_update(2) [OF assms(1)] by (auto simp: wrote_account_def)
  with get_or_create_object_live [of T a s obj acc s1] assms(2) show ?thesis
    by (intro account_view_lookup_cong) auto
qed

lemma access_frame:
  "db (snd (access_account a s)) = db s" "objects (snd (access_account a s)) = objects s"
  "touched (snd (access_account a s)) = touched s" "self_destructs (snd (access_account a s)) = self_destructs s"
  "db (snd (access_storage a k s)) = db s" "objects (snd (access_storage a k s)) = objects s"
  "touched (snd (access_storage a k s)) = touched s" "self_destructs (snd (access_storage a k s)) = self_destructs s"
  by (auto simp: access_account_def access_storage_def push_delta_def Let_def)

lemma access_slots_frame:
  "db (fold (\<lambda>key s. snd (access_storage a key s)) ks s) = db s"
  "objects (fold (\<lambda>key s. snd (access_storage a key s)) ks s) = objects s"
  "touched (fold (\<lambda>key s. snd (access_storage a key s)) ks s) = touched s"
  "self_destructs (fold (\<lambda>key s. snd (access_storage a key s)) ks s) = self_destructs s"
  by (induction ks arbitrary: s) (simp_all add: access_frame)

lemma access_entries_frame:
  "db (fold access_entry es s) = db s" "objects (fold access_entry es s) = objects s"
  "touched (fold access_entry es s) = touched s" "self_destructs (fold access_entry es s) = self_destructs s"
  by (induction es arbitrary: s) (simp_all add: access_entry_def access_frame access_slots_frame)

lemma account_view_frame:
  "db t = db s \<Longrightarrow> objects t = objects s \<Longrightarrow> account_view T t a = account_view T s a"
  by (intro account_view_lookup_cong) auto

lemma account_view_access:
  "account_view T (snd (access_account b s)) a = account_view T s a"
  "account_view T (fold access_entry es s) a = account_view T s a"
  "account_view T (clear_journal_and_substate s) a = account_view T s a"
  "account_view T (finalize_transaction s) a = account_view T s a"
  by (rule account_view_frame; simp add: access_frame access_entries_frame clear_journal_and_substate_def
      finalize_transaction_def)+

lemma get_or_create_object_substate:
  assumes "get_or_create_object T a s = Inr (obj, acc, s')"
  shows "touched s' = touched s" and "self_destructs s' = self_destructs s"
  using assms by (auto simp: get_or_create_object_def ensure_object_def get_object_def push_delta_def Let_def
      split: option.splits if_splits)

lemma update_balance_substate:
  assumes "update_balance T f a s = Inr t"
  shows "set (touched t) = insert a (set (touched s))" and "self_destructs t = self_destructs s"
  using assms by (auto simp: update_balance_def Let_def touch_def push_delta_def hs_insert_def
      get_or_create_object_substate split: if_splits)

lemma set_nonce_substate:
  assumes "set_nonce T a n s = Inr t"
  shows "touched t = touched s" and "self_destructs t = self_destructs s"
  using assms by (auto simp: set_nonce_def Let_def push_delta_def get_or_create_object_substate)

lemma buy_gas_frame:
  assumes "buy_gas X txn s = Inr t"
  shows "self_destructs t = []" and "set (touched t) = {mw_sender txn}"
    and "a \<noteq> mw_sender txn \<Longrightarrow> account_view (pe_trait X) t a = account_view (pe_trait X) s a"
proof -
  let ?T = "pe_trait X" and ?m = "mw_message txn" and ?c = "clear_journal_and_substate s"
  let ?s0 = "snd (access_account (mw_sender txn) ?c)"
  obtain v s1 s2 where s1: "subtract_from_balance ?T (mw_sender txn) v ?s0 = Inr s1"
    and s2: "(case msg_action ?m of
             Call to \<Rightarrow> set_nonce ?T (mw_sender txn) (msg_nonce ?m + 1) (snd (access_account to s1))
           | Create \<Rightarrow> Inr s1) = Inr s2"
    and t: "t = fold access_entry (msg_access_list ?m) s2"
    using assms by (auto simp: buy_gas_def Let_def)
  have c: "self_destructs ?c = []" "touched ?c = []" "db ?c = db s" "objects ?c = objects s"
    by (simp_all add: clear_journal_and_substate_def)
  have 1: "self_destructs s1 = []" "set (touched s1) = {mw_sender txn}"
    using update_balance_substate [OF s1 [unfolded subtract_from_balance_def]] c by (simp_all add: access_frame)
  have 2: "self_destructs s2 = self_destructs s1 \<and> touched s2 = touched s1"
  proof (cases "msg_action ?m")
    case (Call to)
    with s2 have "set_nonce ?T (mw_sender txn) (msg_nonce ?m + 1) (snd (access_account to s1)) = Inr s2" by simp
    from set_nonce_substate [OF this] show ?thesis by (simp add: access_frame)
  qed (use s2 in simp)
  show "self_destructs t = []" "set (touched t) = {mw_sender txn}"
    using 1 2 t by (simp_all add: access_entries_frame)
  assume a: "a \<noteq> mw_sender txn"
  have "account_view ?T t a = account_view ?T s2 a" by (simp add: t account_view_access)
  also have "\<dots> = account_view ?T s1 a"
  proof (cases "msg_action ?m")
    case (Call to)
    with s2 have "set_nonce ?T (mw_sender txn) (msg_nonce ?m + 1) (snd (access_account to s1)) = Inr s2" by simp
    from set_nonce_other [OF this a] show ?thesis by (simp add: account_view_access)
  qed (use s2 in simp)
  also have "\<dots> = account_view ?T ?s0 a"
    using update_balance_other [OF s1 [unfolded subtract_from_balance_def] a] .
  also have "\<dots> = account_view ?T s a" by (simp add: account_view_access)
  finally show "account_view ?T t a = account_view ?T s a" .
qed

lemma destruct_touched_dead_other:
  assumes "destruct_touched_dead T s = Inr t" and wf: "ibs_wf T s" and a: "a \<notin> set (touched s)"
  shows "account_view T t a = account_view T s a"
proof -
  let ?P = "\<lambda>u. ibs_wf T u \<and> account_view T u a = account_view T s a"
  have "?P t"
  proof (rule fold_r_invariant [OF assms(1) [unfolded destruct_touched_dead_def]])
    fix b u v
    assume b: "b \<in> set (touched s)" and u: "?P u"
      and "bind_r (is_dead T b u) (\<lambda>(dead, s). if dead then destruct T b s else Inr s) = Inr v"
    then obtain dead u1 where 1: "is_dead T b u = Inr (dead, u1)"
      "(if dead then destruct T b u1 else Inr u1) = Inr v" by auto
    have e: "extends T u u1" using read_extends(2) [OF _ 1(1)] u by blast
    then have 2: "?P u1" using u by (auto simp: extends_def same_accounts_def)
    show "?P v"
    proof (cases dead)
      case True
      with 1 have d: "destruct T b u1 = Inr v" by simp
      have "a \<noteq> b" using a b by auto
      then have "account_view T v a = account_view T u1 a"
        using destruct_frame [OF d] by (intro account_view_lookup_cong) auto
      with 2 wf_destruct [OF d] show ?thesis by simp
    qed (use 1 2 in simp)
  qed (use wf in simp)
  then show ?thesis by simp
qed

text \<open>
  C8.  A transaction whose call fails, whatever the code did before, costs the sender its gas
  and pays the miner, and changes nothing else: every other account (balance, nonce and code)
  is as it was before the transaction.  The RIPEMD contract is the exception of the yellow
  paper, Appendix K: it may stay touched and be deleted when it is empty.
\<close>

theorem failed_transaction_frame:
  assumes e: "execute_transaction X txn p = Inr (receipt, p')" and "\<not> rc_success receipt"
    and act: "msg_action (mw_message txn) \<noteq> Create"
    and wf: "ibs_wf (pe_trait X) (ep_state p)" and I: "interp_ok (pe_interpreter X) J"
    and g: "unat (msg_gas_limit (mw_message txn)) < 2 ^ 63"
    and a: "a \<noteq> mw_sender txn" "a \<noteq> ph_beneficiary (pe_header X)" "a \<noteq> RIPEMD_ADDRESS"
  shows "account_view (pe_trait X) (ep_state p') a = account_view (pe_trait X) (ep_state p) a"
proof -
  let ?T = "pe_trait X"
  obtain s t res where b: "buy_gas X txn (ep_state p) = Inr s" and wfs: "ibs_wf ?T s" and wft: "ibs_wf ?T t"
    and fail: "out_status_code res \<noteq> Success \<Longrightarrow> extends ?T s t"
    and st: "settle X txn res (p\<lparr> ep_state := t \<rparr>) = Inr (receipt, p')"
    using execute_transaction_run [OF e wf I g] act by blast
  obtain v1 v2 s1 s2 s3 s4 where
    s1: "update_balance ?T v1 (mw_sender txn) t = Inr s1"
    and s2: "update_balance ?T v2 (ph_beneficiary (pe_header X)) s1 = Inr s2"
    and s3: "destruct_selfdestructs ?T s2 = Inr s3"
    and s4: "(if pe_revision X \<ge> Spurious then destruct_touched_dead ?T s3 else Inr s3) = Inr s4"
    and p': "ep_state p' = finalize_transaction s4" and ok: "rc_success receipt \<longleftrightarrow> out_status_code res = Success"
    using st by (auto simp: settle_def refund_gas_def Let_def add_to_balance_def)
  have x: "extends ?T s t" using fail ok assms(2) by simp
  have "set (self_destructs t) = {}" "set (touched t) \<subseteq> {mw_sender txn, RIPEMD_ADDRESS}"
    using x buy_gas_frame(1,2) [OF b] by (auto simp: extends_def same_substate_def touched_view_def)
  then have sd: "self_destructs s2 = []"
    and tch: "a \<notin> set (touched s2)"
    using update_balance_substate [OF s1] update_balance_substate [OF s2] a by auto
  have "ibs_wf ?T s2"
    using undoable_wf [OF undoable_update_balance [OF s2 undoable_wf [OF undoable_update_balance [OF s1 wft]]]] .
  moreover have s3': "s3 = s2" using s3 sd by (simp add: destruct_selfdestructs_def)
  ultimately have "account_view ?T s4 a = account_view ?T s2 a"
    using s4 destruct_touched_dead_other [of ?T s2 s4 a] tch by (auto split: if_splits)
  also have "\<dots> = account_view ?T t a"
    using update_balance_other [OF s2 a(2)] update_balance_other [OF s1 a(1)] by simp
  also have "\<dots> = account_view ?T s a" using x by (simp add: extends_def same_accounts_def)
  also have "\<dots> = account_view ?T (ep_state p) a" using buy_gas_frame(3) [OF b a(1)] .
  finally show ?thesis
    using p' by (simp add: account_view_access)
qed

section \<open>The header of an accepted block\<close>

text \<open>Membership in a Bloom filter: the three bits of the item are set.\<close>

definition bloom_has :: "(bytes \<Rightarrow> h256) \<Rightarrow> bloom \<Rightarrow> bytes \<Rightarrow> bool" where
  "bloom_has keccak bloom x \<longleftrightarrow> (\<forall>i \<in> {0, 2, 4}. bit bloom (bloom_bit (to_be 32 (keccak x)) i))"

lemma bloom_has_or: "bloom_has keccak b x \<or> bloom_has keccak c x \<Longrightarrow> bloom_has keccak (b OR c) x"
  by (auto simp: bloom_has_def bit_or_iff)

lemma bloom_bit_set: "bit (push_bit (bloom_bit h i) 1 :: bloom) (bloom_bit h i)"
  by (simp add: bit_exp_iff bloom_bit_def)

lemma m3_2048_has:
  "bloom_has keccak (m3_2048 keccak x b) x"
  "bloom_has keccak b y \<Longrightarrow> bloom_has keccak (m3_2048 keccak x b) y"
  by (simp_all add: bloom_has_def m3_2048_def Let_def bit_or_iff bloom_bit_set del: push_bit_of_1)

lemma m3_2048_fold_keeps:
  "bloom_has keccak b y \<Longrightarrow> bloom_has keccak (fold (\<lambda>t. m3_2048 keccak (f t)) ts b) y"
  by (induction ts arbitrary: b) (simp_all add: m3_2048_has)

lemma m3_2048_fold_has:
  "t \<in> set ts \<Longrightarrow> bloom_has keccak (fold (\<lambda>t. m3_2048 keccak (f t)) ts b) (f t)"
  by (induction ts arbitrary: b) (auto intro: m3_2048_fold_keeps [OF m3_2048_has(1)])

lemma logs_bloom_has:
  assumes "l \<in> set ls" and "x = to_be 20 (log_address l) \<or> (\<exists>t \<in> set (log_topics l). x = to_be 32 t)"
  shows "bloom_has keccak (logs_bloom keccak ls) x"
proof -
  let ?f = "\<lambda>l b. fold (\<lambda>t. m3_2048 keccak (to_be 32 t)) (log_topics l) (m3_2048 keccak (to_be 20 (log_address l)) b)"
  have keep1: "bloom_has keccak b x \<Longrightarrow> bloom_has keccak (?f l b) x" for b l
    by (rule m3_2048_fold_keeps [OF m3_2048_has(2)])
  have keep: "bloom_has keccak b x \<Longrightarrow> bloom_has keccak (fold ?f ls b) x" for b ls
    by (induction ls arbitrary: b) (simp_all add: keep1)
  have "bloom_has keccak (?f l b) x" for b
    using assms(2) m3_2048_fold_keeps [OF m3_2048_has(1)] m3_2048_fold_has [of _ "log_topics l" keccak "to_be 32"]
    by blast
  then have "bloom_has keccak (fold ?f ls b) x" for b
    using assms(1) by (induction ls arbitrary: b) (auto simp: keep)
  then show ?thesis by (simp add: logs_bloom_def)
qed

lemma or_blooms_has:
  assumes "r \<in> set rs" and "bloom_has keccak (rc_bloom r) x"
  shows "bloom_has keccak (fold (\<lambda>r bloom. bloom OR rc_bloom r) rs b) x"
proof -
  have keep: "bloom_has keccak b x \<Longrightarrow> bloom_has keccak (fold (\<lambda>r bloom. bloom OR rc_bloom r) rs b) x" for b rs
    by (induction rs arbitrary: b) (auto intro: bloom_has_or)
  show ?thesis using assms by (induction rs arbitrary: b) (auto intro: keep bloom_has_or)
qed

lemma block_receipts_bloom:
  assumes "fold_r (block_step X) txns (rs, p) = Inr (rs', p')"
    and "\<forall>r \<in> set rs. rc_bloom r = logs_bloom (ev_keccak (pe_evm X)) (rc_logs r)"
  shows "\<forall>r \<in> set rs'. rc_bloom r = logs_bloom (ev_keccak (pe_evm X)) (rc_logs r)"
  using fold_r_invariant [OF assms(1), where P = "\<lambda>(rs, p). \<forall>r \<in> set rs. rc_bloom r = logs_bloom (ev_keccak (pe_evm X)) (rc_logs r)"]
    assms(2) by (fastforce simp: block_step_def execute_transaction_def settle_def Let_def split: if_splits)

text \<open>
  C9.  A block that is executed and written agrees with its header: the gas used is the
  cumulative gas of the last receipt, the receipts root is the root of the receipts (from
  Byzantium on), and the Bloom filter of the header contains the address and every topic of
  every log of the block.
\<close>

theorem accepted_block_header:
  assumes "execute_and_write_block X p = Inr (receipts, d)"
  shows "ph_gas_used (pe_header X) = (if receipts = [] then 0 else rc_cumulative_gas_used (last receipts))
    \<and> (pe_revision X \<ge> Byzantium \<longrightarrow>
        ph_receipts_root (pe_header X) = root_hash_of (pe_trie_encode X) (pe_ordered_trie_root X) receipts)
    \<and> (\<forall>r \<in> set receipts. \<forall>l \<in> set (rc_logs r). \<forall>x \<in> insert (to_be 20 (log_address l)) (to_be 32 ` set (log_topics l)).
        bloom_has (ev_keccak (pe_evm X)) (ph_logs_bloom (pe_header X)) x)"
proof -
  obtain q where e: "execute_block_no_post_validation X p = Inr (receipts, q)"
    and g: "ph_gas_used (pe_header X) = (if receipts = [] then 0 else rc_cumulative_gas_used (last receipts))"
    and r: "pe_revision X \<ge> Byzantium \<longrightarrow>
      ph_receipts_root (pe_header X) = root_hash_of (pe_trie_encode X) (pe_ordered_trie_root X) receipts"
    and b: "ph_logs_bloom (pe_header X) = fold (\<lambda>r bloom. bloom OR rc_bloom r) receipts 0"
    using assms by (auto simp: execute_and_write_block_def Let_def bind_check_Inr split: if_splits)
  have "\<forall>r \<in> set receipts. rc_bloom r = logs_bloom (ev_keccak (pe_evm X)) (rc_logs r)"
    using e block_receipts_bloom by (fastforce simp: execute_block_no_post_validation_def)
  then have "bloom_has (ev_keccak (pe_evm X)) (ph_logs_bloom (pe_header X)) x"
    if "rc \<in> set receipts" "l \<in> set (rc_logs rc)"
      "x \<in> insert (to_be 20 (log_address l)) (to_be 32 ` set (log_topics l))" for rc l x
    unfolding b using that by (intro or_blooms_has [OF that(1)]) (auto intro!: logs_bloom_has)
  with g r show ?thesis by blast
qed

section \<open>Examples\<close>

text \<open>A block with one transaction, from account 60 to the contract 50.  The interpreter of the
  first example emits a log and completes, the one of the second writes a slot and fails.\<close>

definition log_interpreter :: "unit interpreter" where
  "log_interpreter = \<lparr> execute_resumable = (\<lambda>code m r. I_EmitLog (em_recipient m) [] [7] ()),
     resume = (\<lambda>k r. I_Complete (Inr (output_of 0))) \<rparr>"

definition sample_processor_db :: in_memory_state where
  "sample_processor_db = sample_contract_db\<lparr> ims_accounts :=
     [(50, sample_account\<lparr> acc_code_hash := 99 \<rparr>), (60, sample_account\<lparr> acc_balance := 500000 \<rparr>)] \<rparr>"

definition sample_tx :: message_with_sender where
  "sample_tx = \<lparr> mw_message = Legacy None 1 2 100000 (Call 50) 0 [1], mw_sender = 60 \<rparr>"

definition sample_processor :: "unit interpreter \<Rightarrow> (in_memory_state, unit) processor_env" where
  "sample_processor I = \<lparr> pe_trait = in_memory, pe_interpreter = I, pe_fuel = 10,
     pe_evm = sample_evm_env\<lparr> ev_header := sample_partial_header\<lparr> ph_gas_used := 100000, ph_logs_bloom := 1,
       ph_receipts_root := 1 \<rparr> \<rparr>,
     pe_engine = ethash_consensus sample_env in_memory \<lparr> eth_base = sample_engine, eth_duration_limit = 13,
       eth_block_reward = [], eth_homestead_formula = None, eth_byzantium_formula = None,
       eth_difficulty_bomb = None, eth_skip_pow_verification = True \<rparr>,
     pe_block = \<lparr> bbs_transactions = [sample_tx], bbs_ommers = [] \<rparr>,
     pe_trie_encode = (\<lambda>_. []), pe_ordered_trie_root = (\<lambda>bs. of_nat (length bs)) \<rparr>"

lemma sample_block_runs:
  "case execute_block_no_post_validation (sample_processor log_interpreter) (processor_new sample_processor_db) of
     Inr (receipts, p) \<Rightarrow> map rc_cumulative_gas_used receipts = [100000] | Inl _ \<Rightarrow> False"
  by code_simp

lemma sample_processor_sel [simp]:
  "pe_trait (sample_processor I) = in_memory" "pe_interpreter (sample_processor I) = I"
  "ph_gas_limit (pe_header (sample_processor I)) = 1000000" "ph_beneficiary (pe_header (sample_processor I)) = 77"
  "ph_base_fee_per_gas (pe_header (sample_processor I)) = None"
  "pa_chain_id (bes_params (ev_block_spec (pe_evm (sample_processor I)))) = 1"
  by (simp_all add: sample_processor_def sample_evm_env_def sample_partial_header_def)

definition log_invariant :: "evm_message \<Rightarrow> unit interrupt \<Rightarrow> bool" where
  "log_invariant m i \<longleftrightarrow> gas_ok (em_gas m) \<and>
     (i = I_EmitLog (em_recipient m) [] [7] () \<or> i = I_Complete (Inr (output_of 0)))"

lemma ibs_wf_new: "ibs_wf T (ibs_new d)"
  by (simp add: ibs_wf_def ibs_new_def)

lemma log_interp_ok: "interp_ok log_interpreter log_invariant"
  unfolding interp_ok_def log_interpreter_def log_invariant_def
  by (auto simp: within_def output_of_def gas_ok_def)

theorem block_gas_bounded_witness:
  "\<exists>receipts p. execute_block_no_post_validation (sample_processor log_interpreter) (processor_new sample_processor_db)
      = Inr (receipts, p) \<and> sorted (map rc_cumulative_gas_used receipts) \<and> receipts \<noteq> []"
proof -
  obtain receipts p where r: "execute_block_no_post_validation (sample_processor log_interpreter)
      (processor_new sample_processor_db) = Inr (receipts, p)" "map rc_cumulative_gas_used receipts = [100000]"
    using sample_block_runs by (auto split: sum.splits)
  then show ?thesis using block_gas_bounded [OF r(1), of log_invariant] log_interp_ok by auto
qed

theorem validate_transaction_iff_witness:
  "\<exists>p. validate_transaction (sample_processor log_interpreter)
     \<lparr> mw_message = Legacy None 1 0 21000 (Call 2) 3 [], mw_sender = 1 \<rparr> (processor_new sample_db) = Inr p"
proof -
  let ?X = "sample_processor log_interpreter" and ?tx = "\<lparr> mw_message = Legacy None 1 0 21000 (Call 2) 3 [], mw_sender = 1 \<rparr>"
  have "represents (pe_trait ?X) (ep_state (processor_new sample_db)) sample_world"
    using represents_sample by (simp add: processor_new_def)
  from validate_transaction_iff [OF this, of ?tx] show ?thesis
    by (auto simp: pre_validate_transaction_def check_def w_account_def sample_world_def sample_account_def
        default_account_def available_gas_def processor_new_def)
qed

lemma sample_transaction_fails:
  "case execute_transaction (sample_processor sample_interpreter) sample_tx (processor_new sample_processor_db) of
     Inr (receipt, p) \<Rightarrow> \<not> rc_success receipt | Inl _ \<Rightarrow> False"
  by code_simp

theorem failed_transaction_frame_witness:
  "\<exists>receipt p. execute_transaction (sample_processor sample_interpreter) sample_tx (processor_new sample_processor_db)
      = Inr (receipt, p) \<and>
     account_view in_memory (ep_state p) 50 = Inr (Some (sample_account\<lparr> acc_code_hash := 99 \<rparr>))"
proof -
  obtain receipt p where r: "execute_transaction (sample_processor sample_interpreter) sample_tx
      (processor_new sample_processor_db) = Inr (receipt, p)" "\<not> rc_success receipt"
    using sample_transaction_fails by (auto split: sum.splits)
  have "account_view in_memory (ep_state (processor_new sample_processor_db)) 50
      = Inr (Some (sample_account\<lparr> acc_code_hash := 99 \<rparr>))"
    by (simp add: account_view_def processor_new_def ibs_new_def sample_processor_db_def ims_read_account_def hm_get_Cons)
  with failed_transaction_frame [OF r, of sample_invariant 50] sample_interp_ok r(1) show ?thesis
    by (auto simp: sample_tx_def processor_new_def ibs_wf_new RIPEMD_ADDRESS_def)
qed

lemma sample_block_accepted:
  "case execute_and_write_block (sample_processor log_interpreter) (processor_new sample_processor_db) of
     Inr (receipts, d) \<Rightarrow> map rc_logs receipts = [[\<lparr> log_address = 50, log_topics = [7], log_data = [] \<rparr>]]
   | Inl _ \<Rightarrow> False"
  by code_simp

theorem accepted_block_header_witness:
  "\<exists>receipts d. execute_and_write_block (sample_processor log_interpreter) (processor_new sample_processor_db)
      = Inr (receipts, d) \<and>
     bloom_has (ev_keccak sample_evm_env) (ph_logs_bloom (pe_header (sample_processor log_interpreter))) (to_be 32 (7 :: h256))"
proof -
  obtain receipts d where r: "execute_and_write_block (sample_processor log_interpreter)
      (processor_new sample_processor_db) = Inr (receipts, d)"
    "map rc_logs receipts = [[\<lparr> log_address = 50, log_topics = [7], log_data = [] \<rparr>]]"
    using sample_block_accepted by (auto split: sum.splits)
  then show ?thesis using accepted_block_header [OF r(1)] by (auto simp: sample_processor_def)
qed

end
