(* ===== verification/Blockchain_Properties.thy ===== *)
theory Blockchain_Properties
  imports
    Blockchain Processor_Properties
begin

text \<open>
  The block tables as \<open>Blockchain\<close> keeps them: every stored block has its parent stored below it
  and the total difficulty of its chain, the canonical hashes form a chain of stored blocks,
  and its tip has the greatest total difficulty of all stored blocks.  Insertion returns and
  keeps this, whatever the execution of blocks does.
\<close>

section \<open>The block tables\<close>

definition stored :: "in_memory_state \<Rightarrow> nat \<Rightarrow> h256 \<Rightarrow> block_header option" where
  "stored s n hash = (case vec_get (ims_headers s) n of Some m \<Rightarrow> hm_get m hash | None \<Rightarrow> None)"

definition body_at :: "in_memory_state \<Rightarrow> nat \<Rightarrow> h256 \<Rightarrow> block_body option" where
  "body_at s n hash = (case vec_get (ims_bodies s) n of Some m \<Rightarrow> hm_get m hash | None \<Rightarrow> None)"

definition td_at :: "in_memory_state \<Rightarrow> nat \<Rightarrow> h256 \<Rightarrow> u256 option" where
  "td_at s n hash = (case vec_get (ims_difficulty s) n of Some m \<Rightarrow> hm_get m hash | None \<Rightarrow> None)"

abbreviation canon :: "in_memory_state \<Rightarrow> h256 list" where
  "canon \<equiv> ims_canonical_hashes"

definition tip_difficulty :: "in_memory_state \<Rightarrow> u256 option" where
  "tip_difficulty s = td_at s (length (canon s) - 1) (last (canon s))"

lemma reads_stored [simp]:
  "ims_read_header s n hash = Inr (stored s (unat n) hash)"
  "ims_total_difficulty s n hash = Inr (td_at s (unat n) hash)"
  by (simp_all add: ims_read_header_def ims_total_difficulty_def stored_def td_at_def split: option.splits)

text \<open>\<open>block_ok\<close> says that a stored block is at its height, with its body, its parent and the
  total difficulty of its chain.\<close>

definition block_ok :: "in_memory_state \<Rightarrow> nat \<Rightarrow> h256 \<Rightarrow> block_header \<Rightarrow> bool" where
  "block_ok s n hash h \<longleftrightarrow> unat (h_number h) = n \<and> body_at s n hash \<noteq> None \<and>
     (if n = 0 then td_at s n hash = Some (h_difficulty h)
      else stored s (n - 1) (h_parent_hash h) \<noteq> None \<and>
        td_at s n hash = map_option (\<lambda>d. d + h_difficulty h) (td_at s (n - 1) (h_parent_hash h)))"

definition tables_ok :: "in_memory_state \<Rightarrow> bool" where
  "tables_ok s \<longleftrightarrow> length (ims_bodies s) = length (ims_headers s) \<and>
     length (ims_difficulty s) = length (ims_headers s) \<and> length (ims_headers s) < 2 ^ 64 \<and>
     (\<forall>n hash h. stored s n hash = Some h \<longrightarrow> block_ok s n hash h)"

definition canon_ok :: "in_memory_state \<Rightarrow> bool" where
  "canon_ok s \<longleftrightarrow> canon s \<noteq> [] \<and>
     (\<forall>i < length (canon s). \<exists>h. stored s i (canon s ! i) = Some h \<and>
        (0 < i \<longrightarrow> h_parent_hash h = canon s ! (i - 1)))"

definition heaviest :: "in_memory_state \<Rightarrow> bool" where
  "heaviest s \<longleftrightarrow> (\<forall>n hash d. stored s n hash \<noteq> None \<longrightarrow> td_at s n hash = Some d \<longrightarrow> d \<le> the (tip_difficulty s))"

definition chain_ok :: "in_memory_state \<Rightarrow> bool" where
  "chain_ok s \<longleftrightarrow> tables_ok s \<and> canon_ok s \<and> heaviest s"

lemma same_blocks_tables:
  assumes "same_blocks s t"
  shows "stored t = stored s" "td_at t = td_at s" "body_at t = body_at s" "canon t = canon s"
    "tip_difficulty t = tip_difficulty s" "chain_ok t = chain_ok s" "tables_ok t = tables_ok s"
    "read_block C t = read_block C s" "canonical_hash t = canonical_hash s"
    "same_blocks (ims_insert_block b h s) (ims_insert_block b h t)"
proof -
  show s: "stored t = stored s" "td_at t = td_at s" "body_at t = body_at s" "canon t = canon s"
    using assms by (auto simp: same_blocks_def stored_def td_at_def body_at_def fun_eq_iff)
  have b: "block_ok t = block_ok s" by (simp add: block_ok_def s fun_eq_iff)
  show d: "tip_difficulty t = tip_difficulty s" by (simp add: tip_difficulty_def s)
  show "tables_ok t = tables_ok s" using assms by (simp add: tables_ok_def s b same_blocks_def)
  with assms show "chain_ok t = chain_ok s"
    by (simp add: chain_ok_def tables_ok_def canon_ok_def heaviest_def s b d same_blocks_def)
  show "read_block C t = read_block C s"
    using assms by (auto simp: read_block_def read_body_with_senders_def s same_blocks_def fun_eq_iff)
  show "canonical_hash t = canonical_hash s" by (simp add: canonical_hash_def s fun_eq_iff)
  show "same_blocks (ims_insert_block b h s) (ims_insert_block b h t)"
    using assms by (simp add: same_blocks_def ims_insert_block_def Let_def)
qed

lemma stored_length: "stored s n hash = Some h \<Longrightarrow> n < length (ims_headers s)"
  by (auto simp: stored_def vec_get_def split: option.splits if_splits)

lemma tables_td:
  assumes "tables_ok s" and "stored s n hash = Some h"
  shows "\<exists>d. td_at s n hash = Some d"
  using assms
proof (induction n arbitrary: hash h)
  case 0
  then show ?case by (auto simp: tables_ok_def block_ok_def)
next
  case (Suc n)
  then have "block_ok s (Suc n) hash h" by (simp add: tables_ok_def)
  then show ?case using Suc.IH [OF Suc.prems(1)] by (fastforce simp: block_ok_def)
qed

section \<open>Inserting a block in the tables\<close>

definition grown :: "nat \<Rightarrow> ('k, 'v) hash_map list \<Rightarrow> ('k, 'v) hash_map list" where
  "grown n xs = (if length xs \<le> n then resize (n + 1) [] xs else xs)"

lemma grown_facts:
  "length (grown n xs) = max (length xs) (Suc n)"
  "m < max (length xs) (Suc n) \<Longrightarrow> hm_get (grown n xs ! m) = (\<lambda>k. if m < length xs then hm_get (xs ! m) k else None)"
  by (auto simp: grown_def resize_nth fun_eq_iff)

lemma lookup_grown:
  "(case vec_get ((grown n xs)[n := hm_insert h y (grown n xs ! n)]) m of Some t \<Rightarrow> hm_get t k | None \<Rightarrow> None) =
     (if m = n \<and> k = h then Some y else case vec_get xs m of Some t \<Rightarrow> hm_get t k | None \<Rightarrow> None)"
  by (auto simp: vec_get_def grown_facts nth_list_update)

lemma ims_insert_block_tables:
  fixes blk hash s
  defines "t \<equiv> ims_insert_block blk hash s" and "header \<equiv> b_header blk" and "n \<equiv> unat (h_number (b_header blk))"
  shows "stored t m k = (if m = n \<and> k = hash then Some header else stored s m k)"
    and "body_at t m k = (if m = n \<and> k = hash
      then Some \<lparr> bb_transactions = b_transactions blk, bb_ommers = b_ommers blk \<rparr> else body_at s m k)"
    and "canon t = canon s"
    and "length (ims_headers t) = max (length (ims_headers s)) (Suc n)"
    and "length (ims_bodies t) = max (length (ims_bodies s)) (Suc n)"
    and "length (ims_difficulty t) = max (length (ims_difficulty s)) (Suc n)"
  by (simp_all add: t_def header_def n_def ims_insert_block_def Let_def stored_def body_at_def
      lookup_grown grown_facts flip: grown_def)

lemma ims_insert_block_td:
  fixes blk hash s
  defines "t \<equiv> ims_insert_block blk hash s" and "n \<equiv> unat (h_number (b_header blk))"
  assumes "0 < n \<Longrightarrow> td_at s (n - 1) (h_parent_hash (b_header blk)) = Some p" and "n = 0 \<Longrightarrow> p = 0"
  shows "td_at t m k = (if m = n \<and> k = hash then Some (p + h_difficulty (b_header blk)) else td_at s m k)"
proof (cases "n = 0")
  case True
  then have "ims_difficulty t = (grown n (ims_difficulty s))[n := hm_insert hash (p + h_difficulty (b_header blk))
      (grown n (ims_difficulty s) ! n)]"
    using assms(4) by (simp add: t_def n_def ims_insert_block_def Let_def flip: grown_def)
  then show ?thesis unfolding td_at_def by (simp add: lookup_grown)
next
  case False
  let ?D = "grown n (ims_difficulty s)" and ?P = "h_parent_hash (b_header blk)"
  let ?E = "?D[n - 1 := hm_insert ?P p (?D ! (n - 1))]"
  have l: "n - 1 < length (ims_difficulty s)" "hm_get (ims_difficulty s ! (n - 1)) ?P = Some p"
    using assms(3) False by (auto simp: td_at_def vec_get_def split: if_splits)
  then have "hm_get_or 0 (?D ! (n - 1)) ?P = p" by (simp add: hm_get_or_def grown_facts)
  then have "ims_difficulty t = ?E[n := hm_insert hash (p + h_difficulty (b_header blk)) (?E ! n)]"
    using False by (simp add: t_def n_def ims_insert_block_def Let_def flip: grown_def)
  then show ?thesis using l False by (auto simp: td_at_def vec_get_def grown_facts nth_list_update)
qed

text \<open>The block that is inserted: its parent is stored, and no other block has its hash.\<close>

definition insertable :: "block \<Rightarrow> h256 \<Rightarrow> in_memory_state \<Rightarrow> bool" where
  "insertable blk hash s \<longleftrightarrow> (let h = b_header blk; n = unat (h_number h)
     in n < 2 ^ 64 - 1 \<and> (0 < n \<longrightarrow> stored s (n - 1) (h_parent_hash h) \<noteq> None) \<and>
        (\<forall>g. stored s n hash = Some g \<longrightarrow> g = h))"

lemma insert_tables_ok:
  assumes s: "tables_ok s" and i: "insertable blk hash s"
  shows "tables_ok (ims_insert_block blk hash s)"
    and "\<And>m k. stored s m k \<noteq> None \<Longrightarrow> td_at (ims_insert_block blk hash s) m k = td_at s m k"
proof -
  let ?t = "ims_insert_block blk hash s" and ?h = "b_header blk" and ?n = "unat (h_number (b_header blk))"
  define p where "p = (if ?n = 0 then 0 else the (td_at s (?n - 1) (h_parent_hash ?h)))"
  have p: "td_at s (?n - 1) (h_parent_hash ?h) = Some p" if "0 < ?n"
    using that i tables_td [OF s] by (fastforce simp: p_def insertable_def Let_def)
  have td: "td_at ?t m k = (if m = ?n \<and> k = hash then Some (p + h_difficulty ?h) else td_at s m k)" for m k
    using p by (intro ims_insert_block_td) (auto simp: p_def)
  have ok: "block_ok s m k g" if "stored s m k = Some g" for m k g using s that by (simp add: tables_ok_def)
  have same: "td_at s ?n hash = Some (p + h_difficulty ?h)" if "stored s ?n hash \<noteq> None"
    using that ok [of ?n hash] i p by (auto simp: insertable_def Let_def block_ok_def p_def split: if_splits)
  then show keep: "td_at ?t m k = td_at s m k" if "stored s m k \<noteq> None" for m k
    using that by (auto simp: td)
  have "block_ok ?t m k g" if g: "stored ?t m k = Some g" for m k g
  proof (cases "m = ?n \<and> k = hash")
    case True
    then have "g = ?h" using g by (simp add: ims_insert_block_tables)
    moreover have "stored ?t (?n - 1) (h_parent_hash ?h) \<noteq> None" "td_at ?t (?n - 1) (h_parent_hash ?h) = Some p" if "0 < ?n"
      using that i p keep by (auto simp: insertable_def Let_def ims_insert_block_tables)
    ultimately show ?thesis using True td by (auto simp: block_ok_def ims_insert_block_tables p_def)
  next
    case False
    then have g': "stored s m k = Some g" using g by (auto simp: ims_insert_block_tables split: if_splits)
    then show ?thesis using ok [OF g'] keep False
      by (auto simp: block_ok_def ims_insert_block_tables)
  qed
  with s i show "tables_ok ?t"
    by (auto simp: tables_ok_def ims_insert_block_tables insertable_def Let_def)
qed

section \<open>The common ancestor\<close>

lemma canonical_hash_Some: "canonical_hash s n = Some k \<longleftrightarrow> unat n < length (canon s) \<and> canon s ! unat n = k"
  by (auto simp: canonical_hash_def vec_get_def)

lemma partial_header_sel [simp]:
  "ph_number (partial_header_from h) = h_number h" "ph_parent_hash (partial_header_from h) = h_parent_hash h"
  "ph_state_root (partial_header_from h) = h_state_root h"
  by (simp_all add: partial_header_from_def)

lemma unat_pred: "n \<noteq> 0 \<Longrightarrow> unat (n - 1) = unat n - 1" for n :: u64
  by (simp add: unat_minus_one)

lemma unat_u64_max: "unat (0 - 1 :: u64) = 2 ^ 64 - 1"
  by (simp add: unsigned_minus_1_eq_mask mask_eq_exp_minus_1)

lemma none_below_zero: "tables_ok s \<Longrightarrow> stored s (unat (0 - 1 :: u64)) k = None"
  using stored_length [of s "2 ^ 64 - 1" k] unfolding unat_u64_max
  by (cases "stored s (2 ^ 64 - 1) k") (auto simp: tables_ok_def)

lemma unat_succ: "unat a < 2 ^ 64 - 1 \<Longrightarrow> unat (a + 1) = Suc (unat a)" for a :: u64
  using unat_add_no_wrap [of a 1] by simp

text \<open>A chain of stored blocks on top of the block \<open>p\<close>, from height \<open>n\<close> on.\<close>

fun linked :: "in_memory_state \<Rightarrow> nat \<Rightarrow> h256 \<Rightarrow> (block_with_senders \<times> h256) list \<Rightarrow> bool" where
  "linked s n p [] = True"
| "linked s n p ((blk, k) # xs) \<longleftrightarrow> unat (ph_number (bs_header blk)) = n \<and>
     (\<exists>h. stored s n k = Some h \<and> h_parent_hash h = p) \<and> linked s (Suc n) k xs"

definition end_hash :: "h256 \<Rightarrow> (block_with_senders \<times> h256) list \<Rightarrow> h256" where
  "end_hash p xs = (if xs = [] then p else snd (last xs))"

lemma linked_snoc:
  "linked s n p (xs @ [(blk, k)]) \<longleftrightarrow> linked s n p xs \<and> unat (ph_number (bs_header blk)) = n + length xs \<and>
     (\<exists>h. stored s (n + length xs) k = Some h \<and> h_parent_hash h = end_hash p xs)"
  by (induction xs arbitrary: n p) (auto simp: end_hash_def)

lemma block_range_snoc:
  assumes "unat a < unat n"
  shows "List.rev (block_range a n) = n # List.rev (block_range a (n - 1))"
proof -
  have n: "n \<noteq> 0" using assms by auto
  have "unat (a + 1) = Suc (unat a)" using assms unsigned_less [of n, where ?'a = nat] by (intro unat_succ) simp
  moreover have "unat n = Suc (unat (n - 1))" using unat_pred [OF n] assms by simp
  ultimately have "[unat (a + 1)..<Suc (unat n)] = [unat (a + 1)..<Suc (unat (n - 1))] @ [unat n]"
    using assms by simp
  then show ?thesis by (simp add: block_range_def)
qed

lemma block_range_self: "unat a < 2 ^ 64 - 1 \<Longrightarrow> block_range a a = []"
  by (simp add: block_range_def unat_succ)

lemma ancestor_of_stored:
  assumes s: "tables_ok s"
  shows "stored s n k = Some h \<Longrightarrow> \<exists>r. canonical_ancestor s (partial_header_from h) k = Some r \<and>
    (\<forall>a ch. r = Inr a \<longrightarrow> unat a \<le> n \<and> unat a < length (canon s) \<and>
       (chain_loop C s (List.rev (block_range a (of_nat n))) k = Inr ch \<longrightarrow>
          linked s (Suc (unat a)) (canon s ! unat a) (List.rev ch) \<and> length ch = n - unat a \<and>
          end_hash (canon s ! unat a) (List.rev ch) = k))"
proof (induction n arbitrary: k h)
  case (0 k h)
  then have "block_ok s 0 k h" using s by (simp add: tables_ok_def)
  then have h: "h_number h = 0" by (simp add: block_ok_def unat_eq_zero)
  show ?case
    using none_below_zero [OF s] block_range_self [of 0]
    by (subst canonical_ancestor.simps) (auto simp: h canonical_hash_Some end_hash_def)
next
  case (Suc n k h)
  have ok: "block_ok s (Suc n) k h" using s Suc.prems by (simp add: tables_ok_def)
  then have num: "unat (h_number h) = Suc n" and h0: "h_number h \<noteq> 0" by (auto simp: block_ok_def)
  have pred: "unat (h_number h - 1) = n" using unat_pred [OF h0] num by simp
  have ofn: "of_nat (Suc n) = h_number h" and ofp: "of_nat n = h_number h - 1"
    by (simp_all only: flip: num pred) simp_all
  have small: "unat (h_number h) < 2 ^ 64 - 1"
    using stored_length [OF Suc.prems] s num by (simp add: tables_ok_def)
  obtain g where g: "stored s n (h_parent_hash h) = Some g" using ok by (auto simp: block_ok_def)
  show ?case
  proof (cases "canonical_hash s (h_number h) = Some k")
    case True
    then show ?thesis
      using num block_range_self [OF small] unfolding ofn
      by (subst canonical_ancestor.simps) (auto simp: canonical_hash_Some end_hash_def)
  next
    case False
    then have eq: "canonical_ancestor s (partial_header_from h) k = canonical_ancestor s (partial_header_from g) (h_parent_hash h)"
      using g pred by (subst canonical_ancestor.simps) simp
    obtain r where r: "canonical_ancestor s (partial_header_from g) (h_parent_hash h) = Some r"
      "\<And>a ch. r = Inr a \<Longrightarrow> unat a \<le> n \<and> unat a < length (canon s) \<and>
       (chain_loop C s (List.rev (block_range a (of_nat n))) (h_parent_hash h) = Inr ch \<longrightarrow>
          linked s (Suc (unat a)) (canon s ! unat a) (List.rev ch) \<and> length ch = n - unat a \<and>
          end_hash (canon s ! unat a) (List.rev ch) = h_parent_hash h)"
      using Suc.IH [OF g] by blast
    have "linked s (Suc (unat a)) (canon s ! unat a) (List.rev ch) \<and> length ch = Suc n - unat a \<and>
        end_hash (canon s ! unat a) (List.rev ch) = k"
      if a: "r = Inr a" and ch: "chain_loop C s (List.rev (block_range a (of_nat (Suc n)))) k = Inr ch" for a ch
    proof -
      have le: "unat a \<le> n" using r(2) [OF a] by blast
      then have "List.rev (block_range a (h_number h)) = h_number h # List.rev (block_range a (h_number h - 1))"
        using num by (intro block_range_snoc) simp
      with ch obtain blk ch' where blk: "read_block C s (h_number h) k = Inr blk"
        and ch': "chain_loop C s (List.rev (block_range a (of_nat n))) (ph_parent_hash (bs_header blk)) = Inr ch'"
        and c: "ch = (blk, k) # ch'"
        unfolding ofn ofp by auto
      have "bs_header blk = partial_header_from h"
        using blk Suc.prems num by (auto simp: read_block_def)
      with r(2) [OF a, of ch'] ch' c Suc.prems num le show ?thesis by (auto simp: linked_snoc end_hash_def)
    qed
    with r eq show ?thesis by (intro exI [of _ r]) fastforce
  qed
qed

text \<open>The same for a block that is not canonical yet: the common ancestor is found, or its
  parent is unknown.\<close>

lemma ancestor_of_new:
  fixes h :: block_header and k :: h256
  defines "n \<equiv> unat (h_number h)"
  assumes s: "tables_ok s" and k: "canonical_hash s (h_number h) \<noteq> Some k"
  obtains (unknown) "canonical_ancestor s (partial_header_from h) k = Some (Inl (Validation UnknownParent))"
  | (error) e where "canonical_ancestor s (partial_header_from h) k = Some (Inl e)"
  | (found) a where "canonical_ancestor s (partial_header_from h) k = Some (Inr a)" and "unat a < n"
      and "unat a < length (canon s)" and "stored s (n - 1) (h_parent_hash h) \<noteq> None"
      and "\<And>ch. intermediate_chain C s (h_number h - 1) (h_parent_hash h) a = Inr ch \<Longrightarrow>
         linked s (Suc (unat a)) (canon s ! unat a) ch \<and> length ch = n - Suc (unat a) \<and>
         end_hash (canon s ! unat a) ch = h_parent_hash h"
proof (cases "stored s (unat (h_number h - 1)) (h_parent_hash h)")
  case None
  then show thesis using k by (intro unknown) (subst canonical_ancestor.simps, simp)
next
  case (Some g)
  then have h0: "h_number h \<noteq> 0" using none_below_zero [OF s] by auto
  then have pred: "unat (h_number h - 1) = n - 1" "0 < n"
    using unat_pred [OF h0] by (simp_all add: n_def unat_gt_0)
  then have ofp: "of_nat (n - 1) = h_number h - 1" by (simp only: flip: pred(1)) simp
  have eq: "canonical_ancestor s (partial_header_from h) k = canonical_ancestor s (partial_header_from g) (h_parent_hash h)"
    using Some k by (subst canonical_ancestor.simps) simp
  obtain r where r: "canonical_ancestor s (partial_header_from g) (h_parent_hash h) = Some r"
    "\<And>a ch. r = Inr a \<Longrightarrow> unat a \<le> n - 1 \<and> unat a < length (canon s) \<and>
       (chain_loop C s (List.rev (block_range a (of_nat (n - 1)))) (h_parent_hash h) = Inr ch \<longrightarrow>
          linked s (Suc (unat a)) (canon s ! unat a) (List.rev ch) \<and> length ch = n - 1 - unat a \<and>
          end_hash (canon s ! unat a) (List.rev ch) = h_parent_hash h)"
    using ancestor_of_stored [OF s Some, of C] pred(1) by auto
  show thesis
  proof (cases r)
    case (Inl e)
    then show thesis using r(1) eq by (intro error) simp
  next
    case (Inr a)
    show thesis
    proof (rule found)
      fix ch assume "intermediate_chain C s (h_number h - 1) (h_parent_hash h) a = Inr ch"
      then obtain ch' where "chain_loop C s (List.rev (block_range a (h_number h - 1))) (h_parent_hash h) = Inr ch'"
        "ch = List.rev ch'" by (auto simp: intermediate_chain_def split: if_splits)
      then show "linked s (Suc (unat a)) (canon s ! unat a) ch \<and> length ch = n - Suc (unat a) \<and>
         end_hash (canon s ! unat a) ch = h_parent_hash h"
        using r(2) [OF Inr, of ch'] ofp by simp
    qed (use r Inr eq pred Some in \<open>fastforce+\<close>)
  qed
qed

section \<open>What execution leaves alone\<close>

lemma same_blocks_bc_execute: "same_blocks (bc_state c) (bc_state (snd (bc_execute_block B blk chk c)))"
proof -
  have "same_blocks (bc_state c) d" if "execute_and_write_block X (processor_new (bc_state c)) = Inr (rs, d)"
    "pe_trait X = in_memory" for X :: "(in_memory_state, 'a) processor_env" and rs d
    using that by (rule same_blocks_execute)
  then show ?thesis
    by (auto simp: bc_execute_block_def Let_def split: sum.splits intro: same_blocks_trans [OF _ same_blocks_unwind])
qed

lemma same_blocks_bc_then:
  assumes "same_blocks s (bc_state (snd r))" and "\<And>x c. same_blocks (bc_state c) (bc_state (snd (k x c)))"
  shows "same_blocks s (bc_state (snd (bc_then r k)))"
  using assms by (auto simp: bc_then_def intro: same_blocks_trans split: sum.splits)

lemma same_blocks_execute_chain: "same_blocks (bc_state c) (bc_state (snd (execute_chain B chk xs n c)))"
proof (induction xs arbitrary: n c)
  case (Cons x xs)
  obtain r c' where r: "bc_execute_block B (fst x) chk c = (r, c')" by fastforce
  then have "same_blocks (bc_state c) (bc_state c')" using same_blocks_bc_execute [of c B "fst x" chk] by simp
  with Cons.IH r show ?case by (cases r) (auto intro: same_blocks_trans)
qed simp

lemma same_blocks_re_execute: "same_blocks (bc_state c) (bc_state (snd (re_execute B ns c)))"
proof (induction ns arbitrary: c)
  case (Cons n ns)
  have "same_blocks (bc_state c) (bc_state (snd (bc_then (expect_r (fst (bc_execute_block B blk False c)),
      snd (bc_execute_block B blk False c)) (\<lambda>_. re_execute B ns))))" for blk
    using Cons.IH by (intro same_blocks_bc_then) (auto simp: same_blocks_bc_execute)
  then show ?case by (auto simp: case_prod_unfold Let_def split: sum.splits)
qed simp

lemma same_blocks_unwind_last: "same_blocks (bc_state c) (bc_state (snd (unwind_last_changes a t c)))"
  by (auto simp: unwind_last_changes_def intro: same_blocks_fold same_blocks_unwind)

lemma same_blocks_restore: "same_blocks (bc_state c) (bc_state (snd (restore_canonical B a n t c)))"
  unfolding restore_canonical_def
  by (intro same_blocks_bc_then same_blocks_unwind_last)
    (auto simp: re_execute_canonical_chain_def same_blocks_re_execute)

section \<open>Changing the canonical chain\<close>

lemma set_canon_simps [simp]:
  "stored (s\<lparr> ims_canonical_hashes := cs \<rparr>) = stored s" "td_at (s\<lparr> ims_canonical_hashes := cs \<rparr>) = td_at s"
  "body_at (s\<lparr> ims_canonical_hashes := cs \<rparr>) = body_at s" "tables_ok (s\<lparr> ims_canonical_hashes := cs \<rparr>) = tables_ok s"
proof -
  show *: "stored (s\<lparr> ims_canonical_hashes := cs \<rparr>) = stored s" "td_at (s\<lparr> ims_canonical_hashes := cs \<rparr>) = td_at s"
    "body_at (s\<lparr> ims_canonical_hashes := cs \<rparr>) = body_at s"
    by (auto simp: stored_def td_at_def body_at_def fun_eq_iff)
  show "tables_ok (s\<lparr> ims_canonical_hashes := cs \<rparr>) = tables_ok s" by (simp add: tables_ok_def block_ok_def *)
qed

lemma canonize_linked:
  assumes "linked t (length (canon s)) p xs"
  shows "fold (\<lambda>(blk, h). canonize_block (ph_number (bs_header blk)) h) xs s =
    s\<lparr> ims_canonical_hashes := canon s @ map snd xs \<rparr>"
  using assms
proof (induction xs arbitrary: s p)
  case (Cons x xs)
  obtain blk k where x: "x = (blk, k)" by fastforce
  have "canonize_block (ph_number (bs_header blk)) k s = s\<lparr> ims_canonical_hashes := canon s @ [k] \<rparr>"
    using Cons.prems x by (simp add: canonize_block_def Let_def resize_def list_update_append)
  with Cons.IH [of "s\<lparr> ims_canonical_hashes := canon s @ [k] \<rparr>" k] Cons.prems x show ?case by simp
qed simp

lemma decanonize_above:
  assumes "unat a \<le> unat t" and "length (canon s) = Suc (unat t)" and "unat t < 2 ^ 64 - 1"
  shows "fold decanonize_block (List.rev (block_range a t)) s = s\<lparr> ims_canonical_hashes := take (Suc (unat a)) (canon s) \<rparr>"
proof -
  have "fold decanonize_block (List.rev (block_range a t)) s = s\<lparr> ims_canonical_hashes := take (Suc (unat a)) (canon s) \<rparr>"
    if "length (canon s) \<le> Suc (unat t)" "unat a \<le> unat t" "unat t < 2 ^ 64 - 1" for t s
    using that
  proof (induction "unat t - unat a" arbitrary: t s)
    case 0
    then have "t = a" by (simp add: word_unat_eq_iff)
    with 0 show ?case using block_range_self [of a] by simp
  next
    case (Suc k)
    then have less: "unat a < unat t" and t0: "t \<noteq> 0" by auto
    have "k = unat (t - 1) - unat a" "unat a \<le> unat (t - 1)" "unat (t - 1) < 2 ^ 64 - 1"
      "length (take (unat t) (canon s)) \<le> Suc (unat (t - 1))"
      using Suc unat_pred [OF t0] less by auto
    with Suc.hyps(1) [of "t - 1" "decanonize_block t s"] block_range_snoc [OF less] less
    show ?case by (simp add: decanonize_block_def min_def)
  qed
  with assms show ?thesis by simp
qed

lemma linked_nth:
  "linked s n p xs \<Longrightarrow> j < length xs \<Longrightarrow> \<exists>h. stored s (n + j) (snd (xs ! j)) = Some h \<and>
     h_parent_hash h = (if j = 0 then p else snd (xs ! (j - 1)))"
proof (induction xs arbitrary: n p j)
  case (Cons x xs)
  then show ?case by (cases x; cases j) (fastforce simp: nth_Cons split: nat.splits)+
qed simp

lemma linked_mono:
  "linked s n p xs \<Longrightarrow> (\<And>m k h. stored s m k = Some h \<Longrightarrow> stored t m k = Some h) \<Longrightarrow> linked t n p xs"
  by (induction xs arbitrary: n p) fastforce+

lemma canon_ok_switch:
  assumes "canon_ok s" and mono: "\<And>m k h. stored s m k = Some h \<Longrightarrow> stored t m k = Some h"
    and a: "a < length (canon s)" and l: "linked t (Suc a) (canon s ! a) xs"
    and t': "stored t' = stored t" "canon t' = take (Suc a) (canon s) @ map snd xs"
  shows "canon_ok t'"
proof -
  have "\<exists>h. stored t i (canon t' ! i) = Some h \<and> (0 < i \<longrightarrow> h_parent_hash h = canon t' ! (i - 1))"
    if "i < length (canon t')" for i
  proof (cases "i \<le> a")
    case True
    then obtain h where "stored s i (canon s ! i) = Some h" "0 < i \<longrightarrow> h_parent_hash h = canon s ! (i - 1)"
      using assms(1) a unfolding canon_ok_def by (meson le_less_trans)
    with True a show ?thesis by (intro exI [of _ h]) (auto simp: t' nth_append mono)
  next
    case False
    then have j: "i - Suc a < length xs" "i = Suc a + (i - Suc a)" using that a by (auto simp: t')
    with linked_nth [OF l j(1)] False a show ?thesis
      by (auto simp: t' nth_append Suc_diff_Suc not_le split: if_splits)
  qed
  with a show ?thesis unfolding canon_ok_def t'(1) by (auto simp: t')
qed

section \<open>Choosing the chain\<close>

lemma tip_stored:
  assumes "canon_ok s"
  obtains h where "stored s (length (canon s) - 1) (last (canon s)) = Some h"
proof -
  have "canon s \<noteq> []" using assms by (simp add: canon_ok_def)
  moreover from this have "length (canon s) - 1 < length (canon s)" by simp
  then obtain h where "stored s (length (canon s) - 1) (canon s ! (length (canon s) - 1)) = Some h"
    using assms unfolding canon_ok_def by blast
  ultimately show thesis using that by (simp add: last_conv_nth)
qed

lemma chain_ok_tip:
  assumes "chain_ok s"
  shows "unat (current_canonical_block s) = length (canon s) - 1" and "length (canon s) < 2 ^ 64"
    and "\<exists>d. tip_difficulty s = Some d"
    and "canonical_hash s (current_canonical_block s) = Some (last (canon s))"
proof -
  have ne: "canon s \<noteq> []" and t: "tables_ok s" using assms by (auto simp: chain_ok_def canon_ok_def)
  obtain h where h: "stored s (length (canon s) - 1) (last (canon s)) = Some h"
    using assms tip_stored by (auto simp: chain_ok_def)
  then have "length (canon s) - 1 < length (ims_headers s)" by (rule stored_length)
  then show len: "length (canon s) < 2 ^ 64" using t ne by (auto simp: tables_ok_def)
  show "\<exists>d. tip_difficulty s = Some d"
    using tables_td [OF t h] by (simp add: tip_difficulty_def)
  have u: "unat (of_nat (length (canon s)) :: u64) = length (canon s)" using len by (simp add: unat_of_nat)
  then have "of_nat (length (canon s)) \<noteq> (0 :: u64)" using ne by (metis length_0_conv unat_0)
  then show "unat (current_canonical_block s) = length (canon s) - 1"
    using u unat_pred by (simp add: current_canonical_block_def)
  with ne show "canonical_hash s (current_canonical_block s) = Some (last (canon s))"
    by (simp add: canonical_hash_Some last_conv_nth)
qed

text \<open>What the insertion of a block with the total difficulty \<open>d\<close> does to the tables: the
  block is stored, and the canonical chain is the heavier one.\<close>

definition inserted :: "block \<Rightarrow> h256 \<Rightarrow> in_memory_state \<Rightarrow> in_memory_state \<Rightarrow> bool" where
  "inserted blk hash s t \<longleftrightarrow>
     (let n = unat (h_number (b_header blk))
      in stored t n hash = Some (b_header blk) \<and>
         (\<forall>m k h. stored s m k = Some h \<longrightarrow> stored t m k = Some h \<and> td_at t m k = td_at s m k) \<and>
         (if the (td_at t n hash) > the (tip_difficulty s)
          then length (canon t) = Suc n \<and> last (canon t) = hash \<and> tip_difficulty t = td_at t n hash
          else canon t = canon s \<and> tip_difficulty t = tip_difficulty s))"

definition grows_by :: "block \<Rightarrow> h256 \<Rightarrow> in_memory_state \<Rightarrow> in_memory_state \<Rightarrow> bool" where
  "grows_by blk hash s t \<longleftrightarrow>
     (\<forall>m k h. stored t m k = Some h \<longrightarrow> stored s m k = Some h \<or> k = hash \<and> h = b_header blk)"

lemma inserted_same: "same_blocks t u \<Longrightarrow> inserted blk hash s u = inserted blk hash s t"
  by (simp add: inserted_def same_blocks_tables)

lemma insert_stays:
  assumes s: "chain_ok s" and i: "insertable blk hash s"
    and le: "\<not> the (td_at (ims_insert_block blk hash s) (unat (h_number (b_header blk))) hash) > the (tip_difficulty s)"
  shows "chain_ok (ims_insert_block blk hash s)" and "inserted blk hash s (ims_insert_block blk hash s)"
proof -
  let ?t = "ims_insert_block blk hash s" and ?n = "unat (h_number (b_header blk))"
  have ts: "tables_ok s" and cs: "canon_ok s" and hs: "heaviest s" using s by (simp_all add: chain_ok_def)
  have mono: "stored ?t m k = Some g" if "stored s m k = Some g" for m k g
    using that i by (auto simp: ims_insert_block_tables insertable_def Let_def)
  have canon: "canon ?t = canon s" by (simp add: ims_insert_block_tables)
  have tip: "tip_difficulty ?t = tip_difficulty s"
    unfolding tip_difficulty_def canon using tip_stored [OF cs] by (intro insert_tables_ok(2) [OF ts i]) auto
  have "canon_ok ?t" using cs mono unfolding canon_ok_def canon by meson
  moreover have "heaviest ?t"
    unfolding heaviest_def tip
  proof (intro allI impI)
    fix m k d assume d: "stored ?t m k \<noteq> None" "td_at ?t m k = Some d"
    show "d \<le> the (tip_difficulty s)"
    proof (cases "m = ?n \<and> k = hash")
      case True
      with le d show ?thesis by auto
    next
      case False
      then have "stored s m k \<noteq> None" using d by (auto simp: ims_insert_block_tables split: if_splits)
      with hs d insert_tables_ok(2) [OF ts i this] show ?thesis by (simp add: heaviest_def)
    qed
  qed
  ultimately show "chain_ok ?t" using insert_tables_ok(1) [OF ts i] by (simp add: chain_ok_def)
  show "inserted blk hash s ?t"
    using le mono insert_tables_ok(2) [OF ts i]
    by (auto simp: inserted_def Let_def canon tip ims_insert_block_tables)
qed

lemma insert_switches:
  assumes s: "chain_ok s" and i: "insertable blk hash s"
    and gt: "the (td_at (ims_insert_block blk hash s) (unat (h_number (b_header blk))) hash) > the (tip_difficulty s)"
    and a: "a < length (canon s)" "a < unat (h_number (b_header blk))"
    and l: "linked s (Suc a) (canon s ! a) ch" "length ch = unat (h_number (b_header blk)) - Suc a"
      "end_hash (canon s ! a) ch = h_parent_hash (b_header blk)"
    and t: "t = (ims_insert_block blk hash s)\<lparr> ims_canonical_hashes := take (Suc a) (canon s) @ map snd ch @ [hash] \<rparr>"
  shows "chain_ok t" and "inserted blk hash s t"
proof -
  let ?i = "ims_insert_block blk hash s" and ?n = "unat (h_number (b_header blk))"
  have ts: "tables_ok s" and cs: "canon_ok s" and hs: "heaviest s" using s by (simp_all add: chain_ok_def)
  have mono: "stored ?i m k = Some g" if "stored s m k = Some g" for m k g
    using that i by (auto simp: ims_insert_block_tables insertable_def Let_def)
  have new: "stored ?i ?n hash = Some (b_header blk)" by (simp add: ims_insert_block_tables)
  have len: "length (canon t) = Suc ?n" "last (canon t) = hash" using a l(2) by (simp_all add: t)
  have tip: "tip_difficulty t = td_at ?i ?n hash" unfolding tip_difficulty_def len by (simp add: t)
  obtain b :: block_with_senders where b: "unat (ph_number (bs_header b)) = ?n"
    by (metis partial_header_sel(1) block_with_senders.select_convs(1))
  have "linked ?i (Suc a) (canon s ! a) (ch @ [(b, hash)])"
    using linked_mono [OF l(1) mono] l a b new by (auto simp: linked_snoc)
  from canon_ok_switch [OF cs mono a(1) this, of t] have "canon_ok t" by (simp add: t)
  moreover have "heaviest t"
    unfolding heaviest_def tip
  proof (intro allI impI)
    fix m k d assume d: "stored t m k \<noteq> None" "td_at t m k = Some d"
    show "d \<le> the (td_at ?i ?n hash)"
    proof (cases "m = ?n \<and> k = hash")
      case False
      then have "stored s m k \<noteq> None" using d by (auto simp: t ims_insert_block_tables split: if_splits)
      with hs d insert_tables_ok(2) [OF ts i this] gt show ?thesis by (fastforce simp: heaviest_def t)
    qed (use d t in auto)
  qed
  ultimately show "chain_ok t" using insert_tables_ok(1) [OF ts i] by (simp add: chain_ok_def t)
  show "inserted blk hash s t"
    using gt mono insert_tables_ok(2) [OF ts i] new len tip by (auto simp: inserted_def Let_def t)
qed

section \<open>Insertion\<close>

lemma choose_chain_result:
  assumes s: "chain_ok s" and i: "insertable blk hash s" and sb: "same_blocks (ims_insert_block blk hash s) (bc_state c)"
    and n: "n = h_number (b_header blk)" and tip: "tip = current_canonical_block s"
    and a: "unat a < length (canon s)" "unat a < unat n"
    and l: "linked s (Suc (unat a)) (canon s ! unat a) ch" "length ch = unat n - Suc (unat a)"
      "end_hash (canon s ! unat a) ch = h_parent_hash (b_header blk)"
    and b: "unat (ph_number (bs_header b)) = unat n"
    and r: "choose_chain B n hash (ch @ [(b, hash)]) a executed tip c = (r, c')"
  shows "chain_ok (bc_state c')" and "r = Inr () \<Longrightarrow> inserted blk hash s (bc_state c')"
    and "r \<noteq> Inr () \<Longrightarrow> canon (bc_state c') = canon s" and "grows_by blk hash s (bc_state c')"
proof -
  let ?i = "ims_insert_block blk hash s" and ?n = "unat n"
  note st = same_blocks_tables [OF sb]
  have ts: "tables_ok s" and cs: "canon_ok s" using s by (simp_all add: chain_ok_def)
  note tp = chain_ok_tip [OF s]
  have ci: "canon ?i = canon s" by (simp add: ims_insert_block_tables)
  have mono: "stored ?i m k = Some g" if "stored s m k = Some g" for m k g
    using that i by (auto simp: ims_insert_block_tables insertable_def Let_def)
  have new: "stored ?i ?n hash = Some (b_header blk)" by (simp add: ims_insert_block_tables n)
  obtain d where d: "td_at ?i ?n hash = Some d" using tables_td [OF insert_tables_ok(1) [OF ts i] new] by blast
  obtain D where D: "tip_difficulty s = Some D" using tp(3) by blast
  have "td_at ?i (length (canon s) - 1) (last (canon s)) = Some D"
    using tip_stored [OF cs] insert_tables_ok(2) [OF ts i] D by (fastforce simp: tip_difficulty_def)
  then have cur: "bind_r (ok_or Panic (canonical_hash (bc_state c) tip)) (known_difficulty (bc_state c) tip) = Inr D"
    using tp(1,4) by (simp add: st known_difficulty_def tip canonical_hash_def ci ok_or_def)
  have kn: "known_difficulty (bc_state c) n hash = Inr d" using d by (simp add: known_difficulty_def st ok_or_def)
  have gi: "grows_by blk hash s ?i" by (simp add: grows_by_def ims_insert_block_tables)
  have "chain_ok (bc_state c') \<and> (r = Inr () \<longrightarrow> inserted blk hash s (bc_state c')) \<and>
    (r \<noteq> Inr () \<longrightarrow> canon (bc_state c') = canon s) \<and> stored (bc_state c') = stored ?i"
  proof (cases "d > D")
    case True
    let ?c1 = "(bc_state c)\<lparr> ims_canonical_hashes := take (Suc (unat a)) (canon s) \<rparr>"
    have ut: "unat tip = length (canon s) - 1" and le: "unat a \<le> unat tip" using tp(1) a tip by simp_all
    have dec: "fold decanonize_block (List.rev (block_range a tip)) (bc_state c) = ?c1"
      using decanonize_above [OF le, of "bc_state c"] ut a tp(2) by (simp add: st ci)
    have "linked ?i (Suc (unat a)) (canon s ! unat a) (ch @ [(b, hash)])"
      using linked_mono [OF l(1) mono] l a b new by (auto simp: linked_snoc)
    moreover have "length (canon ?c1) = Suc (unat a)" using a by simp
    ultimately have "linked ?i (length (canon ?c1)) (canon s ! unat a) (ch @ [(b, hash)])" by (simp only:)
    from canonize_linked [OF this]
    have c': "r = Inr ()" "bc_state c' = (bc_state c)\<lparr> ims_canonical_hashes :=
        take (Suc (unat a)) (canon s) @ map snd ch @ [hash] \<rparr>"
      using r True by (auto simp: choose_chain_def cur kn dec)
    have "same_blocks (?i\<lparr> ims_canonical_hashes := take (Suc (unat a)) (canon s) @ map snd ch @ [hash] \<rparr>) (bc_state c')"
      using sb by (simp add: c' same_blocks_def)
    note st' = same_blocks_tables [OF this] inserted_same [OF this]
    show ?thesis
      using insert_switches [OF s i _ a(1) _ l(1) _ l(3) refl] True d D a(2) l(2) n c'(1)
      by (simp add: st')
  next
    case False
    then have "restore_canonical B a executed tip c = (r, c')" using r by (simp add: choose_chain_def cur kn)
    then have "same_blocks ?i (bc_state c')"
      using same_blocks_restore [of c B a executed tip] sb by (auto intro: same_blocks_trans)
    note st' = same_blocks_tables [OF this] inserted_same [OF this]
    have "\<not> the (td_at ?i (unat (h_number (b_header blk))) hash) > the (tip_difficulty s)"
      using False d D n by simp
    note stay = insert_stays [OF s i this]
    then show ?thesis by (simp add: st' ci)
  qed
  then show "chain_ok (bc_state c')" "r = Inr () \<Longrightarrow> inserted blk hash s (bc_state c')"
    "r \<noteq> Inr () \<Longrightarrow> canon (bc_state c') = canon s" "grows_by blk hash s (bc_state c')"
    using gi by (auto simp: grows_by_def)
qed

lemma intermediate_chain_same:
  assumes "same_blocks s t"
  shows "intermediate_chain C t = intermediate_chain C s"
proof -
  have "chain_loop C t ns k = chain_loop C s ns k" for ns k
    by (induction ns arbitrary: k) (simp_all add: same_blocks_tables(8) [OF assms])
  then show ?thesis by (simp add: intermediate_chain_def fun_eq_iff)
qed

lemma adopt_block_result:
  fixes c :: blockchain
  defines "s \<equiv> bc_state c"
  assumes s: "chain_ok s" and i: "insertable blk hash s" and b: "bs_header b = partial_header_from (b_header blk)"
    and a: "unat a < length (canon s)" "unat a < unat (h_number (b_header blk))"
    and ch: "\<And>ch. intermediate_chain (bce_crypto B) s (h_number (b_header blk) - 1) (h_parent_hash (b_header blk)) a = Inr ch \<Longrightarrow>
         linked s (Suc (unat a)) (canon s ! unat a) ch \<and> length ch = unat (h_number (b_header blk)) - Suc (unat a) \<and>
         end_hash (canon s ! unat a) ch = h_parent_hash (b_header blk)"
    and r: "adopt_block B blk hash b a chk c = (r, c')"
  shows "chain_ok (bc_state c')" and "r = Inr () \<Longrightarrow> inserted blk hash s (bc_state c')"
    and "r \<noteq> Inr () \<Longrightarrow> canon (bc_state c') = canon s" and "grows_by blk hash s (bc_state c')"
proof -
  let ?n = "h_number (b_header blk)" and ?tip = "current_canonical_block s"
  have keep: "chain_ok (bc_state c')" "canon (bc_state c') = canon s" "grows_by blk hash s (bc_state c')"
    if "same_blocks s (bc_state c')"
    using same_blocks_tables [OF that] s by (simp_all add: grows_by_def)
  obtain u c1 where u: "unwind_last_changes a ?tip c = (u, c1)" by fastforce
  have 1: "same_blocks s (bc_state c1)" using same_blocks_unwind_last [of c a ?tip] u by (simp add: s_def)
  have "same_blocks s (bc_state c') \<and> r \<noteq> Inr () \<or> chain_ok (bc_state c') \<and>
    (r = Inr () \<longrightarrow> inserted blk hash s (bc_state c')) \<and> (r \<noteq> Inr () \<longrightarrow> canon (bc_state c') = canon s) \<and>
    grows_by blk hash s (bc_state c')"
  proof (cases u)
    case (Inl e)
    with r u 1 show ?thesis by (auto simp: adopt_block_def s_def Let_def bc_then_def)
  next
    case (Inr x)
    show ?thesis
    proof (cases "intermediate_chain (bce_crypto B) s (?n - 1) (h_parent_hash (b_header blk)) a")
      case (Inl e)
      with r u 1 \<open>u = Inr x\<close> show ?thesis
        by (auto simp: adopt_block_def s_def Let_def bc_then_def b intermediate_chain_same [OF 1, unfolded s_def])
    next
      case chI: (Inr chn)
      obtain q c2 where q: "execute_chain B chk (chn @ [(b, hash)]) 0 c1 = (q, c2)" by fastforce
      have 2: "same_blocks s (bc_state c2)"
        using same_blocks_execute_chain [of c1 B chk "chn @ [(b, hash)]" 0] q 1 by (auto intro: same_blocks_trans)
      have eq: "adopt_block B blk hash b a chk c = (case (q, c2) of
          (Inl (e, executed), c) \<Rightarrow> (case e of
              Validation v \<Rightarrow> bc_then (restore_canonical B a executed ?tip
                  (c\<lparr> bc_bad_blocks := hm_insert hash v (bc_bad_blocks c) \<rparr>)) (\<lambda>_ c. (Inl e, c))
            | _ \<Rightarrow> (Inl e, c))
        | (Inr executed, c) \<Rightarrow> choose_chain B ?n hash (chn @ [(b, hash)]) a executed ?tip
             (c\<lparr> bc_state := ims_insert_block blk hash (bc_state c) \<rparr>))"
        using u \<open>u = Inr x\<close> chI q intermediate_chain_same [OF 1, of "bce_crypto B"] unfolding s_def
        by (simp add: adopt_block_def Let_def bc_then_def b)
      show ?thesis
      proof (cases q)
        case (Inl p)
        obtain e executed where p: "p = (e, executed)" by fastforce
        have sb: "same_blocks s (bc_state (snd (bc_then (restore_canonical B a executed ?tip
            (c2\<lparr> bc_bad_blocks := hm_insert hash v (bc_bad_blocks c2) \<rparr>)) (\<lambda>_ c. (Inl e, c) :: unit bc_result))))" for v e
          using same_blocks_restore [of "c2\<lparr> bc_bad_blocks := hm_insert hash v (bc_bad_blocks c2) \<rparr>" B a executed ?tip] 2
          by (intro same_blocks_bc_then) (auto intro: same_blocks_trans)
        have nr: "fst (bc_then y (\<lambda>_ c. (Inl e, c))) \<noteq> Inr z"
          for y :: "unit bc_result" and z :: unit and e
          by (simp add: bc_then_def split: sum.splits)
        have "same_blocks s (bc_state (snd (adopt_block B blk hash b a chk c)))"
          unfolding eq Inl p using sb 2 by (simp split: exec_error.split)
        moreover have "fst (adopt_block B blk hash b a chk c) \<noteq> Inr ()"
          unfolding eq Inl p using nr by (simp split: exec_error.split)
        ultimately show ?thesis unfolding r by simp
      next
        case (Inr executed)
        have sb: "same_blocks (ims_insert_block blk hash s) (bc_state (c2\<lparr> bc_state := ims_insert_block blk hash (bc_state c2) \<rparr>))"
          using same_blocks_tables(10) [OF 2] by simp
        have res: "choose_chain B ?n hash (chn @ [(b, hash)]) a executed ?tip
            (c2\<lparr> bc_state := ims_insert_block blk hash (bc_state c2) \<rparr>) = (r, c')"
          using r unfolding eq Inr by simp
        have "linked s (Suc (unat a)) (canon s ! unat a) chn" "length chn = unat ?n - Suc (unat a)"
          "end_hash (canon s ! unat a) chn = h_parent_hash (b_header blk)" "unat (ph_number (bs_header b)) = unat ?n"
          using ch [OF chI] b by simp_all
        note choose_chain_result [OF s i sb refl refl a this res]
        then show ?thesis by blast
      qed
    qed
  qed
  with keep show "chain_ok (bc_state c')" "r = Inr () \<Longrightarrow> inserted blk hash s (bc_state c')"
    "r \<noteq> Inr () \<Longrightarrow> canon (bc_state c') = canon s" "grows_by blk hash s (bc_state c')" by blast+
qed

text \<open>A block that is canonical already: its ancestor is itself, and the distance to its parent
  is negative.\<close>

lemma intermediate_chain_self:
  assumes "tables_ok s"
  shows "intermediate_chain C s (n - 1) k n = Inl Panic"
proof (cases "n = 0")
  case True
  have "unat (0 :: u64) < unat (0 - 1 :: u64)" unfolding unat_u64_max by simp
  note block_range_snoc [OF this]
  moreover have "read_body_with_senders C s (0 - 1) k = Inr None"
    using assms unfolding read_body_with_senders_def unat_u64_max by (simp add: vec_get_def tables_ok_def)
  then have "read_block C s (0 - 1) k = Inl Panic" by (simp add: read_block_def ok_or_def)
  ultimately show ?thesis using True by (simp add: intermediate_chain_def)
next
  case False
  then have "n - 1 < n" using unat_pred [OF False] by (simp add: word_less_nat_alt unat_gt_0)
  then show ?thesis by (simp add: intermediate_chain_def)
qed

lemma adopt_canonical:
  assumes "chain_ok (bc_state c)" and k: "canonical_hash (bc_state c) (h_number (b_header blk)) = Some k"
    and b: "bs_header b = partial_header_from (b_header blk)"
  shows "adopt_block B blk hash b (h_number (b_header blk)) chk c =
      (Inl Panic, snd (unwind_last_changes (h_number (b_header blk)) (current_canonical_block (bc_state c)) c))"
    and "same_blocks (bc_state c) (bc_state (snd (adopt_block B blk hash b (h_number (b_header blk)) chk c)))"
proof -
  let ?n = "h_number (b_header blk)" and ?tip = "current_canonical_block (bc_state c)"
  have "?n \<le> ?tip"
    using k chain_ok_tip(1) [OF assms(1)] by (auto simp: canonical_hash_Some word_le_nat_alt)
  then have f: "fst (unwind_last_changes ?n ?tip c) = Inr ()" by (simp add: unwind_last_changes_def)
  have sb: "same_blocks (bc_state c) (bc_state (snd (unwind_last_changes ?n ?tip c)))" by (rule same_blocks_unwind_last)
  then have "tables_ok (bc_state (snd (unwind_last_changes ?n ?tip c)))"
    using same_blocks_tables(7) assms(1) by (simp add: chain_ok_def)
  then show a: "adopt_block B blk hash b ?n chk c = (Inl Panic, snd (unwind_last_changes ?n ?tip c))"
    using f by (simp add: adopt_block_def Let_def bc_then_def b intermediate_chain_self)
  show "same_blocks (bc_state c) (bc_state (snd (adopt_block B blk hash b ?n chk c)))" unfolding a using sb by simp
qed

lemma insert_block_result:
  fixes c :: blockchain and blk B
  defines "s \<equiv> bc_state c" and "hash \<equiv> header_hash (bce_consensus B) (b_header blk)"
  assumes s: "chain_ok s" and n: "unat (h_number (b_header blk)) < 2 ^ 64 - 1"
    and fresh: "\<And>g. stored s (unat (h_number (b_header blk))) hash = Some g \<Longrightarrow> g = b_header blk"
  obtains (result) r c' where "insert_block B blk chk c = Some (r, c')" and "chain_ok (bc_state c')"
    and "r = Inr () \<Longrightarrow> inserted blk hash s (bc_state c')" and "r \<noteq> Inr () \<Longrightarrow> canon (bc_state c') = canon s"
    and "grows_by blk hash s (bc_state c')"
proof -
  let ?h = "b_header blk"
  let ?v = "bind_r (co_validate_block_header (bc_engine c) ?h (bc_state c) True) (\<lambda>_.
      bind_r (co_pre_validate_block (bc_engine c) blk (bc_state c)) (\<lambda>_.
      case hm_get (bc_bad_blocks c) hash of Some e \<Rightarrow> Inl (Validation e)
      | None \<Rightarrow> block_with_senders_from (bce_crypto B) blk))"
  have ts: "tables_ok s" using s by (simp add: chain_ok_def)
  have unchanged: thesis if eq: "insert_block B blk chk c = Some (Inl e, c)" for e
    by (rule result [OF eq]) (use s s_def in \<open>simp_all add: grows_by_def\<close>)
  show thesis
  proof (cases ?v)
    case (Inl e)
    then show thesis by (intro unchanged [of e]) (simp add: insert_block_def Let_def flip: hash_def)
  next
    case (Inr b)
    then have b: "bs_header b = partial_header_from ?h"
      by (auto simp: block_with_senders_from_def split: option.splits)
    have eq: "insert_block B blk chk c = (case canonical_ancestor s (partial_header_from ?h) hash of
        None \<Rightarrow> None | Some (Inl e) \<Rightarrow> Some (Inl e, c) | Some (Inr a) \<Rightarrow> Some (adopt_block B blk hash b a chk c))"
      unfolding insert_block_def Let_def hash_def [symmetric] Inr b [symmetric] s_def by simp
    show thesis
    proof (cases "canonical_hash s (h_number ?h) = Some hash")
      case True
      then have "canonical_ancestor s (partial_header_from ?h) hash = Some (Inr (h_number ?h))"
        by (subst canonical_ancestor.simps) simp
      moreover obtain c' where c': "adopt_block B blk hash b (h_number ?h) chk c = (Inl Panic, c')" "same_blocks s (bc_state c')"
        using adopt_canonical [OF s [unfolded s_def] True [unfolded s_def] b, of B hash chk] unfolding s_def
        by (metis snd_conv)
      ultimately show thesis
        using same_blocks_tables [OF c'(2)] s by (intro result [of "Inl Panic" c']) (simp_all add: eq grows_by_def)
    next
      case False
      from ts False show thesis
      proof (cases rule: ancestor_of_new [where C = "bce_crypto B"])
        case (found a)
        have i: "insertable blk hash s" using found n fresh by (simp add: insertable_def Let_def)
        obtain r c' where r: "adopt_block B blk hash b a chk c = (r, c')" by fastforce
        show thesis
          using adopt_block_result [OF s [unfolded s_def] i [unfolded s_def] b _ _ _ r] found
          by (intro result [of r c']) (simp_all add: eq r s_def)
      qed (auto intro: unchanged simp: eq)
    qed
  qed
qed

section \<open>From the genesis block\<close>

lemma new_chain_ok:
  assumes "h_number (b_header genesis) = 0"
  shows "chain_ok (bc_state (new_with_consensus B in_memory_new engine config genesis))"
    and "stored (bc_state (new_with_consensus B in_memory_new engine config genesis)) n k =
      (if n = 0 \<and> k = header_hash (bce_consensus B) (b_header genesis) then Some (b_header genesis) else None)"
proof -
  let ?k = "header_hash (bce_consensus B) (b_header genesis)"
  let ?s = "ims_insert_block genesis ?k in_memory_new"
  let ?t = "bc_state (new_with_consensus B in_memory_new engine config genesis)"
  have e: "stored in_memory_new m j = None" "td_at in_memory_new m j = None" for m j
    by (simp_all add: in_memory_new_def stored_def td_at_def vec_get_def)
  have t: "?t = ?s\<lparr> ims_canonical_hashes := [?k] \<rparr>"
    using assms by (simp add: new_with_consensus_def Let_def canonize_block_def resize_def ims_insert_block_tables)
      (simp add: in_memory_new_def)
  have st: "stored ?t m j = (if m = 0 \<and> j = ?k then Some (b_header genesis) else None)" for m j
    using assms by (simp add: t ims_insert_block_tables e)
  have "insertable genesis ?k in_memory_new" using assms by (simp add: insertable_def e)
  moreover have "tables_ok in_memory_new" by (simp add: tables_ok_def e) (simp add: in_memory_new_def)
  ultimately have "tables_ok ?t" unfolding t set_canon_simps by (intro insert_tables_ok)
  moreover have "canon_ok ?t" unfolding canon_ok_def st by (simp add: t)
  moreover have "heaviest ?t" unfolding heaviest_def tip_difficulty_def st by (simp add: t)
  ultimately show "chain_ok ?t" by (simp add: chain_ok_def)
  show "stored ?t n k = (if n = 0 \<and> k = ?k then Some (b_header genesis) else None)" by (rule st)
qed

fun insert_blocks :: "'k blockchain_env \<Rightarrow> bool \<Rightarrow> block list \<Rightarrow> blockchain \<Rightarrow> blockchain option" where
  "insert_blocks B chk [] c = Some c"
| "insert_blocks B chk (blk # blks) c = (case insert_block B blk chk c of
     None \<Rightarrow> None | Some (r, c') \<Rightarrow> insert_blocks B chk blks c')"

definition headers_in :: "consensus_env \<Rightarrow> block_header set \<Rightarrow> in_memory_state \<Rightarrow> bool" where
  "headers_in E H s \<longleftrightarrow> (\<forall>n k h. stored s n k = Some h \<longrightarrow> h \<in> H \<and> header_hash E h = k)"

lemma insert_blocks_ok:
  assumes "chain_ok (bc_state c)" and "headers_in (bce_consensus B) H (bc_state c)"
    and inj: "inj_on (header_hash (bce_consensus B)) H" and "b_header ` set blks \<subseteq> H"
    and "\<forall>blk \<in> set blks. unat (h_number (b_header blk)) < 2 ^ 64 - 1"
  shows "\<exists>c'. insert_blocks B chk blks c = Some c' \<and> chain_ok (bc_state c')"
  using assms(1,2,4,5)
proof (induction blks arbitrary: c)
  case (Cons blk blks)
  let ?k = "header_hash (bce_consensus B) (b_header blk)"
  have fresh: "g = b_header blk" if "stored (bc_state c) (unat (h_number (b_header blk))) ?k = Some g" for g
    using that Cons.prems(2,3) inj by (auto simp: headers_in_def dest: inj_onD)
  have n: "unat (h_number (b_header blk)) < 2 ^ 64 - 1" using Cons.prems(4) by simp
  obtain r c' where r: "insert_block B blk chk c = Some (r, c')" "chain_ok (bc_state c')"
    "grows_by blk ?k (bc_state c) (bc_state c')"
    by (rule insert_block_result [OF Cons.prems(1) n fresh, where chk = chk]) (blast intro: that)+
  then have "headers_in (bce_consensus B) H (bc_state c')"
    using Cons.prems(2,3) unfolding headers_in_def grows_by_def by fastforce
  with Cons.IH [OF r(2)] Cons.prems r(1) show ?case by simp
qed simp

text \<open>
  C11.  The chain of a node.  Let any blocks with numbers below \<open>2 ^ 64 - 1\<close> be inserted one after the
  other, after a genesis block with number zero, where the hash of a header is free of collisions
  on the headers of these blocks.  The loops of each insertion end, whatever its outcome, which
  may be a success, an error of validation or execution, or a panic (as for a block that is canonical
  already), and the next insertion goes on from the state it leaves.  At the end the block tables are in order:
  every stored block has its parent stored one height below and the total difficulty of its chain
  (the sum of the difficulties, modulo \<open>2 ^ 256\<close>), the canonical hashes form a chain of
  stored blocks linked by their parent hashes, and no stored block has a greater total
  difficulty than the tip of the canonical chain.
\<close>

theorem blockchain_in_order:
  assumes "h_number (b_header genesis) = 0"
    and "inj_on (header_hash (bce_consensus B)) (b_header ` set (genesis # blks))"
    and "\<forall>blk \<in> set blks. unat (h_number (b_header blk)) < 2 ^ 64 - 1"
  shows "\<exists>c. insert_blocks B chk blks (new_with_consensus B in_memory_new engine config genesis) = Some c \<and>
    chain_ok (bc_state c)"
  by (rule insert_blocks_ok [OF new_chain_ok(1) [OF assms(1)] _ assms(2) _ assms(3)])
    (auto simp: headers_in_def new_chain_ok(2) [OF assms(1)] split: if_splits)

text \<open>
  C12.  The fork choice: an insertion that succeeds stores the block, keeps every other stored
  block with its total difficulty, and makes the new block the tip of the canonical chain if and
  only if its total difficulty exceeds the one of the former tip; otherwise the canonical chain
  stays as it is.  An insertion that fails for whatever reason leaves the canonical chain as it
  is.
\<close>

theorem insert_block_fork_choice:
  assumes "insert_block B blk chk c = Some (r, c')" and "chain_ok (bc_state c)"
    and "unat (h_number (b_header blk)) < 2 ^ 64 - 1"
    and "stored (bc_state c) (unat (h_number (b_header blk))) (header_hash (bce_consensus B) (b_header blk))
      \<in> {None, Some (b_header blk)}"
  shows "if r = Inr () then inserted blk (header_hash (bce_consensus B) (b_header blk)) (bc_state c) (bc_state c')
    else canon (bc_state c') = canon (bc_state c)"
proof -
  have fresh: "g = b_header blk" if "stored (bc_state c) (unat (h_number (b_header blk)))
      (header_hash (bce_consensus B) (b_header blk)) = Some g" for g
    using that assms(4) by auto
  show ?thesis
    by (rule insert_block_result [OF assms(2,3) fresh, where chk = chk]) (use assms(1) in auto)
qed

text \<open>
  C40.  A block that is canonical already cannot be inserted again: once it passes validation,
  its ancestor is the block itself, the blocks above it have been unwound, and the computation
  of the distance from its parent to the ancestor panics.
\<close>

theorem reinsert_canonical_panics:
  assumes "chain_ok (bc_state c)"
    and "canonical_hash (bc_state c) (h_number (b_header blk)) = Some (header_hash (bce_consensus B) (b_header blk))"
    and "co_validate_block_header (bc_engine c) (b_header blk) (bc_state c) True = Inr ()"
    and "co_pre_validate_block (bc_engine c) blk (bc_state c) = Inr ()"
    and "hm_get (bc_bad_blocks c) (header_hash (bce_consensus B) (b_header blk)) = None"
    and "block_with_senders_from (bce_crypto B) blk = Inr b"
  shows "insert_block B blk chk c =
    Some (Inl Panic, snd (unwind_last_changes (h_number (b_header blk)) (current_canonical_block (bc_state c)) c))"
proof -
  have b: "bs_header b = partial_header_from (b_header blk)"
    using assms(6) by (auto simp: block_with_senders_from_def)
  have "canonical_ancestor (bc_state c) (partial_header_from (b_header blk)) (header_hash (bce_consensus B) (b_header blk))
      = Some (Inr (h_number (b_header blk)))"
    using assms(2) by (subst canonical_ancestor.simps) simp
  with adopt_canonical(1) [OF assms(1,2) b] assms(3-6) show ?thesis
    by (simp add: insert_block_def Let_def b)
qed

section \<open>Examples\<close>

text \<open>Two blocks on top of a genesis block, the second heavier than the first.\<close>

definition sample_chain_env :: "unit blockchain_env" where
  "sample_chain_env = \<lparr>
     bce_consensus = sample_env\<lparr> env_keccak := of_be,
       rlp_encode_header := (\<lambda>h. [ucast (h_number h), ucast (h_difficulty h)]) \<rparr>,
     bce_crypto = \<lparr> keccak256 = of_be, trie_root = (\<lambda>_. 0), rlp_encode_account = (\<lambda>_. []), rlp_encode_bytes = (\<lambda>bs. bs),
       recover_sender = (\<lambda>_. Inr 60) \<rparr>,
     bce_processor = sample_processor log_interpreter \<rparr>"

definition sample_chain_engine :: "in_memory_state consensus_trait" where
  "sample_chain_engine = (pe_engine (sample_processor log_interpreter))
     \<lparr> co_pre_validate_block := (\<lambda>_ _. Inr ()), co_validate_block_header := (\<lambda>_ _ _. Inr ()) \<rparr>"

definition chain_block :: "u64 \<Rightarrow> h256 \<Rightarrow> u256 \<Rightarrow> block" where
  "chain_block n p d = \<lparr> b_header = sample_header\<lparr> h_number := n, h_parent_hash := p, h_difficulty := d,
     h_gas_used := 0, h_receipts_root := 0, h_logs_bloom := 0, h_base_fee_per_gas := None \<rparr>,
     b_transactions = [], b_ommers = [] \<rparr>"

definition sample_spec :: chain_spec where
  "sample_spec = \<lparr> cs_name = ''sample'',
     cs_consensus = \<lparr> seal_verification = Ethash_params 13 [] None None None True, eip1559_block = None \<rparr>,
     cs_upgrades = \<lparr> up_homestead = Some 0, up_tangerine = None, up_spurious = None, up_byzantium = None,
       up_constantinople = None, up_petersburg = None, up_istanbul = None, up_berlin = None, up_london = None \<rparr>,
     cs_params = \<lparr> pa_chain_id = 1, pa_network_id = 1, pa_min_gas_limit = 5000 \<rparr>,
     cs_genesis = \<lparr> ge_number = 0, ge_author = 0, ge_gas_limit = 1000000, ge_timestamp = 0,
       ge_seal = Ethash_seal [] 1 0 0 \<rparr>,
     cs_contracts = [], cs_balances = [], cs_p2p = \<lparr> bootnodes = [], preverified_hashes = [] \<rparr> \<rparr>"

definition sample_chain :: blockchain where
  "sample_chain = new_with_consensus sample_chain_env in_memory_new sample_chain_engine sample_spec (chain_block 0 0 1)"

lemma sample_chain_runs:
  "(case insert_block sample_chain_env (chain_block 1 1 10) False sample_chain of
     Some (Inr _, c) \<Rightarrow> canon (bc_state c) = [1, 266] \<and>
       (case insert_block sample_chain_env (chain_block 1 1 20) False c of
          Some (Inr _, c) \<Rightarrow> canon (bc_state c) = [1, 276] | _ \<Rightarrow> False)
   | _ \<Rightarrow> False)"
  by code_simp

lemma sample_chain_ok: "chain_ok (bc_state sample_chain)"
  unfolding sample_chain_def by (rule new_chain_ok) (simp add: chain_block_def)

lemma sample_hash:
  "header_hash (bce_consensus sample_chain_env) (b_header (chain_block n p d)) = of_be [ucast n, ucast d]"
  by (simp add: header_hash_def sample_chain_env_def chain_block_def)

theorem blockchain_in_order_witness:
  "\<exists>c. insert_blocks sample_chain_env False [chain_block 1 1 10, chain_block 1 1 20] sample_chain = Some c \<and>
     chain_ok (bc_state c)"
  unfolding sample_chain_def
proof (rule blockchain_in_order)
  show "inj_on (header_hash (bce_consensus sample_chain_env))
      (b_header ` set (chain_block 0 0 1 # [chain_block 1 1 10, chain_block 1 1 20]))"
    by (simp add: sample_hash inj_on_def) (simp add: of_be_def)
qed (simp_all add: chain_block_def)

theorem insert_block_fork_choice_witness:
  "\<exists>c. insert_block sample_chain_env (chain_block 1 1 10) False sample_chain = Some (Inr (), c) \<and>
     inserted (chain_block 1 1 10) (of_be [1, 10]) (bc_state sample_chain) (bc_state c)"
proof -
  obtain c where c: "insert_block sample_chain_env (chain_block 1 1 10) False sample_chain = Some (Inr (), c)"
    using sample_chain_runs by (auto split: option.splits prod.splits sum.splits)
  have "stored (bc_state sample_chain) 1 k = None" for k
    unfolding sample_chain_def by (subst new_chain_ok(2)) (simp_all add: chain_block_def)
  with insert_block_fork_choice [OF c sample_chain_ok] c show ?thesis
    by (simp add: sample_hash) (simp add: chain_block_def)
qed

theorem reinsert_canonical_panics_witness:
  "\<exists>c. insert_block sample_chain_env (chain_block 0 0 1) False sample_chain = Some (Inl Panic, c)"
proof -
  let ?b = "\<lparr> bs_header = partial_header_from (b_header (chain_block 0 0 1)), bs_transactions = [], bs_ommers = [] \<rparr>"
  have "canonical_hash (bc_state sample_chain) (h_number (b_header (chain_block 0 0 1)))
      = Some (header_hash (bce_consensus sample_chain_env) (b_header (chain_block 0 0 1)))"
    by code_simp
  moreover have "block_with_senders_from (bce_crypto sample_chain_env) (chain_block 0 0 1) = Inr ?b"
    by (simp add: block_with_senders_from_def chain_block_def expect_r_def)
  ultimately show ?thesis
    using reinsert_canonical_panics [OF sample_chain_ok, of "chain_block 0 0 1" sample_chain_env ?b False]
    by (auto simp: sample_chain_def new_with_consensus_def sample_chain_engine_def Let_def)
qed

end
