(* ===== verification/Trie_Base.thy ===== *)
theory Trie_Base
  imports Models "HOL-Library.List_Lexorder" "HOL-Library.Sublist"
begin

text \<open>
  The building blocks of the state trie: key prefixes (\<^verbatim>\<open>src/src/trie/util.rs\<close>), the set of
  changed prefixes (\<^verbatim>\<open>src/src/trie/prefix_set.rs\<close>), trie nodes and their byte format
  (\<^verbatim>\<open>src/src/trie/node.rs\<close>), and the nibble and path encodings of
  \<^verbatim>\<open>src/src/trie/hash_builder.rs\<close>.  Byte strings are ordered lexicographically, as
  \<open>Vec<u8>\<close> is.
\<close>

section \<open>Prefixes (trie/util.rs)\<close>

datatype trie_error = Trie_Panic

definition has_prefix :: "bytes \<Rightarrow> bytes \<Rightarrow> bool" where
  "has_prefix s p \<longleftrightarrow> length p \<le> length s \<and> take (length p) s = p"

definition assert_subset :: "u16 \<Rightarrow> u16 \<Rightarrow> trie_error + unit" where
  "assert_subset part whole = (if part AND whole = part then Inr () else Inl Trie_Panic)"

fun prefix_length_from :: "nat \<Rightarrow> bytes \<Rightarrow> bytes \<Rightarrow> nat" where
  "prefix_length_from i (x # a) (y # b) = (if x \<noteq> y then i else prefix_length_from (Suc i) a b)"
| "prefix_length_from i _ _ = i"

definition prefix_length :: "bytes \<Rightarrow> bytes \<Rightarrow> nat" where
  "prefix_length a b = prefix_length_from 0 a b"

section \<open>The set of prefixes (trie/prefix_set.rs)\<close>

type_synonym prefix_set = "bytes list"

definition prefix_set_new :: prefix_set where
  "prefix_set_new = []"

text \<open>\<open>range(prefix..).next()\<close>: the least element not below the prefix.\<close>

definition ps_contains :: "prefix_set \<Rightarrow> bytes \<Rightarrow> bool" where
  "ps_contains ps p = (case find (\<lambda>s. p \<le> s) ps of Some s \<Rightarrow> has_prefix s p | None \<Rightarrow> False)"

definition ps_insert :: "prefix_set \<Rightarrow> bytes \<Rightarrow> prefix_set" where
  "ps_insert ps key = (if key \<in> set ps then ps else insort key ps)"

section \<open>Nodes (trie/node.rs)\<close>

record node =
  state_mask :: u16
  tree_mask :: u16
  hash_mask :: u16
  hashes :: "h256 list"
  root_hash :: "h256 option"

definition count_ones :: "u16 \<Rightarrow> nat" where
  "count_ones m = length (filter (bit m) [0..<16])"

definition node_new ::
  "u16 \<Rightarrow> u16 \<Rightarrow> u16 \<Rightarrow> h256 list \<Rightarrow> h256 option \<Rightarrow> trie_error + node" where
  "node_new sm tm hm hs rh =
     bind_r (assert_subset tm sm) (\<lambda>_.
     bind_r (assert_subset hm sm) (\<lambda>_.
     if count_ones hm = length hs
     then Inr \<lparr> state_mask = sm, tree_mask = tm, hash_mask = hm, hashes = hs, root_hash = rh \<rparr>
     else Inl Trie_Panic))"

definition node_assign :: "node \<Rightarrow> node \<Rightarrow> node" where
  "node_assign self other = self\<lparr> state_mask := state_mask other, tree_mask := tree_mask other,
     hash_mask := hash_mask other, hashes := hashes other, root_hash := root_hash other \<rparr>"

definition set_root_hash :: "h256 option \<Rightarrow> node \<Rightarrow> node" where
  "set_root_hash rh n = n\<lparr> root_hash := rh \<rparr>"

definition marshal_node :: "node \<Rightarrow> bytes" where
  "marshal_node n =
     to_be 2 (state_mask n) @ to_be 2 (tree_mask n) @ to_be 2 (hash_mask n)
     @ (case root_hash n of Some h \<Rightarrow> to_be 32 h | None \<Rightarrow> [])
     @ concat (map (to_be 32) (hashes n))"

fun read_hashes :: "nat \<Rightarrow> bytes \<Rightarrow> h256 list" where
  "read_hashes 0 v = []"
| "read_hashes (Suc k) v = of_be (take KECCAK_LENGTH v) # read_hashes k (drop KECCAK_LENGTH v)"

definition unmarshal_node :: "bytes \<Rightarrow> trie_error + node option" where
  "unmarshal_node v =
     (if length v < 6 then Inr None
      else if (length v - 6) mod KECCAK_LENGTH \<noteq> 0 then Inr None
      else
        (let sm = of_be (take 2 v); tm = of_be (take 2 (drop 2 v)); hm = of_be (take 2 (drop 4 v));
             has_root = (count_ones hm + 1 = length (drop 6 v) div KECCAK_LENGTH);
             rh = (if has_root then Some (of_be (take KECCAK_LENGTH (drop 6 v))) else None);
             i = (if has_root then 6 + KECCAK_LENGTH else 6);
             num_hashes = length (drop i v) div KECCAK_LENGTH
         in bind_r (node_new sm tm hm (read_hashes num_hashes (drop i v)) rh) (\<lambda>n. Inr (Some n))))"

section \<open>Nibbles and paths (trie/hash_builder.rs)\<close>

definition RLP_EMPTY_STRING_CODE :: u8 where "RLP_EMPTY_STRING_CODE = 0x80"

fun path_bytes :: "bytes \<Rightarrow> bytes" where
  "path_bytes (a # b # ns) = (push_bit 4 a + b) # path_bytes ns"
| "path_bytes _ = []"

definition encode_path :: "bytes \<Rightarrow> bool \<Rightarrow> bytes" where
  "encode_path nibbles terminating =
     (let flag = (if terminating then 0x20 else 0x00);
          is_odd = (length nibbles mod 2 \<noteq> 0);
          flag = flag + (if is_odd then 0x10 else 0x00)
      in if is_odd then (flag OR hd nibbles) # path_bytes (tl nibbles)
         else flag # path_bytes nibbles)"

definition wrap_hash :: "h256 \<Rightarrow> bytes" where
  "wrap_hash hash = (RLP_EMPTY_STRING_CODE + of_nat KECCAK_LENGTH) # to_be 32 hash"

definition node_ref :: "(bytes \<Rightarrow> h256) \<Rightarrow> bytes \<Rightarrow> bytes" where
  "node_ref keccak rlp = (if length rlp < KECCAK_LENGTH then rlp else wrap_hash (keccak rlp))"

fun pack_nibbles :: "bytes \<Rightarrow> bytes" where
  "pack_nibbles [] = []"
| "pack_nibbles [a] = [push_bit 4 a]"
| "pack_nibbles (a # b # ns) = (push_bit 4 a + b) # pack_nibbles ns"

definition unpack_nibbles :: "bytes \<Rightarrow> bytes" where
  "unpack_nibbles packed = concat (map (\<lambda>b. [drop_bit 4 b, b AND 0x0F]) packed)"

section \<open>Lemmas\<close>

lemma has_prefix_iff: "has_prefix s p \<longleftrightarrow> prefix p s"
  by (auto simp: has_prefix_def prefix_def) (metis append_take_drop_id)

lemma prefix_length_from: "prefix_length_from i a b = i + length (longest_common_prefix a b)"
  by (induction i a b rule: prefix_length_from.induct) auto

lemma prefix_length_longest: "prefix_length a b = length (longest_common_prefix a b)"
  by (simp add: prefix_length_def prefix_length_from)

text \<open>
  \<open>prefix_length\<close> is the length of the longest common prefix: no longer prefix of both
  keys is shared.
\<close>

theorem prefix_length_correct:
  "prefix_length a b = Max {n. n \<le> length a \<and> n \<le> length b \<and> take n a = take n b}"
proof -
  have "take (prefix_length a b) a = take (prefix_length a b) b \<and>
      prefix_length a b \<le> length a \<and> prefix_length a b \<le> length b \<and>
      (prefix_length a b = length a \<or> prefix_length a b = length b \<or>
       a ! prefix_length a b \<noteq> b ! prefix_length a b)"
    unfolding prefix_length_longest
    by (induction a b rule: longest_common_prefix.induct) auto
  moreover have "n \<le> k" if "take n a = take n b" "n \<le> length a" "n \<le> length b"
    "k = length a \<or> k = length b \<or> a ! k \<noteq> b ! k" for n k
    using that by (metis linorder_not_le nth_take)
  moreover have "finite {n. n \<le> length a \<and> n \<le> length b \<and> take n a = take n b}"
    by (rule finite_subset [of _ "{..length a}"]) auto
  ultimately show ?thesis by (intro Max_eqI [symmetric]) blast+
qed

lemma between_prefix:
  fixes p :: bytes
  shows "p \<le> t \<Longrightarrow> t \<le> p @ u \<Longrightarrow> prefix p t"
proof (induction p arbitrary: t)
  case Nil
  then show ?case by simp
next
  case (Cons x p)
  then obtain y t' where t: "t = y # t'" by (cases t) auto
  with Cons.prems have "x \<le> y" "y \<le> x" by auto
  then have "x = y" by simp
  with Cons t show ?case by auto
qed

lemma le_append: "p \<le> p @ (u :: bytes)"
  by (induction p) auto

text \<open>
  The prefix set answers exactly: it contains a prefix if and only if some inserted key
  starts with it, whatever keys were inserted in whatever order.
\<close>

theorem prefix_set_exact:
  "ps_contains (fold (\<lambda>k ps. ps_insert ps k) keys prefix_set_new) p \<longleftrightarrow> (\<exists>k \<in> set keys. prefix p k)"
proof -
  have inv: "sorted (fold (\<lambda>k ps. ps_insert ps k) keys ps) \<and> set (fold (\<lambda>k ps. ps_insert ps k) keys ps) = set keys \<union> set ps"
    if "sorted ps" for ps :: "bytes list"
    using that by (induction keys arbitrary: ps) (auto simp: ps_insert_def set_insort_key sorted_insort)
  have exact: "ps_contains ps p \<longleftrightarrow> (\<exists>k \<in> set ps. prefix p k)" if "sorted ps" for ps
    using that
  proof (induction ps)
    case Nil
    then show ?case by (simp add: ps_contains_def)
  next
    case (Cons s ps)
    show ?case
    proof (cases "p \<le> s")
      case True
      have "prefix p s" if "k \<in> set ps" "prefix p k" for k
        using that Cons.prems True between_prefix [of p s] by (auto simp: prefix_def)
      with True show ?thesis by (auto simp: ps_contains_def has_prefix_iff)
    next
      case False
      then have "\<not> prefix p s" using le_append by (auto simp: prefix_def)
      with False Cons show ?thesis by (simp add: ps_contains_def)
    qed
  qed
  show ?thesis using inv [of prefix_set_new] exact by (simp add: prefix_set_new_def)
qed

section \<open>Round trips\<close>

definition is_nibble :: "u8 \<Rightarrow> bool" where
  "is_nibble b \<longleftrightarrow> b < 16"

lemma nibble_cases:
  assumes "is_nibble b"
  shows "b \<in> set (map word_of_nat [0..<16])"
proof -
  have "unat b < 16" using assms by (simp add: is_nibble_def word_less_nat_alt)
  then have "unat b \<in> set [0..<16]" by simp
  then have "word_of_nat (unat b) \<in> set (map word_of_nat [0..<16] :: u8 list)" by (simp only: set_map imageI)
  then show ?thesis by simp
qed

lemma nibble_pair_table:
  "\<forall>a \<in> set (map word_of_nat [0..<16]). \<forall>b \<in> set (map word_of_nat [0..<16]).
     drop_bit 4 (push_bit 4 a + b :: u8) = a \<and> (push_bit 4 a + b) AND 0x0F = b"
  by code_simp

lemma nibble_pair:
  assumes "is_nibble a" and "is_nibble b"
  shows "drop_bit 4 (push_bit 4 a + b) = a" and "(push_bit 4 a + b) AND 0x0F = b"
  using nibble_pair_table nibble_cases [OF assms(1)] nibble_cases [OF assms(2)] by blast+

text \<open>
  Unpacking packed nibbles gives them back, padded by one zero when their number is odd;
  and packing unpacked bytes gives the bytes back.
\<close>

theorem nibbles_roundtrip:
  assumes "list_all is_nibble ns"
  shows "unpack_nibbles (pack_nibbles ns) = ns @ replicate (length ns mod 2) 0"
  using assms
proof (induction ns rule: pack_nibbles.induct)
  case 1
  then show ?case by (simp add: unpack_nibbles_def)
next
  case (2 a)
  have "drop_bit 4 (push_bit 4 a + 0) = a" "(push_bit 4 a + 0) AND 0x0F = 0"
    using 2 by (intro nibble_pair; simp add: is_nibble_def)+
  then show ?case by (simp add: unpack_nibbles_def)
next
  case (3 a b ns)
  then have "drop_bit 4 (push_bit 4 a + b) = a" "(push_bit 4 a + b) AND 0x0F = b"
    by (auto intro: nibble_pair)
  with 3 show ?case by (simp add: unpack_nibbles_def)
qed

theorem nibbles_roundtrip_witness:
  "unpack_nibbles (pack_nibbles [1, 15, 7]) = [1, 15, 7, 0]"
  using nibbles_roundtrip [of "[1, 15, 7]"] by (simp add: is_nibble_def)

text \<open>Reading a path back: the flag byte tells the kind and the parity.\<close>

definition decode_path :: "bytes \<Rightarrow> bytes \<times> bool" where
  "decode_path p = ((if bit (hd p) 4 then [hd p AND 0x0F] else []) @ unpack_nibbles (tl p), bit (hd p) 5)"

lemma unpack_path_bytes:
  "list_all is_nibble ns \<Longrightarrow> length ns mod 2 = 0 \<Longrightarrow> unpack_nibbles (path_bytes ns) = ns"
proof (induction ns rule: path_bytes.induct)
  case (1 a b ns)
  then have "drop_bit 4 (push_bit 4 a + b) = a" "(push_bit 4 a + b) AND 0x0F = b"
    by (auto intro: nibble_pair)
  with 1 show ?case by (simp add: unpack_nibbles_def)
qed (auto simp: unpack_nibbles_def)

lemma flag_table:
  "\<forall>a \<in> set (map word_of_nat [0..<16]).
     bit (0x30 OR a :: u8) 4 \<and> bit (0x30 OR a) 5 \<and> (0x30 OR a) AND 0x0F = a \<and>
     bit (0x10 OR a) 4 \<and> \<not> bit (0x10 OR a) 5 \<and> (0x10 OR a) AND 0x0F = a"
  by code_simp

lemma even_flags: "\<not> bit (0 :: u8) 5" "\<not> bit (0 :: u8) 4" "bit (0x20 :: u8) 5" "\<not> bit (0x20 :: u8) 4"
  by code_simp+

text \<open>
  The hex-prefix encoding of a path is uniquely decodable: the nibbles and the terminating
  flag can be read back.
\<close>

theorem encode_path_roundtrip:
  assumes "list_all is_nibble ns"
  shows "decode_path (encode_path ns terminating) = (ns, terminating)"
proof (cases "length ns mod 2 = 0")
  case True
  then show ?thesis
    using unpack_path_bytes [OF assms True] even_flags by (simp add: encode_path_def decode_path_def Let_def)
next
  case False
  then obtain a ns' where ns: "ns = a # ns'" by (cases ns) auto
  with False have ev: "length ns' mod 2 = 0" by simp presburger
  have "a \<in> set (map word_of_nat [0..<16])" "list_all is_nibble ns'" using assms ns nibble_cases by auto
  then show ?thesis
    using bspec [OF flag_table] unpack_path_bytes [of ns'] ev False ns
    by (simp add: encode_path_def decode_path_def Let_def del: set_map set_upt)
qed

theorem encode_path_roundtrip_witness:
  "decode_path (encode_path [1, 2, 3] True) = ([1, 2, 3], True) \<and> encode_path [1, 2, 3] True = [0x31, 0x23]"
  using encode_path_roundtrip [of "[1, 2, 3]" True] by (simp add: is_nibble_def encode_path_def)

section \<open>Nodes\<close>

definition node_ok :: "node \<Rightarrow> bool" where
  "node_ok n \<longleftrightarrow> tree_mask n AND state_mask n = tree_mask n \<and> hash_mask n AND state_mask n = hash_mask n \<and>
     count_ones (hash_mask n) = length (hashes n)"

lemma node_new_ok: "node_new sm tm hm hs rh = Inr n \<Longrightarrow> node_ok n"
  by (auto simp: node_new_def node_ok_def assert_subset_def split: if_splits)

lemma read_hashes_concat:
  "read_hashes (length hs) (concat (map (to_be 32) hs)) = hs"
  by (induction hs) (simp_all add: KECCAK_LENGTH_def of_be_to_be)

text \<open>
  C34.  Unmarshalling a marshalled node gives it back, for every node that \<open>Node::new\<close> can
  build.
\<close>

theorem node_roundtrip:
  assumes "node_ok n"
  shows "unmarshal_node (marshal_node n) = Inr (Some n)"
proof -
  let ?r = "case root_hash n of Some h \<Rightarrow> to_be 32 h | None \<Rightarrow> []"
  let ?hs = "concat (map (to_be 32) (hashes n))"
  have len: "length ?hs = 32 * length (hashes n)" by (induction "hashes n") (auto simp: length_concat sum_list_triv comp_def)
  have c: "count_ones (hash_mask n) = length (hashes n)" using assms by (simp add: node_ok_def)
  have hs: "read_hashes (length (hashes n)) ?hs = hashes n" by (rule read_hashes_concat)
  show ?thesis
    using assms len c hs
    by (cases n; cases "root_hash n")
      (auto simp: unmarshal_node_def marshal_node_def Let_def KECCAK_LENGTH_def of_be_to_be node_new_def
        node_ok_def assert_subset_def)
qed

definition sample_node :: node where
  "sample_node = \<lparr> state_mask = 5, tree_mask = 4, hash_mask = 1, hashes = [77], root_hash = Some 9 \<rparr>"

theorem node_roundtrip_witness: "unmarshal_node (marshal_node sample_node) = Inr (Some sample_node)"
proof (rule node_roundtrip)
  show "node_ok sample_node" by code_simp
qed

text \<open>
  A byte string of the right length can still make \<open>unmarshal_node\<close> panic instead of
  returning nothing: the masks are not checked before \<open>Node::new\<close> asserts them.
\<close>

theorem unmarshal_node_panics:
  "unmarshal_node [0, 0, 0, 1, 0, 0] = Inl Trie_Panic"
  by code_simp

end
