(* ===== verification/Hash_Builder.thy ===== *)
theory Hash_Builder
  imports
    Trie_Base
begin

text \<open>
  The streaming trie builder of \<^verbatim>\<open>src/src/trie/hash_builder.rs\<close>: keys come in ascending
  order, and a stack of node references with one bit mask of open children per level is all
  that is kept.  The \<open>rlp\<close> crate and Keccak are parameters.  The node collector is the list
  of the nodes handed to it; the scratch buffer \<open>rlp_buffer\<close>, which is only written, is left
  out.
\<close>

unbundle bit_operations_syntax

section \<open>State\<close>

record rlp_env =
  re_keccak :: "bytes \<Rightarrow> h256"
  re_append :: "bytes \<Rightarrow> bytes"
  re_empty_data :: bytes
  re_list :: "bytes list \<Rightarrow> bytes"

datatype hash_builder_value = HB_Bytes bytes | HB_Hash h256

record hash_builder =
  hb_node_collector :: "(bytes \<times> node) list option"
  hb_key :: bytes
  hb_value :: hash_builder_value
  hb_is_in_db_trie :: bool
  hb_groups :: "u16 list"
  hb_tree_masks :: "u16 list"
  hb_hash_masks :: "u16 list"
  hb_stack :: "bytes list"

definition hash_builder_new :: hash_builder where
  "hash_builder_new = \<lparr> hb_node_collector = None, hb_key = [], hb_value = HB_Bytes [],
     hb_is_in_db_trie = False, hb_groups = [], hb_tree_masks = [], hb_hash_masks = [], hb_stack = [] \<rparr>"

section \<open>Nodes\<close>

definition leaf_node_rlp :: "rlp_env \<Rightarrow> bytes \<Rightarrow> bytes \<Rightarrow> bytes" where
  "leaf_node_rlp R path value = re_list R [re_append R (encode_path path True), re_append R value]"

definition extension_node_rlp :: "rlp_env \<Rightarrow> bytes \<Rightarrow> bytes \<Rightarrow> bytes" where
  "extension_node_rlp R path child_ref = re_list R [re_append R (encode_path path False), child_ref]"

text \<open>The loop over the sixteen digits: the items of the branch and the children whose hash the
  stored node keeps.  The children lie on the stack from \<open>first_child_idx\<close> on.\<close>

definition branch_items ::
  "rlp_env \<Rightarrow> u16 \<Rightarrow> u16 \<Rightarrow> bytes list \<Rightarrow> nat \<Rightarrow> bytes list \<times> bytes list" where
  "branch_items R sm hm stack first_child_idx =
     (let (items, child_hashes, i) = fold (\<lambda>digit (items, child_hashes, i).
            if bit sm digit
            then (items @ [stack ! i], if bit hm digit then child_hashes @ [stack ! i] else child_hashes, i + 1)
            else (items @ [re_empty_data R], child_hashes, i))
          [0..<16] ([], [], first_child_idx)
      in (items @ [re_empty_data R], child_hashes))"

definition branch_ref ::
  "rlp_env \<Rightarrow> u16 \<Rightarrow> u16 \<Rightarrow> hash_builder \<Rightarrow> trie_error + bytes list \<times> hash_builder" where
  "branch_ref R sm hm b =
     bind_r (assert_subset hm sm) (\<lambda>_.
     if length (hb_stack b) < count_ones sm then Inl Trie_Panic
     else (let first_child_idx = length (hb_stack b) - count_ones sm;
               (items, child_hashes) = branch_items R sm hm (hb_stack b) first_child_idx
           in Inr (child_hashes, b\<lparr> hb_stack := take first_child_idx (hb_stack b)
                @ [node_ref (re_keccak R) (re_list R items)] \<rparr>)))"

definition private_root_hash :: "rlp_env \<Rightarrow> hash_builder \<Rightarrow> h256" where
  "private_root_hash R b =
     (if hb_stack b = [] then EMPTY_ROOT
      else (let nr = last (hb_stack b)
            in if length nr = KECCAK_LENGTH + 1 then of_be (drop 1 nr) else re_keccak R nr))"

section \<open>The step\<close>

text \<open>\<open>1u16 << digit\<close>, whose distance is taken modulo the width; an index past the end of a
  vector is a panic.\<close>

definition digit_flag :: "u8 \<Rightarrow> u16" where
  "digit_flag d = push_bit (unat d mod 16) 1"

definition or_at :: "nat \<Rightarrow> u16 \<Rightarrow> u16 list \<Rightarrow> trie_error + u16 list" where
  "or_at i m xs = (if i < length xs then Inr (xs[i := xs ! i OR m]) else Inl Trie_Panic)"

definition get_at :: "nat \<Rightarrow> u16 list \<Rightarrow> trie_error + u16" where
  "get_at i xs = ok_or Trie_Panic (vec_get xs i)"

text \<open>The digit of the key at depth \<open>len\<close> becomes a child of the branch there, and the masks
  grow to the length of the key.\<close>

definition mark_digit :: "nat \<Rightarrow> bytes \<Rightarrow> hash_builder \<Rightarrow> hash_builder" where
  "mark_digit len current b =
     (let groups = (if length (hb_groups b) \<le> len then resize (len + 1) 0 (hb_groups b) else hb_groups b);
          b = b\<lparr> hb_groups := groups[len := groups ! len OR digit_flag (current ! len)] \<rparr>
      in if length (hb_tree_masks b) < length current
         then b\<lparr> hb_tree_masks := resize (length current) 0 (hb_tree_masks b),
                  hb_hash_masks := resize (length current) 0 (hb_hash_masks b) \<rparr>
         else b)"

text \<open>The new value goes on the stack: a leaf, or the hash of a subtree.\<close>

definition push_value ::
  "rlp_env \<Rightarrow> bytes \<Rightarrow> bytes \<Rightarrow> hash_builder \<Rightarrow> trie_error + hash_builder \<times> bool" where
  "push_value R current short_node_key b = (case hb_value b of
       HB_Bytes leaf_value \<Rightarrow>
         Inr (b\<lparr> hb_stack := hb_stack b
             @ [node_ref (re_keccak R) (leaf_node_rlp R short_node_key leaf_value)] \<rparr>, False)
     | HB_Hash hash \<Rightarrow>
         (let b = b\<lparr> hb_stack := hb_stack b @ [wrap_hash hash] \<rparr>
          in if hb_node_collector b \<noteq> None then
               bind_r (if hb_is_in_db_trie b
                       then or_at (length current - 1) (digit_flag (last current)) (hb_tree_masks b)
                       else Inr (hb_tree_masks b)) (\<lambda>tms.
               bind_r (or_at (length current - 1) (digit_flag (last current)) (hb_hash_masks b)) (\<lambda>hms.
                 Inr (b\<lparr> hb_tree_masks := tms, hb_hash_masks := hms \<rparr>, True)))
             else Inr (b, True)))"

text \<open>The node on top of the stack gets an extension node above it.\<close>

definition push_extension ::
  "rlp_env \<Rightarrow> bytes \<Rightarrow> nat \<Rightarrow> bytes \<Rightarrow> hash_builder \<Rightarrow> trie_error + hash_builder" where
  "push_extension R current len_from short_node_key b =
     bind_r (if hb_node_collector b \<noteq> None \<and> len_from > 0 then
               (let flag = digit_flag (current ! (len_from - 1))
                in if len_from - 1 < length (hb_hash_masks b) then
                     (let hms = (hb_hash_masks b)[len_from - 1 := hb_hash_masks b ! (len_from - 1) AND NOT flag]
                      in bind_r (get_at (length current - 1) (hb_tree_masks b)) (\<lambda>tm.
                         bind_r (if tm \<noteq> 0 then or_at (len_from - 1) flag (hb_tree_masks b)
                                 else Inr (hb_tree_masks b)) (\<lambda>tms.
                           Inr (b\<lparr> hb_hash_masks := hms, hb_tree_masks := tms \<rparr>))))
                   else Inl Trie_Panic)
             else Inr b) (\<lambda>b.
     if hb_stack b = [] then Inl Trie_Panic
     else Inr (b\<lparr> hb_stack := butlast (hb_stack b) @ [node_ref (re_keccak R)
                   (extension_node_rlp R short_node_key (last (hb_stack b)))],
                 hb_hash_masks := resize len_from 0 (hb_hash_masks b),
                 hb_tree_masks := resize len_from 0 (hb_tree_masks b) \<rparr>))"

text \<open>The hashes of a stored node: every child reference is a wrapped hash.\<close>

definition unwrap_hashes :: "bytes list \<Rightarrow> trie_error + h256 list" where
  "unwrap_hashes child_hashes =
     (if \<forall>c \<in> set child_hashes. length c = KECCAK_LENGTH + 1
      then Inr (map (\<lambda>c. of_be (drop 1 c)) child_hashes) else Inl Trie_Panic)"

text \<open>The branch at depth \<open>len\<close> is complete: its reference replaces its children, and the
  collector gets the node if it has children in the database or stored hashes.\<close>

definition close_branch ::
  "rlp_env \<Rightarrow> bytes \<Rightarrow> nat \<Rightarrow> hash_builder \<Rightarrow> trie_error + hash_builder" where
  "close_branch R current len b =
     bind_r (get_at len (hb_groups b)) (\<lambda>group.
     bind_r (get_at len (hb_hash_masks b)) (\<lambda>hm.
     bind_r (branch_ref R group hm b) (\<lambda>(child_hashes, b).
     if hb_node_collector b = None then Inr b
     else bind_r (if len > 0 then or_at (len - 1) (digit_flag (current ! (len - 1))) (hb_hash_masks b)
                  else Inr (hb_hash_masks b)) (\<lambda>hms.
          let b = b\<lparr> hb_hash_masks := hms \<rparr>
          in bind_r (get_at len (hb_tree_masks b)) (\<lambda>tm.
             if tm \<noteq> 0 \<or> hms ! len \<noteq> 0 then
               bind_r (if len > 0 then or_at (len - 1) (digit_flag (current ! (len - 1))) (hb_tree_masks b)
                       else Inr (hb_tree_masks b)) (\<lambda>tms.
               bind_r (unwrap_hashes child_hashes) (\<lambda>hs.
               bind_r (node_new group (tms ! len) (hms ! len) hs None) (\<lambda>n.
               let b = b\<lparr> hb_tree_masks := tms \<rparr>;
                   n = (if len = 0 then set_root_hash (Some (private_root_hash R b)) n else n)
               in Inr (b\<lparr> hb_node_collector :=
                    map_option (\<lambda>ns. ns @ [(take len current, n)]) (hb_node_collector b) \<rparr>))))
             else Inr b)))))"

definition drop_zeros :: "u16 list \<Rightarrow> u16 list" where
  "drop_zeros groups = List.rev (dropWhile (\<lambda>g. g = 0) (List.rev groups))"

text \<open>The loop of \<open>gen_struct_step\<close>; every round works on a shorter \<open>current\<close>.\<close>

function gen_struct_loop ::
  "rlp_env \<Rightarrow> bytes \<Rightarrow> bool \<Rightarrow> bytes \<Rightarrow> hash_builder \<Rightarrow> trie_error + hash_builder" where
  "gen_struct_loop R succeeding build_extensions current b =
     (let preceding_exists = (hb_groups b \<noteq> []);
          preceding_len = length (hb_groups b) - 1;
          common_prefix_len = prefix_length succeeding current;
          len = max preceding_len common_prefix_len
      in if \<not> len < length current then Inl Trie_Panic else
      let b = mark_digit len current b;
          len_from = (if succeeding \<noteq> [] \<or> preceding_exists then len + 1 else len);
          short_node_key = drop len_from current
      in bind_r (if build_extensions then Inr (b, True) else push_value R current short_node_key b)
           (\<lambda>(b, build_extensions).
         bind_r (if build_extensions \<and> short_node_key \<noteq> []
                 then push_extension R current len_from short_node_key b else Inr b) (\<lambda>b.
         if preceding_len \<le> common_prefix_len \<and> succeeding \<noteq> [] then Inr b
         else bind_r (if succeeding \<noteq> [] \<or> preceding_exists then close_branch R current len b else Inr b) (\<lambda>b.
              let b = b\<lparr> hb_groups := resize len 0 (hb_groups b),
                         hb_tree_masks := resize len 0 (hb_tree_masks b),
                         hb_hash_masks := resize len 0 (hb_hash_masks b) \<rparr>
              in if preceding_len = 0 then Inr b
                 else gen_struct_loop R succeeding True (take preceding_len current)
                        (b\<lparr> hb_groups := drop_zeros (hb_groups b) \<rparr>)))))"
  by pat_completeness auto
termination
  by (relation "measure (\<lambda>(R, succeeding, build, current, b). length current)") auto

declare gen_struct_loop.simps [simp del]

definition gen_struct_step ::
  "rlp_env \<Rightarrow> bytes \<Rightarrow> bytes \<Rightarrow> hash_builder \<Rightarrow> trie_error + hash_builder" where
  "gen_struct_step R current succeeding b = gen_struct_loop R succeeding False current b"

section \<open>The operations\<close>

definition add_leaf :: "rlp_env \<Rightarrow> bytes \<Rightarrow> bytes \<Rightarrow> hash_builder \<Rightarrow> trie_error + hash_builder" where
  "add_leaf R key v b =
     (if \<not> key > hb_key b then Inl Trie_Panic
      else bind_r (if hb_key b \<noteq> [] then gen_struct_step R (hb_key b) key b else Inr b) (\<lambda>b.
        Inr (b\<lparr> hb_key := key, hb_value := HB_Bytes v \<rparr>)))"

definition add_branch_node ::
  "rlp_env \<Rightarrow> bytes \<Rightarrow> h256 \<Rightarrow> bool \<Rightarrow> hash_builder \<Rightarrow> trie_error + hash_builder" where
  "add_branch_node R key v is_in_db_trie b =
     (if \<not> (key > hb_key b \<or> (hb_key b = [] \<and> key = [])) then Inl Trie_Panic
      else bind_r (if hb_key b \<noteq> [] then gen_struct_step R (hb_key b) key b
                   else if key = [] then Inr (b\<lparr> hb_stack := hb_stack b @ [wrap_hash v] \<rparr>)
                   else Inr b) (\<lambda>b.
        Inr (b\<lparr> hb_key := key, hb_value := HB_Hash v, hb_is_in_db_trie := is_in_db_trie \<rparr>)))"

definition hb_finalize :: "rlp_env \<Rightarrow> hash_builder \<Rightarrow> trie_error + hash_builder" where
  "hb_finalize R b =
     (if hb_key b \<noteq> [] then
        bind_r (gen_struct_step R (hb_key b) [] b) (\<lambda>b. Inr (b\<lparr> hb_key := [], hb_value := HB_Bytes [] \<rparr>))
      else Inr b)"

definition hb_root_hash :: "rlp_env \<Rightarrow> hash_builder \<Rightarrow> trie_error + h256 \<times> hash_builder" where
  "hb_root_hash R b = bind_r (hb_finalize R b) (\<lambda>b. Inr (private_root_hash R b, b))"

end
