(* ===== verification/Trie_Root.thy ===== *)
theory Trie_Root
  imports
    Hash_Builder
begin

text \<open>
  The trie builder computes the root of the Merkle Patricia trie: the reference is the recursive
  definition of the yellow paper, Appendix D, on the list of all entries; the builder sees
  one entry at a time and keeps a stack.  An entry is a leaf or the hash of a whole subtree.
\<close>

unbundle bit_operations_syntax

section \<open>The reference\<close>

type_synonym entry = "bytes \<times> hash_builder_value"

definition nibbles :: bytes where
  "nibbles = map word_of_nat [0..<16]"

definition extend :: "rlp_env \<Rightarrow> bytes \<Rightarrow> bytes \<Rightarrow> bytes" where
  "extend R q r = (if q = [] then r else node_ref (re_keccak R) (extension_node_rlp R q r))"

fun entry_ref :: "rlp_env \<Rightarrow> bytes \<Rightarrow> hash_builder_value \<Rightarrow> bytes" where
  "entry_ref R q (HB_Bytes v) = node_ref (re_keccak R) (leaf_node_rlp R q v)"
| "entry_ref R q (HB_Hash h) = extend R q (wrap_hash h)"

fun common_prefix :: "bytes list \<Rightarrow> bytes" where
  "common_prefix [] = []"
| "common_prefix [k] = k"
| "common_prefix (k # ks) = longest_common_prefix k (common_prefix ks)"

definition tails :: "u8 \<Rightarrow> entry list \<Rightarrow> entry list" where
  "tails n es = map (\<lambda>(k, v). (tl k, v)) (filter (\<lambda>(k, v). k \<noteq> [] \<and> hd k = n) es)"

definition strip :: "bytes \<Rightarrow> entry list \<Rightarrow> entry list" where
  "strip p es = map (\<lambda>(k, v). (drop (length p) k, v)) es"

definition entries_size :: "entry list \<Rightarrow> nat" where
  "entries_size es = sum_list (map (\<lambda>(k, v). Suc (length k)) es)"

lemma entries_size_simps [simp]:
  "entries_size [] = 0" "entries_size ((k, v) # es) = Suc (length k) + entries_size es"
  by (simp_all add: entries_size_def)

lemma tails_simps [simp]:
  "tails n [] = []" "tails n (([], v) # es) = tails n es"
  "tails n ((x # k, v) # es) = (if x = n then (k, v) # tails n es else tails n es)"
  by (simp_all add: tails_def)

lemma strip_simps [simp]:
  "strip p [] = []" "strip p ((k, v) # es) = (drop (length p) k, v) # strip p es"
  by (simp_all add: strip_def)

lemma entries_size_tails: "entries_size (tails n es) \<le> entries_size es - length es"
proof (induction es)
  case (Cons e es)
  have "length es \<le> entries_size es" by (induction es) auto
  with Cons show ?case by (cases e; cases "fst e") auto
qed simp

lemma entries_size_strip: "entries_size (strip p es) \<le> entries_size es"
  by (induction es) auto

function mpt :: "rlp_env \<Rightarrow> entry list \<Rightarrow> bytes" where
  "mpt R [] = re_empty_data R"
| "mpt R [(k, v)] = entry_ref R k v"
| "mpt R (e1 # e2 # es) =
     (let p = common_prefix (map fst (e1 # e2 # es))
      in extend R p (node_ref (re_keccak R) (re_list R
           (map (\<lambda>n. mpt R (tails n (strip p (e1 # e2 # es)))) nibbles @ [re_empty_data R]))))"
  by pat_completeness auto
termination
proof (relation "measure (\<lambda>(R, es). entries_size es)")
  fix R :: rlp_env and e1 e2 :: entry and es p n
  have "entries_size (tails n (strip p (e1 # e2 # es))) \<le>
      entries_size (strip p (e1 # e2 # es)) - length (strip p (e1 # e2 # es))" by (rule entries_size_tails)
  moreover have "0 < entries_size (strip p (e1 # e2 # es))" by (cases e1) simp
  ultimately show "((R, tails n (strip p (e1 # e2 # es))), R, e1 # e2 # es) \<in> measure (\<lambda>(R, es). entries_size es)"
    using entries_size_strip [of p "e1 # e2 # es"] by (simp add: strip_def)
qed simp

declare mpt.simps(3) [simp del]

section \<open>Entries below a prefix\<close>

definition below :: "entry list \<Rightarrow> bytes \<Rightarrow> entry list" where
  "below es p = map (\<lambda>(k, v). (drop (length p) k, v)) (filter (\<lambda>(k, v). prefix p k) es)"

lemma below_simps [simp]:
  "below [] p = []"
  "below ((k, v) # es) p = (if prefix p k then (drop (length p) k, v) # below es p else below es p)"
  by (simp_all add: below_def)

lemma below_append: "below (es @ fs) p = below es p @ below fs p"
  by (simp add: below_def)

lemma below_Nil [simp]: "below es [] = es"
  by (induction es) auto

lemma prefix_snoc_iff: "prefix (p @ [n]) k \<longleftrightarrow> prefix p k \<and> length p < length k \<and> k ! length p = n"
proof
  assume "prefix p k \<and> length p < length k \<and> k ! length p = n"
  then obtain zs where "k = p @ zs" "zs \<noteq> []" "hd zs = n"
    by (auto simp: prefix_def nth_append hd_conv_nth)
  then have "k = (p @ [n]) @ tl zs" by (cases zs) auto
  then show "prefix (p @ [n]) k" by (rule prefixI)
qed (auto simp: prefix_def nth_append)

lemma tails_below: "tails n (below es p) = below es (p @ [n])"
proof (induction es)
  case (Cons e es)
  obtain k v where e: "e = (k, v)" by (cases e)
  have "drop (length p) k = [] \<or> (\<exists>x xs. drop (length p) k = x # xs \<and> x = k ! length p \<and> length p < length k
      \<and> xs = drop (Suc (length p)) k)"
    by (metis Cons_nth_drop_Suc drop_eq_Nil2 not_le)
  with Cons e show ?case by (auto simp: prefix_snoc_iff)
qed simp

lemma strip_below:
  assumes "\<forall>(k, v) \<in> set es. prefix p k \<longrightarrow> prefix (p @ q) k"
  shows "strip q (below es p) = below es (p @ q)"
  using assms
proof (induction es)
  case (Cons e es)
  then show ?case by (cases e) (auto simp: append_prefixD add.commute)
qed simp

lemma common_prefix_greatest:
  assumes "ks \<noteq> []"
  shows "k \<in> set ks \<Longrightarrow> prefix (common_prefix ks) k"
    and "(\<And>k. k \<in> set ks \<Longrightarrow> prefix q k) \<Longrightarrow> prefix q (common_prefix ks)"
proof -
  have *: "(\<forall>k \<in> set ks. prefix (common_prefix ks) k) \<and>
      ((\<forall>k \<in> set ks. prefix q k) \<longrightarrow> prefix q (common_prefix ks))"
    using assms
  proof (induction ks rule: common_prefix.induct)
    case (3 k l ks)
    then show ?case
      by (auto intro: longest_common_prefix_max_prefix prefix_order.trans
          [OF longest_common_prefix_prefix2] longest_common_prefix_prefix1)
  qed auto
  then show "k \<in> set ks \<Longrightarrow> prefix (common_prefix ks) k"
    and "(\<And>k. k \<in> set ks \<Longrightarrow> prefix q k) \<Longrightarrow> prefix q (common_prefix ks)" by auto
qed

lemma common_prefix_eqI:
  assumes q: "\<And>k. k \<in> set ks \<Longrightarrow> prefix q k" and k: "k1 \<in> set ks" "k2 \<in> set ks"
    and l: "length q < length k1" "length q < length k2" "k1 ! length q \<noteq> k2 ! length q"
  shows "common_prefix ks = q"
proof (rule ccontr)
  assume neq: "common_prefix ks \<noteq> q"
  have ne: "ks \<noteq> []" using k by auto
  have "prefix q (common_prefix ks)" using common_prefix_greatest(2) [OF ne q] .
  with neq obtain zs where zs: "common_prefix ks = q @ zs" "zs \<noteq> []" by (auto simp: prefix_def)
  then obtain n where "common_prefix ks = (q @ [n]) @ tl zs" by (cases zs) auto
  then have "prefix (q @ [n]) (common_prefix ks)" by (rule prefixI)
  then have "prefix (q @ [n]) k1" "prefix (q @ [n]) k2"
    using common_prefix_greatest(1) [OF ne] k prefix_order.trans by blast+
  with l(3) show False by (simp add: prefix_snoc_iff)
qed

definition branch_at :: "rlp_env \<Rightarrow> entry list \<Rightarrow> bytes \<Rightarrow> bytes" where
  "branch_at R es p = node_ref (re_keccak R) (re_list R
     (map (\<lambda>n. mpt R (below es (p @ [n]))) nibbles @ [re_empty_data R]))"

text \<open>The reference of a branch below a prefix: all entries go through \<open>p @ q\<close>, and two of
  them part there.\<close>

lemma mpt_branch:
  assumes all: "\<forall>(k, v) \<in> set es. prefix p k \<longrightarrow> prefix (p @ q) k"
    and e: "(k1, v1) \<in> set es" "(k2, v2) \<in> set es" "prefix p k1" "prefix p k2"
    and l: "length (p @ q) < length k1" "length (p @ q) < length k2"
      "k1 ! length (p @ q) \<noteq> k2 ! length (p @ q)"
  shows "mpt R (below es p) = extend R q (branch_at R es (p @ q))"
proof -
  let ?es = "below es p"
  have in1: "(drop (length p) k1, v1) \<in> set ?es" "(drop (length p) k2, v2) \<in> set ?es"
    using e by (auto simp: below_def image_iff intro!: bexI)
  have neq: "drop (length p) k1 \<noteq> drop (length p) k2" using l by (auto dest: arg_cong [where f = "\<lambda>x. x ! length q"])
  obtain e1 e2 fs where es: "?es = e1 # e2 # fs"
    using in1 neq by (cases ?es; cases "tl ?es") auto
  have "common_prefix (map fst ?es) = q"
  proof (rule common_prefix_eqI)
    fix k assume "k \<in> set (map fst ?es)"
    then obtain k' v' where "(k', v') \<in> set es" "prefix p k'" "k = drop (length p) k'" by (auto simp: below_def)
    moreover from this all have "prefix (p @ q) k'" by blast
    ultimately show "prefix q k" by (auto simp: prefix_def)
  next
    show "drop (length p) k1 \<in> set (map fst ?es)" "drop (length p) k2 \<in> set (map fst ?es)"
      using in1 by force+
  qed (use l in auto)
  then have "mpt R ?es = extend R q (node_ref (re_keccak R) (re_list R
      (map (\<lambda>n. mpt R (tails n (strip q ?es))) nibbles @ [re_empty_data R])))"
    unfolding es by (simp add: mpt.simps(3) Let_def)
  then show ?thesis by (simp add: branch_at_def strip_below [OF all] tails_below)
qed

section \<open>Where keys part\<close>

lemma prefix_length_Nil [simp]: "prefix_length [] s = 0" "prefix_length k [] = 0"
  by (simp_all add: prefix_length_longest)

lemma prefix_length_Cons [simp]:
  "prefix_length (x # k) (y # s) = (if x = y then Suc (prefix_length k s) else 0)"
  by (simp add: prefix_length_longest)

lemma prefix_length_commute: "prefix_length k s = prefix_length s k"
  by (induction k s rule: list_induct2') auto

lemma prefix_take_iff: "i \<le> length s \<Longrightarrow> prefix (take i s) k \<longleftrightarrow> i \<le> prefix_length k s"
proof (induction k s arbitrary: i rule: list_induct2')
  case (3 y s)
  then show ?case by (cases i) auto
next
  case (4 x k y s)
  then show ?case by (cases i) auto
qed auto

lemma prefix_length_nth: "i < prefix_length k s \<Longrightarrow> k ! i = s ! i"
proof (induction k s arbitrary: i rule: list_induct2')
  case (4 x k y s)
  then show ?case by (cases i) (auto split: if_splits)
qed auto

text \<open>A smaller key that is not a prefix parts from the larger one with a smaller digit.\<close>

lemma parts:
  "k < s \<Longrightarrow> \<not> prefix k s \<Longrightarrow> prefix_length k s < length k \<and> prefix_length k s < length s \<and>
     k ! prefix_length k s < s ! prefix_length k s"
  for k s :: bytes
  by (induction k s rule: list_induct2') auto

lemma parts_later:
  assumes "prefix_length k s < prefix_length s t"
  shows "prefix_length k t = prefix_length k s"
  using assms
proof (induction k s arbitrary: t rule: list_induct2')
  case (4 x k y s)
  then show ?case by (cases t) (auto split: if_splits)
qed auto

lemma parts_at:
  assumes "prefix_length s t \<le> prefix_length k s" and "s < t" and "\<not> prefix s t"
    and "k < s" and "\<not> prefix k s"
  shows "prefix_length k t = prefix_length s t"
  using assms
proof (induction k s arbitrary: t rule: list_induct2')
  case (4 x k y s)
  then show ?case by (cases t) (auto split: if_splits)
qed auto

section \<open>Open branches\<close>

definition keys_ok :: "entry list \<Rightarrow> bytes \<Rightarrow> bool" where
  "keys_ok P s \<longleftrightarrow> s \<noteq> [] \<and> list_all is_nibble s \<and>
     (\<forall>(k, v) \<in> set P. k < s \<and> \<not> prefix k s \<and> list_all is_nibble k)"

text \<open>The digits at which smaller keys part from \<open>s\<close> at depth \<open>i\<close>: the children of the open
  branch there.\<close>

definition div_digits :: "entry list \<Rightarrow> bytes \<Rightarrow> nat \<Rightarrow> bytes" where
  "div_digits P s i = filter (\<lambda>d. \<exists>(k, v) \<in> set P. prefix_length k s = i \<and> k ! i = d) nibbles"

lemma nibbles_sorted: "sorted_wrt (<) nibbles"
  by (simp add: nibbles_def upt_rec)

lemma nibbles_iff: "d \<in> set nibbles \<longleftrightarrow> is_nibble d"
proof
  assume "d \<in> set nibbles"
  then obtain j where "d = word_of_nat j" "j < 16" by (auto simp: nibbles_def)
  then show "is_nibble d" by (simp add: is_nibble_def word_less_nat_alt unat_of_nat)
qed (use nibble_cases in \<open>auto simp: nibbles_def\<close>)

lemma filter_insert_last:
  fixes x :: "'a::linorder"
  assumes "sorted_wrt (<) xs" and "x \<in> set xs" and "\<And>y. Q y \<Longrightarrow> y < x"
  shows "filter (\<lambda>d. Q d \<or> d = x) xs = filter Q xs @ [x]"
  using assms(1,2)
proof (induction xs)
  case (Cons y ys)
  show ?case
  proof (cases "y = x")
    case True
    with Cons.prems have "\<forall>z \<in> set ys. x < z" by simp
    then have "\<not> Q z \<and> z \<noteq> x" if "z \<in> set ys" for z
      using that assms(3) [of z] by (metis less_asym less_irrefl)
    then have "filter Q ys = []" "filter (\<lambda>d. Q d \<or> d = x) ys = []" by (simp_all add: filter_empty_conv)
    with True assms(3) [of x] show ?thesis by auto
  next
    case False
    with Cons show ?thesis by simp
  qed
qed simp

lemma div_digits_less:
  assumes "keys_ok P s" and "d \<in> set (div_digits P s i)"
  shows "d < s ! i" and "i < length s"
  using assms parts by (fastforce simp: div_digits_def keys_ok_def)+

lemma div_digits_insert:
  assumes "keys_ok P s" and "i < length s"
  shows "filter (\<lambda>d. d \<in> set (div_digits P s i) \<or> d = s ! i) nibbles = div_digits P s i @ [s ! i]"
proof -
  have "s ! i \<in> set nibbles" using assms by (auto simp: nibbles_iff keys_ok_def list_all_length)
  then have "filter (\<lambda>d. d \<in> set (div_digits P s i) \<or> d = s ! i) nibbles
      = filter (\<lambda>d. d \<in> set (div_digits P s i)) nibbles @ [s ! i]"
    using div_digits_less(1) [OF assms(1)] by (intro filter_insert_last nibbles_sorted)
  moreover have "filter (\<lambda>d. d \<in> set (div_digits P s i)) nibbles = div_digits P s i"
    unfolding div_digits_def by (rule filter_cong) auto
  ultimately show ?thesis by simp
qed

section \<open>Masks\<close>

definition mask_ok :: "u16 \<Rightarrow> bytes \<Rightarrow> bool" where
  "mask_ok m ds \<longleftrightarrow> (\<forall>j < 16. bit m j \<longleftrightarrow> word_of_nat j \<in> set ds)"

lemma word_of_nat_nibble: "j < 16 \<Longrightarrow> (word_of_nat j = (d :: u8)) \<longleftrightarrow> unat d = j"
  by (auto simp: word_unat_eq_iff unat_of_nat)

lemma bit_digit_flag: "is_nibble d \<Longrightarrow> j < 16 \<Longrightarrow> bit (digit_flag d) j \<longleftrightarrow> j = unat d"
  by (auto simp: digit_flag_def bit_exp_iff is_nibble_def word_less_nat_alt)

lemma mask_ok_or:
  assumes "mask_ok m ds" and "is_nibble d" and "set ds' = insert d (set ds)"
  shows "mask_ok (m OR digit_flag d) ds'"
  using assms by (auto simp: mask_ok_def bit_or_iff bit_digit_flag word_of_nat_nibble)

lemma mask_ok_zero: "mask_ok 0 ds \<Longrightarrow> set ds \<subseteq> set nibbles \<Longrightarrow> ds = []"
  by (cases ds) (auto simp: mask_ok_def nibbles_def)

lemma mask_ok_digits:
  assumes "mask_ok m ds" and "ds = filter (\<lambda>d. d \<in> set ds) nibbles"
  shows "map word_of_nat (filter (bit m) [0..<16]) = ds" and "count_ones m = length ds"
proof -
  have "filter (\<lambda>d. d \<in> set ds) nibbles = map word_of_nat (filter (\<lambda>j. word_of_nat j \<in> set ds) [0..<16])"
    by (simp add: nibbles_def filter_map comp_def)
  also have "filter (\<lambda>j. word_of_nat j \<in> set ds) [0..<16] = filter (bit m) [0..<16]"
    using assms(1) by (intro filter_cong) (auto simp: mask_ok_def)
  finally show "map word_of_nat (filter (bit m) [0..<16]) = ds" using assms(2) by simp
  then show "count_ones m = length ds" by (metis count_ones_def length_map)
qed

section \<open>One round without a collector\<close>

lemma branch_fold:
  assumes "\<And>t. t < length (filter (bit sm) js) \<Longrightarrow> stack ! (i + t) = map f (filter (bit sm) js) ! t"
  shows "fold (\<lambda>digit (items, child_hashes, i).
            if bit sm digit
            then (items @ [stack ! i], if bit (0 :: u16) digit then child_hashes @ [stack ! i] else child_hashes, i + 1)
            else (items @ [empty_data], child_hashes, i)) js (items, ch, i)
    = (items @ map (\<lambda>j. if bit sm j then f j else empty_data) js, ch, i + length (filter (bit (sm :: u16)) js))"
  using assms
proof (induction js arbitrary: items i)
  case (Cons j js)
  show ?case
  proof (cases "bit sm j")
    case True
    have "stack ! (Suc i + t) = map f (filter (bit sm) js) ! t" if "t < length (filter (bit sm) js)" for t
      using Cons.prems [of "Suc t"] that True by simp
    note IH = Cons.IH [OF this]
    from True Cons.prems [of 0] show ?thesis by (simp add: IH)
  next
    case False
    with Cons show ?thesis by simp
  qed
qed simp

lemma branch_items_plain:
  assumes "stack = base @ map f (filter (bit sm) [0..<16])"
  shows "branch_items R sm 0 stack (length base) =
    (map (\<lambda>j. if bit sm j then f j else re_empty_data R) [0..<16] @ [re_empty_data R], [])"
proof -
  have "stack ! (length base + t) = map f (filter (bit sm) [0..<16]) ! t"
    if "t < length (filter (bit sm) [0..<16])" for t
    using that by (simp add: assms nth_append)
  from branch_fold [OF this] show ?thesis by (simp add: branch_items_def)
qed

definition plain :: "hash_builder \<Rightarrow> bool" where
  "plain b \<longleftrightarrow> hb_node_collector b = None \<and> length (hb_tree_masks b) = length (hb_hash_masks b) \<and>
     set (hb_hash_masks b) \<subseteq> {0}"

lemma plain_resize:
  "plain b \<Longrightarrow> plain (b\<lparr> hb_tree_masks := resize n 0 (hb_tree_masks b), hb_hash_masks := resize n 0 (hb_hash_masks b) \<rparr>)"
  by (auto simp: plain_def resize_def dest: in_set_takeD)

lemma close_branch_plain:
  assumes b: "plain b" and len: "len < length (hb_groups b)" "len < length (hb_hash_masks b)"
    and st: "hb_stack b = base @ map f (filter (bit (hb_groups b ! len)) [0..<16])"
  shows "close_branch R current len b = Inr (b\<lparr> hb_stack := base @ [node_ref (re_keccak R) (re_list R
    (map (\<lambda>j. if bit (hb_groups b ! len) j then f j else re_empty_data R) [0..<16] @ [re_empty_data R]))] \<rparr>)"
proof -
  have "hb_hash_masks b ! len = 0" using b len(2) nth_mem by (fastforce simp: plain_def)
  moreover have "length (hb_stack b) - count_ones (hb_groups b ! len) = length base"
    "\<not> length (hb_stack b) < count_ones (hb_groups b ! len)"
    using st by (simp_all add: count_ones_def)
  ultimately show ?thesis
    using b len branch_items_plain [OF st, of R] st
    by (simp add: close_branch_def get_at_def vec_get_def branch_ref_def assert_subset_def plain_def)
qed

text \<open>What the round puts on the stack: the value, or the node there, below the short key.\<close>

definition pending :: "rlp_env \<Rightarrow> bool \<Rightarrow> hash_builder \<Rightarrow> bytes list \<Rightarrow> (bytes \<Rightarrow> bytes) \<Rightarrow> bool" where
  "pending R build b base X \<longleftrightarrow>
     (if build then \<exists>top. hb_stack b = base @ [top] \<and> X = (\<lambda>q. extend R q top)
      else hb_stack b = base \<and> X = (\<lambda>q. entry_ref R q (hb_value b)))"

definition same_frame :: "hash_builder \<Rightarrow> hash_builder \<Rightarrow> bool" where
  "same_frame b b' \<longleftrightarrow> hb_groups b' = hb_groups b \<and> hb_key b' = hb_key b \<and> hb_value b' = hb_value b"

lemma push_phase:
  assumes b: "plain b" and p: "pending R build b base X"
  shows "\<exists>b'. bind_r (if build then Inr (b, True) else push_value R current short b)
      (\<lambda>(b, build). bind_r (if build \<and> short \<noteq> [] then push_extension R current len_from short b else Inr b) K) = K b'
    \<and> hb_stack b' = base @ [X short] \<and> plain b' \<and> same_frame b b'
    \<and> min len_from (length (hb_hash_masks b)) \<le> length (hb_hash_masks b')"
proof -
  have ext: "push_extension R current len_from short c = Inr (c\<lparr> hb_stack := base @ [extend R short top],
        hb_hash_masks := resize len_from 0 (hb_hash_masks c), hb_tree_masks := resize len_from 0 (hb_tree_masks c) \<rparr>)"
    if "plain c" "hb_stack c = base @ [top]" "short \<noteq> []" for c top
    using that by (simp add: push_extension_def plain_def extend_def)
  have fin: "\<exists>b'. bind_r (if short \<noteq> [] then push_extension R current len_from short c else Inr c) K = K b'
      \<and> hb_stack b' = base @ [extend R short top] \<and> plain b' \<and> same_frame c b'
      \<and> min len_from (length (hb_hash_masks c)) \<le> length (hb_hash_masks b')"
    if c: "plain c" "hb_stack c = base @ [top]" for c top
  proof (cases "short = []")
    case True
    with c show ?thesis by (auto simp: extend_def same_frame_def)
  next
    case False
    let ?c = "c\<lparr> hb_stack := base @ [extend R short top], hb_hash_masks := resize len_from 0 (hb_hash_masks c),
      hb_tree_masks := resize len_from 0 (hb_tree_masks c) \<rparr>"
    have "plain ?c" using plain_resize [OF c(1), of len_from] by (simp add: plain_def)
    with False show ?thesis
      by (intro exI [of _ ?c]) (simp add: ext [OF c] same_frame_def)
  qed
  show ?thesis
  proof (cases build)
    case True
    then obtain top where "hb_stack b = base @ [top]" "X = (\<lambda>q. extend R q top)" using p by (auto simp: pending_def)
    with fin [OF b] True show ?thesis by auto
  next
    case False
    then have st: "hb_stack b = base" and X: "X = (\<lambda>q. entry_ref R q (hb_value b))" using p by (auto simp: pending_def)
    show ?thesis
    proof (cases "hb_value b")
      case (HB_Bytes v)
      then show ?thesis using False st X b
        by (intro exI [of _ "b\<lparr> hb_stack := base @ [X short] \<rparr>"]) (auto simp: push_value_def plain_def same_frame_def)
    next
      case (HB_Hash h)
      let ?c = "b\<lparr> hb_stack := base @ [wrap_hash h] \<rparr>"
      have "push_value R current short b = Inr (?c, True)" using HB_Hash st b by (simp add: push_value_def plain_def)
      moreover have "plain ?c" using b by (simp add: plain_def)
      from fin [OF this, of "wrap_hash h"] obtain b' where
        "bind_r (if short \<noteq> [] then push_extension R current len_from short ?c else Inr ?c) K = K b'"
        "hb_stack b' = base @ [extend R short (wrap_hash h)]" "plain b'" "same_frame ?c b'"
        "min len_from (length (hb_hash_masks ?c)) \<le> length (hb_hash_masks b')" by auto
      ultimately show ?thesis using False X HB_Hash
        by (intro exI [of _ b']) (simp add: same_frame_def)
    qed
  qed
qed

section \<open>The stack\<close>

definition closed :: "rlp_env \<Rightarrow> entry list \<Rightarrow> bytes \<Rightarrow> nat \<Rightarrow> bytes list" where
  "closed R P s i = map (\<lambda>d. mpt R (below P (take i s @ [d]))) (div_digits P s i)"

definition stk :: "rlp_env \<Rightarrow> entry list \<Rightarrow> bytes \<Rightarrow> nat \<Rightarrow> bytes list" where
  "stk R P s G = concat (map (closed R P s) [0..<G])"

definition groups_ok :: "entry list \<Rightarrow> bytes \<Rightarrow> u16 list \<Rightarrow> bool" where
  "groups_ok P s gs \<longleftrightarrow> (\<forall>i < length gs. mask_ok (gs ! i) (div_digits P s i)) \<and> (gs \<noteq> [] \<longrightarrow> last gs \<noteq> 0)"

lemma stk_Suc: "stk R P s (Suc G) = stk R P s G @ closed R P s G"
  by (simp add: stk_def)

lemma stk_extend:
  assumes "G \<le> H" and "\<And>i. G \<le> i \<Longrightarrow> i < H \<Longrightarrow> div_digits P s i = []"
  shows "stk R P s H = stk R P s G"
  using assms by (induction H) (auto simp: stk_Suc closed_def le_Suc_eq)

lemma drop_zeros_snoc: "drop_zeros (xs @ [x]) = (if x = 0 then drop_zeros xs else xs @ [x])"
  by (simp add: drop_zeros_def)

lemma drop_zeros_take:
  "drop_zeros xs = take (length (drop_zeros xs)) xs \<and> length (drop_zeros xs) \<le> length xs \<and>
   (\<forall>i. length (drop_zeros xs) \<le> i \<longrightarrow> i < length xs \<longrightarrow> xs ! i = 0) \<and>
   (drop_zeros xs \<noteq> [] \<longrightarrow> last (drop_zeros xs) \<noteq> 0)"
proof (induction xs rule: rev_induct)
  case Nil
  show ?case by (simp add: drop_zeros_def)
next
  case (snoc x xs)
  then show ?case by (auto simp: drop_zeros_snoc nth_append)
qed

lemma drop_zeros_groups_ok:
  assumes "groups_ok P s gs" and "len \<le> length gs"
  shows "groups_ok P s (drop_zeros (take len gs))" and "length (drop_zeros (take len gs)) \<le> len"
    and "length (drop_zeros (take len gs)) \<le> i \<Longrightarrow> i < len \<Longrightarrow> div_digits P s i = []"
proof -
  note d = drop_zeros_take [of "take len gs"]
  show "groups_ok P s (drop_zeros (take len gs))"
  proof -
    let ?n = "length (drop_zeros (take len gs))"
    have n: "?n \<le> len" "?n \<le> length gs" using d by simp_all
    have eq: "drop_zeros (take len gs) = take ?n gs" using d n(1) by (metis min.absorb1 take_take)
    have "mask_ok (drop_zeros (take len gs) ! i) (div_digits P s i)" if "i < ?n" for i
      using assms(1) that n by (subst eq) (simp add: groups_ok_def)
    then show ?thesis using d by (simp add: groups_ok_def)
  qed
  show "length (drop_zeros (take len gs)) \<le> len" using d by simp
  assume "length (drop_zeros (take len gs)) \<le> i" "i < len"
  then have "gs ! i = 0" using d assms(2) by auto
  moreover have "mask_ok (gs ! i) (div_digits P s i)" using assms \<open>i < len\<close> by (simp add: groups_ok_def)
  ultimately show "div_digits P s i = []" using mask_ok_zero by (simp add: div_digits_def)
qed

section \<open>Closing a branch\<close>

lemma below_other:
  "d \<noteq> s ! i \<Longrightarrow> i < length s \<Longrightarrow> below (P @ [(s, v)]) (take i s @ [d]) = below P (take i s @ [d])"
  by (simp add: below_append prefix_snoc_iff)

lemma below_empty:
  assumes "keys_ok P s" and "i < length s" and "d \<notin> set (div_digits P s i)" and "d \<noteq> s ! i"
  shows "below (P @ [(s, v)]) (take i s @ [d]) = []"
proof -
  have "\<not> prefix (take i s @ [d]) k" if k: "(k, w) \<in> set P" for k w
  proof
    assume a: "prefix (take i s @ [d]) k"
    then have "i \<le> prefix_length k s" and ki: "k ! i = d" "i < length k"
      using assms(2) prefix_take_iff [of i s k] by (auto simp: prefix_snoc_iff)
    moreover have "prefix_length k s \<noteq> i"
    proof
      assume "prefix_length k s = i"
      moreover have "is_nibble d" using k ki assms(1) by (auto simp: keys_ok_def list_all_length)
      ultimately have "d \<in> set (div_digits P s i)" using k ki by (auto simp: div_digits_def nibbles_iff)
      with assms(3) show False by simp
    qed
    ultimately have "k ! i = s ! i" by (intro prefix_length_nth) simp
    with ki assms(4) show False by simp
  qed
  then show ?thesis
    unfolding below_other [OF assms(4,2)] by (auto simp: below_def filter_empty_conv)
qed

lemma branch_at_mask:
  assumes "keys_ok P s" and "i < length s" and "mask_ok m (div_digits P s i @ [s ! i])"
  shows "branch_at R (P @ [(s, v)]) (take i s) = node_ref (re_keccak R) (re_list R
    (map (\<lambda>j. if bit m j then mpt R (below (P @ [(s, v)]) (take i s @ [word_of_nat j])) else re_empty_data R) [0..<16]
     @ [re_empty_data R]))"
proof -
  have "mpt R (below (P @ [(s, v)]) (take i s @ [word_of_nat j])) =
      (if bit m j then mpt R (below (P @ [(s, v)]) (take i s @ [word_of_nat j])) else re_empty_data R)" if "j < 16" for j
    using that assms(3) below_empty [OF assms(1,2)] by (auto simp: mask_ok_def)
  then have "map (\<lambda>n. mpt R (below (P @ [(s, v)]) (take i s @ [n]))) nibbles =
      map (\<lambda>j. if bit m j then mpt R (below (P @ [(s, v)]) (take i s @ [word_of_nat j])) else re_empty_data R) [0..<16]"
    unfolding nibbles_def map_map comp_def by (intro map_cong) auto
  then show ?thesis by (simp add: branch_at_def)
qed

lemma closed_children:
  assumes "keys_ok P s" and "i < length s" and m: "mask_ok m (div_digits P s i @ [s ! i])"
  shows "closed R P s i @ [mpt R (below (P @ [(s, v)]) (take i s @ [s ! i]))] =
    map (\<lambda>j. mpt R (below (P @ [(s, v)]) (take i s @ [word_of_nat j]))) (filter (bit m) [0..<16])"
proof -
  have ds: "div_digits P s i @ [s ! i] = filter (\<lambda>d. d \<in> set (div_digits P s i @ [s ! i])) nibbles"
    using div_digits_insert [OF assms(1,2)] by (simp add: disj_commute)
  have "closed R P s i = map (\<lambda>d. mpt R (below (P @ [(s, v)]) (take i s @ [d]))) (div_digits P s i)"
    unfolding closed_def using below_other [of _ s i P v] div_digits_less(1) [OF assms(1)] assms(2)
    by (intro map_cong) (auto simp: less_imp_neq)
  then have "closed R P s i @ [mpt R (below (P @ [(s, v)]) (take i s @ [s ! i]))]
      = map (\<lambda>d. mpt R (below (P @ [(s, v)]) (take i s @ [d]))) (div_digits P s i @ [s ! i])" by simp
  also have "div_digits P s i @ [s ! i] = map word_of_nat (filter (bit m) [0..<16])"
    using mask_ok_digits(1) [OF m ds] by simp
  finally show ?thesis by (simp add: comp_def)
qed

lemma mpt_up:
  assumes K: "keys_ok P s" and len: "len < length s" and ne: "div_digits P s len \<noteq> []" and j: "j \<le> len"
    and gap: "\<And>i. j \<le> i \<Longrightarrow> i < len \<Longrightarrow> div_digits P s i = []"
  shows "mpt R (below (P @ [(s, v)]) (take j s)) =
    extend R (drop j (take len s)) (branch_at R (P @ [(s, v)]) (take len s))"
proof -
  have pq: "take j s @ drop j (take len s) = take len s"
    by (metis append_take_drop_id j min.absorb1 take_take)
  have far: "prefix (take len s) k" if k: "(k, w) \<in> set P" and p: "prefix (take j s) k" for k w
  proof -
    have "j \<le> prefix_length k s" using p j len prefix_take_iff [of j s k] by simp
    moreover have "prefix_length k s \<noteq> i" if "j \<le> i" "i < len" for i
    proof
      assume i: "prefix_length k s = i"
      have "i < length k" using k K parts [of k s] i by (auto simp: keys_ok_def)
      then have "is_nibble (k ! i)" using k K by (auto simp: keys_ok_def list_all_length)
      then have "k ! i \<in> set (div_digits P s i)" using k i by (auto simp: div_digits_def nibbles_iff)
      with gap [OF that] show False by simp
    qed
    ultimately have "len \<le> prefix_length k s" using not_le by blast
    then show ?thesis using prefix_take_iff [of len s k] len by simp
  qed
  from ne obtain d where "d \<in> set (div_digits P s len)" by (cases "div_digits P s len") auto
  then obtain k w where k: "(k, w) \<in> set P" "prefix_length k s = len" by (auto simp: div_digits_def)
  have kl: "len < length k" "k ! len \<noteq> s ! len"
    using k K parts [of k s] by (auto simp: keys_ok_def less_imp_neq)
  have kp: "prefix (take j s) k" using prefix_take_iff [of j s k] j len k by simp
  have "mpt R (below (P @ [(s, v)]) (take j s)) =
      extend R (drop j (take len s)) (branch_at R (P @ [(s, v)]) (take j s @ drop j (take len s)))"
  proof (rule mpt_branch [of _ _ _ s v k w])
    show "\<forall>(k, w) \<in> set (P @ [(s, v)]). prefix (take j s) k \<longrightarrow> prefix (take j s @ drop j (take len s)) k"
      unfolding pq using far by (auto simp: take_is_prefix)
  qed (use k kp kl len in \<open>auto simp: pq take_is_prefix\<close>)
  then show ?thesis unfolding pq .
qed

section \<open>The next key\<close>

lemma prefix_length_take: "prefix_length t (take L s) = min L (prefix_length t s)"
proof (induction t s arbitrary: L rule: list_induct2')
  case (4 x t y s)
  then show ?case by (cases L) auto
qed auto

lemma next_div_digits:
  assumes K: "keys_ok P s" and t: "s < t" "\<not> prefix s t"
  defines "c \<equiv> prefix_length t s"
  shows "i < c \<Longrightarrow> div_digits (P @ [(s, v)]) t i = div_digits P s i"
    and "div_digits (P @ [(s, v)]) t c = div_digits P s c @ [s ! c]"
    and "c < i \<Longrightarrow> div_digits (P @ [(s, v)]) t i = []"
proof -
  have c: "prefix_length s t = c" by (simp add: c_def prefix_length_commute)
  have P: "prefix_length k t = (if prefix_length k s < c then prefix_length k s else c)" if "(k, w) \<in> set P" for k w
    using that K t parts_later [of k s t] parts_at [of s t k] c by (auto simp: keys_ok_def not_less)
  show "i < c \<Longrightarrow> div_digits (P @ [(s, v)]) t i = div_digits P s i"
    unfolding div_digits_def using P c by (intro filter_cong) fastforce+
  show "c < i \<Longrightarrow> div_digits (P @ [(s, v)]) t i = []"
    unfolding div_digits_def using P c by (fastforce simp: filter_empty_conv split: if_splits)
  have cl: "c < length s" using parts [OF t] c by simp
  have "(\<exists>(k, w) \<in> set (P @ [(s, v)]). prefix_length k t = c \<and> k ! c = d) \<longleftrightarrow> d \<in> set (div_digits P s c) \<or> d = s ! c"
    if "d \<in> set nibbles" for d
  proof
    assume "\<exists>(k, w) \<in> set (P @ [(s, v)]). prefix_length k t = c \<and> k ! c = d"
    then consider "d = s ! c" | k w where "(k, w) \<in> set P" "prefix_length k t = c" "k ! c = d" by auto
    then show "d \<in> set (div_digits P s c) \<or> d = s ! c"
    proof cases
      case 2
      then have "c \<le> prefix_length k s" using P by (auto split: if_splits)
      then consider "c = prefix_length k s" | "c < prefix_length k s" by (auto simp: le_less)
      then show ?thesis
      proof cases
        case 1
        with \<open>(k, w) \<in> set P\<close> \<open>k ! c = d\<close> that show ?thesis by (force simp: div_digits_def)
      qed (use prefix_length_nth [of c k s] \<open>k ! c = d\<close> in simp)
    qed simp
  next
    assume "d \<in> set (div_digits P s c) \<or> d = s ! c"
    then consider k w where "(k, w) \<in> set P" "prefix_length k s = c" "k ! c = d" | "d = s ! c"
      by (auto simp: div_digits_def)
    then show "\<exists>(k, w) \<in> set (P @ [(s, v)]). prefix_length k t = c \<and> k ! c = d"
    proof cases
      case 1
      with P show ?thesis by (intro bexI [of _ "(k, w)"]) auto
    qed (use c in \<open>intro bexI [of _ "(s, v)"]; simp\<close>)
  qed
  then have "div_digits (P @ [(s, v)]) t c = filter (\<lambda>d. d \<in> set (div_digits P s c) \<or> d = s ! c) nibbles"
    unfolding div_digits_def [of "P @ [(s, v)]"] by (intro filter_cong) auto
  then show "div_digits (P @ [(s, v)]) t c = div_digits P s c @ [s ! c]"
    using div_digits_insert [OF K cl] by simp
qed

lemma take_prefix_length: "take (prefix_length t s) t = take (prefix_length t s) s"
  by (induction t s rule: list_induct2') auto

lemma next_stk:
  assumes K: "keys_ok P s" and t: "s < t" "\<not> prefix s t"
  defines "c \<equiv> prefix_length t s"
  shows "stk R (P @ [(s, v)]) t (Suc c) = stk R P s (Suc c) @ [mpt R (below (P @ [(s, v)]) (take c s @ [s ! c]))]"
proof -
  have cl: "c < length s" using parts [OF t] by (simp add: c_def prefix_length_commute)
  have tk: "take i t = take i s" if "i \<le> c" for i
    using that take_prefix_length [of t s] by (metis c_def min.absorb1 take_take)
  have cls: "map (\<lambda>d. mpt R (below (P @ [(s, v)]) (take i t @ [d]))) (div_digits P s i) = closed R P s i" if "i \<le> c" for i
    unfolding closed_def tk [OF that]
    using below_other [of _ s i P v] div_digits_less(1) [OF K] cl that by (intro map_cong) (auto simp: less_imp_neq)
  have "stk R (P @ [(s, v)]) t c = stk R P s c"
    unfolding stk_def using cls next_div_digits(1) [OF K t, of _ v]
    by (intro arg_cong [where f = concat] map_cong) (auto simp: closed_def c_def)
  moreover have "closed R (P @ [(s, v)]) t c = closed R P s c @ [mpt R (below (P @ [(s, v)]) (take c s @ [s ! c]))]"
    using next_div_digits(2) [OF K t, of v] cls [of c] tk [of c] by (simp add: closed_def c_def)
  ultimately show ?thesis by (simp add: stk_Suc)
qed

lemma next_groups_ok:
  assumes K: "keys_ok P s" and t: "s < t" "\<not> prefix s t" and gs: "groups_ok P s gs"
    and gap: "\<And>i. length gs \<le> i \<Longrightarrow> i \<le> prefix_length t s \<Longrightarrow> div_digits P s i = []"
  defines "c \<equiv> prefix_length t s"
  assumes len: "length gs \<le> Suc c" and hs: "hs = resize (Suc c) 0 gs"
  shows "groups_ok (P @ [(s, v)]) t (hs[c := hs ! c OR digit_flag (s ! c)])"
proof -
  have cl: "c < length s" using parts [OF t] by (simp add: c_def prefix_length_commute)
  then have nib: "is_nibble (s ! c)" using K by (simp add: keys_ok_def list_all_length)
  have h: "mask_ok (hs ! i) (div_digits P s i)" if "i \<le> c" for i
    using that gs gap [of i] by (auto simp: hs resize_nth groups_ok_def mask_ok_def c_def)
  have "mask_ok (hs ! c OR digit_flag (s ! c)) (div_digits (P @ [(s, v)]) t c)"
    using next_div_digits(2) [OF K t, of v] h [of c] nib by (intro mask_ok_or) (auto simp: c_def)
  moreover have "bit (digit_flag (s ! c)) (unat (s ! c))"
    using bit_digit_flag [OF nib, of "unat (s ! c)"] nib by (simp add: is_nibble_def word_less_nat_alt)
  then have "hs ! c OR digit_flag (s ! c) \<noteq> 0" by (metis bit_or_iff bit_0_eq bot_apply bot_bool_def)
  moreover have "last (hs[c := hs ! c OR digit_flag (s ! c)]) = hs ! c OR digit_flag (s ! c)"
    by (simp add: last_conv_nth hs flip: length_greater_0_conv)
  ultimately show ?thesis
    using h next_div_digits(1) [OF K t, of _ v] by (auto simp: groups_ok_def nth_list_update hs c_def less_Suc_eq)
qed

section \<open>The loop\<close>

text \<open>What a step leaves behind: at the end of the keys the root, before another key the
  children of the branches that are open for it.\<close>

definition step_post :: "rlp_env \<Rightarrow> entry list \<Rightarrow> bytes \<Rightarrow> hash_builder \<Rightarrow> bool" where
  "step_post R P' t b \<longleftrightarrow> plain b \<and>
     (if t = [] then hb_stack b = [mpt R P'] \<and> hb_groups b = []
      else hb_stack b = stk R P' t (length (hb_groups b)) \<and> groups_ok P' t (hb_groups b) \<and>
        (\<forall>i \<ge> length (hb_groups b). div_digits P' t i = []))"

definition loop_pre :: "rlp_env \<Rightarrow> entry list \<Rightarrow> bytes \<Rightarrow> hash_builder_value \<Rightarrow> bytes \<Rightarrow> nat \<Rightarrow> bool \<Rightarrow> hash_builder \<Rightarrow> bool" where
  "loop_pre R P s v t L build b \<longleftrightarrow> 0 < L \<and> L \<le> length s \<and> (t \<noteq> [] \<longrightarrow> prefix_length t s < L) \<and>
     plain b \<and> groups_ok P s (hb_groups b) \<and> length (hb_groups b) \<le> L \<and>
     (\<forall>i. length (hb_groups b) \<le> i \<longrightarrow> i < L \<longrightarrow> div_digits P s i = []) \<and>
     (\<exists>X. pending R build b (stk R P s (length (hb_groups b))) X \<and>
       (\<forall>j. length (hb_groups b) \<le> j \<longrightarrow> j \<le> L \<longrightarrow>
          mpt R (below (P @ [(s, v)]) (take j s)) = X (drop j (take L s))))"

lemma mark_digit_facts:
  assumes "plain b"
  shows "plain (mark_digit len current b)" and "hb_stack (mark_digit len current b) = hb_stack b"
    and "hb_value (mark_digit len current b) = hb_value b"
    and "length current \<le> length (hb_hash_masks (mark_digit len current b))"
    and "pending R build b base X \<Longrightarrow> pending R build (mark_digit len current b) base X"
  using assms by (auto simp: mark_digit_def plain_def Let_def pending_def resize_def dest: in_set_takeD)

text \<open>A round: the value or the node on top is pushed, then the rest.\<close>

definition round_rest :: "rlp_env \<Rightarrow> bytes \<Rightarrow> bytes \<Rightarrow> nat \<Rightarrow> bool \<Rightarrow> nat \<Rightarrow> hash_builder \<Rightarrow> trie_error + hash_builder" where
  "round_rest R t current preceding_len preceding_exists len b =
     (if preceding_len \<le> prefix_length t current \<and> t \<noteq> [] then Inr b
      else bind_r (if t \<noteq> [] \<or> preceding_exists then close_branch R current len b else Inr b) (\<lambda>b.
        let b = b\<lparr> hb_groups := resize len 0 (hb_groups b), hb_tree_masks := resize len 0 (hb_tree_masks b),
                   hb_hash_masks := resize len 0 (hb_hash_masks b) \<rparr>
        in if preceding_len = 0 then Inr b
           else gen_struct_loop R t True (take preceding_len current) (b\<lparr> hb_groups := drop_zeros (hb_groups b) \<rparr>)))"

lemma gen_struct_round:
  assumes b: "plain b" and p: "pending R build b base X"
    and len: "max (length (hb_groups b) - 1) (prefix_length t current) = len" "len < length current"
    and lf: "(if t \<noteq> [] \<or> hb_groups b \<noteq> [] then len + 1 else len) = len_from"
  obtains b' where "gen_struct_loop R t build current b =
      round_rest R t current (length (hb_groups b) - 1) (hb_groups b \<noteq> []) len b'"
    and "hb_stack b' = base @ [X (drop len_from current)]" and "plain b'"
    and "hb_groups b' = hb_groups (mark_digit len current b)"
    and "min len_from (length current) \<le> length (hb_hash_masks b')"
proof -
  let ?m = "mark_digit len current b"
  let ?K = "round_rest R t current (length (hb_groups b) - 1) (hb_groups b \<noteq> []) len"
  have eq: "gen_struct_loop R t build current b =
      bind_r (if build then Inr (?m, True) else push_value R current (drop len_from current) ?m) (\<lambda>(b, build).
        bind_r (if build \<and> drop len_from current \<noteq> [] then push_extension R current len_from (drop len_from current) b
                else Inr b) ?K)"
    unfolding gen_struct_loop.simps [of R t build current b] Let_def len(1) lf round_rest_def [abs_def]
    using len(2) by (simp only: not_True_eq_False if_False)
  have "\<exists>b'. gen_struct_loop R t build current b = ?K b'
    \<and> hb_stack b' = base @ [X (drop len_from current)] \<and> plain b' \<and> same_frame ?m b'
    \<and> min len_from (length (hb_hash_masks ?m)) \<le> length (hb_hash_masks b')"
    unfolding eq by (rule push_phase [OF mark_digit_facts(1) [OF b] mark_digit_facts(5) [OF b p]])
  then obtain b' where "gen_struct_loop R t build current b = ?K b'"
    "hb_stack b' = base @ [X (drop len_from current)]" "plain b'" "same_frame ?m b'"
    "min len_from (length (hb_hash_masks ?m)) \<le> length (hb_hash_masks b')" by blast
  with mark_digit_facts(4) [OF b, of current len] show thesis
    by (intro that [of b']) (auto simp: same_frame_def)
qed

text \<open>The last round: another key follows, and it parts at or below the deepest open branch.\<close>

lemma loop_return:
  assumes pre: "loop_pre R P s v t L build b" and K: "keys_ok P s" and t: "s < t" "\<not> prefix s t"
    and le: "length (hb_groups b) - 1 \<le> prefix_length t s"
  shows "\<exists>b'. gen_struct_loop R t build (take L s) b = Inr b' \<and> step_post R (P @ [(s, v)]) t b'"
proof -
  define c where "c = prefix_length t s"
  let ?P = "P @ [(s, v)]" and ?G = "length (hb_groups b)" and ?m = "mark_digit c (take L s) b"
  have tne: "t \<noteq> []" using t by auto
  obtain X where L: "0 < L" "L \<le> length s" "c < L" and b: "plain b" "groups_ok P s (hb_groups b)"
    and gap: "\<And>i. ?G \<le> i \<Longrightarrow> i < L \<Longrightarrow> div_digits P s i = []"
    and pen: "pending R build b (stk R P s ?G) X"
    and X: "\<And>j. ?G \<le> j \<Longrightarrow> j \<le> L \<Longrightarrow> mpt R (below ?P (take j s)) = X (drop j (take L s))"
    using pre tne unfolding loop_pre_def c_def by blast
  have Gc: "?G \<le> Suc c" using le by (simp add: c_def)
  have cl: "c < length s" using L by simp
  have cp: "prefix_length t (take L s) = c" using L by (simp add: prefix_length_take c_def)
  obtain b' where b': "gen_struct_loop R t build (take L s) b =
      round_rest R t (take L s) (?G - 1) (hb_groups b \<noteq> []) c b'"
    "hb_stack b' = stk R P s ?G @ [X (drop (Suc c) (take L s))]" "plain b'" "hb_groups b' = hb_groups ?m"
    by (rule gen_struct_round [OF b(1) pen, of t "take L s" c "Suc c"])
      (use L le tne cp in \<open>auto simp: c_def [symmetric]\<close>)
  have r: "gen_struct_loop R t build (take L s) b = Inr b'"
    unfolding b'(1) round_rest_def cp using le tne by (simp add: c_def)
  have gr: "hb_groups ?m = (resize (Suc c) 0 (hb_groups b))[c := resize (Suc c) 0 (hb_groups b) ! c OR digit_flag (s ! c)]"
    using Gc L by (auto simp: mark_digit_def Let_def resize_ge not_le le_Suc_eq)
  have "stk R ?P t (Suc c) = stk R P s (Suc c) @ [mpt R (below ?P (take c s @ [s ! c]))]"
    using next_stk [OF K t] by (simp add: c_def)
  also have "stk R P s (Suc c) = stk R P s ?G" using Gc L gap by (intro stk_extend) auto
  also have "take c s @ [s ! c] = take (Suc c) s" using cl by (simp add: take_Suc_conv_app_nth)
  also have "mpt R (below ?P (take (Suc c) s)) = X (drop (Suc c) (take L s))" using Gc L by (intro X) auto
  finally have "hb_stack b' = stk R ?P t (length (hb_groups b'))"
    using b' gr by simp
  moreover have "groups_ok ?P t (hb_groups b')"
    using next_groups_ok [OF K t b(2)] gap L Gc b'(4) gr by (simp add: c_def)
  moreover have "div_digits ?P t i = []" if "i \<ge> length (hb_groups b')" for i
    using that next_div_digits(3) [OF K t] b'(4) gr by (simp add: c_def)
  ultimately show ?thesis using b'(3) r tne by (simp add: step_post_def)
qed

text \<open>A round with no open branch at the end of the keys.\<close>

lemma loop_single:
  assumes pre: "loop_pre R P s v [] L build b" and "hb_groups b = []"
  shows "\<exists>b'. gen_struct_loop R [] build (take L s) b = Inr b' \<and> step_post R (P @ [(s, v)]) [] b'"
proof -
  let ?m = "mark_digit 0 (take L s) b" and ?P = "P @ [(s, v)]"
  obtain X where L: "0 < L" "L \<le> length s" and b: "plain b"
    and pen: "pending R build b [] X"
    and X: "mpt R (below ?P (take 0 s)) = X (drop 0 (take L s))"
    using pre assms(2) unfolding loop_pre_def by (auto simp: stk_def)
  have Ls: "0 < length (take L s)" using L by simp
  obtain b1 where b1: "gen_struct_loop R [] build (take L s) b = round_rest R [] (take L s) 0 False 0 b1"
    "hb_stack b1 = [] @ [X (drop 0 (take L s))]" "plain b1"
    by (rule gen_struct_round [OF b pen, of "[]" "take L s" 0 0]) (use Ls assms(2) in simp_all)
  then show ?thesis using X by (auto simp: step_post_def plain_def resize_def round_rest_def Let_def)
qed

text \<open>A round that closes the deepest open branch.\<close>

lemma round_rest_close:
  assumes "\<not> (len \<le> prefix_length t current \<and> t \<noteq> [])" and "pe" and "close_branch R current len b = Inr b1"
  shows "round_rest R t current len pe len b =
    (let b' = b1\<lparr> hb_groups := resize len 0 (hb_groups b1), hb_tree_masks := resize len 0 (hb_tree_masks b1),
                  hb_hash_masks := resize len 0 (hb_hash_masks b1) \<rparr>
     in if len = 0 then Inr b'
        else gen_struct_loop R t True (take len current) (b'\<lparr> hb_groups := drop_zeros (hb_groups b') \<rparr>))"
  unfolding round_rest_def if_not_P [OF assms(1)] assms(3) using assms(2) by simp

lemma loop_close:
  assumes pre: "loop_pre R P s v t L build b" and K: "keys_ok P s" and ne: "hb_groups b \<noteq> []"
    and go: "t = [] \<or> prefix_length t s < length (hb_groups b) - 1"
  defines "len \<equiv> length (hb_groups b) - 1"
  obtains b' where "gen_struct_loop R t build (take L s) b =
      (if len = 0 then Inr b' else gen_struct_loop R t True (take len s) (b'\<lparr> hb_groups := drop_zeros (hb_groups b') \<rparr>))"
    and "plain b'" and "hb_groups b' = take len (hb_groups b)"
    and "hb_stack b' = stk R P s len @ [branch_at R (P @ [(s, v)]) (take len s)]"
proof -
  let ?P = "P @ [(s, v)]" and ?G = "length (hb_groups b)" and ?m = "mark_digit len (take L s) b"
  obtain X where L: "0 < L" "L \<le> length s" "?G \<le> L" and b: "plain b" "groups_ok P s (hb_groups b)"
    and pen: "pending R build b (stk R P s ?G) X"
    and X: "mpt R (below ?P (take ?G s)) = X (drop ?G (take L s))"
    using pre unfolding loop_pre_def by blast
  have G: "?G = Suc len" using ne by (simp add: len_def)
  have cp: "prefix_length t (take L s) \<le> len"
    using go L by (auto simp: prefix_length_take len_def)
  have ret: "\<not> (len \<le> prefix_length t (take L s) \<and> t \<noteq> [])"
    using go L by (auto simp: prefix_length_take len_def)
  have ll: "len < length s" using G L by simp
  let ?r = "\<lambda>b. b\<lparr> hb_groups := resize len 0 (hb_groups b), hb_tree_masks := resize len 0 (hb_tree_masks b),
      hb_hash_masks := resize len 0 (hb_hash_masks b) \<rparr>"
  have take: "take len (take L s) = take len s" using G L by simp
  have Ls: "len < length (take L s)" using G L by simp
  obtain b1 where b1: "gen_struct_loop R t build (take L s) b =
      round_rest R t (take L s) (?G - 1) (hb_groups b \<noteq> []) len b1"
    "hb_stack b1 = stk R P s ?G @ [X (drop ?G (take L s))]" "plain b1" "hb_groups b1 = hb_groups ?m"
    "min ?G (length (take L s)) \<le> length (hb_hash_masks b1)"
    by (rule gen_struct_round [OF b(1) pen, of t "take L s" len ?G])
      (use Ls ne cp G in \<open>simp_all add: len_def [symmetric] max_absorb1\<close>)
  have gr: "hb_groups b1 = (hb_groups b)[len := hb_groups b ! len OR digit_flag (s ! len)]"
    using b1(4) G L by (simp add: mark_digit_def Let_def)
  have nib: "is_nibble (s ! len)" using K ll by (simp add: keys_ok_def list_all_length)
  have m: "mask_ok (hb_groups b1 ! len) (div_digits P s len @ [s ! len])"
    using b(2) G nib by (auto simp: gr groups_ok_def intro: mask_ok_or)
  have top: "X (drop ?G (take L s)) = mpt R (below ?P (take len s @ [s ! len]))"
    using X ll by (simp add: G take_Suc_conv_app_nth)
  have st: "hb_stack b1 = stk R P s len @ map (\<lambda>j. mpt R (below ?P (take len s @ [word_of_nat j])))
      (filter (bit (hb_groups b1 ! len)) [0..<16])"
    using b1(2) closed_children [OF K ll m, of R v] unfolding top by (simp add: G stk_Suc)
  have "len < length (hb_hash_masks b1)" "len < length (hb_groups b1)"
    using b1(5) L G gr by simp_all
  from close_branch_plain [OF b1(3) this(2,1) st, of R "take L s"]
  have "close_branch R (take L s) len b1 =
      Inr (b1\<lparr> hb_stack := stk R P s len @ [branch_at R ?P (take len s)] \<rparr>)"
    unfolding branch_at_mask [OF K ll m, of R v] .
  from round_rest_close [OF ret _ this, of "hb_groups b \<noteq> []"] b1(1) ne
  have "gen_struct_loop R t build (take L s) b = (let b' = ?r (b1\<lparr> hb_stack := stk R P s len @ [branch_at R ?P (take len s)] \<rparr>)
      in if len = 0 then Inr b' else gen_struct_loop R t True (take len s) (b'\<lparr> hb_groups := drop_zeros (hb_groups b') \<rparr>))"
    unfolding len_def [symmetric] take by simp
  moreover have "plain (?r (b1\<lparr> hb_stack := x \<rparr>))" for x
    using plain_resize [OF b1(3), of len] by (simp add: plain_def)
  moreover have "hb_groups (?r (b1\<lparr> hb_stack := x \<rparr>)) = take len (hb_groups b)" for x
    using gr G by (simp add: resize_ge)
  ultimately show thesis
    by (intro that [of "?r (b1\<lparr> hb_stack := stk R P s len @ [branch_at R ?P (take len s)] \<rparr>)"])
      (simp_all only: Let_def, simp_all)
qed

lemma loop_correct:
  assumes K: "keys_ok P s" and t: "t = [] \<or> s < t \<and> \<not> prefix s t"
  shows "loop_pre R P s v t L build b \<Longrightarrow>
    \<exists>b'. gen_struct_loop R t build (take L s) b = Inr b' \<and> step_post R (P @ [(s, v)]) t b'"
proof (induction L arbitrary: build b rule: less_induct)
  case (less L)
  let ?gs = "hb_groups b" and ?P = "P @ [(s, v)]"
  consider "t = []" "?gs = []" | "t \<noteq> []" "length ?gs - 1 \<le> prefix_length t s"
    | "?gs \<noteq> []" "t = [] \<or> prefix_length t s < length ?gs - 1"
    by (cases "?gs = []"; cases "t = []"; cases "length ?gs - 1 \<le> prefix_length t s") (auto simp: not_le)
  then show ?case
  proof cases
    case 1
    with loop_single less.prems show ?thesis by simp
  next
    case 2
    with loop_return [OF less.prems K] t show ?thesis by blast
  next
    case 3
    define len where "len = length ?gs - 1"
    obtain b' where eq: "gen_struct_loop R t build (take L s) b =
        (if len = 0 then Inr b' else gen_struct_loop R t True (take len s) (b'\<lparr> hb_groups := drop_zeros (hb_groups b') \<rparr>))"
      and b': "plain b'" "hb_groups b' = take len ?gs" "hb_stack b' = stk R P s len @ [branch_at R ?P (take len s)]"
      using loop_close [OF less.prems K 3] unfolding len_def by blast
    have pre: "L \<le> length s" "groups_ok P s ?gs" "length ?gs \<le> L" using less.prems by (auto simp: loop_pre_def)
    have len: "len < length ?gs" using 3(1) by (simp add: len_def)
    then have len: "len < length ?gs" "len < L" "len < length s" using pre by simp_all
    have ne: "div_digits P s len \<noteq> []"
    proof
      assume "div_digits P s len = []"
      then have "mask_ok (?gs ! len) []" using pre(2) len(1) unfolding groups_ok_def by metis
      then have "?gs ! len = 0" by (auto simp: mask_ok_def bit_eq_iff bit_simps)
      moreover have "?gs ! len = last ?gs" using 3(1) by (simp add: len_def last_conv_nth)
      ultimately show False using pre(2) 3(1) by (simp add: groups_ok_def)
    qed
    note up = mpt_up [OF K len(3) ne, where v = v and R = R]
    let ?b = "b'\<lparr> hb_groups := drop_zeros (hb_groups b') \<rparr>"
    note dz = drop_zeros_groups_ok [OF pre(2), of len]
    show ?thesis
    proof (cases "len = 0")
      case True
      then have "t = []" using 3(2) by (auto simp: len_def)
      with True eq b' up [of 0] show ?thesis by (simp add: step_post_def stk_def extend_def)
    next
      case False
      have "loop_pre R P s v t len True ?b"
        unfolding loop_pre_def
      proof (intro conjI exI)
        show "pending R True ?b (stk R P s (length (hb_groups ?b))) (\<lambda>q. extend R q (branch_at R ?P (take len s)))"
          using b' dz len stk_extend [of "length (drop_zeros (take len ?gs))" len P s R]
          by (simp add: pending_def)
        show "\<forall>j. length (hb_groups ?b) \<le> j \<longrightarrow> j \<le> len \<longrightarrow>
            mpt R (below ?P (take j s)) = extend R (drop j (take len s)) (branch_at R ?P (take len s))"
          using up dz(3) b'(2) len by simp
        show "plain ?b" using b'(1) by (simp add: plain_def)
        show "t \<noteq> [] \<longrightarrow> prefix_length t s < len" using 3(2) by (auto simp: len_def)
      qed (use False len b' dz in auto)
      with less.IH [OF len(2) this] False eq show ?thesis by simp
    qed
  qed
qed

section \<open>All entries\<close>

text \<open>The calls a user of the builder makes: one per entry, then \<open>root_hash\<close>.  The flag
  \<open>is_in_db_trie\<close> of a branch node is given by \<open>db\<close>.\<close>

fun add_entry :: "rlp_env \<Rightarrow> (bytes \<Rightarrow> bool) \<Rightarrow> entry \<Rightarrow> hash_builder \<Rightarrow> trie_error + hash_builder" where
  "add_entry R db (k, HB_Bytes v) b = add_leaf R k v b"
| "add_entry R db (k, HB_Hash h) b = add_branch_node R k h (db k) b"

fun add_entries :: "rlp_env \<Rightarrow> (bytes \<Rightarrow> bool) \<Rightarrow> entry list \<Rightarrow> hash_builder \<Rightarrow> trie_error + hash_builder" where
  "add_entries R db [] b = Inr b"
| "add_entries R db (e # es) b = bind_r (add_entry R db e b) (add_entries R db es)"

definition built_root :: "rlp_env \<Rightarrow> (bytes \<Rightarrow> bool) \<Rightarrow> entry list \<Rightarrow> trie_error + h256" where
  "built_root R db es = bind_r (add_entries R db es hash_builder_new) (\<lambda>b.
     bind_r (hb_root_hash R b) (\<lambda>(h, b). Inr h))"

text \<open>The keys ascend, and none is a prefix of another.\<close>

definition entries_ok :: "entry list \<Rightarrow> bool" where
  "entries_ok es \<longleftrightarrow> sorted_wrt (\<lambda>e f. fst e < fst f \<and> \<not> prefix (fst e) (fst f)) es \<and>
     (\<forall>e \<in> set es. fst e \<noteq> [] \<and> list_all is_nibble (fst e))"

text \<open>The root of the yellow paper: the Keccak hash of the node for all entries.\<close>

fun root_rlp :: "rlp_env \<Rightarrow> entry list \<Rightarrow> bytes" where
  "root_rlp R [] = re_empty_data R"
| "root_rlp R [(k, HB_Bytes v)] = leaf_node_rlp R k v"
| "root_rlp R [(k, HB_Hash h)] = extension_node_rlp R k (wrap_hash h)"
| "root_rlp R (e1 # e2 # es) =
     (let p = common_prefix (map fst (e1 # e2 # es));
          branch = re_list R (map (\<lambda>n. mpt R (tails n (strip p (e1 # e2 # es)))) nibbles @ [re_empty_data R])
      in if p = [] then branch else extension_node_rlp R p (node_ref (re_keccak R) branch))"

definition trie_root :: "rlp_env \<Rightarrow> entry list \<Rightarrow> h256" where
  "trie_root R es = (if es = [] then EMPTY_ROOT else re_keccak R (root_rlp R es))"

lemma mpt_root_rlp:
  assumes "entries_ok es" and "es \<noteq> []"
  shows "mpt R es = node_ref (re_keccak R) (root_rlp R es)"
proof (cases "(R, es)" rule: root_rlp.cases)
  case (3 R' k h)
  with assms show ?thesis by (simp add: entries_ok_def extend_def)
next
  case (4 R' e1 e2 es')
  then show ?thesis by (simp add: mpt.simps(3) Let_def extend_def)
qed (use assms in auto)

lemma root_of_mpt:
  assumes "entries_ok es" and "es \<noteq> []"
  shows "trie_root R es =
    (if length (mpt R es) = KECCAK_LENGTH + 1 then of_be (drop 1 (mpt R es)) else re_keccak R (mpt R es))"
  using mpt_root_rlp [OF assms, of R] assms(2)
  by (auto simp: trie_root_def node_ref_def wrap_hash_def of_be_to_be KECCAK_LENGTH_def)

text \<open>Between two calls the builder holds the last entry, and the stack and masks for the ones
  before it.\<close>

definition holds :: "rlp_env \<Rightarrow> entry list \<Rightarrow> entry \<Rightarrow> hash_builder \<Rightarrow> bool" where
  "holds R P e b \<longleftrightarrow> hb_key b = fst e \<and> hb_value b = snd e \<and> step_post R P (fst e) b"

lemma no_other_below:
  assumes K: "keys_ok P s" and d: "\<And>i. j \<le> i \<Longrightarrow> div_digits P s i = []" and j: "j \<le> length s"
  shows "below P (take j s) = []"
proof -
  have False if k: "(k, w) \<in> set P" and p: "prefix (take j s) k" for k w
  proof -
    have "j \<le> prefix_length k s" using p j by (simp add: prefix_take_iff)
    then have "div_digits P s (prefix_length k s) = []" by (rule d)
    moreover have "prefix_length k s < length k" using K k parts [of k s] by (auto simp: keys_ok_def)
    then have "k ! prefix_length k s \<in> set nibbles"
      using K k by (auto simp: nibbles_iff keys_ok_def list_all_length)
    ultimately show False using k by (fastforce simp: div_digits_def filter_empty_conv)
  qed
  then show ?thesis by (auto simp: below_def filter_empty_conv)
qed

lemma loop_start:
  assumes K: "keys_ok P s" and t: "t = [] \<or> s < t \<and> \<not> prefix s t" and b: "step_post R P s b"
  shows "loop_pre R P s (hb_value b) t (length s) False b"
proof -
  let ?G = "length (hb_groups b)"
  have s: "s \<noteq> []" using K by (simp add: keys_ok_def)
  with b have b: "plain b" "hb_stack b = stk R P s ?G" "groups_ok P s (hb_groups b)"
    and gap: "\<And>i. ?G \<le> i \<Longrightarrow> div_digits P s i = []" by (auto simp: step_post_def)
  have G: "?G \<le> length s"
  proof (cases "hb_groups b = []")
    case False
    then have "hb_groups b ! (?G - 1) \<noteq> 0" "mask_ok (hb_groups b ! (?G - 1)) (div_digits P s (?G - 1))"
      using b(3) by (auto simp: groups_ok_def last_conv_nth)
    then have "div_digits P s (?G - 1) \<noteq> []" by (auto simp: mask_ok_def bit_eq_iff bit_simps)
    then obtain d where "d \<in> set (div_digits P s (?G - 1))" by (meson list.set_sel(1))
    from div_digits_less(2) [OF K this] show ?thesis by simp
  qed simp
  have "mpt R (below (P @ [(s, hb_value b)]) (take j s)) = entry_ref R (drop j s) (hb_value b)"
    if "?G \<le> j" "j \<le> length s" for j
    using no_other_below [OF K _ that(2)] gap that by (simp add: below_append take_is_prefix)
  moreover have "t \<noteq> [] \<longrightarrow> prefix_length t s < length s"
    using t parts [of s t] by (auto simp: prefix_length_commute)
  ultimately show ?thesis using b G gap s by (auto simp: loop_pre_def pending_def)
qed

lemma step_correct:
  assumes "keys_ok P s" and "t = [] \<or> s < t \<and> \<not> prefix s t" and "step_post R P s b" and "hb_value b = v"
  shows "\<exists>b'. gen_struct_step R s t b = Inr b' \<and> step_post R (P @ [(s, v)]) t b'"
  using loop_correct [OF assms(1,2) loop_start [OF assms(1-3)]] assms(4) by (simp add: gen_struct_step_def)

lemma step_post_update [simp]:
  "step_post R P t (b\<lparr> hb_key := k, hb_value := v \<rparr>) = step_post R P t b"
  "step_post R P t (b\<lparr> hb_key := k, hb_value := v, hb_is_in_db_trie := db \<rparr>) = step_post R P t b"
  by (simp_all add: step_post_def plain_def)

lemma add_entry_holds:
  assumes K: "keys_ok P (fst e)" and h: "holds R P e b" and lt: "fst e < fst f" "\<not> prefix (fst e) (fst f)"
  shows "\<exists>b'. add_entry R db f b = Inr b' \<and> holds R (P @ [e]) f b'"
proof -
  have ne: "hb_key b \<noteq> []" "hb_key b = fst e" using K h by (auto simp: holds_def keys_ok_def)
  obtain b' where "gen_struct_step R (fst e) (fst f) b = Inr b'" "step_post R (P @ [e]) (fst f) b'"
    using step_correct [OF K, of "fst f" R b "snd e"] h lt by (auto simp: holds_def)
  with ne lt show ?thesis
    by (cases f; cases "snd f") (auto simp: holds_def add_leaf_def add_branch_node_def)
qed

lemma entries_ok_keys: "entries_ok (P @ e # es) \<Longrightarrow> keys_ok P (fst e)"
  by (simp add: entries_ok_def keys_ok_def sorted_wrt_append case_prod_unfold)

lemma Nil_less_iff: "[] < a \<longleftrightarrow> a \<noteq> []" for a :: bytes
  by (cases a) auto

lemma add_entries_holds:
  assumes "holds R P e b" and "entries_ok (P @ e # es)"
  shows "\<exists>b'. add_entries R db es b = Inr b' \<and> holds R (butlast (P @ e # es)) (last (e # es)) b'"
  using assms
proof (induction es arbitrary: P e b)
  case (Cons f es)
  have "fst e < fst f" "\<not> prefix (fst e) (fst f)"
    using Cons.prems(2) by (auto simp: entries_ok_def sorted_wrt_append)
  from add_entry_holds [OF entries_ok_keys [OF Cons.prems(2)] Cons.prems(1) this, of db]
  obtain b' where b': "add_entry R db f b = Inr b'" "holds R (P @ [e]) f b'" by blast
  with Cons.IH [OF b'(2)] Cons.prems(2) show ?case by simp
qed simp

lemma first_entry_holds:
  assumes "entries_ok (e # es)"
  shows "\<exists>b. add_entry R db e hash_builder_new = Inr b \<and> holds R [] e b"
  using assms
  by (cases e; cases "snd e") (auto simp: entries_ok_def holds_def add_leaf_def add_branch_node_def
      hash_builder_new_def Nil_less_iff step_post_def plain_def stk_def groups_ok_def div_digits_def)

lemma finalize_root:
  assumes "holds R P e b" and "entries_ok (P @ [e])"
  shows "\<exists>b'. hb_root_hash R b = Inr (trie_root R (P @ [e]), b')"
proof -
  have K: "keys_ok P (fst e)" using entries_ok_keys [of P e "[]"] assms(2) by simp
  obtain b' where b': "gen_struct_step R (fst e) [] b = Inr b'" "hb_stack b' = [mpt R (P @ [e])]"
    using step_correct [OF K, of "[]" R b "snd e"] assms(1) by (auto simp: holds_def step_post_def)
  moreover have "private_root_hash R (b'\<lparr> hb_key := [], hb_value := HB_Bytes [] \<rparr>) = trie_root R (P @ [e])"
    using b'(2) root_of_mpt [OF assms(2), of R] by (simp add: private_root_hash_def Let_def)
  ultimately show ?thesis using K assms(1) by (simp add: hb_root_hash_def hb_finalize_def holds_def keys_ok_def)
qed

lemma builder_root:
  assumes "entries_ok es"
  shows "built_root R db es = Inr (trie_root R es)"
proof (cases es)
  case Nil
  then show ?thesis
    by (simp add: built_root_def hb_root_hash_def hb_finalize_def hash_builder_new_def private_root_hash_def trie_root_def)
next
  case (Cons e fs)
  obtain b where b: "add_entry R db e hash_builder_new = Inr b" "holds R [] e b"
    using first_entry_holds assms Cons by blast
  then obtain b' where b': "add_entries R db fs b = Inr b'" "holds R (butlast es) (last es) b'"
    using add_entries_holds [of R "[]" e b fs db] assms Cons by auto
  have "butlast es @ [last es] = es" using Cons by simp
  then obtain b2 where "hb_root_hash R b' = Inr (trie_root R es, b2)"
    using finalize_root [OF b'(2)] assms by metis
  with Cons b b'(1) show ?thesis by (simp add: built_root_def)
qed

section \<open>The builder with a node collector\<close>

text \<open>
  The loaders of the trie tables set a collector, which only adds bookkeeping: the masks of the
  stored hashes and subtrees, the nodes handed out, and assertions on them.  Keys, open branches
  and the stack evolve as without it, as long as no assertion fails.
\<close>

definition collected_root ::
  "rlp_env \<Rightarrow> (bytes \<Rightarrow> bool) \<Rightarrow> entry list \<Rightarrow> trie_error + h256 \<times> (bytes \<times> node) list" where
  "collected_root R db es =
     bind_r (add_entries R db es (hash_builder_new\<lparr> hb_node_collector := Some [] \<rparr>)) (\<lambda>b.
     bind_r (hb_root_hash R b) (\<lambda>(h, b). Inr (h, case hb_node_collector b of Some ns \<Rightarrow> ns | None \<Rightarrow> [])))"

definition same_trie :: "hash_builder \<Rightarrow> hash_builder \<Rightarrow> bool" where
  "same_trie b p \<longleftrightarrow> hb_key b = hb_key p \<and> hb_value b = hb_value p \<and> hb_groups b = hb_groups p \<and>
     hb_stack b = hb_stack p"

lemma same_trie_resize:
  "same_trie b p \<Longrightarrow> same_trie
    (b\<lparr> hb_groups := resize n 0 (hb_groups b), hb_tree_masks := tb, hb_hash_masks := hm \<rparr>)
    (p\<lparr> hb_groups := resize n 0 (hb_groups p), hb_tree_masks := tb', hb_hash_masks := hm' \<rparr>)"
  by (simp add: same_trie_def)

lemma same_trie_mark: "same_trie b p \<Longrightarrow> same_trie (mark_digit len k b) (mark_digit len k p)"
  by (simp add: same_trie_def mark_digit_def Let_def)

lemma same_trie_push_value:
  assumes "same_trie b p" and "push_value R k q b = Inr (b', x)" and "push_value R k q p = Inr (p', y)"
  shows "same_trie b' p' \<and> x = y"
  using assms by (auto simp: push_value_def same_trie_def Let_def split: hash_builder_value.splits if_splits)

lemma same_trie_push_extension:
  assumes "same_trie b p" and "push_extension R k n q b = Inr b'" and "push_extension R k n q p = Inr p'"
  shows "same_trie b' p'"
  using assms by (auto simp: push_extension_def same_trie_def Let_def split: if_splits)

lemma branch_items_hash_mask: "fst (branch_items R sm hm stack i) = fst (branch_items R sm hm' stack i)"
proof -
  let ?f = "\<lambda>hm digit (items, child_hashes, i).
      if bit sm digit
      then (items @ [stack ! i], if bit hm digit then child_hashes @ [stack ! i] else child_hashes, i + 1)
      else (items @ [re_empty_data R], child_hashes, i)"
  have "fst (fold (?f hm) ds (items, ch, i)) = fst (fold (?f hm') ds (items, ch', i))" for ds items ch ch' i
    by (induction ds arbitrary: items ch ch' i) auto
  then show ?thesis by (simp add: branch_items_def split_beta)
qed

lemma same_trie_branch_ref:
  assumes "same_trie b p" and "branch_ref R sm hm b = Inr (cs, b')" and "branch_ref R sm hm' p = Inr (cs', p')"
  shows "same_trie b' p' \<and> hb_node_collector p' = hb_node_collector p"
  using assms branch_items_hash_mask [of R sm hm "hb_stack p" _ hm']
  by (auto simp: branch_ref_def same_trie_def Let_def split_beta split: if_splits)

lemma close_branch_stack:
  assumes "close_branch R k len b = Inr b'"
  obtains hm cs b1 where "len < length (hb_groups b)" and "branch_ref R (hb_groups b ! len) hm b = Inr (cs, b1)"
    and "same_trie b' b1"
  using assms
  by (auto simp: close_branch_def get_at_def vec_get_def same_trie_def Let_def split: if_splits)

lemma same_trie_close_branch:
  assumes s: "same_trie b p" and b: "close_branch R k len b = Inr b'" and p: "close_branch R k len p = Inr p'"
  shows "same_trie b' p'"
proof -
  obtain hm cs b1 where b1: "branch_ref R (hb_groups b ! len) hm b = Inr (cs, b1)" "same_trie b' b1"
    using b by (rule close_branch_stack)
  obtain hm' cs' p1 where p1: "branch_ref R (hb_groups p ! len) hm' p = Inr (cs', p1)" "same_trie p' p1"
    using p by (rule close_branch_stack)
  have "hb_groups b = hb_groups p" using s by (simp add: same_trie_def)
  with same_trie_branch_ref [OF s] b1 p1 show ?thesis by (auto simp: same_trie_def)
qed

lemma gen_struct_loop_round:
  assumes "gen_struct_loop R t build current b = Inr b'"
  defines "G \<equiv> length (hb_groups b) - 1" and "pe \<equiv> hb_groups b \<noteq> []"
  defines "len \<equiv> max G (prefix_length t current)"
  defines "len_from \<equiv> (if t \<noteq> [] \<or> pe then len + 1 else len)"
  shows "bind_r (if build then Inr (mark_digit len current b, True)
            else push_value R current (drop len_from current) (mark_digit len current b)) (\<lambda>(b, build).
          bind_r (if build \<and> drop len_from current \<noteq> [] then push_extension R current len_from (drop len_from current) b
                  else Inr b) (round_rest R t current G pe len)) = Inr b'" and "len < length current"
  using assms(1) unfolding gen_struct_loop.simps [of R t build current b] Let_def G_def [symmetric] pe_def [symmetric]
    len_def [symmetric] len_from_def [symmetric] round_rest_def [abs_def]
  by (simp_all only: split: if_splits) simp_all

lemma same_trie_loop:
  "gen_struct_loop R t build current b = Inr b' \<Longrightarrow> gen_struct_loop R t build current p = Inr p' \<Longrightarrow>
    same_trie b p \<Longrightarrow> same_trie b' p'"
proof (induction "length current" arbitrary: current build b p rule: less_induct)
  case less
  define G pe where "G = length (hb_groups p) - 1" and "pe = (hb_groups p \<noteq> [])"
  define len where "len = max G (prefix_length t current)"
  define len_from where "len_from = (if t \<noteq> [] \<or> pe then len + 1 else len)"
  have gs: "hb_groups b = hb_groups p" using less.prems(3) by (simp add: same_trie_def)
  let ?q = "drop len_from current"
  note r = gen_struct_loop_round [OF less.prems(1), unfolded gs, folded G_def pe_def, folded len_def, folded len_from_def]
    gen_struct_loop_round [OF less.prems(2), folded G_def pe_def, folded len_def, folded len_from_def]
  from r(1) obtain b1 x b2 where b1: "(if build then Inr (mark_digit len current b, True)
      else push_value R current ?q (mark_digit len current b)) = Inr (b1, x)"
    and b2: "(if x \<and> ?q \<noteq> [] then push_extension R current len_from ?q b1 else Inr b1) = Inr b2"
    and b': "round_rest R t current G pe len b2 = Inr b'" by auto
  from r(3) obtain p1 y p2 where p1: "(if build then Inr (mark_digit len current p, True)
      else push_value R current ?q (mark_digit len current p)) = Inr (p1, y)"
    and p2: "(if y \<and> ?q \<noteq> [] then push_extension R current len_from ?q p1 else Inr p1) = Inr p2"
    and p': "round_rest R t current G pe len p2 = Inr p'" by auto
  have 1: "same_trie b1 p1 \<and> x = y"
    using same_trie_mark [OF less.prems(3), of len current] b1 p1 same_trie_push_value [OF same_trie_mark [OF less.prems(3)]]
    by (cases build) auto
  then have 2: "same_trie b2 p2" using b2 p2 same_trie_push_extension by (auto split: if_splits)
  show ?case
  proof (cases "G \<le> prefix_length t current \<and> t \<noteq> []")
    case True
    with 2 b' p' show ?thesis by (simp add: round_rest_def)
  next
    case False
    let ?cut = "\<lambda>b. b\<lparr> hb_groups := resize len 0 (hb_groups b), hb_tree_masks := resize len 0 (hb_tree_masks b),
        hb_hash_masks := resize len 0 (hb_hash_masks b) \<rparr>"
    obtain b3 where b3: "(if t \<noteq> [] \<or> pe then close_branch R current len b2 else Inr b2) = Inr b3"
      "(if G = 0 then Inr (?cut b3) else gen_struct_loop R t True (take G current)
          ((?cut b3)\<lparr> hb_groups := drop_zeros (hb_groups (?cut b3)) \<rparr>)) = Inr b'"
      using b' False unfolding round_rest_def Let_def by auto
    obtain p3 where p3: "(if t \<noteq> [] \<or> pe then close_branch R current len p2 else Inr p2) = Inr p3"
      "(if G = 0 then Inr (?cut p3) else gen_struct_loop R t True (take G current)
          ((?cut p3)\<lparr> hb_groups := drop_zeros (hb_groups (?cut p3)) \<rparr>)) = Inr p'"
      using p' False unfolding round_rest_def Let_def by auto
    have 3: "same_trie b3 p3" using 2 b3(1) p3(1) same_trie_close_branch by (auto split: if_splits)
    show ?thesis
    proof (cases "G = 0")
      case True
      with b3(2) p3(2) have "b' = ?cut b3" "p' = ?cut p3" by simp_all
      with 3 show ?thesis by (simp add: same_trie_def)
    next
      case G: False
      have "length (take G current) < length current" using r(2) by (simp add: len_def)
      from less.hyps [OF this] b3(2) p3(2) G 3 show ?thesis by (simp add: same_trie_def)
    qed
  qed
qed

lemma same_trie_step:
  assumes s: "same_trie b p" and "add_entry R db e b = Inr b'" and "add_entry R db e p = Inr p'"
  shows "same_trie b' p'"
proof -
  have k: "hb_key b = hb_key p" using s by (simp add: same_trie_def)
  have "same_trie c d" if "gen_struct_step R (hb_key p) k' b = Inr c" "gen_struct_step R (hb_key p) k' p = Inr d" for k' c d
    using that s same_trie_loop by (simp add: gen_struct_step_def)
  with assms k show ?thesis
    by (cases "(R, db, e, b)" rule: add_entry.cases)
      (auto simp: add_leaf_def add_branch_node_def same_trie_def split: if_splits)
qed

lemma same_trie_entries:
  "same_trie b p \<Longrightarrow> add_entries R db es b = Inr b' \<Longrightarrow> add_entries R db es p = Inr p' \<Longrightarrow> same_trie b' p'"
  by (induction es arbitrary: b p) (auto dest: same_trie_step)

lemma same_trie_root:
  assumes s: "same_trie b p" and "hb_root_hash R b = Inr (h, b')" and "hb_root_hash R p = Inr (h', p')"
  shows "h = h'"
proof -
  have k: "hb_key b = hb_key p" using s by (simp add: same_trie_def)
  obtain c d where c: "hb_finalize R b = Inr c" "h = private_root_hash R c"
    and d: "hb_finalize R p = Inr d" "h' = private_root_hash R d" using assms(2,3) by (auto simp: hb_root_hash_def)
  have "hb_stack c = hb_stack d"
    using c(1) d(1) s k by (auto simp: hb_finalize_def gen_struct_step_def same_trie_def split: if_splits
        dest!: same_trie_loop [OF _ _ s])
  with c(2) d(2) show ?thesis by (simp add: private_root_hash_def)
qed

lemma collected_root_eq:
  assumes "collected_root R db es = Inr (h, ns)" and "built_root R db es = Inr h'"
  shows "h = h'"
proof -
  obtain b b' where b: "add_entries R db es (hash_builder_new\<lparr> hb_node_collector := Some [] \<rparr>) = Inr b"
    "hb_root_hash R b = Inr (h, b')" using assms(1) by (auto simp: collected_root_def)
  obtain p p' where p: "add_entries R db es hash_builder_new = Inr p" "hb_root_hash R p = Inr (h', p')"
    using assms(2) by (auto simp: built_root_def)
  have "same_trie b p" by (rule same_trie_entries [OF _ b(1) p(1)]) (simp add: same_trie_def)
  then show ?thesis using b(2) p(2) by (rule same_trie_root)
qed

text \<open>
  C13.  The streaming builder computes the root hash of the Merkle Patricia trie.  For entries
  whose nibble keys ascend and are no prefixes of one another, leaves or hashes of whole
  subtrees: without a node collector, \<open>add_leaf\<close>, \<open>add_branch_node\<close> and \<open>root_hash\<close> never
  panic, and the result is the Keccak hash of the root node that the recursive definition of
  the yellow paper gives on the whole list (with no entry, the hash of the empty trie).  With a
  node collector, as the trie loaders set it, the root hash is the same whenever the run returns;
  it may instead fail the assertion that every stored child is a hash, see
  \<open>short_child_panics\<close> below.
\<close>

theorem hash_builder_root:
  assumes "entries_ok es"
  shows "built_root R db es = Inr (trie_root R es) \<and>
    (\<forall>h ns. collected_root R db es = Inr (h, ns) \<longrightarrow> h = trie_root R es)"
  using builder_root [OF assms] collected_root_eq by blast

text \<open>Three subtrees by their hash: the two branches above them go to the collector.\<close>

definition sample_rlp :: rlp_env where
  "sample_rlp = \<lparr> re_keccak = of_be, re_append = (\<lambda>bs. bs), re_empty_data = [128], re_list = concat \<rparr>"

definition sample_entries :: "entry list" where
  "sample_entries = [([1, 2], HB_Hash 77), ([1, 3], HB_Hash 78), ([4], HB_Hash 79)]"

lemma sample_collected:
  "case collected_root sample_rlp (\<lambda>k. False) sample_entries of Inr (h, ns) \<Rightarrow> map fst ns = [[1], []] | Inl _ \<Rightarrow> False"
  by code_simp

theorem hash_builder_root_witness:
  "\<exists>ns. built_root sample_rlp (\<lambda>k. False) sample_entries = Inr (trie_root sample_rlp sample_entries) \<and>
    collected_root sample_rlp (\<lambda>k. False) sample_entries = Inr (trie_root sample_rlp sample_entries, ns) \<and>
    map fst ns = [[1], []]"
proof -
  have "entries_ok sample_entries" by (simp add: entries_ok_def sample_entries_def is_nibble_def)
  from hash_builder_root [OF this, of sample_rlp "\<lambda>k. False"] sample_collected show ?thesis
    by (auto split: sum.splits)
qed

text \<open>
  A branch whose encoding is shorter than a hash is embedded in its parent, and the collector
  cannot store it: the assertion of \<open>gen_struct_step\<close> on the children of a stored node fails.
  With the hashed keys of 64 nibbles, two keys would have to agree in some fifty nibbles.
\<close>

lemma short_child_panics:
  "collected_root sample_rlp (\<lambda>k. False) [([1, 2], HB_Bytes [7]), ([1, 3], HB_Bytes [8]), ([4], HB_Bytes [9])] = Inl Trie_Panic"
  by code_simp

section \<open>Whole subtrees by their hash\<close>

definition under :: "bytes \<Rightarrow> entry list \<Rightarrow> entry list" where
  "under p es = map (\<lambda>(k, v). (p @ k, v)) es"

lemma under_facts [simp]:
  "length (under p es) = length es" "map fst (under p es) = map ((@) p) (map fst es)"
  "strip q (under (q @ p) es) = under p es" "under [] es = es"
  by (auto simp: under_def strip_def)

lemma under_eq_Nil [simp]: "under p es = [] \<longleftrightarrow> es = []"
  by (simp add: under_def)

lemma tails_under [simp]: "tails m (under (n # p) es) = (if m = n then under p es else [])"
  by (induction es) (auto simp: under_def)

lemma tails_append [simp]: "tails n (es @ fs) = tails n es @ tails n fs"
  by (simp add: tails_def)

lemma strip_append [simp]: "strip q (es @ fs) = strip q es @ strip q fs"
  by (simp add: strip_def)

lemma longest_common_prefix_append:
  "longest_common_prefix (p @ k) (p @ l) = p @ longest_common_prefix k l"
  by (induction p) auto

lemma common_prefix_append: "ks \<noteq> [] \<Longrightarrow> common_prefix (map ((@) p) ks) = p @ common_prefix ks"
  by (induction ks rule: common_prefix.induct) (auto simp: longest_common_prefix_append)

lemma common_prefix_under:
  "es \<noteq> [] \<Longrightarrow> common_prefix (map fst es) = [] \<Longrightarrow> common_prefix (map fst (under p es)) = p"
  using common_prefix_append [of "map fst es" p] by simp

lemma mpt_two:
  "2 \<le> length es \<Longrightarrow> mpt R es = extend R (common_prefix (map fst es)) (node_ref (re_keccak R) (re_list R
     (map (\<lambda>n. mpt R (tails n (strip (common_prefix (map fst es)) es))) nibbles @ [re_empty_data R])))"
  by (cases es rule: remdups_adj.cases) (auto simp: mpt.simps(3) Let_def)

lemma mpt_under:
  assumes "2 \<le> length es" and "common_prefix (map fst es) = []"
  shows "mpt R (under p es) = extend R p (mpt R es)"
proof -
  have "es \<noteq> []" using assms(1) by auto
  then have cp: "common_prefix (map fst (under p es)) = p" using assms(2) by (rule common_prefix_under)
  have "strip [] es = es" "strip p (under p es) = es" using under_facts(3) [of p "[]" es] by (simp_all add: strip_def)
  then show ?thesis using assms mpt_two [of es R] mpt_two [of "under p es" R] by (simp only: cp) (simp add: extend_def)
qed

lemma common_prefix_collapse:
  assumes "B \<noteq> []" and "common_prefix (map fst B) = []"
  shows "common_prefix (map fst (A @ under p B @ C)) = common_prefix (map fst (A @ (p, v) # C))"
    (is "common_prefix ?X = common_prefix ?Y")
proof -
  have p: "common_prefix (map fst (under p B)) = p" using assms by (rule common_prefix_under)
  have X: "?X \<noteq> []" and Y: "?Y \<noteq> []" and B: "map fst (under p B) \<noteq> []" using assms by (auto simp: under_def)
  have "prefix (common_prefix ?X) p"
    using common_prefix_greatest(2) [OF B, of "common_prefix ?X"] common_prefix_greatest(1) [OF X] p by simp
  then have "prefix (common_prefix ?X) (common_prefix ?Y)"
    using common_prefix_greatest(1) [OF X] by (intro common_prefix_greatest(2) [OF Y]) auto
  moreover have "prefix (common_prefix ?Y) (common_prefix ?X)"
    using common_prefix_greatest(1) [OF Y] by (intro common_prefix_greatest(2) [OF X]) (auto simp: under_def)
  ultimately show ?thesis by (rule prefix_order.antisym)
qed

lemma mpt_collapse:
  assumes B: "2 \<le> length B" "common_prefix (map fst B) = []" "mpt R B = wrap_hash h"
  shows "\<forall>e \<in> set (A @ C). \<not> prefix p (fst e) \<Longrightarrow> mpt R (A @ under p B @ C) = mpt R (A @ (p, HB_Hash h) # C)"
proof (induction "length p" arbitrary: p A C rule: less_induct)
  case less
  show ?case
  proof (cases "A @ C = []")
    case True
    then show ?thesis using mpt_under [OF B(1,2)] B(3) by simp
  next
    case False
    define q where "q = common_prefix (map fst (A @ (p, HB_Hash h) # C))"
    have q: "common_prefix (map fst (A @ under p B @ C)) = q"
      unfolding q_def using B by (intro common_prefix_collapse) auto
    have qp: "prefix q k" if "k \<in> set (map fst (A @ (p, HB_Hash h) # C))" for k
      unfolding q_def using that by (intro common_prefix_greatest(1)) auto
    obtain e where "e \<in> set (A @ C)" using False by (meson list.set_sel(1))
    with qp less.prems have "q \<noteq> p" by auto
    moreover have "prefix q p" using qp by simp
    ultimately obtain n r where p: "p = q @ n # r" by (metis append_Nil2 neq_Nil_conv prefix_def)
    have sub: "\<forall>e \<in> set (tails n (strip q A) @ tails n (strip q C)). \<not> prefix r (fst e)"
    proof
      fix e assume "e \<in> set (tails n (strip q A) @ tails n (strip q C))"
      then obtain k v where k: "(k, v) \<in> set (A @ C)" "drop (length q) k = n # fst e"
        by (auto simp: tails_def strip_def) (metis list.collapse)+
      moreover have "prefix q k" using imageI [OF k(1), of fst] by (intro qp) auto
      ultimately have "k = q @ n # fst e" by (auto simp: prefix_def)
      moreover have "\<not> prefix p k" using k(1) less.prems by fastforce
      ultimately show "\<not> prefix r (fst e)" by (simp add: p)
    qed
    have "mpt R (tails m (strip q (A @ under p B @ C))) = mpt R (tails m (strip q (A @ (p, HB_Hash h) # C)))" for m
      using less.hyps [OF _ sub] by (auto simp: p)
    then show ?thesis
      using mpt_two [of "A @ under p B @ C" R] mpt_two [of "A @ (p, HB_Hash h) # C" R] B(1) False q q_def
      by (cases A; cases C) simp_all
  qed
qed

lemma less_prefix_free:
  "a < p @ k \<Longrightarrow> \<not> prefix p a \<Longrightarrow> a < p"
  "p @ k < c \<Longrightarrow> \<not> prefix p c \<Longrightarrow> p < c"
  for a p k c :: bytes
proof -
  show "a < p @ k \<Longrightarrow> \<not> prefix p a \<Longrightarrow> a < p" by (induction a p rule: list_induct2') auto
  show "p @ k < c \<Longrightarrow> \<not> prefix p c \<Longrightarrow> p < c" by (induction c p rule: list_induct2') auto
qed

lemma entries_ok_append:
  "entries_ok (X @ Y) \<Longrightarrow> x \<in> set X \<Longrightarrow> y \<in> set Y \<Longrightarrow> fst x < fst y \<and> \<not> prefix (fst x) (fst y)"
  by (simp add: entries_ok_def sorted_wrt_append)

lemma entries_ok_collapse:
  assumes ok: "entries_ok (A @ under p B @ C)" and B: "B \<noteq> []" and p: "p \<noteq> []"
    and AC: "\<forall>e \<in> set (A @ C). \<not> prefix p (fst e)"
  shows "entries_ok (A @ (p, v) # C)"
proof -
  obtain k w where kw: "(k, w) \<in> set B" using B by (cases B) auto
  then have k: "(p @ k, w) \<in> set (under p B)" by (force simp: under_def)
  have kA: "fst a < p @ k" "\<not> prefix (fst a) (p @ k)" if "a \<in> set A" for a
    using entries_ok_append [OF ok that, of "(p @ k, w)"] k by auto
  have kC: "p @ k < fst c" if "c \<in> set C" for c
    using entries_ok_append [of "A @ under p B" C "(p @ k, w)" c] ok k that by simp
  have "fst a < p" "\<not> prefix (fst a) p" if "a \<in> set A" for a
    using kA [OF that] AC that less_prefix_free(1) [of "fst a" p k] prefix_prefix [of "fst a" p k] by auto
  moreover have "p < fst c" "\<not> prefix p (fst c)" if "c \<in> set C" for c
    using kC [OF that] AC that less_prefix_free(2) [of p k "fst c"] by auto
  moreover have "list_all is_nibble (p @ k)"
    using ok k unfolding entries_ok_def by (metis UnCI fst_conv set_append)
  ultimately show ?thesis using ok p by (auto simp: entries_ok_def sorted_wrt_append)
qed

lemma mpt_hash:
  assumes "2 \<le> length B" and "common_prefix (map fst B) = []" and "KECCAK_LENGTH \<le> length (root_rlp R B)"
  shows "mpt R B = wrap_hash (trie_root R B)"
proof -
  obtain e1 e2 es where B: "B = e1 # e2 # es" using assms(1) by (cases B rule: remdups_adj.cases) auto
  have "mpt R B = node_ref (re_keccak R) (root_rlp R B)" using assms(2) unfolding B by (simp add: mpt.simps(3) extend_def)
  then show ?thesis using assms(3) B by (simp add: node_ref_def trie_root_def)
qed

text \<open>
  C14.  A subtree may be given to the builder as a whole: when all the entries below a prefix
  are replaced by one \<open>add_branch_node\<close> with the hash of the branch there (whose encoding is
  at least 32 bytes long, as shorter ones are not hashed), the root hash is the same.  It is
  what lets the trie loader use the hashes stored in the database in place of the leaves.
\<close>

theorem subtree_by_hash:
  assumes "entries_ok (A @ under p B @ C)" and "p \<noteq> []" and "\<forall>e \<in> set (A @ C). \<not> prefix p (fst e)"
    and "2 \<le> length B" and "common_prefix (map fst B) = []" and "KECCAK_LENGTH \<le> length (root_rlp R B)"
  shows "built_root R db (A @ (p, HB_Hash (trie_root R B)) # C) = built_root R db' (A @ under p B @ C)"
proof -
  have ne: "B \<noteq> []" using assms(4) by auto
  let ?X = "A @ under p B @ C" and ?Y = "A @ (p, HB_Hash (trie_root R B)) # C"
  have ok: "entries_ok ?Y" using entries_ok_collapse [OF assms(1) ne assms(2,3)] .
  have "mpt R ?X = mpt R ?Y" using mpt_collapse [OF assms(4,5) mpt_hash [OF assms(4-6)] assms(3)] .
  then have "trie_root R ?X = trie_root R ?Y"
    using root_of_mpt [OF assms(1)] root_of_mpt [OF ok] ne by simp
  then show ?thesis using builder_root [OF assms(1)] builder_root [OF ok] by simp
qed

theorem subtree_by_hash_witness:
  "\<exists>R db db' A p B C. length B = 2 \<and> entries_ok (A @ under p B @ C) \<and>
     built_root R db (A @ (p, HB_Hash (trie_root R B)) # C) = built_root R db' (A @ under p B @ C)"
proof -
  let ?R = "\<lparr> re_keccak = of_be, re_append = (\<lambda>bs. bs), re_empty_data = [128, 0, 0], re_list = concat \<rparr>"
  let ?A = "[([0, 6], HB_Bytes [7])]" and ?B = "[([3], HB_Bytes [7]), ([5, 9], HB_Hash 77)]"
    and ?C = "[([4], HB_Bytes [8])]"
  have ok: "entries_ok (?A @ under [1, 2] ?B @ ?C)" by (simp add: entries_ok_def is_nibble_def under_def)
  have "length (root_rlp ?R ?B) \<ge> KECCAK_LENGTH"
    by (simp add: nibbles_def upt_rec KECCAK_LENGTH_def)
  from subtree_by_hash [OF ok _ _ _ _ this, of "\<lambda>k. False" "\<lambda>k. True"] ok show ?thesis
    by (intro exI [of _ ?R] exI [of _ "\<lambda>k. False"] exI [of _ "\<lambda>k. True"] exI [of _ ?A] exI [of _ "[1, 2]"]
        exI [of _ ?B] exI [of _ ?C]) simp
qed

end
