(* ===== verification/Etl.thy ===== *)
theory Etl
  imports
    Akula_Prelude "HOL-Library.Multiset" "HOL-Library.List_Lexorder" "HOL-Library.Product_Lexorder"
begin

text \<open>
  The collector of \<^verbatim>\<open>src/src/etl/collector.rs\<close> and its spill files
  (\<^verbatim>\<open>src/src/etl/data_provider.rs\<close>): entries are buffered, sorted runs are written to
  temporary files when the buffer is full, and the iterator merges the runs with a heap.  A
  temporary file is the bytes not read yet.  \<open>BinaryHeap\<close> is an interface with the laws of a
  priority queue.  Shown: the iterator yields the pushed entries in ascending order, whatever
  the capacity of the buffer.
\<close>

section \<open>Spill files (etl/data_provider.rs)\<close>

text \<open>An \<open>Entry\<close> compares by key, then by value.\<close>

type_synonym etl_entry = "bytes \<times> bytes"

datatype etl_error = UnexpectedEof | Index_Panic

record data_provider =
  dp_file :: bytes
  dp_len :: nat

definition write_entry :: "etl_entry \<Rightarrow> bytes" where
  "write_entry e = to_be 8 (of_nat (length (fst e)) :: u64) @ to_be 8 (of_nat (length (snd e)) :: u64) @ fst e @ snd e"

definition data_provider_new :: "etl_entry list \<Rightarrow> data_provider" where
  "data_provider_new buffer = \<lparr> dp_file = concat (map write_entry buffer), dp_len = length buffer \<rparr>"

definition read_exact :: "nat \<Rightarrow> bytes \<Rightarrow> etl_error + bytes \<times> bytes" where
  "read_exact n file = (if length file < n then Inl UnexpectedEof else Inr (take n file, drop n file))"

definition to_next :: "data_provider \<Rightarrow> etl_error + etl_entry option \<times> data_provider" where
  "to_next d =
     (if dp_len d = 0 then Inr (None, d)
      else bind_r (read_exact 8 (dp_file d)) (\<lambda>(buffer_key_length, file).
           bind_r (read_exact 8 file) (\<lambda>(buffer_value_length, file).
           bind_r (read_exact (unat (of_be buffer_key_length :: u64)) file) (\<lambda>(key, file).
           bind_r (read_exact (unat (of_be buffer_value_length :: u64)) file) (\<lambda>(val, file).
             Inr (Some (key, val), \<lparr> dp_file = file, dp_len = dp_len d - 1 \<rparr>))))))"

section \<open>The heap\<close>

text \<open>What the merge uses of \<open>BinaryHeap\<close> (with \<open>Reverse\<close>, so that \<open>pop\<close> gives the least
  element), provided by ascending lists.\<close>

locale min_heap =
  fixes empty :: 'h
    and push :: "'a::linorder \<Rightarrow> 'h \<Rightarrow> 'h"
    and pop :: "'h \<Rightarrow> ('a \<times> 'h) option"
    and elems :: "'h \<Rightarrow> 'a multiset"
    and invar :: "'h \<Rightarrow> bool"
  assumes invar_empty: "invar empty" and elems_empty: "elems empty = {#}"
    and invar_push: "invar h \<Longrightarrow> invar (push x h)" and elems_push: "invar h \<Longrightarrow> elems (push x h) = add_mset x (elems h)"
    and pop_None: "invar h \<Longrightarrow> pop h = None \<longleftrightarrow> elems h = {#}"
    and pop_elems: "invar h \<Longrightarrow> pop h = Some (x, h') \<Longrightarrow> elems h = add_mset x (elems h')"
    and pop_least: "invar h \<Longrightarrow> pop h = Some (x, h') \<Longrightarrow> y \<in># elems h \<Longrightarrow> x \<le> y"
    and invar_pop: "invar h \<Longrightarrow> pop h = Some (x, h') \<Longrightarrow> invar h'"
begin

lemma pop_smaller: "invar h \<Longrightarrow> pop h = Some (x, h') \<Longrightarrow> size (elems h') < size (elems h)"
  using pop_elems by fastforce

lemma pop_push_least:
  assumes "invar h" and "\<And>y. y \<in># elems h \<Longrightarrow> x \<le> y" and "pop (push x h) = Some (z, h')"
  shows "z = x"
proof -
  have "x \<in># elems (push x h)" using assms(1) elems_push by simp
  then have "z \<le> x" using assms(1,3) invar_push pop_least by blast
  moreover have "z \<in># elems (push x h)" using pop_elems [OF invar_push [OF assms(1)] assms(3)] by simp
  then have "x \<le> z" using assms(1,2) elems_push by auto
  ultimately show ?thesis by simp
qed

end

fun heap_push :: "'a::linorder \<Rightarrow> 'a list \<Rightarrow> 'a list" where
  "heap_push x h = insort x h"

fun heap_pop :: "'a list \<Rightarrow> ('a \<times> 'a list) option" where
  "heap_pop [] = None"
| "heap_pop (x # h) = Some (x, h)"

lemma heap_pop_Some [simp]: "heap_pop h = Some (x, h') \<longleftrightarrow> h = x # h'"
  by (cases h) auto

interpretation heap: min_heap "[]" heap_push heap_pop mset sorted
  by unfold_locales (auto simp: sorted_insort elim: heap_pop.elims)

section \<open>The collector (etl/collector.rs)\<close>

record collector =
  cl_buffer_size :: nat
  cl_data_providers :: "data_provider list"
  cl_buffer_capacity :: nat
  cl_buffer :: "etl_entry list"

definition OPTIMAL_BUFFER_CAPACITY :: nat where "OPTIMAL_BUFFER_CAPACITY = 512000000"

definition collector_new :: "nat \<Rightarrow> collector" where
  "collector_new buffer_capacity = \<lparr> cl_buffer_size = 0, cl_data_providers = [],
     cl_buffer_capacity = buffer_capacity, cl_buffer = [] \<rparr>"

definition collector_flush :: "collector \<Rightarrow> collector" where
  "collector_flush c = c\<lparr> cl_buffer_size := 0, cl_buffer := [],
     cl_data_providers := cl_data_providers c @ [data_provider_new (sort (cl_buffer c))] \<rparr>"

text \<open>\<open>TableEncode\<close> of the keys and values is a pair of functions.\<close>

definition collector_push ::
  "('k \<Rightarrow> bytes) \<Rightarrow> ('v \<Rightarrow> bytes) \<Rightarrow> 'k \<Rightarrow> 'v \<Rightarrow> collector \<Rightarrow> collector" where
  "collector_push encode_key encode_value key val c =
     (let key = encode_key key; val = encode_value val;
          c = c\<lparr> cl_buffer_size := cl_buffer_size c + (length key + length val), cl_buffer := cl_buffer c @ [(key, val)] \<rparr>
      in if cl_buffer_size c > cl_buffer_capacity c then collector_flush c else c)"

text \<open>Each data provider is anchored in the heap with its first entry.\<close>

fun anchor ::
  "nat \<Rightarrow> data_provider list \<Rightarrow> (etl_entry \<times> nat) list \<Rightarrow> etl_error + data_provider list \<times> (etl_entry \<times> nat) list" where
  "anchor i [] h = Inr ([], h)"
| "anchor i (d # ds) h =
     bind_r (to_next d) (\<lambda>(e, d).
     bind_r (anchor (Suc i) ds (case e of Some e \<Rightarrow> heap_push (e, i) h | None \<Rightarrow> h)) (\<lambda>(ds, h).
       Inr (d # ds, h)))"

text \<open>The merge; an iterator is what it yields, then how it ends.\<close>

lemma to_next_len: "to_next d = Inr (Some e, d') \<Longrightarrow> dp_len d = Suc (dp_len d')"
  by (auto simp: to_next_def split: if_splits)

lemma to_next_None: "to_next d = Inr (None, d') \<Longrightarrow> d' = d"
  by (auto simp: to_next_def split: if_splits)

lemma merge_decreases:
  assumes "i < length ds" and "to_next (ds ! i) = Inr (n, d)"
  shows "sum_list (map dp_len (ds[i := d])) + length (case n of Some e \<Rightarrow> heap_push (e, i) h | None \<Rightarrow> h)
    < Suc (sum_list (map dp_len ds) + length h)"
proof -
  have "sum_list (map dp_len (ds[i := d])) + dp_len (ds ! i) = sum_list (map dp_len ds) + dp_len d"
    using assms(1) elem_le_sum_list [of i "map dp_len ds"] by (simp add: map_update sum_list_update)
  with assms(2) show ?thesis
    using to_next_len [of "ds ! i" _ d] to_next_None [of "ds ! i" d] by (cases n) auto
qed

function merge_loop ::
  "data_provider list \<Rightarrow> (etl_entry \<times> nat) list \<Rightarrow> etl_entry list \<times> (etl_error + unit)" where
  "merge_loop ds h = (case heap_pop h of
       None \<Rightarrow> ([], Inr ())
     | Some ((e, i), h) \<Rightarrow>
         (if i < length ds then
            (case to_next (ds ! i) of
               Inl err \<Rightarrow> ([e], Inl err)
             | Inr (next_entry, d) \<Rightarrow>
                 (let (es, r) = merge_loop (ds[i := d])
                    (case next_entry of Some e' \<Rightarrow> heap_push (e', i) h | None \<Rightarrow> h)
                  in (e # es, r)))
          else ([e], Inl Index_Panic)))"
  by pat_completeness auto
termination
  by (relation "measure (\<lambda>(ds, h). sum_list (map dp_len ds) + length h)")
    (auto simp: merge_decreases simp del: heap_push.simps)

declare merge_loop.simps [simp del]

definition collector_iter :: "collector \<Rightarrow> etl_entry list \<times> (etl_error + unit)" where
  "collector_iter c =
     (if cl_data_providers c = [] then (sort (cl_buffer c), Inr ())
      else (let c = (if cl_buffer_size c \<noteq> 0 then collector_flush c else c)
            in case anchor 0 (cl_data_providers c) [] of
                 Inl err \<Rightarrow> ([], Inl err)
               | Inr (ds, h) \<Rightarrow> merge_loop ds h))"

text \<open>\<open>TableCollector::load\<close>: \<open>put\<close> is the cursor's; its errors end the loop.\<close>

definition table_load ::
  "(bytes \<Rightarrow> bytes \<Rightarrow> 't \<Rightarrow> 'e + 't) \<Rightarrow> (etl_error \<Rightarrow> 'e) \<Rightarrow> collector \<Rightarrow> 't \<Rightarrow> 'e + 't" where
  "table_load put io c t =
     (let (es, r) = collector_iter c
      in bind_r (fold_r (\<lambda>(k, v). put k v) es t) (\<lambda>t.
         case r of Inl err \<Rightarrow> Inl (io err) | Inr _ \<Rightarrow> Inr t))"

section \<open>Reading back what was written\<close>

definition entry_fits :: "etl_entry \<Rightarrow> bool" where
  "entry_fits e \<longleftrightarrow> length (fst e) < 2 ^ 64 \<and> length (snd e) < 2 ^ 64"

lemma read_exact_append [simp]: "length xs = n \<Longrightarrow> read_exact n (xs @ ys) = Inr (xs, ys)"
  by (simp add: read_exact_def)

lemma to_next_Cons:
  assumes "entry_fits e"
  shows "to_next (data_provider_new (e # es)) = Inr (Some e, data_provider_new es)"
proof -
  have "unat (of_be (to_be 8 (of_nat n :: u64)) :: u64) = n" if "n < 2 ^ 64" for n
    using that by (simp add: of_be_to_be unat_of_nat)
  with assms show ?thesis
    by (simp add: to_next_def data_provider_new_def write_entry_def entry_fits_def)
qed

lemma to_next_Nil [simp]: "to_next (data_provider_new []) = Inr (None, data_provider_new [])"
  by (simp add: to_next_def data_provider_new_def)

section \<open>Merging\<close>

text \<open>The runs still in the files, and the heap: every run that is not read up has an entry in
  the heap that is not above its next one.\<close>

definition merge_inv :: "etl_entry list list \<Rightarrow> (etl_entry \<times> nat) list \<Rightarrow> bool" where
  "merge_inv runs h \<longleftrightarrow> sorted h \<and> (\<forall>(e, i) \<in> set h. i < length runs) \<and>
     (\<forall>run \<in> set runs. sorted run \<and> (\<forall>e \<in> set run. entry_fits e)) \<and>
     (\<forall>i < length runs. runs ! i \<noteq> [] \<longrightarrow> (\<exists>e. (e, i) \<in> set h \<and> e \<le> hd (runs ! i)))"

lemma lex_fst: "(a, i) \<le> (b, j) \<Longrightarrow> a \<le> b" for a b :: "'a::order" and i j :: "'b::ord"
  by (auto simp: less_eq_prod_simp)

lemma merge_inv_top:
  assumes "merge_inv runs ((e, i) # h)" and "(e', j) \<in> set ((e, i) # h)"
  shows "e \<le> e'"
proof (cases "(e', j) \<in> set h")
  case True
  then have "(e, i) \<le> (e', j)" using assms(1) unfolding merge_inv_def sorted_simps by blast
  then show ?thesis by (rule lex_fst)
qed (use assms(2) in simp)

lemma merge_inv_least:
  assumes inv: "merge_inv runs ((e, i) # h)" and x: "x \<in> set (concat runs)"
  shows "e \<le> x"
proof -
  obtain run where "run \<in> set runs" "x \<in> set run" using x by auto
  then obtain j where j: "j < length runs" "x \<in> set (runs ! j)" by (metis in_set_conv_nth)
  then have "sorted (runs ! j)" "runs ! j \<noteq> []" using inv by (auto simp: merge_inv_def)
  then have "hd (runs ! j) \<le> x" using j(2) by (cases "runs ! j") auto
  moreover obtain e' where "(e', j) \<in> set ((e, i) # h)" "e' \<le> hd (runs ! j)"
    using inv j(1) \<open>runs ! j \<noteq> []\<close> unfolding merge_inv_def by blast
  moreover have "e \<le> e'" using merge_inv_top [OF inv] calculation(2) .
  ultimately show ?thesis by simp
qed

lemma merge_inv_step:
  assumes inv: "merge_inv runs ((e, i) # h)"
  shows "runs ! i = [] \<Longrightarrow> merge_inv runs h"
    and "runs ! i = e' # run \<Longrightarrow> merge_inv (runs[i := run]) (heap_push (e', i) h)"
proof -
  have i: "i < length runs" and h: "sorted h" "\<And>e j. (e, j) \<in> set h \<Longrightarrow> j < length runs"
    and runs: "\<And>run. run \<in> set runs \<Longrightarrow> sorted run \<and> (\<forall>e \<in> set run. entry_fits e)"
    and anchored: "\<And>j. j < length runs \<Longrightarrow> runs ! j \<noteq> [] \<Longrightarrow> j \<noteq> i \<Longrightarrow> \<exists>e. (e, j) \<in> set h \<and> e \<le> hd (runs ! j)"
    using inv by (fastforce simp: merge_inv_def)+
  show "merge_inv runs h" if "runs ! i = []"
    using h runs anchored that unfolding merge_inv_def by blast
  assume r: "runs ! i = e' # run"
  have run: "sorted (e' # run)" "\<forall>e \<in> set (e' # run). entry_fits e" using runs [OF nth_mem [OF i]] r by auto
  have "\<exists>e. (e, j) \<in> set (heap_push (e', i) h) \<and> e \<le> hd (runs[i := run] ! j)"
    if "j < length runs" "runs[i := run] ! j \<noteq> []" for j
  proof (cases "j = i")
    case True
    with that i run(1) show ?thesis by (intro exI [of _ e']) (cases run; auto simp: set_insort_key)
  qed (use that anchored in \<open>auto simp: set_insort_key\<close>)
  moreover have "sorted a \<and> (\<forall>e \<in> set a. entry_fits e)" if "a \<in> set (runs[i := run])" for a
    using that runs run set_update_subset_insert [of runs i run] by auto
  ultimately show "merge_inv (runs[i := run]) (heap_push (e', i) h)"
    using h i unfolding merge_inv_def by (auto simp: set_insort_key sorted_insort)
qed

lemma mset_concat_update:
  "i < length runs \<Longrightarrow> runs ! i = x # run \<Longrightarrow> add_mset x (mset (concat (runs[i := run]))) = mset (concat runs)"
  by (induction runs arbitrary: i) (auto simp: nth_Cons split: nat.splits)

lemma merge_loop_sorted:
  assumes "merge_inv runs h"
  shows "\<exists>out. merge_loop (map data_provider_new runs) h = (out, Inr ()) \<and> sorted out \<and>
    mset out = image_mset fst (mset h) + mset (concat runs)"
  using assms
proof (induction "length h + length (concat runs)" arbitrary: runs h rule: less_induct)
  case less
  show ?case
  proof (cases h)
    case Nil
    then have "concat runs = []" using less.prems by (auto simp: merge_inv_def in_set_conv_nth)
    with Nil show ?thesis by (simp add: merge_loop.simps)
  next
    case (Cons p h')
    obtain e i where h: "h = (e, i) # h'" using Cons by (cases p) auto
    have inv: "merge_inv runs ((e, i) # h')" using less.prems h by simp
    have i: "i < length runs" using inv by (simp add: merge_inv_def)
    have "e \<le> fst y" if "y \<in> set h'" for y
      using merge_inv_top [OF inv, of "fst y" "snd y"] that by simp
    then have least: "e \<le> x" if "x \<in># image_mset fst (mset h') + mset (concat runs)" for x
      using that merge_inv_least [OF inv, of x] by auto
    show ?thesis
    proof (cases "runs ! i")
      case Nil
      note inv' = merge_inv_step(1) [OF inv Nil]
      obtain out where out: "merge_loop (map data_provider_new runs) h' = (out, Inr ())" "sorted out"
        "mset out = image_mset fst (mset h') + mset (concat runs)"
        using less.hyps [OF _ inv'] h by auto
      have "merge_loop (map data_provider_new runs) h = (e # out, Inr ())"
        using i Nil out(1) list_update_id [of "map data_provider_new runs" i]
        by (subst merge_loop.simps) (simp add: h)
      moreover have "sorted (e # out)" using out(2,3) least by (metis set_mset_mset sorted_simps(2))
      ultimately show ?thesis using out(3) h by simp
    next
      case (Cons e' run)
      note inv' = merge_inv_step(2) [OF inv Cons]
      have m: "add_mset e' (mset (concat (runs[i := run]))) = mset (concat runs)"
        using i Cons by (rule mset_concat_update)
      then have "length (concat (runs[i := run])) < length (concat runs)"
        by (metis size_add_mset size_mset lessI)
      then obtain out where out: "merge_loop (map data_provider_new (runs[i := run])) (heap_push (e', i) h') = (out, Inr ())"
        "sorted out" "mset out = image_mset fst (mset (heap_push (e', i) h')) + mset (concat (runs[i := run]))"
        using less.hyps [OF _ inv'] h by auto
      have mo: "mset out = image_mset fst (mset h') + mset (concat runs)" using out(3) m by (simp add: ac_simps)
      have "entry_fits e'" using inv Cons nth_mem [OF i] by (fastforce simp: merge_inv_def)
      then have "merge_loop (map data_provider_new runs) h = (e # out, Inr ())"
        using i Cons out(1) by (subst merge_loop.simps) (simp add: h to_next_Cons map_update del: heap_push.simps)
      moreover have "sorted (e # out)" using out(2) mo least by (metis set_mset_mset sorted_simps(2))
      ultimately show ?thesis using mo h by simp
    qed
  qed
qed

section \<open>The whole iteration\<close>

lemma anchor_runs:
  assumes "\<forall>run \<in> set runs. sorted run \<and> (\<forall>e \<in> set run. entry_fits e)" and "sorted h"
  shows "\<exists>h'. anchor n (map data_provider_new runs) h = Inr (map (data_provider_new \<circ> tl) runs, h') \<and> sorted h' \<and>
    set h' = set h \<union> {(hd (runs ! i), n + i) | i. i < length runs \<and> runs ! i \<noteq> []} \<and>
    image_mset fst (mset h') + mset (concat (map tl runs)) = image_mset fst (mset h) + mset (concat runs)"
  using assms
proof (induction runs arbitrary: n h)
  case (Cons run runs)
  let ?h = "if run = [] then h else heap_push (hd run, n) h"
  have srt: "sorted ?h" using Cons.prems(2) by (simp add: sorted_insort)
  have ok: "\<forall>run \<in> set runs. sorted run \<and> (\<forall>e \<in> set run. entry_fits e)" using Cons.prems(1) by simp
  obtain h' where h': "anchor (Suc n) (map data_provider_new runs) ?h = Inr (map (data_provider_new \<circ> tl) runs, h')"
    "sorted h'" "set h' = set ?h \<union> {(hd (runs ! i), Suc n + i) | i. i < length runs \<and> runs ! i \<noteq> []}"
    "image_mset fst (mset h') + mset (concat (map tl runs)) = image_mset fst (mset ?h) + mset (concat runs)"
    using Cons.IH [OF ok srt, of "Suc n"] by blast
  have "to_next (data_provider_new run) = Inr (if run = [] then None else Some (hd run), data_provider_new (tl run))"
    using Cons.prems(1) by (cases run) (simp_all add: to_next_Cons)
  then have "anchor n (map data_provider_new (run # runs)) h = Inr (map (data_provider_new \<circ> tl) (run # runs), h')"
    using h'(1) by (auto simp del: heap_push.simps)
  moreover have "set h' = set h \<union> {(hd ((run # runs) ! i), n + i) | i. i < length (run # runs) \<and> (run # runs) ! i \<noteq> []}"
    unfolding h'(3) by (auto simp: set_insort_key nth_Cons gr0_conv_Suc split: nat.splits if_splits)
  moreover have "image_mset fst (mset h') + mset (concat (map tl (run # runs))) = image_mset fst (mset h) + mset (concat (run # runs))"
    using h'(4) by (cases run) (simp_all add: ac_simps)
  ultimately show ?case using h'(2) by blast
qed simp

text \<open>The runs of a collector, and what it holds.\<close>

definition collects :: "collector \<Rightarrow> etl_entry list \<Rightarrow> bool" where
  "collects c es \<longleftrightarrow> (\<exists>runs. cl_data_providers c = map data_provider_new runs \<and>
     (\<forall>run \<in> set runs. sorted run) \<and> mset es = mset (concat runs) + mset (cl_buffer c) \<and>
     cl_buffer_size c = sum_list (map (\<lambda>(k, v). length k + length v) (cl_buffer c)))"

lemma collects_flush: "collects c es \<Longrightarrow> collects (collector_flush c) es"
  unfolding collects_def collector_flush_def
  by (elim exE conjE) (rule exI [of _ "_ @ [sort (cl_buffer c)]"], auto)

lemma collects_push:
  "collects c es \<Longrightarrow> collects (collector_push ek ev k v c) (es @ [(ek k, ev v)])"
  by (auto simp: collector_push_def Let_def intro!: collects_flush) (auto simp: collects_def)

definition push_all :: "('k \<Rightarrow> bytes) \<Rightarrow> ('v \<Rightarrow> bytes) \<Rightarrow> ('k \<times> 'v) list \<Rightarrow> collector \<Rightarrow> collector" where
  "push_all ek ev kvs c = fold (\<lambda>(k, v). collector_push ek ev k v) kvs c"

lemma collects_all:
  assumes "collects c es"
  shows "collects (push_all ek ev kvs c) (es @ map (\<lambda>(k, v). (ek k, ev v)) kvs)"
  using assms unfolding push_all_def
proof (induction kvs arbitrary: c es)
  case (Cons kv kvs)
  obtain k v where "kv = (k, v)" by fastforce
  with Cons.IH [OF collects_push [OF Cons.prems]] show ?case by simp
qed simp

lemma collector_iter_sorted:
  assumes c: "collects c es" and fits: "\<forall>e \<in> set es. entry_fits e \<and> e \<noteq> ([], [])"
  shows "collector_iter c = (sort es, Inr ())"
proof (cases "cl_data_providers c = []")
  case True
  then have "mset es = mset (cl_buffer c)" using c by (auto simp: collects_def)
  then have "sort es = sort (cl_buffer c)" by (metis properties_for_sort mset_sort sorted_sort)
  with True show ?thesis by (simp add: collector_iter_def)
next
  case False
  let ?c = "if cl_buffer_size c \<noteq> 0 then collector_flush c else c"
  have "collects ?c es" using c collects_flush by auto
  moreover have "cl_buffer ?c = []"
  proof (cases "cl_buffer_size c = 0")
    case True
    then have empty: "e = ([], [])" if "e \<in> set (cl_buffer c)" for e
      using c that by (cases e) (auto simp: collects_def)
    have "set (cl_buffer c) \<subseteq> set es"
      using c by (auto simp: collects_def dest!: arg_cong [where f = set_mset])
    then have "cl_buffer c = []" using fits empty by (metis last_in_set subsetD)
    then show ?thesis using True by simp
  qed (simp add: collector_flush_def)
  ultimately obtain runs where runs: "cl_data_providers ?c = map data_provider_new runs"
    "\<forall>run \<in> set runs. sorted run" "mset es = mset (concat runs)"
    by (auto simp: collects_def)
  have "set (concat runs) = set es" using runs(3) by (metis set_mset_mset)
  then have ok: "\<forall>run \<in> set runs. sorted run \<and> (\<forall>e \<in> set run. entry_fits e)" using runs(2) fits by auto
  obtain h where h: "anchor 0 (map data_provider_new runs) [] = Inr (map (data_provider_new \<circ> tl) runs, h)" "sorted h"
    "set h = {(hd (runs ! i), i) | i. i < length runs \<and> runs ! i \<noteq> []}"
    "image_mset fst (mset h) + mset (concat (map tl runs)) = mset (concat runs)"
    using anchor_runs [OF ok, of "[]" 0] by auto
  have hd_le: "hd run \<le> hd (tl run)" if r: "run \<in> set runs" "tl run \<noteq> []" for run
  proof -
    have "sorted run" using r(1) ok by blast
    moreover obtain x y ys where "run = x # y # ys" using r(2) by (cases run rule: remdups_adj.cases) auto
    ultimately show ?thesis by simp
  qed
  have "merge_inv (map tl runs) h"
    unfolding merge_inv_def
  proof (intro conjI allI impI)
    fix i assume i: "i < length (map tl runs)" "map tl runs ! i \<noteq> []"
    then have "runs ! i \<noteq> []" "hd (runs ! i) \<le> hd (tl (runs ! i))" using hd_le [of "runs ! i"] by auto
    with i h(3) show "\<exists>e. (e, i) \<in> set h \<and> e \<le> hd (map tl runs ! i)"
      by (intro exI [of _ "hd (runs ! i)"]) auto
  next
    have "sorted (tl run) \<and> (\<forall>e \<in> set (tl run). entry_fits e)" if "run \<in> set runs" for run
      using bspec [OF ok that] by (cases run) simp_all
    then show "\<forall>run \<in> set (map tl runs). sorted run \<and> (\<forall>e \<in> set run. entry_fits e)" by simp
  qed (use h in auto)
  from merge_loop_sorted [OF this] obtain out where out: "merge_loop (map (data_provider_new \<circ> tl) runs) h = (out, Inr ())"
    "sorted out" "mset out = mset es" using h(4) runs(3) by auto
  then have "out = sort es" by (metis properties_for_sort)
  then show ?thesis using False runs(1) h(1) out(1) by (simp add: collector_iter_def Let_def)
qed

text \<open>
  C21.  The collector sorts: after any sequence of pushes into a new collector of entries whose
  encoded key and value are not both empty and have lengths of 64 bits, whatever its capacity and
  so however many runs were spilled to files and merged, iterating over it yields exactly the
  encoded entries in ascending order of key and value, and ends without an error.  Entries with
  both parts empty are excluded since the source loses them: a last buffer of such entries has
  size zero and is not flushed.
\<close>

theorem collector_sorts:
  assumes "\<forall>(k, v) \<in> set kvs. entry_fits (ek k, ev v) \<and> (ek k, ev v) \<noteq> ([], [])"
  shows "collector_iter (push_all ek ev kvs (collector_new capacity)) = (sort (map (\<lambda>(k, v). (ek k, ev v)) kvs), Inr ())"
proof -
  have "collects (collector_new capacity) []" by (auto simp: collects_def collector_new_def)
  from collects_all [OF this, of ek ev kvs] show ?thesis
    using assms by (intro collector_iter_sorted) auto
qed

theorem collector_sorts_witness:
  "collector_iter (push_all (\<lambda>k. k) (\<lambda>v. v) [([3], [1]), ([1, 2], [7]), ([1], [9]), ([2], [0])] (collector_new 4)) =
     ([([1], [9]), ([1, 2], [7]), ([2], [0]), ([3], [1])], Inr ())"
  by (subst collector_sorts) (auto simp: entry_fits_def)

end
