(* ===== verification/Kv_Table.thy ===== *)
theory Kv_Table
  imports
    Models
begin

text \<open>
  Tables of the key-value store, as the stages use them through the traits of
  \<^verbatim>\<open>src/src/kv/traits.rs\<close>.  The store itself is MDBX: the operations of a table are a record
  that the definitions take as an argument, and what the documentation of the store promises
  about them is the interface \<open>ordered_table\<close>.  Ordered association lists have these laws.
\<close>

record ('t, 'k, 'v) table_ops =
  tab_get :: "'t \<Rightarrow> 'k \<Rightarrow> 'v option"
  tab_last :: "'t \<Rightarrow> ('k \<times> 'v) option"
  tab_append :: "'k \<Rightarrow> 'v \<Rightarrow> 't \<Rightarrow> string + 't"
  tab_delete :: "'k \<Rightarrow> 't \<Rightarrow> 't"

text \<open>\<open>get\<close> and \<open>seek_exact\<close> find an entry, \<open>last\<close> the one with the greatest key, \<open>append\<close> adds
  an entry above all others and \<open>delete\<close> removes the entry a cursor is on.\<close>

locale ordered_table =
  fixes K :: "('t, 'k::linorder, 'v) table_ops"
  assumes finite_keys: "finite {k. tab_get K t k \<noteq> None}"
    and last_None: "tab_last K t = None \<Longrightarrow> tab_get K t k = None"
    and last_Some: "tab_last K t = Some (k, v) \<Longrightarrow> tab_get K t k = Some v \<and> (\<forall>j > k. tab_get K t j = None)"
    and append_above: "(\<And>j. k \<le> j \<Longrightarrow> tab_get K t j = None) \<Longrightarrow>
      \<exists>t'. tab_append K k v t = Inr t' \<and> tab_get K t' = (tab_get K t)(k \<mapsto> v)"
    and get_delete: "tab_get K (tab_delete K k t) = (tab_get K t)(k := None)"
begin

lemma last_greatest: "tab_last K t = Some (k, v) \<Longrightarrow> tab_get K t j \<noteq> None \<Longrightarrow> j \<le> k"
  using last_Some by (metis not_le)

lemma last_bound:
  assumes "\<And>j. u < j \<Longrightarrow> tab_get K t j = None" and "tab_last K t = Some (k, v)"
  shows "k \<le> u"
  using assms last_Some by (metis not_le option.distinct(1))

text \<open>Deleting the last entry makes the table smaller.\<close>

lemma delete_smaller:
  assumes "tab_get K t k = Some v"
  shows "card {j. tab_get K (tab_delete K k t) j \<noteq> None} < card {j. tab_get K t j \<noteq> None}"
proof -
  have "{j. tab_get K (tab_delete K k t) j \<noteq> None} = {j. tab_get K t j \<noteq> None} - {k}"
    by (auto simp: get_delete)
  with assms finite_keys show ?thesis by (metis (mono_tags, lifting) card_Diff1_less mem_Collect_eq option.distinct(1))
qed

end

section \<open>Association lists are tables\<close>

text \<open>New entries go to the end, where the greatest key is; \<open>append\<close> refuses a key that is not
  above all others, as MDBX does.\<close>

definition ol_last :: "('k::linorder \<times> 'v) list \<Rightarrow> ('k \<times> 'v) option" where
  "ol_last t = (if t = [] then None else
     let k = Max (set (map fst t)) in map_option (Pair k) (map_of t k))"

definition ol_append :: "'k::linorder \<Rightarrow> 'v \<Rightarrow> ('k \<times> 'v) list \<Rightarrow> string + ('k \<times> 'v) list" where
  "ol_append k v t = (if list_all (\<lambda>e. fst e < k) t then Inr (t @ [(k, v)])
     else Inl ''MDBX_EKEYMISMATCH'')"

definition ol_delete :: "'k \<Rightarrow> ('k \<times> 'v) list \<Rightarrow> ('k \<times> 'v) list" where
  "ol_delete k t = filter (\<lambda>e. fst e \<noteq> k) t"

definition ol_table :: "(('k::linorder \<times> 'v) list, 'k, 'v) table_ops" where
  "ol_table = \<lparr> tab_get = map_of, tab_last = ol_last, tab_append = ol_append, tab_delete = ol_delete \<rparr>"

lemma ol_table_ops [simp]:
  "tab_get ol_table = map_of" "tab_last ol_table = ol_last"
  "tab_append ol_table = ol_append" "tab_delete ol_table = ol_delete"
  by (simp_all add: ol_table_def)

lemma map_of_filter_key: "map_of (filter (\<lambda>e. fst e \<noteq> k) t) = (map_of t)(k := None)"
  by (induction t) (auto simp: fun_eq_iff)

lemma ol_last_Some:
  assumes "ol_last t = Some (k, v)"
  shows "map_of t k = Some v \<and> (\<forall>j > k. map_of t j = None)"
proof -
  from assms have k: "k = Max (fst ` set t)" and v: "map_of t k = Some v"
    by (auto simp: ol_last_def Let_def split: if_splits)
  have "map_of t j = None" if "j > k" for j
    using that unfolding k map_of_eq_None_iff by (meson List.finite_set Max.coboundedI finite_imageI not_le)
  with v show ?thesis by blast
qed

lemma ol_last_None: "ol_last t = None \<longleftrightarrow> t = []"
proof (cases "t = []")
  case False
  then have "Max (fst ` set t) \<in> fst ` set t" by (intro Max_in) auto
  then have "map_of t (Max (fst ` set t)) \<noteq> None" by (simp add: map_of_eq_None_iff)
  with False show ?thesis by (auto simp: ol_last_def Let_def)
qed (simp add: ol_last_def)

interpretation ol: ordered_table "ol_table :: (('k::linorder \<times> 'v) list, 'k, 'v) table_ops"
proof
  fix t :: "('k \<times> 'v) list" and k v
  show "finite {k. tab_get ol_table t k \<noteq> None}"
    using finite_dom_map_of [of t] by (simp add: dom_def)
  show "tab_last ol_table t = None \<Longrightarrow> tab_get ol_table t k = None" by (simp add: ol_last_None)
  show "tab_last ol_table t = Some (k, v) \<Longrightarrow>
      tab_get ol_table t k = Some v \<and> (\<forall>j > k. tab_get ol_table t j = None)"
    using ol_last_Some by simp
  show "tab_get ol_table (tab_delete ol_table k t) = (tab_get ol_table t)(k := None)"
    by (simp add: ol_delete_def map_of_filter_key)
  assume above: "\<And>j. k \<le> j \<Longrightarrow> tab_get ol_table t j = None"
  have "fst e < k" if "e \<in> set t" for e
    using above [of "fst e"] that by (force simp: map_of_eq_None_iff not_le)
  moreover have "map_of (t @ [(k, v)]) = (map_of t)(k \<mapsto> v)"
    using above [of k] by (auto simp: fun_eq_iff map_add_def split: option.splits)
  ultimately show "\<exists>t'. tab_append ol_table k v t = Inr t' \<and> tab_get ol_table t' = (tab_get ol_table t)(k \<mapsto> v)"
    by (simp add: ol_append_def list_all_iff)
qed

end
