(* ===== verification/Staged_Sync.thy ===== *)
theory Staged_Sync
  imports
    Models
begin

text \<open>
  The staged synchronisation loop (\<^verbatim>\<open>src/src/stagedsync\<close>): stages run one after another
  in a database transaction until each reports that it is done, progress is saved per stage,
  a stage may ask to unwind the others, and the loop returns when the slowest stage is at the
  maximal block.

  A transaction is the table \<open>SyncStage\<close> together with the other tables; the database is
  the transaction last committed, which a new transaction starts from.  The memory of the stages
  (\<open>&mut self\<close>) is not part of a transaction and survives an abort.  A stage is a record of its
  operations, where \<open>None\<close> is a call that does not return.  Instants, log messages and the delay
  after a round do not influence the loop and are left out; the operations of the store
  itself (\<open>begin_mutable\<close>, \<open>commit\<close>, \<open>get\<close>, \<open>set\<close>) do not fail.
\<close>

section \<open>Stages (stagedsync/stage.rs, stagedsync/stages.rs)\<close>

type_synonym stage_id = string

definition HEADERS :: stage_id where "HEADERS = ''Headers''"
definition BLOCK_HASHES :: stage_id where "BLOCK_HASHES = ''BlockHashes''"
definition BODIES :: stage_id where "BODIES = ''Bodies''"
definition SENDERS :: stage_id where "SENDERS = ''SenderRecovery''"
definition TOTAL_GAS_INDEX :: stage_id where "TOTAL_GAS_INDEX = ''TotalGasIndex''"
definition TOTAL_TX_INDEX :: stage_id where "TOTAL_TX_INDEX = ''TotalTxIndex''"
definition EXECUTION :: stage_id where "EXECUTION = ''Execution''"
definition INTERMEDIATE_HASHES :: stage_id where "INTERMEDIATE_HASHES = ''IntermediateHashes''"
definition HASH_STATE :: stage_id where "HASH_STATE = ''HashState''"
definition ACCOUNT_HISTORY_INDEX :: stage_id where "ACCOUNT_HISTORY_INDEX = ''AccountHistoryIndex''"
definition STORAGE_HISTORY_INDEX :: stage_id where "STORAGE_HISTORY_INDEX = ''StorageHistoryIndex''"
definition LOG_INDEX :: stage_id where "LOG_INDEX = ''LogIndex''"
definition CALL_TRACES :: stage_id where "CALL_TRACES = ''CallTraces''"
definition TX_LOOKUP :: stage_id where "TX_LOOKUP = ''TxLookup''"
definition TX_POOL :: stage_id where "TX_POOL = ''TxPool''"
definition FINISH :: stage_id where "FINISH = ''Finish''"

datatype stage_error = Stage_Error string | Stage_Panic

datatype exec_output = Unwind block_number | Progress block_number bool

record stage_input =
  si_restarted :: bool
  si_first_started_at :: "block_number option"
  si_previous_stage :: "(stage_id \<times> block_number) option"
  si_stage_progress :: "block_number option"

record unwind_input =
  ui_stage_progress :: block_number
  ui_unwind_to :: block_number

record 'd kv_tx =
  sync_stage :: "stage_id \<rightharpoonup> block_number"
  tables :: 'd

record ('s, 'd) stage =
  st_id :: stage_id
  st_execute :: "stage_input \<Rightarrow> 's \<Rightarrow> 'd \<Rightarrow> ((stage_error + exec_output) \<times> 's \<times> 'd) option"
  st_unwind :: "unwind_input \<Rightarrow> 's \<Rightarrow> 'd \<Rightarrow> ((stage_error + block_number) \<times> 's \<times> 'd) option"

definition get_progress :: "stage_id \<Rightarrow> 'd kv_tx \<Rightarrow> block_number option" where
  "get_progress i t = sync_stage t i"

definition save_progress :: "stage_id \<Rightarrow> block_number \<Rightarrow> 'd kv_tx \<Rightarrow> 'd kv_tx" where
  "save_progress i p t = t\<lparr>sync_stage := (sync_stage t)(i \<mapsto> p)\<rparr>"

definition progress_of :: "stage_id \<Rightarrow> 'd kv_tx \<Rightarrow> block_number" where
  "progress_of i t = (case get_progress i t of None \<Rightarrow> 0 | Some p \<Rightarrow> p)"

lemma get_save_progress [simp]:
  "get_progress i (save_progress j p t) = (if i = j then Some p else get_progress i t)"
  "tables (save_progress j p t) = tables t"
  by (simp_all add: get_progress_def save_progress_def)

lemma get_progress_tables [simp]: "get_progress i (t\<lparr>tables := d\<rparr>) = get_progress i t"
  by (simp add: get_progress_def)

lemma progress_of_save [simp]:
  "progress_of i (save_progress j p t) = (if i = j then p else progress_of i t)"
  by (simp add: progress_of_def)

lemma progress_of_tables [simp]: "progress_of i (t\<lparr>tables := d\<rparr>) = progress_of i t"
  by (simp add: progress_of_def)

section \<open>The loop (stagedsync/mod.rs)\<close>

record ('s, 'd) staged_sync =
  stages :: "('s, 'd) stage list"
  min_progress_to_commit_after_stage :: u64
  max_block :: "block_number option"
  exit_after_sync :: bool
  delay_after_sync :: "u64 option"

definition staged_sync_new :: "('s, 'd) staged_sync" where
  "staged_sync_new = \<lparr> stages = [], min_progress_to_commit_after_stage = 0, max_block = None,
     exit_after_sync = False, delay_after_sync = None \<rparr>"

definition push_stage :: "('s, 'd) stage \<Rightarrow> ('s, 'd) staged_sync \<Rightarrow> ('s, 'd) staged_sync" where
  "push_stage st c = c\<lparr>stages := stages c @ [st]\<rparr>"

definition set_min_progress_to_commit_after_stage ::
    "u64 \<Rightarrow> ('s, 'd) staged_sync \<Rightarrow> ('s, 'd) staged_sync" where
  "set_min_progress_to_commit_after_stage v c = c\<lparr>min_progress_to_commit_after_stage := v\<rparr>"

definition set_max_block :: "block_number option \<Rightarrow> ('s, 'd) staged_sync \<Rightarrow> ('s, 'd) staged_sync" where
  "set_max_block v c = c\<lparr>max_block := v\<rparr>"

definition set_exit_after_sync :: "bool \<Rightarrow> ('s, 'd) staged_sync \<Rightarrow> ('s, 'd) staged_sync" where
  "set_exit_after_sync v c = c\<lparr>exit_after_sync := v\<rparr>"

definition set_delay_after_sync :: "u64 option \<Rightarrow> ('s, 'd) staged_sync \<Rightarrow> ('s, 'd) staged_sync" where
  "set_delay_after_sync v c = c\<lparr>delay_after_sync := v\<rparr>"

text \<open>What the loop holds between two steps: the committed database, the current transaction,
  the memory of the stages and the minimal progress seen in this round.  A part of a round goes
  on with a value, asks to unwind, or fails.\<close>

record ('s, 'd) sync_state =
  db :: "'d kv_tx"
  tx :: "'d kv_tx"
  memory :: 's
  minimum_progress :: "block_number option"

datatype 'a control = Next 'a | Unwind_Requested block_number | Failed stage_error

definition saturating_sub :: "u64 \<Rightarrow> u64 \<Rightarrow> u64" where
  "saturating_sub a b = (if a \<ge> b then a - b else 0)"

definition lower_minimum :: "block_number \<Rightarrow> block_number option \<Rightarrow> block_number option" where
  "lower_minimum p m = (case m of None \<Rightarrow> Some p | Some q \<Rightarrow> Some (min q p))"

text \<open>After a successful invocation the progress is saved and the transaction is committed when
  the stage has moved far enough since it was first started.\<close>

definition note_progress ::
    "u64 \<Rightarrow> stage_id \<Rightarrow> block_number option \<Rightarrow> block_number \<Rightarrow> ('s, 'd) sync_state \<Rightarrow> ('s, 'd) sync_state" where
  "note_progress m i start p s =
     (let t = save_progress i p (tx s);
          s = s\<lparr>tx := t, minimum_progress := lower_minimum p (minimum_progress s)\<rparr>
      in if saturating_sub p (case start of None \<Rightarrow> 0 | Some v \<Rightarrow> v) \<ge> m then s\<lparr>db := t\<rparr> else s)"

partial_function (option) run_stage ::
    "u64 \<Rightarrow> ('s, 'd) stage \<Rightarrow> (stage_id \<times> block_number) option \<Rightarrow> block_number option \<Rightarrow> bool \<Rightarrow>
     ('s, 'd) sync_state \<Rightarrow> (block_number control \<times> ('s, 'd) sync_state) option" where
  "run_stage m st prev start restarted s =
     Option.bind (st_execute st \<lparr> si_restarted = restarted, si_first_started_at = start,
         si_previous_stage = prev, si_stage_progress = get_progress (st_id st) (tx s) \<rparr>
         (memory s) (tables (tx s)))
       (\<lambda>(out, mem, d). let s = s\<lparr>tx := (tx s)\<lparr>tables := d\<rparr>, memory := mem\<rparr> in
          case out of
            Inl e \<Rightarrow> Some (Failed e, s)
          | Inr out \<Rightarrow> (case out of
              Unwind to \<Rightarrow> Some (Unwind_Requested to, s)
            | Progress p done \<Rightarrow>
                let s = note_progress m (st_id st) start p s in
                if done then Some (Next p, s) else run_stage m st prev start True s))"

fun run_stages ::
    "u64 \<Rightarrow> (stage_id \<times> block_number) option \<Rightarrow> ('s, 'd) stage list \<Rightarrow> ('s, 'd) sync_state \<Rightarrow>
     (unit control \<times> ('s, 'd) sync_state) option" where
  "run_stages m prev [] s = Some (Next (), s)"
| "run_stages m prev (st # sts) s =
     Option.bind (run_stage m st prev (get_progress (st_id st) (tx s)) False s)
       (\<lambda>(c, s). case c of
            Next p \<Rightarrow> run_stages m (Some (st_id st, p)) sts s
          | Unwind_Requested to \<Rightarrow> Some (Unwind_Requested to, s)
          | Failed e \<Rightarrow> Some (Failed e, s))"

partial_function (option) unwind_stage ::
    "block_number \<Rightarrow> ('s, 'd) stage \<Rightarrow> block_number \<Rightarrow> 's \<Rightarrow> 'd kv_tx \<Rightarrow>
     ((stage_error + unit) \<times> 's \<times> 'd kv_tx) option" where
  "unwind_stage to st p mem t =
     (if p > to then
        Option.bind (st_unwind st \<lparr> ui_stage_progress = p, ui_unwind_to = to \<rparr> mem (tables t))
          (\<lambda>(out, mem, d). let t = t\<lparr>tables := d\<rparr> in
             case out of
               Inl e \<Rightarrow> Some (Inl e, mem, t)
             | Inr q \<Rightarrow> unwind_stage to st q mem (save_progress (st_id st) q t))
      else Some (Inr (), mem, t))"

fun unwind_stages ::
    "block_number \<Rightarrow> ('s, 'd) stage list \<Rightarrow> 's \<Rightarrow> 'd kv_tx \<Rightarrow>
     ((stage_error + unit) \<times> 's \<times> 'd kv_tx) option" where
  "unwind_stages to [] mem t = Some (Inr (), mem, t)"
| "unwind_stages to (st # sts) mem t =
     Option.bind (unwind_stage to st (progress_of (st_id st) t) mem t)
       (\<lambda>(r, mem, t). case r of Inl e \<Rightarrow> Some (Inl e, mem, t) | Inr _ \<Rightarrow> unwind_stages to sts mem t)"

text \<open>\<open>run\<close>: the result with the committed database and the memory of the stages.\<close>

definition reached_max :: "('s, 'd) staged_sync \<Rightarrow> ('s, 'd) sync_state \<Rightarrow> bool" where
  "reached_max c s \<longleftrightarrow> minimum_progress s \<noteq> None \<and> max_block c \<noteq> None \<and> minimum_progress s = max_block c"

partial_function (option) sync_run ::
    "('s, 'd) staged_sync \<Rightarrow> block_number option \<Rightarrow> 's \<Rightarrow> 'd kv_tx \<Rightarrow>
     ((stage_error + unit) \<times> 's \<times> 'd kv_tx) option" where
  "sync_run c unwind_to mem t =
     (case unwind_to of
        Some to \<Rightarrow>
          Option.bind (unwind_stages to (rev (stages c)) mem t)
            (\<lambda>(r, mem', t'). case r of
               Inl e \<Rightarrow> Some (Inl e, mem', t)
             | Inr _ \<Rightarrow> sync_run c None mem' t')
      | None \<Rightarrow>
          Option.bind (run_stages (min_progress_to_commit_after_stage c) None (stages c)
              \<lparr> db = t, tx = t, memory = mem, minimum_progress = None \<rparr>)
            (\<lambda>(r, s). case r of
               Failed e \<Rightarrow> Some (Inl e, memory s, db s)
             | Unwind_Requested to \<Rightarrow> sync_run c (Some to) (memory s) (db s)
             | Next _ \<Rightarrow>
                 if reached_max c s then Some (Inr (), memory s, tx s)
                 else sync_run c None (memory s) (tx s)))"

end
