(* ===== verification/Index_Stages.thy ===== *)
theory Index_Stages
  imports
    Kv_Table Staged_Sync
begin

text \<open>
  The stages that keep cumulative indexes, \<open>TotalGasIndex\<close> (\<^verbatim>\<open>stages/total_gas_index.rs\<close>) and
  \<open>TotalTxIndex\<close> (\<^verbatim>\<open>stages/total_tx_index.rs\<close>), and their use by
  \<open>should_do_clean_promotion\<close> (\<^verbatim>\<open>stages/stage_util.rs\<close>).  The tables a stage only reads are
  maps; those it changes through a cursor are tables with the operations \<open>K\<close>.  A stage that
  fails leaves its transaction to be dropped, so no tables are returned with an error.
\<close>

section \<open>Tables\<close>

record body_for_storage =
  bs_base_tx_id :: u64
  bs_tx_amount :: u64
  bs_uncles :: "block_header list"

record 't chain_tables =
  tb_canonical_header :: "block_number \<rightharpoonup> h256"
  tb_header :: "block_number \<times> h256 \<rightharpoonup> block_header"
  tb_block_body :: "block_number \<times> h256 \<rightharpoonup> body_for_storage"
  tb_total_gas :: 't
  tb_total_tx :: 't

type_synonym 't index_ops = "('t, block_number, u64) table_ops"

section \<open>Operations\<close>

text \<open>The range \<open>a..=b\<close> of block numbers.\<close>

definition blocks_incl :: "block_number \<Rightarrow> block_number \<Rightarrow> block_number list" where
  "blocks_incl a b = map of_nat [unat a ..< Suc (unat b)]"

definition store_result :: "string + 'a \<Rightarrow> stage_error + 'a" where
  "store_result r = (case r of Inl e \<Rightarrow> Inl (Stage_Error e) | Inr x \<Rightarrow> Inr x)"

text \<open>The body of the loop: read the amount of the block, add it, append the sum.\<close>

definition append_sum ::
    "'t index_ops \<Rightarrow> (block_number \<Rightarrow> stage_error + u64) \<Rightarrow> block_number \<Rightarrow> u64 \<times> 't \<Rightarrow> stage_error + u64 \<times> 't" where
  "append_sum K amount b = (\<lambda>(total, t).
     bind_r (amount b) (\<lambda>a. let total = total + a in
     bind_r (store_result (tab_append K b total t)) (\<lambda>t. Inr (total, t))))"

definition header_gas :: "'t chain_tables \<Rightarrow> block_number \<Rightarrow> stage_error + u64" where
  "header_gas d b =
     bind_r (ok_or Stage_Panic (tb_canonical_header d b)) (\<lambda>h.
     bind_r (ok_or Stage_Panic (tb_header d (b, h))) (\<lambda>hd. Inr (h_gas_used hd)))"

definition body_txs :: "'t chain_tables \<Rightarrow> block_number \<Rightarrow> stage_error + u64" where
  "body_txs d b =
     bind_r (ok_or Stage_Panic (tb_canonical_header d b)) (\<lambda>h.
     bind_r (ok_or Stage_Panic (tb_block_body d (b, h))) (\<lambda>bd. Inr (bs_tx_amount bd)))"

definition extend_index ::
    "'t index_ops \<Rightarrow> (block_number \<Rightarrow> stage_error + u64) \<Rightarrow> stage_input \<Rightarrow> 't \<Rightarrow> stage_error + exec_output \<times> 't" where
  "extend_index K amount i t =
     (let prev_progress = (case si_stage_progress i of None \<Rightarrow> 0 | Some p \<Rightarrow> p);
          starting_block = prev_progress + 1
      in bind_r (ok_or (Stage_Error ''Cannot be the first stage'') (map_option snd (si_previous_stage i))) (\<lambda>max_block.
         bind_r
           (if max_block \<ge> starting_block then
              bind_r (ok_or Stage_Panic (tab_get K t prev_progress)) (\<lambda>total.
              bind_r (fold_r (append_sum K amount) (blocks_incl starting_block max_block) (total, t)) (\<lambda>(_, t). Inr t))
            else Inr t)
           (\<lambda>t. Inr (Progress max_block True, t))))"

definition total_gas_index_execute ::
    "'t index_ops \<Rightarrow> stage_input \<Rightarrow> 's \<Rightarrow> 't chain_tables \<Rightarrow> ((stage_error + exec_output) \<times> 's \<times> 't chain_tables) option" where
  "total_gas_index_execute K i mem d = Some (case extend_index K (header_gas d) i (tb_total_gas d) of
       Inl e \<Rightarrow> (Inl e, mem, d)
     | Inr (out, t) \<Rightarrow> (Inr out, mem, d\<lparr>tb_total_gas := t\<rparr>))"

definition total_tx_index_execute ::
    "'t index_ops \<Rightarrow> stage_input \<Rightarrow> 's \<Rightarrow> 't chain_tables \<Rightarrow> ((stage_error + exec_output) \<times> 's \<times> 't chain_tables) option" where
  "total_tx_index_execute K i mem d = Some (case extend_index K (body_txs d) i (tb_total_tx d) of
       Inl e \<Rightarrow> (Inl e, mem, d)
     | Inr (out, t) \<Rightarrow> (Inr out, mem, d\<lparr>tb_total_tx := t\<rparr>))"

text \<open>The loop of both \<open>unwind\<close> methods: delete the last entry while it is above the block.\<close>

partial_function (option) drop_above :: "'t index_ops \<Rightarrow> block_number \<Rightarrow> 't \<Rightarrow> 't option" where
  "drop_above K to t = (case tab_last K t of
       None \<Rightarrow> Some t
     | Some e \<Rightarrow> if fst e > to then drop_above K to (tab_delete K (fst e) t) else Some t)"

definition total_gas_index_unwind ::
    "'t index_ops \<Rightarrow> unwind_input \<Rightarrow> 's \<Rightarrow> 't chain_tables \<Rightarrow> ((stage_error + block_number) \<times> 's \<times> 't chain_tables) option" where
  "total_gas_index_unwind K u mem d = map_option (\<lambda>t. (Inr (ui_unwind_to u), mem, d\<lparr>tb_total_gas := t\<rparr>))
     (drop_above K (ui_unwind_to u) (tb_total_gas d))"

definition total_tx_index_unwind ::
    "'t index_ops \<Rightarrow> unwind_input \<Rightarrow> 's \<Rightarrow> 't chain_tables \<Rightarrow> ((stage_error + block_number) \<times> 's \<times> 't chain_tables) option" where
  "total_tx_index_unwind K u mem d = map_option (\<lambda>t. (Inr (ui_unwind_to u), mem, d\<lparr>tb_total_tx := t\<rparr>))
     (drop_above K (ui_unwind_to u) (tb_total_tx d))"

definition total_gas_index :: "'t index_ops \<Rightarrow> ('s, 't chain_tables) stage" where
  "total_gas_index K = \<lparr> st_id = TOTAL_GAS_INDEX, st_execute = total_gas_index_execute K,
     st_unwind = total_gas_index_unwind K \<rparr>"

definition total_tx_index :: "'t index_ops \<Rightarrow> ('s, 't chain_tables) stage" where
  "total_tx_index K = \<lparr> st_id = TOTAL_TX_INDEX, st_execute = total_tx_index_execute K,
     st_unwind = total_tx_index_unwind K \<rparr>"

definition should_do_clean_promotion ::
    "'t index_ops \<Rightarrow> 't \<Rightarrow> block_number \<Rightarrow> block_number \<Rightarrow> block_number \<Rightarrow> u64 \<Rightarrow> stage_error + bool" where
  "should_do_clean_promotion K total_gas genesis past_progress max_number threshold =
     bind_r (ok_or (Stage_Error ''No cumulative index for block'') (tab_get K total_gas past_progress)) (\<lambda>current_gas.
     bind_r (ok_or (Stage_Error ''No cumulative index for block'') (tab_get K total_gas max_number)) (\<lambda>max_gas.
     bind_r (if max_gas \<ge> current_gas then Inr (max_gas - current_gas)
             else Inl (Stage_Error ''Faulty cumulative index: max gas less than current gas'')) (\<lambda>gas_progress.
     Inr (past_progress = genesis \<or> gas_progress > threshold))))"

section \<open>The indexes\<close>

text \<open>The sum of the amounts of the blocks after genesis, in the arithmetic of \<open>u64\<close>.\<close>

definition cumulative :: "(block_number \<Rightarrow> u64) \<Rightarrow> block_number \<Rightarrow> u64" where
  "cumulative f b = (\<Sum>x = 1..unat b. f (of_nat x))"

definition index_upto :: "'t index_ops \<Rightarrow> (block_number \<Rightarrow> u64) \<Rightarrow> block_number \<Rightarrow> 't \<Rightarrow> bool" where
  "index_upto K f p t \<longleftrightarrow> tab_get K t = (\<lambda>b. if b \<le> p then Some (cumulative f b) else None)"

lemma unat_of_nat_le: "n \<le> unat (M :: 'a::len word) \<Longrightarrow> unat (of_nat n :: 'a word) = n"
  using le_less_trans [OF _ unsigned_less [of M, where ?'a = nat]]
  by (simp add: unsigned_of_nat take_bit_nat_eq_self)

lemma unat_next:
  assumes "p < (M :: 'a::len word)"
  shows "unat (p + 1) = Suc (unat p)"
proof -
  have "Suc (unat p) < 2 ^ LENGTH('a)"
    using assms unsigned_less [of M, where ?'a = nat] by (simp only: word_less_nat_alt)
  then show ?thesis using unat_add_no_wrap [of p 1] by simp
qed

lemma cumulative_Suc:
  "n < unat (M :: block_number) \<Longrightarrow>
    cumulative f (of_nat (Suc n)) = cumulative f (of_nat n) + f (of_nat (Suc n))"
  using unat_of_nat_le [of n M] unat_of_nat_le [of "Suc n" M] by (simp add: cumulative_def del: of_nat_Suc)

lemma cumulative_0 [simp]: "cumulative f 0 = 0"
  by (simp add: cumulative_def)

lemma cumulative_cong:
  "(\<And>x. 0 < x \<Longrightarrow> x \<le> b \<Longrightarrow> f x = g x) \<Longrightarrow> cumulative f b = cumulative g b"
  unfolding cumulative_def
  by (intro sum.cong) (auto simp: word_le_nat_alt word_less_nat_alt unat_of_nat_le)

lemma index_upto_cong:
  "(\<And>x. 0 < x \<Longrightarrow> x \<le> p \<Longrightarrow> f x = g x) \<Longrightarrow> index_upto K f p t = index_upto K g p t"
  unfolding index_upto_def using cumulative_cong [of _ f g] order_trans by (auto simp: fun_eq_iff)

locale index_table = ordered_table K for K :: "'t index_ops"
begin

text \<open>Appending the next sum extends the index by one block.\<close>

lemma append_sum_extends:
  assumes "index_upto K f (of_nat n) t" and n: "n < unat (M :: block_number)" and a: "amount (of_nat (Suc n)) = Inr (f (of_nat (Suc n)))"
  shows "\<exists>t'. append_sum K amount (of_nat (Suc n)) (cumulative f (of_nat n), t) =
      Inr (cumulative f (of_nat (Suc n)), t') \<and> index_upto K f (of_nat (Suc n)) t'"
proof -
  let ?b = "of_nat (Suc n) :: block_number"
  have b: "unat ?b = Suc n" "unat (of_nat n :: block_number) = n"
    using n unat_of_nat_le [of "Suc n" M] unat_of_nat_le [of n M] by simp_all
  have "tab_get K t j = None" if "?b \<le> j" for j
    using that assms(1) b by (auto simp: index_upto_def word_le_nat_alt)
  then obtain t' where "tab_append K ?b (cumulative f ?b) t = Inr t'"
    and t': "tab_get K t' = (tab_get K t)(?b \<mapsto> cumulative f ?b)"
    using append_above by blast
  moreover have "x \<le> ?b \<longleftrightarrow> x = ?b \<or> x \<le> of_nat n" for x
    unfolding word_le_nat_alt b le_Suc_eq by (metis b(1) word_unat_eq_iff)
  then have "index_upto K f ?b t'"
    using assms(1) unfolding index_upto_def t' by (auto simp: fun_eq_iff simp del: of_nat_Suc)
  ultimately show ?thesis using a cumulative_Suc [OF n]
    by (simp add: append_sum_def store_result_def del: of_nat_Suc)
qed

text \<open>The loop over the blocks extends the index up to the last of them.\<close>

lemma append_sums_extend:
  assumes "index_upto K f p t" and "n \<le> unat (M :: block_number)" and "unat p \<le> n"
    and "\<And>b. p < b \<Longrightarrow> b \<le> M \<Longrightarrow> amount b = Inr (f b)"
  shows "\<exists>t'. fold_r (append_sum K amount) (map of_nat [Suc (unat p) ..< Suc n]) (cumulative f p, t) =
      Inr (cumulative f (of_nat n), t') \<and> index_upto K f (of_nat n) t'"
  using assms(3,2)
proof (induction n rule: dec_induct)
  case base
  with assms(1) show ?case by simp
next
  case (step n)
  then obtain t1 where t1: "fold_r (append_sum K amount) (map of_nat [Suc (unat p) ..< Suc n]) (cumulative f p, t) =
      Inr (cumulative f (of_nat n), t1)" "index_upto K f (of_nat n) t1" by auto
  have "n < unat M" using step by simp
  then have "unat (of_nat (Suc n) :: block_number) = Suc n" using unat_of_nat_le [of "Suc n" M] by simp
  then have "amount (of_nat (Suc n)) = Inr (f (of_nat (Suc n)))"
    using step by (intro assms(4)) (simp_all add: word_less_nat_alt word_le_nat_alt del: of_nat_Suc)
  from append_sum_extends [of f n t1 M amount, OF t1(2) \<open>n < unat M\<close> this] t1(1) step.hyps(1)
  show ?case by (auto simp: fold_r_append simp del: of_nat_Suc)
qed

lemma extend_index_complete:
  assumes t: "index_upto K f p t" and "p \<le> M" and "M < - 1" and i: "si_previous_stage i = Some (j, M)"
    and p: "(case si_stage_progress i of None \<Rightarrow> 0 | Some q \<Rightarrow> q) = p"
    and amount: "\<And>b. p < b \<Longrightarrow> b \<le> M \<Longrightarrow> amount b = Inr (f b)"
  shows "\<exists>t'. extend_index K amount i t = Inr (Progress M True, t') \<and> index_upto K f M t'"
proof -
  have "p < - 1" using assms(2,3) by (rule le_less_trans)
  then have "unat (p + 1) = Suc (unat p)" by (rule unat_next)
  then have next_block: "p + 1 \<le> M \<longleftrightarrow> p < M" "unat (p + 1) = Suc (unat p)"
    by (simp_all add: word_le_nat_alt word_less_nat_alt Suc_le_eq)
  show ?thesis
  proof (cases "p < M")
    case True
    have "tab_get K t p = Some (cumulative f p)" using t by (simp add: index_upto_def)
    moreover obtain t' where "fold_r (append_sum K amount) (blocks_incl (p + 1) M) (cumulative f p, t) =
        Inr (cumulative f M, t')" "index_upto K f M t'"
      using append_sums_extend [OF t order_refl [of "unat M"] _ amount] \<open>p \<le> M\<close> next_block(2)
      by (auto simp: blocks_incl_def word_le_nat_alt simp del: upt_Suc)
    ultimately show ?thesis
      using True unfolding extend_index_def p i by (simp add: next_block(1))
  next
    case False
    then have "p = M" using \<open>p \<le> M\<close> by simp
    have "extend_index K amount i t = Inr (Progress M True, t)"
      using False unfolding extend_index_def p i by (simp add: next_block(1))
    then show ?thesis using t \<open>p = M\<close> by simp
  qed
qed

text \<open>Unwinding ends, as every deletion makes the table smaller, and cuts the index.\<close>

lemma drop_above_returns:
  "\<exists>t'. drop_above K to t = Some t' \<and> (\<forall>b. tab_get K t' b = (if b \<le> to then tab_get K t b else None))"
proof (induction "card {j. tab_get K t j \<noteq> None}" arbitrary: t rule: less_induct)
  case less
  show ?case
  proof (cases "tab_last K t")
    case None
    then have "tab_get K t b = None" for b by (rule last_None)
    then show ?thesis using None by (simp add: drop_above.simps [of K to t])
  next
    case (Some e)
    then obtain k v where e: "tab_last K t = Some (k, v)" by (cases e) simp
    then have k: "tab_get K t k = Some v" "\<forall>j > k. tab_get K t j = None" using last_Some by blast+
    show ?thesis
    proof (cases "k > to")
      case True
      then have "drop_above K to t = drop_above K to (tab_delete K k t)"
        using e by (simp add: drop_above.simps [of K to t])
      with less.hyps [OF delete_smaller [OF k(1)]] True show ?thesis by (auto simp: get_delete)
    next
      case False
      then have "drop_above K to t = Some t" using e by (simp add: drop_above.simps [of K to t])
      then show ?thesis using k(2) False by (auto simp: not_less not_le intro: order.strict_trans1)
    qed
  qed
qed

lemma drop_above_index:
  assumes "index_upto K f p t" and "to \<le> p"
  shows "\<exists>t'. drop_above K to t = Some t' \<and> index_upto K f to t'"
  using drop_above_returns [of to t] assms by (auto simp: index_upto_def fun_eq_iff)

end

interpretation il: index_table "ol_table :: ((block_number \<times> u64) list, block_number, u64) table_ops"
  by unfold_locales

end
