(* ===== verification/Staged_Sync_Properties.thy ===== *)
theory Staged_Sync_Properties
  imports
    Staged_Sync
begin

text \<open>
  What the synchronisation loop achieves, given stages that keep the contract of the \<open>Stage\<close>
  trait: interface \<open>stage_contract\<close>, the lemmas about one stage inside it, and the round of a
  whole pipeline.
\<close>

section \<open>The contract of a stage\<close>

text \<open>
  A stage stands between the stages \<open>before\<close> and \<open>after\<close> it.  When all stages before it are at
  the block \<open>M\<close>, an execution makes progress towards \<open>M\<close> and reports to be done only there, or
  it asks to unwind; it can do the latter only finitely often, as the \<open>rank\<close> of the memory of
  the stages shrinks.  When the stages after it have been unwound, it unwinds towards the
  given block.  Both keep the invariant of the database once the progress is saved.
\<close>

definition ready :: "block_number \<Rightarrow> stage_id list \<Rightarrow> 'd kv_tx \<Rightarrow> (stage_id \<times> block_number) option \<Rightarrow> bool" where
  "ready M before t prev \<longleftrightarrow> (\<forall>i \<in> set before. get_progress i t = Some M) \<and>
     prev = (if before = [] then None else Some (last before, M))"

locale unwind_contract =
  fixes st :: "('s, 'd) stage" and after :: "stage_id list"
    and sound :: "'d kv_tx \<Rightarrow> bool" and rank :: "'s \<Rightarrow> nat"
  assumes unwind_ok: "\<lbrakk>sound t; p = progress_of (st_id st) t; to < p; \<forall>i \<in> set after. progress_of i t \<le> to\<rbrakk> \<Longrightarrow>
    \<exists>q mem' d. st_unwind st \<lparr> ui_stage_progress = p, ui_unwind_to = to \<rparr> mem (tables t) = Some (Inr q, mem', d) \<and>
      rank mem' \<le> rank mem \<and> to \<le> q \<and> q < p \<and> sound (save_progress (st_id st) q (t\<lparr>tables := d\<rparr>))"

locale stage_contract = unwind_contract +
  fixes before :: "stage_id list" and M :: block_number
  assumes execute_ok: "\<lbrakk>sound t; p = progress_of (st_id st) t; p \<le> M; ready M before t (si_previous_stage i);
      si_stage_progress i = get_progress (st_id st) t\<rbrakk> \<Longrightarrow>
    (\<exists>q fin mem' d. st_execute st i mem (tables t) = Some (Inr (Progress q fin), mem', d) \<and>
       rank mem' \<le> rank mem \<and> p \<le> q \<and> q \<le> M \<and> (if fin then q = M else p < q) \<and>
       sound (save_progress (st_id st) q (t\<lparr>tables := d\<rparr>))) \<or>
    (\<exists>to mem' d. st_execute st i mem (tables t) = Some (Inr (Unwind to), mem', d) \<and> rank mem' < rank mem)"

text \<open>The states the loop goes through: the invariant holds of the transaction and of the
  database, and no stage is beyond \<open>M\<close>.\<close>

definition within :: "block_number \<Rightarrow> ('d kv_tx \<Rightarrow> bool) \<Rightarrow> stage_id set \<Rightarrow> 'd kv_tx \<Rightarrow> bool" where
  "within M sound ids t \<longleftrightarrow> sound t \<and> (\<forall>i \<in> ids. progress_of i t \<le> M)"

text \<open>The outcome of running stages up to \<open>M\<close>: either they are all at \<open>M\<close>, and the other stages are where
  they were, or an unwind is requested and the rank has shrunk.\<close>

definition at_max_or_unwind ::
    "block_number \<Rightarrow> ('d kv_tx \<Rightarrow> bool) \<Rightarrow> ('s \<Rightarrow> nat) \<Rightarrow> stage_id set \<Rightarrow> stage_id set \<Rightarrow>
     ('s, 'd) sync_state \<Rightarrow> bool \<Rightarrow> ('s, 'd) sync_state \<Rightarrow> bool" where
  "at_max_or_unwind M sound rank ids moved s ok s' \<longleftrightarrow> within M sound ids (db s') \<and>
     (if ok then within M sound ids (tx s') \<and> rank (memory s') \<le> rank (memory s) \<and>
        (\<forall>i. get_progress i (tx s') = (if i \<in> moved then Some M else get_progress i (tx s)))
      else rank (memory s') < rank (memory s))"

lemma note_progress_simps [simp]:
  "tx (note_progress m i start p s) = save_progress i p (tx s)"
  "memory (note_progress m i start p s) = memory s"
  "minimum_progress (note_progress m i start p s) = lower_minimum p (minimum_progress s)"
  by (simp_all add: note_progress_def Let_def)

lemma db_note_progress:
  "P (db s) \<Longrightarrow> P (save_progress i p (tx s)) \<Longrightarrow> P (db (note_progress m i start p s))"
  by (simp add: note_progress_def Let_def)

lemma within_save:
  assumes "within M sound ids t" and "sound (save_progress i q (t\<lparr>tables := d\<rparr>))" and "q \<le> M"
  shows "within M sound ids (save_progress i q (t\<lparr>tables := d\<rparr>))"
  using assms by (auto simp: within_def)

lemma ready_save:
  "ready M before t prev \<Longrightarrow> i \<notin> set before \<Longrightarrow> ready M before (save_progress i q (t\<lparr>tables := d\<rparr>)) prev"
  by (auto simp: ready_def)

lemma ready_next:
  "ready M before t prev \<Longrightarrow> get_progress i t = Some M \<Longrightarrow> ready M (before @ [i]) t (Some (i, M))"
  by (simp add: ready_def)

context stage_contract
begin

text \<open>Running a stage takes at most as many invocations as there are blocks left.\<close>

lemma run_stage_returns:
  assumes "within M sound ids (tx s)" and "within M sound ids (db s)" and "st_id st \<in> ids"
    and "ready M before (tx s) prev" and "st_id st \<notin> set before"
  shows "\<exists>c s'. run_stage m st prev start restarted s = Some (c, s') \<and>
    (c = Next M \<and> at_max_or_unwind M sound rank ids {st_id st} s True s' \<and>
       (progress_of (st_id st) (tx s) = M \<longrightarrow> minimum_progress s' = lower_minimum M (minimum_progress s)) \<or>
     (\<exists>to. c = Unwind_Requested to) \<and> at_max_or_unwind M sound rank ids {st_id st} s False s')"
  using assms
proof (induction "unat M - unat (progress_of (st_id st) (tx s))" arbitrary: s restarted rule: less_induct)
  case less
  define i where "i = \<lparr> si_restarted = restarted, si_first_started_at = start,
         si_previous_stage = prev, si_stage_progress = get_progress (st_id st) (tx s) \<rparr>"
  define p where "p = progress_of (st_id st) (tx s)"
  have "sound (tx s)" "p \<le> M" using less.prems by (auto simp: within_def p_def)
  then consider
      (unwind) to mem' d where "st_execute st i (memory s) (tables (tx s)) = Some (Inr (Unwind to), mem', d)"
        "rank mem' < rank (memory s)"
    | (progress) q fin mem' d where
        "st_execute st i (memory s) (tables (tx s)) = Some (Inr (Progress q fin), mem', d)"
        "rank mem' \<le> rank (memory s)" "p \<le> q" "q \<le> M" "if fin then q = M else p < q"
        "sound (save_progress (st_id st) q ((tx s)\<lparr>tables := d\<rparr>))"
    using execute_ok [of "tx s" p i "memory s"] less.prems(4) by (auto simp: i_def p_def)
  then show ?case
  proof cases
    case unwind
    then have "run_stage m st prev start restarted s =
        Some (Unwind_Requested to, s\<lparr>tx := (tx s)\<lparr>tables := d\<rparr>, memory := mem'\<rparr>)"
      by (subst run_stage.simps) (simp flip: i_def)
    with unwind less.prems(2) show ?thesis by (simp add: at_max_or_unwind_def)
  next
    case progress
    define s1 where "s1 = note_progress m (st_id st) start q (s\<lparr>tx := (tx s)\<lparr>tables := d\<rparr>, memory := mem'\<rparr>)"
    have tx1: "tx s1 = save_progress (st_id st) q ((tx s)\<lparr>tables := d\<rparr>)" by (simp add: s1_def)
    have w1: "within M sound ids (tx s1)"
      unfolding tx1 using less.prems(1) progress by (intro within_save)
    have w2: "within M sound ids (db s1)"
      unfolding s1_def using less.prems(2) w1 [unfolded tx1] by (intro db_note_progress [where P = "within M sound ids"]) simp_all
    have run: "run_stage m st prev start restarted s =
        (if fin then Some (Next q, s1) else run_stage m st prev start True s1)"
      using progress(1) by (subst run_stage.simps) (simp add: s1_def flip: i_def)
    show ?thesis
    proof (cases fin)
      case True
      with run progress w1 w2 show ?thesis
        by (auto simp: at_max_or_unwind_def tx1) (simp_all add: s1_def)
    next
      case False
      with progress have "p < q" "q \<le> M" by auto
      then have "unat M - unat (progress_of (st_id st) (tx s1)) < unat M - unat (progress_of (st_id st) (tx s))"
        by (simp add: tx1 word_less_nat_alt word_le_nat_alt flip: p_def)
      from less.hyps [OF this w1 w2 less.prems(3) _ less.prems(5), of True] less.prems(4,5)
      obtain c s' where "run_stage m st prev start True s1 = Some (c, s')"
        and out: "c = Next M \<and> at_max_or_unwind M sound rank ids {st_id st} s1 True s' \<or>
          (\<exists>to. c = Unwind_Requested to) \<and> at_max_or_unwind M sound rank ids {st_id st} s1 False s'"
        by (auto simp: tx1 ready_save)
      moreover have "rank (memory s1) \<le> rank (memory s)" using progress by (simp add: s1_def)
      moreover have "progress_of (st_id st) (tx s) \<noteq> M" using \<open>p < q\<close> \<open>q \<le> M\<close> by (auto simp: p_def)
      ultimately show ?thesis using False run by (auto simp: at_max_or_unwind_def tx1)
    qed
  qed
qed

end

context unwind_contract
begin

text \<open>Unwinding a stage brings it to the block asked for, if it is above it.\<close>

lemma unwind_stage_returns:
  assumes "sound t" and "\<forall>i \<in> set after. progress_of i t \<le> to" and "st_id st \<notin> set after"
    and "p = progress_of (st_id st) t"
  shows "\<exists>mem' t'. unwind_stage to st p mem t = Some (Inr (), mem', t') \<and> sound t' \<and> rank mem' \<le> rank mem \<and>
    (\<forall>i. progress_of i t' = (if i = st_id st then min p to else progress_of i t))"
  using assms
proof (induction "unat p" arbitrary: p mem t rule: less_induct)
  case less
  show ?case
  proof (cases "p > to")
    case True
    from unwind_ok [OF less.prems(1,4) True less.prems(2), of mem] obtain q mem1 d where
      u: "st_unwind st \<lparr> ui_stage_progress = p, ui_unwind_to = to \<rparr> mem (tables t) = Some (Inr q, mem1, d)"
      and q: "rank mem1 \<le> rank mem" "to \<le> q" "q < p" "sound (save_progress (st_id st) q (t\<lparr>tables := d\<rparr>))"
      by blast
    have "unwind_stage to st p mem t = unwind_stage to st q mem1 (save_progress (st_id st) q (t\<lparr>tables := d\<rparr>))"
      using True u by (simp add: unwind_stage.simps [of to st p])
    with less.hyps [of q "save_progress (st_id st) q (t\<lparr>tables := d\<rparr>)" mem1] q less.prems(2-3)
    obtain mem' t' where "unwind_stage to st p mem t = Some (Inr (), mem', t')" "sound t'" "rank mem' \<le> rank mem1"
      "\<forall>i. progress_of i t' = (if i = st_id st then min q to else progress_of i t)"
      by (fastforce simp: word_less_nat_alt)
    then show ?thesis using q True by (auto simp: min_def)
  next
    case False
    then have "unwind_stage to st p mem t = Some (Inr (), mem, t)" by (simp add: unwind_stage.simps [of to st p])
    with False less.prems show ?thesis by (auto simp: min_def)
  qed
qed

end

section \<open>A pipeline of stages\<close>

fun pipeline ::
    "block_number \<Rightarrow> ('d kv_tx \<Rightarrow> bool) \<Rightarrow> ('s \<Rightarrow> nat) \<Rightarrow> stage_id list \<Rightarrow> ('s, 'd) stage list \<Rightarrow> bool" where
  "pipeline M sound rank before [] \<longleftrightarrow> True"
| "pipeline M sound rank before (st # sts) \<longleftrightarrow>
     stage_contract st (map st_id sts) sound rank before M \<and> pipeline M sound rank (before @ [st_id st]) sts"

lemma lower_minimum_idem [simp]: "lower_minimum p (lower_minimum p m) = lower_minimum p m"
  by (simp add: lower_minimum_def split: option.splits)

lemma at_max_or_unwind_trans:
  assumes "at_max_or_unwind M sound rank ids A s True s1" and "at_max_or_unwind M sound rank ids B s1 ok s2"
  shows "at_max_or_unwind M sound rank ids (A \<union> B) s ok s2"
  using assms unfolding at_max_or_unwind_def by (cases ok) auto

lemma at_max_or_unwind_stops:
  "at_max_or_unwind M sound rank ids A s False s1 \<Longrightarrow> at_max_or_unwind M sound rank ids B s False s1"
  by (simp add: at_max_or_unwind_def)

lemma run_stages_returns:
  assumes "pipeline M sound rank before sts" and "distinct (before @ map st_id sts)"
    and "st_id ` set sts \<subseteq> ids" and "within M sound ids (tx s)" and "within M sound ids (db s)"
    and "ready M before (tx s) prev"
  shows "\<exists>c s'. run_stages m prev sts s = Some (c, s') \<and>
    (c = Next () \<and> at_max_or_unwind M sound rank ids (st_id ` set sts) s True s' \<and>
       (sts \<noteq> [] \<and> (\<forall>st \<in> set sts. progress_of (st_id st) (tx s) = M) \<longrightarrow>
          minimum_progress s' = lower_minimum M (minimum_progress s)) \<or>
     (\<exists>to. c = Unwind_Requested to) \<and> at_max_or_unwind M sound rank ids (st_id ` set sts) s False s')"
  using assms
proof (induction sts arbitrary: before prev s)
  case Nil
  then show ?case by (simp add: at_max_or_unwind_def)
next
  case (Cons st sts)
  let ?start = "get_progress (st_id st) (tx s)"
  from Cons.prems have contract: "stage_contract st (map st_id sts) sound rank before M" by simp
  from Cons.prems have "st_id st \<in> ids" "st_id st \<notin> set before" by auto
  with stage_contract.run_stage_returns [OF contract Cons.prems(4,5), of prev m ?start False] Cons.prems(6)
  consider
      (ok) s1 where "run_stage m st prev ?start False s = Some (Next M, s1)"
        "at_max_or_unwind M sound rank ids {st_id st} s True s1"
        "progress_of (st_id st) (tx s) = M \<longrightarrow> minimum_progress s1 = lower_minimum M (minimum_progress s)"
    | (stop) to s1 where "run_stage m st prev ?start False s = Some (Unwind_Requested to, s1)"
        "at_max_or_unwind M sound rank ids {st_id st} s False s1"
    by blast
  then show ?case
  proof cases
    case ok
    have tx1: "get_progress i (tx s1) = (if i = st_id st then Some M else get_progress i (tx s))" for i
      using ok(2) by (simp add: at_max_or_unwind_def)
    have "ready M before (tx s1) prev" using Cons.prems(2,6) by (auto simp: ready_def tx1)
    then have "ready M (before @ [st_id st]) (tx s1) (Some (st_id st, M))" by (rule ready_next) (simp add: tx1)
    moreover have "within M sound ids (tx s1)" "within M sound ids (db s1)"
      using ok(2) by (simp_all add: at_max_or_unwind_def)
    ultimately obtain c s2 where run: "run_stages m (Some (st_id st, M)) sts s1 = Some (c, s2)"
      and out: "c = Next () \<and> at_max_or_unwind M sound rank ids (st_id ` set sts) s1 True s2 \<and>
         (sts \<noteq> [] \<and> (\<forall>st \<in> set sts. progress_of (st_id st) (tx s1) = M) \<longrightarrow>
            minimum_progress s2 = lower_minimum M (minimum_progress s1)) \<or>
       (\<exists>to. c = Unwind_Requested to) \<and> at_max_or_unwind M sound rank ids (st_id ` set sts) s1 False s2"
      using Cons.IH [of "before @ [st_id st]" s1 "Some (st_id st, M)"] Cons.prems(1-3) by auto
    have "run_stages m prev (st # sts) s = Some (c, s2)" using ok(1) run by simp
    moreover have "sts = [] \<Longrightarrow> s2 = s1" using run by simp
    moreover have "progress_of (st_id st') (tx s1) = M" if "progress_of (st_id st') (tx s) = M" for st'
      using that by (simp add: progress_of_def tx1)
    ultimately show ?thesis
      using out ok(3) at_max_or_unwind_trans [OF ok(2), of "st_id ` set sts"] by fastforce
  next
    case stop
    then show ?thesis using at_max_or_unwind_stops by fastforce
  qed
qed

text \<open>Unwinding in reverse order finds the later stages unwound already.\<close>

lemma unwind_stages_append:
  "unwind_stages to (xs @ ys) mem t = Option.bind (unwind_stages to xs mem t)
     (\<lambda>(r, mem, t). case r of Inl e \<Rightarrow> Some (Inl e, mem, t) | Inr _ \<Rightarrow> unwind_stages to ys mem t)"
  by (induction xs arbitrary: mem t) (auto split: bind_split sum.splits)

lemma unwind_stages_returns:
  assumes "pipeline M sound rank before sts" and "distinct (map st_id sts)" and "sound t"
  shows "\<exists>mem' t'. unwind_stages to (rev sts) mem t = Some (Inr (), mem', t') \<and> sound t' \<and>
    rank mem' \<le> rank mem \<and>
    (\<forall>i. progress_of i t' = (if i \<in> st_id ` set sts then min (progress_of i t) to else progress_of i t))"
  using assms
proof (induction sts arbitrary: before)
  case Nil
  then show ?case by simp
next
  case (Cons st sts)
  from Cons.prems have "pipeline M sound rank (before @ [st_id st]) sts" "distinct (map st_id sts)" by simp_all
  from Cons.IH [OF this Cons.prems(3)] obtain mem1 t1 where
    u: "unwind_stages to (rev sts) mem t = Some (Inr (), mem1, t1)" "sound t1" "rank mem1 \<le> rank mem"
    and p1: "\<forall>i. progress_of i t1 = (if i \<in> st_id ` set sts then min (progress_of i t) to else progress_of i t)"
    by blast
  from Cons.prems have "unwind_contract st (map st_id sts) sound rank"
    using stage_contract.axioms(1) by auto
  from unwind_contract.unwind_stage_returns [OF this u(2), of to "progress_of (st_id st) t1" mem1] Cons.prems(2) p1
  obtain mem2 t2 where "unwind_stage to st (progress_of (st_id st) t1) mem1 t1 = Some (Inr (), mem2, t2)"
    "sound t2" "rank mem2 \<le> rank mem1"
    "\<forall>i. progress_of i t2 = (if i = st_id st then min (progress_of (st_id st) t1) to else progress_of i t1)"
    by auto
  with u p1 Cons.prems(2) show ?case by (auto simp: unwind_stages_append)
qed

section \<open>The loop returns\<close>

text \<open>Two full rounds suffice when no stage asks to unwind: the first brings all stages to \<open>M\<close>,
  and if its minimal progress counts an intermediate invocation, a second one finds them there.\<close>

lemma round_returns:
  assumes "pipeline M sound rank [] (stages c)" and "distinct (map st_id (stages c))"
    and "within M sound (st_id ` set (stages c)) t"
  obtains s to where "run_stages m None (stages c) \<lparr> db = t, tx = t, memory = mem, minimum_progress = None \<rparr> =
        Some (Unwind_Requested to, s)"
      "rank (memory s) < rank mem" "within M sound (st_id ` set (stages c)) (db s)"
    | s where "run_stages m None (stages c) \<lparr> db = t, tx = t, memory = mem, minimum_progress = None \<rparr> =
        Some (Next (), s)"
      "rank (memory s) \<le> rank mem" "within M sound (st_id ` set (stages c)) (tx s)"
      "\<forall>st \<in> set (stages c). get_progress (st_id st) (tx s) = Some M"
      "stages c \<noteq> [] \<and> (\<forall>st \<in> set (stages c). get_progress (st_id st) t = Some M) \<longrightarrow>
         minimum_progress s = Some M"
proof -
  let ?s = "\<lparr> db = t, tx = t, memory = mem, minimum_progress = None \<rparr>"
  have "ready M [] (tx ?s) None" by (simp add: ready_def)
  from run_stages_returns [OF assms(1) _ order_refl _ _ this, of m] assms(2,3)
  show thesis using that by (fastforce simp: at_max_or_unwind_def progress_of_def lower_minimum_def)
qed

definition synced :: "('s, 'd) staged_sync \<Rightarrow> block_number \<Rightarrow> 'd kv_tx \<Rightarrow> bool" where
  "synced c M t \<longleftrightarrow> (\<forall>st \<in> set (stages c). get_progress (st_id st) t = Some M)"

lemma run_after_round:
  assumes "run_stages (min_progress_to_commit_after_stage c) None (stages c)
      \<lparr> db = t, tx = t, memory = mem, minimum_progress = None \<rparr> = Some (Next (), s)"
  shows "sync_run c None mem t =
    (if reached_max c s then Some (Inr (), memory s, tx s) else sync_run c None (memory s) (tx s))"
  using assms by (subst sync_run.simps) simp

lemma sync_returns:
  assumes pipe: "pipeline M sound rank [] (stages c)" and dist: "distinct (map st_id (stages c))"
    and max: "max_block c = Some M" and nonempty: "stages c \<noteq> []"
    and "within M sound (st_id ` set (stages c)) t"
  shows "\<exists>mem' t'. sync_run c None mem t = Some (Inr (), mem', t') \<and> sound t' \<and> synced c M t'"
  using assms(5)
proof (induction "rank mem" arbitrary: mem t rule: less_induct)
  case less
  let ?ids = "st_id ` set (stages c)"
  let ?run = "\<lambda>mem t. run_stages (min_progress_to_commit_after_stage c) None (stages c)
      \<lparr> db = t, tx = t, memory = mem, minimum_progress = None \<rparr>"
  have unwinding: "\<exists>mem' t'. sync_run c None mem1 t1 = Some (Inr (), mem', t') \<and> sound t' \<and> synced c M t'"
    if "?run mem1 t1 = Some (Unwind_Requested to, s)" "rank (memory s) < rank mem" "within M sound ?ids (db s)"
    for to s mem1 t1
  proof -
    from that(3) have "sound (db s)" by (simp add: within_def)
    from unwind_stages_returns [OF pipe dist this, of to "memory s"] obtain mem2 t2 where
      u: "unwind_stages to (rev (stages c)) (memory s) (db s) = Some (Inr (), mem2, t2)" "sound t2"
        "rank mem2 \<le> rank (memory s)" "\<forall>i \<in> ?ids. progress_of i t2 = min (progress_of i (db s)) to"
      by auto
    have "sync_run c None mem1 t1 = sync_run c None mem2 t2"
      using that(1) u(1) by (simp add: sync_run.simps [of c None mem1 t1] sync_run.simps [of c "Some to"])
    moreover have "within M sound ?ids t2"
      using u(2,4) that(3) by (auto simp: within_def min.coboundedI1)
    ultimately show ?thesis using less.hyps [of mem2 t2] u(3) that(2) by simp
  qed
  from round_returns [OF pipe dist less.prems, of "min_progress_to_commit_after_stage c" mem] show ?case
  proof cases
    case (1 s to)
    then show ?thesis by (rule unwinding)
  next
    case first: (2 s)
    note run1 = run_after_round [OF first(1)]
    show ?thesis
    proof (cases "reached_max c s")
      case True
      then show ?thesis using first run1 by (auto simp: synced_def within_def)
    next
      case False
      from round_returns [OF pipe dist first(3), of "min_progress_to_commit_after_stage c" "memory s"]
      show ?thesis
      proof cases
        case (1 s2 to)
        with unwinding [OF 1(1)] first(2) False run1 show ?thesis by simp
      next
        case (2 s2)
        with nonempty first(4) have "reached_max c s2" by (simp add: reached_max_def max)
        with 2 False run1 run_after_round [OF 2(1)] show ?thesis by (auto simp: synced_def within_def)
      qed
    qed
  qed
qed

section \<open>The loop returns nowhere else\<close>

text \<open>Without any contract: the minimal progress of a round is below the progress of every stage
  that has run in it.\<close>

definition floor_of :: "stage_id set \<Rightarrow> ('s, 'd) sync_state \<Rightarrow> bool" where
  "floor_of ids s \<longleftrightarrow> (\<forall>i \<in> ids. \<exists>m p. minimum_progress s = Some m \<and> get_progress i (tx s) = Some p \<and> m \<le> p)"

lemma floor_of_note_progress:
  assumes "floor_of ids s"
  shows "floor_of (insert i ids) (note_progress m i start p (s\<lparr>tx := (tx s)\<lparr>tables := d\<rparr>, memory := mem\<rparr>))"
  unfolding floor_of_def
proof
  fix j assume "j \<in> insert i ids"
  with assms show "\<exists>m' p'. minimum_progress (note_progress m i start p (s\<lparr>tx := (tx s)\<lparr>tables := d\<rparr>, memory := mem\<rparr>)) = Some m' \<and>
    get_progress j (tx (note_progress m i start p (s\<lparr>tx := (tx s)\<lparr>tables := d\<rparr>, memory := mem\<rparr>))) = Some p' \<and> m' \<le> p'"
    unfolding floor_of_def by (cases "j = i") (auto simp: lower_minimum_def min.coboundedI1 split: option.splits)
qed

lemma run_stage_floor:
  assumes "run_stage m st prev start restarted s = Some y" and "floor_of ids s" and "y = (Next p, s')"
  shows "floor_of (insert (st_id st) ids) s'"
  using assms(2,3)
proof (induction arbitrary: ids rule: run_stage.raw_induct [OF _ assms(1), consumes 0, case_names step])
  case (step run m st prev start restarted s y)
  obtain out mem d where
    out: "st_execute st \<lparr> si_restarted = restarted, si_first_started_at = start, si_previous_stage = prev,
        si_stage_progress = get_progress (st_id st) (tx s) \<rparr> (memory s) (tables (tx s)) = Some (out, mem, d)"
    using step(2) by (auto simp: bind_eq_Some_conv)
  with step(2,4) obtain q fin where "out = Inr (Progress q fin)"
    by (cases out; cases "projr out") auto
  note ex = out [unfolded this]
  let ?s = "note_progress m (st_id st) start q (s\<lparr>tx := (tx s)\<lparr>tables := d\<rparr>, memory := mem\<rparr>)"
  have floor: "floor_of (insert (st_id st) ids) ?s" using step(3) by (rule floor_of_note_progress)
  show ?case
  proof (cases fin)
    case True
    with ex step(2,4) floor show ?thesis by auto
  next
    case False
    with ex step(2) have "run m st prev start True ?s = Some y" by simp
    from step(1) [OF this floor step(4)] show ?thesis by simp
  qed
qed

lemma run_stages_floor:
  "run_stages m prev sts s = Some (Next (), s') \<Longrightarrow> floor_of ids s \<Longrightarrow> floor_of (ids \<union> st_id ` set sts) s'"
proof (induction sts arbitrary: prev s ids)
  case Nil
  then show ?case by simp
next
  case (Cons st sts)
  obtain r s1 where r: "run_stage m st prev (get_progress (st_id st) (tx s)) False s = Some (r, s1)"
    using Cons.prems(1) by (auto simp: bind_eq_Some_conv)
  with Cons.prems(1) obtain p where p: "r = Next p"
    and rest: "run_stages m (Some (st_id st, p)) sts s1 = Some (Next (), s')" by (cases r) auto
  from run_stage_floor [OF r [unfolded p] Cons.prems(2) refl] have "floor_of (insert (st_id st) ids) s1" .
  from Cons.IH [OF rest this] show ?case by simp
qed

lemma sync_run_Ok:
  assumes "sync_run c unwind_to mem t = Some y" and "y = (Inr (), mem', t')"
  shows "\<exists>M. max_block c = Some M \<and> stages c \<noteq> [] \<and>
    (\<forall>st \<in> set (stages c). \<exists>p. get_progress (st_id st) t' = Some p \<and> M \<le> p)"
  using assms(2)
proof (induction rule: sync_run.raw_induct [OF _ assms(1), consumes 0, case_names step])
  case (step run c unwind_to mem t y)
  show ?case
  proof (cases unwind_to)
    case (Some to)
    with step(2) obtain r mem1 t1 where u: "unwind_stages to (rev (stages c)) mem t = Some (r, mem1, t1)"
      by (auto simp: bind_eq_Some_conv)
    then show ?thesis using step Some by (cases r) auto
  next
    case None
    let ?s = "\<lparr> db = t, tx = t, memory = mem, minimum_progress = None \<rparr>"
    from step(2) None obtain r s where
      r: "run_stages (min_progress_to_commit_after_stage c) None (stages c) ?s = Some (r, s)"
      by (auto simp: bind_eq_Some_conv)
    show ?thesis
    proof (cases "r = Next () \<and> reached_max c s")
      case True
      with r have "floor_of (st_id ` set (stages c)) s"
        using run_stages_floor [of _ None "stages c" ?s s "{}"] by (simp add: floor_of_def)
      moreover from True r have "stages c \<noteq> []" by (auto simp: reached_max_def)
      ultimately show ?thesis using True step(2,3) None r by (fastforce simp: floor_of_def reached_max_def)
    next
      case False
      with step None r show ?thesis by (cases r) (auto split: if_split_asm)
    qed
  qed
qed

end
