(* ===== verification/Index_Sync.thy ===== *)
theory Index_Sync
  imports
    Index_Stages Staged_Sync_Properties
begin

text \<open>
  The index stages keep the contract of a stage, so that the synchronisation loop completes the
  indexes; a stage \<open>src\<close> before them, such as the download of headers and bodies, provides the blocks.
\<close>

section \<open>The invariant of the indexes\<close>

definition chain_known :: "'t chain_tables \<Rightarrow> block_number \<Rightarrow> bool" where
  "chain_known d b \<longleftrightarrow> (case tb_canonical_header d b of None \<Rightarrow> False
     | Some h \<Rightarrow> tb_header d (b, h) \<noteq> None \<and> tb_block_body d (b, h) \<noteq> None)"

definition gas_of :: "'t chain_tables \<Rightarrow> block_number \<Rightarrow> u64" where
  "gas_of d b = (case header_gas d b of Inl e \<Rightarrow> 0 | Inr g \<Rightarrow> g)"

definition txs_of :: "'t chain_tables \<Rightarrow> block_number \<Rightarrow> u64" where
  "txs_of d b = (case body_txs d b of Inl e \<Rightarrow> 0 | Inr n \<Rightarrow> n)"

definition indexed :: "'t index_ops \<Rightarrow> stage_id \<Rightarrow> 't chain_tables kv_tx \<Rightarrow> bool" where
  "indexed K src t \<longleftrightarrow>
     (\<forall>b. 0 < b \<and> b \<le> progress_of src t \<longrightarrow> chain_known (tables t) b) \<and>
     progress_of TOTAL_GAS_INDEX t \<le> progress_of src t \<and> progress_of TOTAL_TX_INDEX t \<le> progress_of src t \<and>
     index_upto K (gas_of (tables t)) (progress_of TOTAL_GAS_INDEX t) (tb_total_gas (tables t)) \<and>
     index_upto K (txs_of (tables t)) (progress_of TOTAL_TX_INDEX t) (tb_total_tx (tables t))"

lemma amounts_of_known:
  assumes "chain_known d b"
  shows "header_gas d b = Inr (gas_of d b)" "body_txs d b = Inr (txs_of d b)"
  using assms by (auto simp: chain_known_def gas_of_def txs_of_def header_gas_def body_txs_def split: option.splits)

text \<open>The chain tables are not touched by an index.\<close>

lemma index_frame [simp]:
  "chain_known (d\<lparr>tb_total_gas := t\<rparr>) = chain_known d" "chain_known (d\<lparr>tb_total_tx := t\<rparr>) = chain_known d"
  "gas_of (d\<lparr>tb_total_gas := t\<rparr>) = gas_of d" "gas_of (d\<lparr>tb_total_tx := t\<rparr>) = gas_of d"
  "txs_of (d\<lparr>tb_total_gas := t\<rparr>) = txs_of d" "txs_of (d\<lparr>tb_total_tx := t\<rparr>) = txs_of d"
  by (auto simp: fun_eq_iff chain_known_def gas_of_def txs_of_def header_gas_def body_txs_def split: option.splits)

lemma index_ids [simp]: "TOTAL_GAS_INDEX \<noteq> TOTAL_TX_INDEX" "TOTAL_TX_INDEX \<noteq> TOTAL_GAS_INDEX"
  by (simp_all add: TOTAL_GAS_INDEX_def TOTAL_TX_INDEX_def)

lemma ready_from:
  assumes "ready M (src # before) t prev"
  obtains j where "prev = Some (j, M)" and "progress_of src t = M"
  using assms by (auto simp: ready_def progress_of_def)

text \<open>What the two stages share: a column of the tables (\<open>sel\<close>, \<open>upd\<close>) that holds the sums of
  the amounts \<open>f\<close> of the known blocks, extended by \<open>execute\<close> and cut by \<open>unwind\<close>.\<close>

locale index_stage = index_table K for K :: "'t index_ops" +
  fixes st :: "('s, 't chain_tables) stage" and src :: stage_id
    and sel :: "'t chain_tables \<Rightarrow> 't" and upd :: "'t \<Rightarrow> 't chain_tables \<Rightarrow> 't chain_tables"
    and amount :: "'t chain_tables \<Rightarrow> block_number \<Rightarrow> stage_error + u64" and f :: "'t chain_tables \<Rightarrow> block_number \<Rightarrow> u64"
  assumes execute: "st_execute st i mem d = Some (case extend_index K (amount d) i (sel d) of
        Inl e \<Rightarrow> (Inl e, mem, d) | Inr (out, t) \<Rightarrow> (Inr out, mem, upd t d))"
    and unwind: "st_unwind st u mem d = map_option (\<lambda>t. (Inr (ui_unwind_to u), mem, upd t d))
        (drop_above K (ui_unwind_to u) (sel d))"
    and known: "chain_known d b \<Longrightarrow> amount d b = Inr (f d b)"
    and column: "indexed K src t \<Longrightarrow> index_upto K (f (tables t)) (progress_of (st_id st) t) (sel (tables t))"
    and update: "\<lbrakk>indexed K src t; index_upto K (f (tables t)) q c; q \<le> progress_of src t\<rbrakk> \<Longrightarrow>
        indexed K src (save_progress (st_id st) q (t\<lparr>tables := upd c (tables t)\<rparr>))"
    and below: "indexed K src t \<Longrightarrow> progress_of (st_id st) t \<le> progress_of src t"
begin

lemma unwind_cuts:
  assumes t: "indexed K src t" and "to < progress_of (st_id st) t"
  shows "\<exists>d. st_unwind st \<lparr> ui_stage_progress = p, ui_unwind_to = to \<rparr> mem (tables t) = Some (Inr to, mem, d) \<and>
    indexed K src (save_progress (st_id st) to (t\<lparr>tables := d\<rparr>))"
proof -
  from drop_above_index [OF column [OF t] less_imp_le [OF assms(2)]] obtain c where
    "drop_above K to (sel (tables t)) = Some c" "index_upto K (f (tables t)) to c" by blast
  with update [OF t this(2)] below [OF t] assms(2) show ?thesis
    by (auto simp: unwind)
qed

lemma execute_completes:
  assumes t: "indexed K src t" and "progress_of (st_id st) t \<le> M" and "M < - 1"
    and ready: "ready M (src # before) t (si_previous_stage i)"
    and prog: "si_stage_progress i = get_progress (st_id st) t"
  shows "\<exists>d. st_execute st i mem (tables t) = Some (Inr (Progress M True), mem, d) \<and>
    indexed K src (save_progress (st_id st) M (t\<lparr>tables := d\<rparr>))"
proof -
  from ready obtain j where j: "si_previous_stage i = Some (j, M)" and M: "progress_of src t = M" by (rule ready_from)
  from t M have "amount (tables t) b = Inr (f (tables t) b)" if "progress_of (st_id st) t < b" "b \<le> M" for b
    using that le_less_trans [OF word_zero_le that(1)] by (intro known) (simp add: indexed_def)
  from extend_index_complete [OF column [OF t] assms(2,3) j _ this] prog obtain c where
    "extend_index K (amount (tables t)) i (sel (tables t)) = Inr (Progress M True, c)" "index_upto K (f (tables t)) M c"
    by (auto simp: progress_of_def)
  with update [OF t this(2)] M show ?thesis by (simp add: execute)
qed

lemma index_stage_contract:
  assumes "M < - 1"
  shows "stage_contract st after (indexed K src) rank (src # before) M"
proof
  fix t :: "'t chain_tables kv_tx" and p to :: block_number and mem :: 's
  assume "indexed K src t" "p = progress_of (st_id st) t" "to < p"
  then show "\<exists>q mem' d. st_unwind st \<lparr> ui_stage_progress = p, ui_unwind_to = to \<rparr> mem (tables t) =
      Some (Inr q, mem', d) \<and> rank mem' \<le> rank mem \<and> to \<le> q \<and> q < p \<and>
      indexed K src (save_progress (st_id st) q (t\<lparr>tables := d\<rparr>))"
    using unwind_cuts [of t to p mem] by fastforce
next
  fix t :: "'t chain_tables kv_tx" and p :: block_number and i :: stage_input and mem :: 's
  assume "indexed K src t" "p = progress_of (st_id st) t" "p \<le> M" "ready M (src # before) t (si_previous_stage i)"
    "si_stage_progress i = get_progress (st_id st) t"
  then show "(\<exists>q fin mem' d. st_execute st i mem (tables t) = Some (Inr (Progress q fin), mem', d) \<and>
       rank mem' \<le> rank mem \<and> p \<le> q \<and> q \<le> M \<and> (if fin then q = M else p < q) \<and>
       indexed K src (save_progress (st_id st) q (t\<lparr>tables := d\<rparr>))) \<or>
    (\<exists>to mem' d. st_execute st i mem (tables t) = Some (Inr (Unwind to), mem', d) \<and> rank mem' < rank mem)"
    using execute_completes [where i = i and t = t and mem = mem] assms by fastforce
qed

end

context index_table
begin

lemma total_gas_stage:
  "src \<noteq> TOTAL_GAS_INDEX \<Longrightarrow>
    index_stage K (total_gas_index K) src tb_total_gas (\<lambda>t d. d\<lparr>tb_total_gas := t\<rparr>) header_gas gas_of"
  by unfold_locales
    (auto simp: total_gas_index_def total_gas_index_execute_def total_gas_index_unwind_def indexed_def amounts_of_known)

lemma total_tx_stage:
  "src \<noteq> TOTAL_TX_INDEX \<Longrightarrow>
    index_stage K (total_tx_index K) src tb_total_tx (\<lambda>t d. d\<lparr>tb_total_tx := t\<rparr>) body_txs txs_of"
  by unfold_locales
    (auto simp: total_tx_index_def total_tx_index_execute_def total_tx_index_unwind_def indexed_def amounts_of_known)

end

interpretation gas_stage: index_stage "ol_table :: ((block_number \<times> u64) list, block_number, u64) table_ops"
    "total_gas_index ol_table" HEADERS tb_total_gas "\<lambda>t d. d\<lparr>tb_total_gas := t\<rparr>" header_gas gas_of
  by (rule il.total_gas_stage) (simp add: HEADERS_def TOTAL_GAS_INDEX_def)

interpretation tx_stage: index_stage "ol_table :: ((block_number \<times> u64) list, block_number, u64) table_ops"
    "total_tx_index ol_table" HEADERS tb_total_tx "\<lambda>t d. d\<lparr>tb_total_tx := t\<rparr>" body_txs txs_of
  by (rule il.total_tx_stage) (simp add: HEADERS_def TOTAL_TX_INDEX_def)

section \<open>A source of blocks\<close>

text \<open>A stage that stands for the download in the examples: it provides the missing blocks one
  by one, and as often as its memory says it asks to unwind first.\<close>

definition sample_header :: block_header where
  "sample_header = \<lparr> h_parent_hash = 0, h_ommers_hash = 0, h_beneficiary = 0, h_state_root = 0,
     h_transactions_root = 0, h_receipts_root = 0, h_logs_bloom = 0, h_difficulty = 0, h_number = 0,
     h_gas_limit = 0, h_gas_used = 21000, h_timestamp = 0, h_extra_data = [], h_mix_hash = 0,
     h_nonce = 0, h_base_fee_per_gas = None \<rparr>"

definition fill_chain :: "'t chain_tables \<Rightarrow> 't chain_tables" where
  "fill_chain d = d\<lparr>
     tb_canonical_header := (\<lambda>b. Some (case tb_canonical_header d b of None \<Rightarrow> 0 | Some h \<Rightarrow> h)),
     tb_header := (\<lambda>k. Some (case tb_header d k of None \<Rightarrow> sample_header | Some h \<Rightarrow> h)),
     tb_block_body := (\<lambda>k. Some (case tb_block_body d k of
        None \<Rightarrow> \<lparr> bs_base_tx_id = 0, bs_tx_amount = 3, bs_uncles = [] \<rparr> | Some b \<Rightarrow> b))\<rparr>"

definition source_stage :: "block_number \<Rightarrow> (nat, 't chain_tables) stage" where
  "source_stage M = \<lparr> st_id = HEADERS,
     st_execute = (\<lambda>i mem d. let p = (case si_stage_progress i of None \<Rightarrow> 0 | Some p \<Rightarrow> p) in
       if 0 < mem then Some (Inr (Unwind (p div 2)), mem - 1, d)
       else let q = (if p < M then p + 1 else M) in Some (Inr (Progress q (q = M)), mem, fill_chain d)),
     st_unwind = (\<lambda>u mem d. Some (Inr (ui_unwind_to u), mem, d)) \<rparr>"

lemma fill_chain_knows [simp]: "chain_known (fill_chain d) b"
  by (simp add: chain_known_def fill_chain_def)

lemma fill_chain_columns [simp]:
  "tb_total_gas (fill_chain d) = tb_total_gas d" "tb_total_tx (fill_chain d) = tb_total_tx d"
  by (simp_all add: fill_chain_def)

lemma fill_chain_keeps:
  assumes "chain_known d b"
  shows "gas_of (fill_chain d) b = gas_of d b" "txs_of (fill_chain d) b = txs_of d b"
  using assms
  by (auto simp: fill_chain_def chain_known_def gas_of_def txs_of_def header_gas_def body_txs_def split: option.splits)

lemma indexed_fill_chain:
  fixes K :: "'t index_ops"
  assumes "indexed K HEADERS t" and "progress_of HEADERS t \<le> q"
  shows "indexed K HEADERS (save_progress HEADERS q (t\<lparr>tables := fill_chain (tables t)\<rparr>))"
proof -
  have ids: "HEADERS \<noteq> TOTAL_GAS_INDEX" "HEADERS \<noteq> TOTAL_TX_INDEX"
    by (simp_all add: HEADERS_def TOTAL_GAS_INDEX_def TOTAL_TX_INDEX_def)
  have "index_upto K (gas_of (fill_chain (tables t))) p c = index_upto K (gas_of (tables t)) p c"
    "index_upto K (txs_of (fill_chain (tables t))) p c = index_upto K (txs_of (tables t)) p c"
    if "p \<le> progress_of HEADERS t" for p c
    using assms(1) that
    by (auto intro!: index_upto_cong fill_chain_keeps simp: indexed_def)
  then show ?thesis using assms ids by (auto simp: indexed_def)
qed

lemma source_stage_contract:
  fixes K :: "'t index_ops"
  assumes "after = [TOTAL_GAS_INDEX, TOTAL_TX_INDEX]"
  shows "stage_contract (source_stage M) after (indexed K HEADERS) id [] M"
proof
  fix t :: "'t chain_tables kv_tx" and p to :: block_number and mem :: nat
  assume t: "indexed K HEADERS t" "p = progress_of (st_id (source_stage M)) t" "to < p"
    "\<forall>i \<in> set after. progress_of i t \<le> to"
  have "TOTAL_GAS_INDEX \<noteq> HEADERS" "TOTAL_TX_INDEX \<noteq> HEADERS"
    by (simp_all add: HEADERS_def TOTAL_GAS_INDEX_def TOTAL_TX_INDEX_def)
  with t show "\<exists>q mem' d. st_unwind (source_stage M) \<lparr> ui_stage_progress = p, ui_unwind_to = to \<rparr> mem (tables t) =
      Some (Inr q, mem', d) \<and> id mem' \<le> id mem \<and> to \<le> q \<and> q < p \<and>
      indexed K HEADERS (save_progress (st_id (source_stage M)) q (t\<lparr>tables := d\<rparr>))"
    by (auto simp: source_stage_def indexed_def assms)
next
  fix t :: "'t chain_tables kv_tx" and p :: block_number and i :: stage_input and mem :: nat
  assume t: "indexed K HEADERS t" and p: "p = progress_of (st_id (source_stage M)) t" and "p \<le> M"
    and i: "si_stage_progress i = get_progress (st_id (source_stage M)) t"
  have p': "p = progress_of HEADERS t" "(case si_stage_progress i of None \<Rightarrow> 0 | Some p \<Rightarrow> p) = p"
    using p i by (simp_all add: progress_of_def source_stage_def)
  let ?q = "if p < M then p + 1 else M"
  have q: "p \<le> ?q" "?q \<le> M" "?q \<noteq> M \<longrightarrow> p < ?q"
    using \<open>p \<le> M\<close> unat_next [of p M] by (auto simp: word_le_nat_alt word_less_nat_alt)
  show "(\<exists>q fin mem' d. st_execute (source_stage M) i mem (tables t) = Some (Inr (Progress q fin), mem', d) \<and>
       id mem' \<le> id mem \<and> p \<le> q \<and> q \<le> M \<and> (if fin then q = M else p < q) \<and>
       indexed K HEADERS (save_progress (st_id (source_stage M)) q (t\<lparr>tables := d\<rparr>))) \<or>
    (\<exists>to mem' d. st_execute (source_stage M) i mem (tables t) = Some (Inr (Unwind to), mem', d) \<and> id mem' < id mem)"
  proof (cases "0 < mem")
    case True
    then show ?thesis by (simp add: source_stage_def Let_def)
  next
    case False
    then have "st_execute (source_stage M) i mem (tables t) = Some (Inr (Progress ?q (?q = M)), mem, fill_chain (tables t))"
      unfolding source_stage_def by (simp add: p'(2) Let_def)
    with q indexed_fill_chain [OF t, of ?q] show ?thesis
      unfolding p'(1) [symmetric] by (auto simp: source_stage_def)
  qed
qed

interpretation source: stage_contract "source_stage M" "[TOTAL_GAS_INDEX, TOTAL_TX_INDEX]"
    "indexed ol_table HEADERS" id "[]" M
  by (rule source_stage_contract) simp

section \<open>Synchronising the indexes\<close>

text \<open>The stages in the order of the node: a source of blocks, the gas index, the transaction index.\<close>

definition index_sync :: "'t index_ops \<Rightarrow> ('s, 't chain_tables) stage \<Rightarrow> block_number \<Rightarrow> ('s, 't chain_tables) staged_sync" where
  "index_sync K src M = push_stage (total_tx_index K) (push_stage (total_gas_index K) (push_stage src
     (set_max_block (Some M) staged_sync_new)))"

lemma index_sync_simps [simp]:
  "stages (index_sync K src M) = [src, total_gas_index K, total_tx_index K]"
  "max_block (index_sync K src M) = Some M"
  by (simp_all add: index_sync_def push_stage_def set_max_block_def staged_sync_new_def)

lemma index_stage_ids [simp]:
  "st_id (total_gas_index K) = TOTAL_GAS_INDEX" "st_id (total_tx_index K) = TOTAL_TX_INDEX" "st_id (source_stage M) = HEADERS"
  "HEADERS \<noteq> TOTAL_GAS_INDEX" "HEADERS \<noteq> TOTAL_TX_INDEX" "TOTAL_GAS_INDEX \<noteq> HEADERS" "TOTAL_TX_INDEX \<noteq> HEADERS"
  by (simp_all add: total_gas_index_def total_tx_index_def source_stage_def HEADERS_def TOTAL_GAS_INDEX_def TOTAL_TX_INDEX_def)

lemma index_sync_pipeline:
  assumes "ordered_table K" and "M < - 1" and "st_id src = HEADERS"
    and "stage_contract src [TOTAL_GAS_INDEX, TOTAL_TX_INDEX] (indexed K HEADERS) rank [] M"
  shows "pipeline M (indexed K HEADERS) rank [] (stages (index_sync K src M))"
proof -
  have K: "index_table K" using assms(1) by (rule index_table.intro)
  have "stage_contract (total_gas_index K) [TOTAL_TX_INDEX] (indexed K HEADERS) rank [HEADERS] M"
    "stage_contract (total_tx_index K) [] (indexed K HEADERS) rank [HEADERS, TOTAL_GAS_INDEX] M"
    using index_table.total_gas_stage [OF K, of HEADERS] index_table.total_tx_stage [OF K, of HEADERS] assms(2)
    by (auto intro: index_stage.index_stage_contract)
  with assms(3,4) show ?thesis by simp
qed

lemma index_sync_within:
  assumes "indexed K HEADERS t" and "progress_of HEADERS t \<le> M" and "st_id src = HEADERS"
  shows "within M (indexed K HEADERS) (st_id ` set (stages (index_sync K src M))) t"
  using assms order_trans by (auto simp: within_def indexed_def)

definition genesis_tables :: "(block_number \<times> u64) list chain_tables kv_tx" where
  "genesis_tables = \<lparr> sync_stage = Map.empty, tables = \<lparr> tb_canonical_header = Map.empty, tb_header = Map.empty,
     tb_block_body = Map.empty, tb_total_gas = [(0, 0)], tb_total_tx = [(0, 0)] \<rparr> \<rparr>"

lemma genesis_indexed: "progress_of i genesis_tables = 0" "indexed ol_table src genesis_tables"
  by (auto simp: progress_of_def get_progress_def genesis_tables_def indexed_def index_upto_def fun_eq_iff)

lemma sample_pipeline:
  "pipeline 3 (indexed ol_table HEADERS) id [] (stages (index_sync ol_table (source_stage 3) 3))"
  by (intro index_sync_pipeline ol.ordered_table_axioms source_stage_contract) simp_all

text \<open>C22. The synchronisation loop returns.  For stages with distinct ids that keep the contract
  of the \<open>Stage\<close> trait (progress towards block \<open>M\<close>, unwinding towards the given block, the
  database invariant \<open>sound\<close> kept, finitely many unwind requests) and a database where no stage is
  beyond \<open>M\<close>, \<open>run\<close> with \<open>max_block\<close> \<open>M\<close> returns \<open>Ok\<close>, whatever the commit threshold and
  however often stages ask to unwind; every stage is then at \<open>M\<close> in the committed database and the invariant holds.\<close>

theorem sync_reaches_max_block:
  assumes "pipeline M sound rank [] (stages c)" and "distinct (map st_id (stages c))"
    and "max_block c = Some M" and "stages c \<noteq> []"
    and "sound t" and "\<forall>st \<in> set (stages c). progress_of (st_id st) t \<le> M"
  shows "\<exists>mem' t'. sync_run c None mem t = Some (Inr (), mem', t') \<and> sound t' \<and>
    (\<forall>st \<in> set (stages c). get_progress (st_id st) t' = Some M)"
  using sync_returns [OF assms(1-4), of t mem] assms(5,6) by (auto simp: within_def synced_def)

theorem sync_reaches_max_block_witness:
  "\<exists>mem' t'. sync_run (index_sync ol_table (source_stage 3) 3) None 2 genesis_tables = Some (Inr (), mem', t') \<and>
    get_progress HEADERS t' = Some 3"
  using sync_reaches_max_block [OF sample_pipeline, where t = genesis_tables and mem = 2]
  by (auto simp: genesis_indexed)

text \<open>The loop returns nowhere else.  Whatever the stages do, \<open>run\<close> returns \<open>Ok\<close> only if a
  maximal block is set, there is a stage, and every stage has reached that block in the committed
  database.\<close>

theorem sync_run_only_at_max_block:
  assumes "sync_run c unwind_to mem t = Some (Inr (), mem', t')"
  shows "\<exists>M. max_block c = Some M \<and> stages c \<noteq> [] \<and>
    (\<forall>st \<in> set (stages c). \<exists>p \<ge> M. get_progress (st_id st) t' = Some p)"
  using sync_run_Ok [OF assms refl] by blast

theorem sync_run_only_at_max_block_witness:
  "\<exists>mem' t'. sync_run (index_sync ol_table (source_stage 3) 3) None 2 genesis_tables = Some (Inr (), mem', t') \<and>
    (\<exists>p \<ge> 3. get_progress TOTAL_TX_INDEX t' = Some p)"
proof -
  obtain mem' t' where t': "sync_run (index_sync ol_table (source_stage 3) 3) None 2 genesis_tables = Some (Inr (), mem', t')"
    using sync_returns [OF sample_pipeline _ _ _ index_sync_within, of genesis_tables 2] by (auto simp: genesis_indexed)
  from sync_run_only_at_max_block [OF t'] show ?thesis by (auto simp: t')
qed

text \<open>C24. Unwinding.  For a pipeline with distinct ids that keeps the contract of the \<open>Stage\<close> trait,
  unwinding in reverse order succeeds, brings every stage that is above the block \<open>to\<close> down to it,
  leaves the others alone and keeps the invariant of the database.\<close>

theorem unwind_stages_exact:
  assumes "pipeline M sound rank [] (stages c)" and "distinct (map st_id (stages c))" and "sound t"
  shows "\<exists>mem' t'. unwind_stages to (rev (stages c)) mem t = Some (Inr (), mem', t') \<and> sound t' \<and>
    (\<forall>i. progress_of i t' = (if i \<in> st_id ` set (stages c) then min (progress_of i t) to else progress_of i t))"
  using unwind_stages_returns [OF assms, of to mem] by blast

theorem unwind_stages_exact_witness:
  "\<exists>mem' t'. unwind_stages 1 (rev (stages (index_sync ol_table (source_stage 3) 3))) 0
      (save_progress HEADERS 3 (genesis_tables\<lparr>tables := fill_chain (tables genesis_tables)\<rparr>)) = Some (Inr (), mem', t') \<and>
    progress_of HEADERS t' = 1 \<and> indexed ol_table HEADERS t'"
  using unwind_stages_exact [OF sample_pipeline _ indexed_fill_chain [OF genesis_indexed(2), of 3], where to = 1 and mem = 0]
  by (fastforce simp: genesis_indexed)

text \<open>C23. The cumulative indexes.  With a table that keeps the documented laws of the store and a stage that
  provides the blocks, the loop over source, \<open>TotalGasIndex\<close> and \<open>TotalTxIndex\<close> returns, and the
  index of every block up to the maximal one is the sum of the gas used (the number of transactions)
  of the canonical blocks up to it.\<close>

theorem indexes_completed:
  assumes "ordered_table K" and "M < - 1" and "st_id src = HEADERS"
    and "stage_contract src [TOTAL_GAS_INDEX, TOTAL_TX_INDEX] (indexed K HEADERS) rank [] M"
    and "indexed K HEADERS t" and "progress_of HEADERS t \<le> M"
  shows "\<exists>mem' t'. sync_run (index_sync K src M) None mem t = Some (Inr (), mem', t') \<and>
    (\<forall>b \<le> M. tab_get K (tb_total_gas (tables t')) b = Some (cumulative (gas_of (tables t')) b) \<and>
       tab_get K (tb_total_tx (tables t')) b = Some (cumulative (txs_of (tables t')) b))"
proof -
  from sync_returns [OF index_sync_pipeline [OF assms(1-4)] _ _ _ index_sync_within [OF assms(5,6,3)], of mem]
  obtain mem' t' where "sync_run (index_sync K src M) None mem t = Some (Inr (), mem', t')"
    "indexed K HEADERS t'" "synced (index_sync K src M) M t'" using assms(3) by auto
  then show ?thesis by (auto simp: indexed_def synced_def progress_of_def index_upto_def)
qed

theorem indexes_completed_witness:
  "\<exists>mem' t'. sync_run (index_sync ol_table (source_stage 3) 3) None 2 genesis_tables = Some (Inr (), mem', t') \<and>
    map_of (tb_total_gas (tables t')) 3 = Some (cumulative (gas_of (tables t')) 3)"
  using indexes_completed [OF ol.ordered_table_axioms _ _ source.stage_contract_axioms genesis_indexed(2),
      where M = 3 and mem = 2]
  by (auto simp: genesis_indexed)

section \<open>Clean promotion\<close>

lemma unat_cumulative:
  assumes "(\<Sum>x = 1..n. unat (f (of_nat x))) < 2 ^ 64" and "n \<le> unat (M :: block_number)"
  shows "unat (cumulative f (of_nat n)) = (\<Sum>x = 1..n. unat (f (of_nat x)))"
  using assms
proof (induction n)
  case (Suc n)
  then have "unat (cumulative f (of_nat n)) = (\<Sum>x = 1..n. unat (f (of_nat x)))" by simp
  moreover have "cumulative f (of_nat (Suc n)) = cumulative f (of_nat n) + f (of_nat (Suc n))"
    using Suc.prems(2) by (intro cumulative_Suc [of n M]) simp
  ultimately show ?case using Suc.prems(1) by (simp add: unat_add_no_wrap del: of_nat_Suc)
qed simp

lemma sum_split_at: "a \<le> b \<Longrightarrow> (\<Sum>x = 1..b. g x) = (\<Sum>x = 1..a. g x) + (\<Sum>x = Suc a..b. g x :: nat)"
  using sum.ub_add_nat [of 1 a g "b - a"] by simp

text \<open>When the total gas of the chain fits into 64 bits, the index answers without an error
  and a clean promotion is chosen exactly at genesis or when the gas of the blocks after the past
  progress exceeds the threshold.\<close>

theorem clean_promotion_exact:
  assumes "index_upto K f p t" and "past \<le> high" and "high \<le> p"
    and "(\<Sum>x = 1..unat high. unat (f (of_nat x))) < 2 ^ 64"
  shows "should_do_clean_promotion K t genesis past high threshold =
    Inr (past = genesis \<or> unat threshold < (\<Sum>x = Suc (unat past)..unat high. unat (f (of_nat x))))"
proof -
  let ?s = "\<lambda>b. \<Sum>x = 1..unat b. unat (f (of_nat x))"
  have le: "unat past \<le> unat high" using assms(2) by (simp add: word_le_nat_alt)
  note split = sum_split_at [OF le, of "\<lambda>x. unat (f (of_nat x))"]
  have sums: "unat (cumulative f past) = ?s past" "unat (cumulative f high) = ?s high"
    using unat_cumulative [of f "unat past" past] unat_cumulative [of f "unat high" high] assms(4) split by simp_all
  then have "cumulative f past \<le> cumulative f high" using split by (simp add: word_le_nat_alt)
  moreover from this have "unat (cumulative f high - cumulative f past) = ?s high - ?s past"
    by (simp add: unat_diff_no_wrap sums)
  moreover have "tab_get K t past = Some (cumulative f past)" "tab_get K t high = Some (cumulative f high)"
    using assms(1-3) by (auto simp: index_upto_def)
  ultimately show ?thesis using split by (simp add: should_do_clean_promotion_def word_less_nat_alt)
qed

theorem clean_promotion_exact_witness:
  "should_do_clean_promotion ol_table [(0, 0), (1, 5)] 7 0 (1 :: block_number) (4 :: u64) = Inr True"
proof -
  have "b \<le> 1 \<longleftrightarrow> b = 0 \<or> b = 1" for b :: block_number
    by (auto simp: word_le_nat_alt le_Suc_eq word_unat_eq_iff)
  then have "index_upto ol_table (\<lambda>_. 5) 1 [(0, 0), (1, 5)]"
    by (auto simp: index_upto_def fun_eq_iff cumulative_def)
  from clean_promotion_exact [OF this, of 0 1 7 4] show ?thesis by simp
qed

end
