(* ===== verification/Table_Codecs.thy ===== *)
theory Table_Codecs
  imports
    Account_Codec In_Memory_State
begin

text \<open>
  The byte encodings of table keys and values (\<^verbatim>\<open>src/src/kv/tables.rs\<close>).  The store compares
  keys as byte strings, so that the order of an encoding decides where a cursor lands.
  An array of fixed length is its big-endian bytes; \<open>VariableVec\<close> is a byte string with a
  capacity, and an \<open>unwrap\<close> of an exceeded capacity is a panic.
\<close>

section \<open>Codecs\<close>

datatype table_error = InvalidLength nat nat | TooShort nat nat | TooLong nat nat
  | CapacityError | Table_Error string | Decode_Error codec_error | Table_Panic

definition unwrap_r :: "table_error + 'a \<Rightarrow> table_error + 'a" where
  "unwrap_r r = (case r of Inl e \<Rightarrow> Inl Table_Panic | Inr x \<Rightarrow> Inr x)"

definition try_extend_from_slice :: "nat \<Rightarrow> bytes \<Rightarrow> bytes \<Rightarrow> table_error + bytes" where
  "try_extend_from_slice cap src v = (if length v + length src \<le> cap then Inr (v @ src) else Inl CapacityError)"

definition variable_vec_decode :: "nat \<Rightarrow> bytes \<Rightarrow> table_error + bytes" where
  "variable_vec_decode cap b = try_extend_from_slice cap b []"

definition u64_encode :: "u64 \<Rightarrow> bytes" where
  "u64_encode v = to_be 8 v"

definition u64_decode :: "bytes \<Rightarrow> table_error + u64" where
  "u64_decode b = (if length b = 8 then Inr (of_be b) else Inl (InvalidLength 8 (length b)))"

definition BLOCK_NUMBER_LENGTH :: nat where "BLOCK_NUMBER_LENGTH = 8"

definition address_encode :: "address \<Rightarrow> bytes" where
  "address_encode a = to_be ADDRESS_LENGTH a"

definition address_decode :: "bytes \<Rightarrow> table_error + address" where
  "address_decode b = (if length b = ADDRESS_LENGTH then Inr (of_be b) else Inl (InvalidLength ADDRESS_LENGTH (length b)))"

definition h256_encode :: "h256 \<Rightarrow> bytes" where
  "h256_encode h = to_be KECCAK_LENGTH h"

definition h256_decode :: "bytes \<Rightarrow> table_error + h256" where
  "h256_decode b = (if length b = KECCAK_LENGTH then Inr (of_be b) else Inl (InvalidLength KECCAK_LENGTH (length b)))"

text \<open>\<open>TruncateStart\<close> drops the leading zero bytes of a fixed-length encoding.\<close>

definition truncate_start_encode :: "nat \<Rightarrow> ('a \<Rightarrow> bytes) \<Rightarrow> 'a \<Rightarrow> table_error + bytes" where
  "truncate_start_encode len enc x = unwrap_r (try_extend_from_slice len (zeroless_view (enc x)) [])"

definition truncate_start_decode :: "nat \<Rightarrow> (bytes \<Rightarrow> table_error + 'a) \<Rightarrow> bytes \<Rightarrow> table_error + 'a" where
  "truncate_start_decode len dec b =
     (if length b > len then Inl (TooLong len (length b))
      else dec (replicate (len - length b) 0 @ b))"

definition addresses_encode :: "address list \<Rightarrow> bytes" where
  "addresses_encode as = concat (map address_encode as)"

definition addresses_decode :: "bytes \<Rightarrow> table_error + address list" where
  "addresses_decode b =
     (if length b mod ADDRESS_LENGTH \<noteq> 0 then Inl (Table_Error ''Slice len should be divisible by 20'')
      else fold_r (\<lambda>i v. bind_r (address_decode (take ADDRESS_LENGTH (drop (i * ADDRESS_LENGTH) b))) (\<lambda>a. Inr (v @ [a])))
        [0 ..< length b div ADDRESS_LENGTH] [])"

definition u256_encode :: "u256 \<Rightarrow> bytes" where
  "u256_encode v = dropWhile (\<lambda>b. b = 0) (to_be KECCAK_LENGTH v)"

definition u256_decode :: "bytes \<Rightarrow> table_error + u256" where
  "u256_decode b =
     (if length b > KECCAK_LENGTH then Inl (TooLong KECCAK_LENGTH (length b))
      else Inr (of_be (replicate (KECCAK_LENGTH - length b) 0 @ b)))"

definition location_value_encode :: "h256 \<times> u256 \<Rightarrow> table_error + bytes" where
  "location_value_encode x =
     bind_r (unwrap_r (try_extend_from_slice (KECCAK_LENGTH + KECCAK_LENGTH) (h256_encode (fst x)) [])) (\<lambda>out.
     unwrap_r (try_extend_from_slice (KECCAK_LENGTH + KECCAK_LENGTH) (u256_encode (snd x)) out))"

definition location_value_decode :: "bytes \<Rightarrow> table_error + h256 \<times> u256" where
  "location_value_decode b =
     (if length b > KECCAK_LENGTH + KECCAK_LENGTH then Inl (TooLong (KECCAK_LENGTH + KECCAK_LENGTH) (length b))
      else if length b < KECCAK_LENGTH then Inl (TooShort KECCAK_LENGTH (length b))
      else bind_r (h256_decode (take KECCAK_LENGTH b)) (\<lambda>location.
           bind_r (u256_decode (drop KECCAK_LENGTH b)) (\<lambda>value. Inr (location, value))))"

text \<open>Pairs of fixed-length objects.\<close>

definition pair_encode :: "('a \<Rightarrow> bytes) \<Rightarrow> ('b \<Rightarrow> bytes) \<Rightarrow> 'a \<times> 'b \<Rightarrow> table_error + bytes" where
  "pair_encode encA encB x =
     bind_r (unwrap_r (try_extend_from_slice 256 (encA (fst x)) [])) (\<lambda>v.
     unwrap_r (try_extend_from_slice 256 (encB (snd x)) v))"

definition pair_decode ::
    "nat \<Rightarrow> (bytes \<Rightarrow> table_error + 'a) \<Rightarrow> nat \<Rightarrow> (bytes \<Rightarrow> table_error + 'b) \<Rightarrow> bytes \<Rightarrow> table_error + 'a \<times> 'b" where
  "pair_decode lenA decA lenB decB v =
     (if length v \<noteq> lenA + lenB then Inl (Table_Error ''Invalid len'')
      else bind_r (unwrap_r (decA (take lenA v))) (\<lambda>a.
           bind_r (unwrap_r (decB (drop lenA v))) (\<lambda>b. Inr (a, b))))"

text \<open>Keys of the sharded bitmaps.\<close>

record 'k bitmap_key =
  bk_inner :: 'k
  bk_block_number :: block_number

definition bitmap_address_encode :: "address bitmap_key \<Rightarrow> bytes" where
  "bitmap_address_encode k = address_encode (bk_inner k) @ u64_encode (bk_block_number k)"

definition bitmap_address_decode :: "bytes \<Rightarrow> table_error + address bitmap_key" where
  "bitmap_address_decode b =
     (if length b \<noteq> ADDRESS_LENGTH + BLOCK_NUMBER_LENGTH
      then Inl (InvalidLength (ADDRESS_LENGTH + BLOCK_NUMBER_LENGTH) (length b))
      else bind_r (address_decode (take ADDRESS_LENGTH b)) (\<lambda>a.
           bind_r (u64_decode (drop ADDRESS_LENGTH b)) (\<lambda>n. Inr \<lparr> bk_inner = a, bk_block_number = n \<rparr>)))"

definition bitmap_slot_encode :: "(address \<times> h256) bitmap_key \<Rightarrow> bytes" where
  "bitmap_slot_encode k =
     address_encode (fst (bk_inner k)) @ h256_encode (snd (bk_inner k)) @ u64_encode (bk_block_number k)"

definition bitmap_slot_decode :: "bytes \<Rightarrow> table_error + (address \<times> h256) bitmap_key" where
  "bitmap_slot_decode b =
     (if length b \<noteq> ADDRESS_LENGTH + KECCAK_LENGTH + BLOCK_NUMBER_LENGTH
      then Inl (InvalidLength (ADDRESS_LENGTH + KECCAK_LENGTH + BLOCK_NUMBER_LENGTH) (length b))
      else bind_r (address_decode (take ADDRESS_LENGTH b)) (\<lambda>a.
           bind_r (h256_decode (take KECCAK_LENGTH (drop ADDRESS_LENGTH b))) (\<lambda>h.
           bind_r (u64_decode (drop (ADDRESS_LENGTH + KECCAK_LENGTH) b)) (\<lambda>n.
             Inr \<lparr> bk_inner = (a, h), bk_block_number = n \<rparr>))))"

text \<open>Accounts and the records of the change sets.\<close>

definition account_encode :: "account \<Rightarrow> table_error + bytes" where
  "account_encode a = (case encode_for_storage a of Inl e \<Rightarrow> Inl Table_Panic | Inr b \<Rightarrow> Inr b)"

definition account_decode :: "bytes \<Rightarrow> table_error + account" where
  "account_decode b = (case decode_for_storage b of
       Inl e \<Rightarrow> Inl (Decode_Error e)
     | Inr None \<Rightarrow> Inl (Table_Error ''cannot be empty'')
     | Inr (Some a) \<Rightarrow> Inr a)"

record account_change =
  ac_address :: address
  ac_account :: "account option"

definition account_change_encode :: "account_change \<Rightarrow> table_error + bytes" where
  "account_change_encode c =
     bind_r (unwrap_r (try_extend_from_slice (ADDRESS_LENGTH + MAX_ACCOUNT_LEN) (address_encode (ac_address c)) [])) (\<lambda>out.
     case ac_account c of
       None \<Rightarrow> Inr out
     | Some a \<Rightarrow> bind_r (account_encode a) (\<lambda>b.
         unwrap_r (try_extend_from_slice (ADDRESS_LENGTH + MAX_ACCOUNT_LEN) b out)))"

definition account_change_decode :: "bytes \<Rightarrow> table_error + account_change" where
  "account_change_decode b =
     (if length b < ADDRESS_LENGTH then Inl (TooShort ADDRESS_LENGTH (length b))
      else bind_r (address_decode (take ADDRESS_LENGTH b)) (\<lambda>address.
           bind_r (if length b > ADDRESS_LENGTH
                   then bind_r (account_decode (drop ADDRESS_LENGTH b)) (\<lambda>a. Inr (Some a)) else Inr None) (\<lambda>account.
             Inr \<lparr> ac_address = address, ac_account = account \<rparr>)))"

record storage_change_key =
  sk_block_number :: block_number
  sk_address :: address

definition storage_change_key_encode :: "storage_change_key \<Rightarrow> bytes" where
  "storage_change_key_encode k = u64_encode (sk_block_number k) @ address_encode (sk_address k)"

definition storage_change_key_decode :: "bytes \<Rightarrow> table_error + storage_change_key" where
  "storage_change_key_decode b =
     (if length b \<noteq> BLOCK_NUMBER_LENGTH + ADDRESS_LENGTH
      then Inl (InvalidLength (BLOCK_NUMBER_LENGTH + ADDRESS_LENGTH) (length b))
      else bind_r (u64_decode (take BLOCK_NUMBER_LENGTH b)) (\<lambda>n.
           bind_r (address_decode (take ADDRESS_LENGTH (drop BLOCK_NUMBER_LENGTH b))) (\<lambda>a.
             Inr \<lparr> sk_block_number = n, sk_address = a \<rparr>)))"

record storage_change =
  sc_location :: h256
  sc_value :: u256

definition storage_change_encode :: "storage_change \<Rightarrow> table_error + bytes" where
  "storage_change_encode c =
     bind_r (unwrap_r (try_extend_from_slice (KECCAK_LENGTH + KECCAK_LENGTH) (h256_encode (sc_location c)) [])) (\<lambda>out.
     unwrap_r (try_extend_from_slice (KECCAK_LENGTH + KECCAK_LENGTH) (u256_encode (sc_value c)) out))"

definition storage_change_decode :: "bytes \<Rightarrow> table_error + storage_change" where
  "storage_change_decode b =
     (if length b < KECCAK_LENGTH then Inl (TooShort KECCAK_LENGTH (length b))
      else bind_r (h256_decode (take KECCAK_LENGTH b)) (\<lambda>l.
           bind_r (u256_decode (drop KECCAK_LENGTH b)) (\<lambda>v. Inr \<lparr> sc_location = l, sc_value = v \<rparr>)))"

text \<open>Entries of the call trace set: the bit field has the sender in its lowest bit and the
  receiver in the next.\<close>

record call_trace_set_entry =
  ct_address :: address
  ct_from :: bool
  ct_to :: bool

definition call_trace_flags :: "bool \<Rightarrow> bool \<Rightarrow> u8" where
  "call_trace_flags from to = (if from then 1 else 0) OR (if to then 2 else 0)"

definition call_trace_set_entry_encode :: "call_trace_set_entry \<Rightarrow> bytes" where
  "call_trace_set_entry_encode e = address_encode (ct_address e) @ [call_trace_flags (ct_from e) (ct_to e)]"

definition call_trace_set_entry_decode :: "bytes \<Rightarrow> table_error + call_trace_set_entry" where
  "call_trace_set_entry_decode b =
     (if length b \<noteq> ADDRESS_LENGTH + 1 then Inl (InvalidLength (ADDRESS_LENGTH + 1) (length b))
      else (let field_set = b ! ADDRESS_LENGTH in
        bind_r (address_decode (take ADDRESS_LENGTH b)) (\<lambda>a.
          Inr \<lparr> ct_address = a, ct_from = bit field_set 0, ct_to = bit field_set 1 \<rparr>)))"

section \<open>Interfaces of encodings\<close>

text \<open>The order of the store: byte strings compared from the left, a prefix first.\<close>

abbreviation bytes_less :: "bytes \<Rightarrow> bytes \<Rightarrow> bool" where
  "bytes_less \<equiv> ord_class.lexordp"

text \<open>A table object is given back by decoding.\<close>

locale table_object =
  fixes enc :: "'a \<Rightarrow> table_error + bytes" and dec :: "bytes \<Rightarrow> table_error + 'a"
  assumes enc_dec: "\<exists>b. enc x = Inr b \<and> dec b = Inr x"
begin

lemma enc_inject: "enc x = enc y \<longleftrightarrow> x = y"
  using enc_dec by (metis Inr_inject)

lemma enc_never_fails: "enc x \<noteq> Inl e"
  using enc_dec [of x] by auto

end

text \<open>An object of fixed length has one encoding, and all byte strings of that length encode one.\<close>

locale fixed_object =
  fixes enc :: "'a \<Rightarrow> bytes" and dec :: "bytes \<Rightarrow> table_error + 'a" and len :: nat
  assumes length_enc: "length (enc x) = len"
    and dec_enc: "dec (enc x) = Inr x"
    and dec_sound: "dec b = Inr x \<Longrightarrow> b = enc x"
    and dec_total: "length b = len \<Longrightarrow> \<exists>x. dec b = Inr x"
begin

lemma dec_iff: "dec b = Inr x \<longleftrightarrow> b = enc x"
  using dec_enc dec_sound by blast

lemma dec_error_iff: "(\<exists>e. dec b = Inl e) \<longleftrightarrow> length b \<noteq> len"
  using dec_sound dec_total length_enc by (metis Inl_Inr_False sumE)

lemma enc_inject: "enc x = enc y \<longleftrightarrow> x = y"
  using dec_enc by (metis Inr_inject)

end

text \<open>A key whose byte order is its order.\<close>

locale ordered_object = fixed_object enc dec len
  for enc :: "'a::linorder \<Rightarrow> bytes" and dec len +
  assumes enc_less: "bytes_less (enc x) (enc y) \<longleftrightarrow> x < y"

lemma lexordp_append_iff:
  "length xs = length ys \<Longrightarrow> bytes_less (xs @ a) (ys @ b) \<longleftrightarrow> bytes_less xs ys \<or> xs = ys \<and> bytes_less a (b :: u8 list)"
  by (induction xs ys rule: list_induct2) auto

context ordered_object
begin

lemma prefixed_less: "bytes_less (enc x @ a) (enc y @ b) \<longleftrightarrow> x < y \<or> x = y \<and> bytes_less a b"
  by (simp add: lexordp_append_iff length_enc enc_less enc_inject)

text \<open>Seeking by a prefix of the key finds the first entry with a prefix not below it.\<close>

lemma seek_prefix: "\<not> bytes_less (enc y @ b) (enc x) \<longleftrightarrow> x \<le> y"
  using prefixed_less [of y b x "[]"] by (auto simp: not_less)

end

text \<open>The big-endian encoding of a word is ordered.\<close>

lemma lexordp_nat_of_be: "length xs = length ys \<Longrightarrow> bytes_less xs ys \<longleftrightarrow> nat_of_be xs < nat_of_be ys"
proof (induction xs ys rule: list_induct2)
  case (Cons x xs y ys)
  have digit: "unat a * 256 ^ n + v < unat b * 256 ^ n + w" if "unat a < unat b" "v < 256 ^ n" for a b :: u8 and v w n
  proof -
    from that(1) have "Suc (unat a) * 256 ^ n \<le> unat b * 256 ^ n" by (intro mult_le_mono1) simp
    with that(2) show ?thesis by simp
  qed
  have bounds: "nat_of_be xs < 256 ^ length ys" "nat_of_be ys < 256 ^ length ys"
    using nat_of_be_less [of xs] nat_of_be_less [of ys] Cons.hyps by simp_all
  show ?case
  proof (cases x y rule: linorder_cases)
    case less
    then show ?thesis using digit [of x y, OF _ bounds(1)] Cons.hyps by (simp add: word_less_nat_alt)
  next
    case equal
    then show ?thesis using Cons by simp
  next
    case greater
    then show ?thesis using digit [of y x, OF _ bounds(2), of "nat_of_be xs"] Cons.hyps
      by (simp add: word_less_nat_alt not_less less_imp_le)
  qed
qed simp

lemma unat_of_be: "LENGTH('a) = 8 * length b \<Longrightarrow> unat (of_be b :: 'a::len word) = nat_of_be b"
  using nat_of_be_less [of b] by (simp add: of_be_def unsigned_of_nat take_bit_nat_eq_self power_mult)

lemma to_be_less:
  assumes "LENGTH('a) = 8 * n"
  shows "bytes_less (to_be n (x :: 'a::len word)) (to_be n y) \<longleftrightarrow> x < y"
proof -
  have "nat_of_be (to_be n z) = unat z" for z :: "'a word"
    using unat_of_be [of "to_be n z", where ?'a = 'a] of_be_to_be [of n z] assms by simp
  then show ?thesis by (simp add: lexordp_nat_of_be word_less_nat_alt)
qed

lemma word_codec:
  assumes "LENGTH('a) = 8 * n"
  shows "ordered_object (to_be n :: 'a::len word \<Rightarrow> bytes)
    (\<lambda>b. if length b = n then Inr (of_be b) else Inl (InvalidLength n (length b))) n"
  using assms by unfold_locales (auto simp: of_be_to_be to_be_of_be to_be_less split: if_splits)

interpretation u64: ordered_object u64_encode u64_decode 8
  unfolding u64_encode_def [abs_def] u64_decode_def [abs_def] by (rule word_codec) simp

interpretation addr: ordered_object address_encode address_decode ADDRESS_LENGTH
  unfolding address_encode_def [abs_def] address_decode_def [abs_def] ADDRESS_LENGTH_def by (rule word_codec) simp

interpretation h256: ordered_object h256_encode h256_decode KECCAK_LENGTH
  unfolding h256_encode_def [abs_def] h256_decode_def [abs_def] KECCAK_LENGTH_def by (rule word_codec) simp

section \<open>Composite objects\<close>

lemma extend_ok [simp]:
  "length v + length b \<le> cap \<Longrightarrow> unwrap_r (try_extend_from_slice cap b v) = Inr (v @ b)"
  by (simp add: unwrap_r_def try_extend_from_slice_def)

lemma unwrap_r_Inr [simp]: "unwrap_r (Inr x) = Inr x"
  by (simp add: unwrap_r_def)

locale object_pair = a: ordered_object encA decA lenA + b: ordered_object encB decB lenB
  for encA :: "'a::linorder \<Rightarrow> bytes" and decA lenA and encB :: "'b::linorder \<Rightarrow> bytes" and decB lenB +
  assumes fits: "lenA + lenB \<le> 256"
begin

lemma pair_encode_eq: "pair_encode encA encB x = Inr (encA (fst x) @ encB (snd x))"
  using fits by (simp add: pair_encode_def a.length_enc b.length_enc)

lemma pair_decode_enc: "pair_decode lenA decA lenB decB (encA a @ encB b) = Inr (a, b)"
  by (simp add: pair_decode_def a.length_enc b.length_enc a.dec_enc b.dec_enc)

lemma pair_less:
  "bytes_less (encA a @ encB b) (encA a' @ encB b') \<longleftrightarrow> a < a' \<or> a = a' \<and> b < b'"
  by (simp add: a.prefixed_less b.enc_less)

end

sublocale object_pair \<subseteq> pair: table_object "pair_encode encA encB" "pair_decode lenA decA lenB decB"
  by unfold_locales (simp add: pair_encode_eq pair_decode_enc)

interpretation header_key: object_pair u64_encode u64_decode 8 h256_encode h256_decode KECCAK_LENGTH
  by unfold_locales (simp add: KECCAK_LENGTH_def)

interpretation log_key: object_pair u64_encode u64_decode 8 u64_encode u64_decode 8
  by unfold_locales simp

lemmas codec_lengths [simp] = u64.length_enc addr.length_enc h256.length_enc
lemmas codec_decs [simp] = u64.dec_enc addr.dec_enc h256.dec_enc

lemma length_u256_encode: "length (u256_encode v) \<le> KECCAK_LENGTH"
  using length_dropWhile_le [of "\<lambda>b. b = 0" "to_be KECCAK_LENGTH v"] by (simp add: u256_encode_def)

lemma u256_decode_encode [simp]: "u256_decode (u256_encode v) = Inr v"
  using length_u256_encode [of v]
  by (simp add: u256_decode_def of_be_zeros) (simp add: u256_encode_def of_be_dropWhile_zero of_be_to_be KECCAK_LENGTH_def)

lemma zeroless_view_eq: "zeroless_view b = dropWhile (\<lambda>x. x = 0) b"
  by (simp add: zeroless_view_def dropWhile_eq_drop)

lemma zeros_zeroless: "replicate (length b - length (zeroless_view b)) 0 @ zeroless_view b = b"
proof -
  have "takeWhile (\<lambda>x. x = 0) b = replicate (length (takeWhile (\<lambda>x. x = 0) b)) 0"
    by (rule replicate_eqI) (auto dest: set_takeWhileD)
  moreover have "length b - length (zeroless_view b) = length (takeWhile (\<lambda>x. x = 0) b)"
    using length_takeWhile_le [of "\<lambda>x. x = 0" b] by (simp add: zeroless_view_def)
  ultimately show ?thesis
    by (metis takeWhile_dropWhile_id zeroless_view_eq)
qed

interpretation truncated: table_object "truncate_start_encode 8 u64_encode" "truncate_start_decode 8 u64_decode"
proof
  fix x :: u64
  let ?z = "zeroless_view (u64_encode x)"
  have "length ?z \<le> 8" by (simp add: zeroless_view_def)
  moreover have "replicate (8 - length ?z) 0 @ ?z = u64_encode x" using zeros_zeroless [of "u64_encode x"] by simp
  ultimately show "\<exists>b. truncate_start_encode 8 u64_encode x = Inr b \<and> truncate_start_decode 8 u64_decode b = Inr x"
    by (simp add: truncate_start_encode_def truncate_start_decode_def)
qed

interpretation location_value: table_object location_value_encode location_value_decode
proof
  fix x :: "h256 \<times> u256"
  show "\<exists>b. location_value_encode x = Inr b \<and> location_value_decode b = Inr x"
    using length_u256_encode [of "snd x"] by (simp add: location_value_encode_def location_value_decode_def)
qed

interpretation storage_change: table_object storage_change_encode storage_change_decode
proof
  fix x :: storage_change
  show "\<exists>b. storage_change_encode x = Inr b \<and> storage_change_decode b = Inr x"
    using length_u256_encode [of "sc_value x"] by (simp add: storage_change_encode_def storage_change_decode_def)
qed

lemma account_decode_encode: "\<exists>b. account_encode a = Inr b \<and> b \<noteq> [] \<and> length b \<le> MAX_ACCOUNT_LEN \<and> account_decode b = Inr a"
  using length_account_bytes [of a] decode_account_bytes [of a]
  by (simp add: account_encode_def account_decode_def encode_for_storage_eq MAX_ACCOUNT_LEN_def account_bytes_def Let_def)

interpretation account_change: table_object account_change_encode account_change_decode
proof
  fix x :: account_change
  show "\<exists>b. account_change_encode x = Inr b \<and> account_change_decode b = Inr x"
  proof (cases "ac_account x")
    case None
    then show ?thesis by (simp add: account_change_encode_def account_change_decode_def)
  next
    case (Some a)
    then show ?thesis using account_decode_encode [of a]
      by (auto simp: account_change_encode_def account_change_decode_def)
  qed
qed

text \<open>Keys that are concatenations of fixed-length parts.\<close>

lemma take_drop_eqI: "take n b = x \<Longrightarrow> drop n b = y \<Longrightarrow> b = x @ y"
  by auto

interpretation bitmap_address: fixed_object bitmap_address_encode bitmap_address_decode "ADDRESS_LENGTH + BLOCK_NUMBER_LENGTH"
proof
  fix k :: "address bitmap_key" and b
  show "length (bitmap_address_encode k) = ADDRESS_LENGTH + BLOCK_NUMBER_LENGTH"
    by (simp add: bitmap_address_encode_def BLOCK_NUMBER_LENGTH_def)
  show "bitmap_address_decode (bitmap_address_encode k) = Inr k"
    by (simp add: bitmap_address_encode_def bitmap_address_decode_def BLOCK_NUMBER_LENGTH_def)
  show "b = bitmap_address_encode k" if "bitmap_address_decode b = Inr k"
    using that by (auto simp: bitmap_address_decode_def bitmap_address_encode_def addr.dec_iff u64.dec_iff
        intro: take_drop_eqI split: if_splits)
  show "\<exists>k. bitmap_address_decode b = Inr k" if "length b = ADDRESS_LENGTH + BLOCK_NUMBER_LENGTH"
    using that addr.dec_total [of "take ADDRESS_LENGTH b"] u64.dec_total [of "drop ADDRESS_LENGTH b"]
    by (auto simp: bitmap_address_decode_def BLOCK_NUMBER_LENGTH_def)
qed

interpretation bitmap_slot: fixed_object bitmap_slot_encode bitmap_slot_decode "ADDRESS_LENGTH + KECCAK_LENGTH + BLOCK_NUMBER_LENGTH"
proof
  fix k :: "(address \<times> h256) bitmap_key" and b
  show "length (bitmap_slot_encode k) = ADDRESS_LENGTH + KECCAK_LENGTH + BLOCK_NUMBER_LENGTH"
    by (simp add: bitmap_slot_encode_def BLOCK_NUMBER_LENGTH_def)
  show "bitmap_slot_decode (bitmap_slot_encode k) = Inr k"
    by (simp add: bitmap_slot_encode_def bitmap_slot_decode_def BLOCK_NUMBER_LENGTH_def)
  show "b = bitmap_slot_encode k" if "bitmap_slot_decode b = Inr k"
    using that by (auto simp: bitmap_slot_decode_def bitmap_slot_encode_def addr.dec_iff h256.dec_iff u64.dec_iff
        add.commute [of ADDRESS_LENGTH] simp flip: drop_drop intro!: take_drop_eqI split: if_splits)
  show "\<exists>k. bitmap_slot_decode b = Inr k" if "length b = ADDRESS_LENGTH + KECCAK_LENGTH + BLOCK_NUMBER_LENGTH"
    using that addr.dec_total [of "take ADDRESS_LENGTH b"] h256.dec_total [of "take KECCAK_LENGTH (drop ADDRESS_LENGTH b)"]
      u64.dec_total [of "drop (ADDRESS_LENGTH + KECCAK_LENGTH) b"]
    by (auto simp: bitmap_slot_decode_def BLOCK_NUMBER_LENGTH_def)
qed

interpretation storage_change_key: fixed_object storage_change_key_encode storage_change_key_decode "BLOCK_NUMBER_LENGTH + ADDRESS_LENGTH"
proof
  fix k :: storage_change_key and b
  show "length (storage_change_key_encode k) = BLOCK_NUMBER_LENGTH + ADDRESS_LENGTH"
    by (simp add: storage_change_key_encode_def BLOCK_NUMBER_LENGTH_def)
  show "storage_change_key_decode (storage_change_key_encode k) = Inr k"
    by (simp add: storage_change_key_encode_def storage_change_key_decode_def BLOCK_NUMBER_LENGTH_def)
  show "b = storage_change_key_encode k" if "storage_change_key_decode b = Inr k"
    using that by (auto simp: storage_change_key_decode_def storage_change_key_encode_def addr.dec_iff u64.dec_iff
        intro!: take_drop_eqI split: if_splits)
  show "\<exists>k. storage_change_key_decode b = Inr k" if "length b = BLOCK_NUMBER_LENGTH + ADDRESS_LENGTH"
    using that addr.dec_total [of "drop BLOCK_NUMBER_LENGTH b"] u64.dec_total [of "take BLOCK_NUMBER_LENGTH b"]
    by (auto simp: storage_change_key_decode_def BLOCK_NUMBER_LENGTH_def)
qed

lemma call_trace_flags_bits [simp]:
  "bit (call_trace_flags f t) 0 = f" "bit (call_trace_flags f t) (Suc 0) = t"
  by (cases f; cases t; simp add: call_trace_flags_def bit_1_iff)+

interpretation call_trace_set: table_object "\<lambda>e. Inr (call_trace_set_entry_encode e)" call_trace_set_entry_decode
proof
  fix e :: call_trace_set_entry
  show "\<exists>b. Inr (call_trace_set_entry_encode e) = Inr b \<and> call_trace_set_entry_decode b = Inr e"
    by (simp add: call_trace_set_entry_encode_def call_trace_set_entry_decode_def nth_append)
qed

lemma slice_of_concat:
  "(\<And>x. length (f x) = n) \<Longrightarrow> i < length xs \<Longrightarrow> take n (drop (i * n) (concat (map f xs))) = f (xs ! i)"
proof (induction xs arbitrary: i)
  case (Cons x xs)
  then show ?case by (cases i) auto
qed simp

interpretation address_list: table_object "\<lambda>as. Inr (addresses_encode as)" addresses_decode
proof
  fix as :: "address list"
  let ?b = "addresses_encode as"
  let ?step = "\<lambda>i v. bind_r (address_decode (take ADDRESS_LENGTH (drop (i * ADDRESS_LENGTH) ?b))) (\<lambda>a. Inr (v @ [a]))"
  have len: "length ?b = length as * ADDRESS_LENGTH"
    by (induction as) (auto simp: addresses_encode_def)
  have "fold_r ?step [0..<n] [] = Inr (take n as)" if "n \<le> length as" for n
    using that
  proof (induction n)
    case (Suc n)
    then have "take ADDRESS_LENGTH (drop (n * ADDRESS_LENGTH) ?b) = address_encode (as ! n)"
      unfolding addresses_encode_def by (intro slice_of_concat) auto
    with Suc show ?case by (simp add: fold_r_append take_Suc_conv_app_nth)
  qed simp
  from this [of "length as"] show "\<exists>b. Inr ?b = Inr b \<and> addresses_decode b = Inr as"
    using len by (simp add: addresses_decode_def ADDRESS_LENGTH_def)
qed

section \<open>Properties of the tables\<close>

text \<open>
  C33.  Ten kinds of keys and values of the tables are given back by decoding, and encoding them
  never panics on the capacity of its buffer: header keys (number and hash), bitmap keys of
  accounts and of slots, storage change keys, storage changes, account changes, storage entries,
  lists of senders, call traces, and block numbers without leading zeros.
\<close>

theorem table_objects_roundtrip:
  "(\<exists>b. pair_encode u64_encode h256_encode hk = Inr b \<and> pair_decode 8 u64_decode KECCAK_LENGTH h256_decode b = Inr hk) \<and>
   bitmap_address_decode (bitmap_address_encode ba) = Inr ba \<and>
   bitmap_slot_decode (bitmap_slot_encode bs) = Inr bs \<and>
   storage_change_key_decode (storage_change_key_encode sk) = Inr sk \<and>
   (\<exists>b. storage_change_encode sc = Inr b \<and> storage_change_decode b = Inr sc) \<and>
   (\<exists>b. account_change_encode ac = Inr b \<and> account_change_decode b = Inr ac) \<and>
   (\<exists>b. location_value_encode lv = Inr b \<and> location_value_decode b = Inr lv) \<and>
   addresses_decode (addresses_encode senders) = Inr senders \<and>
   call_trace_set_entry_decode (call_trace_set_entry_encode ct) = Inr ct \<and>
   (\<exists>b. truncate_start_encode 8 u64_encode n = Inr b \<and> truncate_start_decode 8 u64_decode b = Inr n)"
  using header_key.pair.enc_dec [of hk] storage_change.enc_dec [of sc] account_change.enc_dec [of ac]
    location_value.enc_dec [of lv] address_list.enc_dec [of senders] call_trace_set.enc_dec [of ct] truncated.enc_dec [of n]
  by (simp add: bitmap_address.dec_enc bitmap_slot.dec_enc storage_change_key.dec_enc)

text \<open>C32. The order of the store is the order of the keys: header keys are ordered by number and then
  hash, and seeking by a block number lands on the first entry of that block or a later one;
  bitmap keys by address, slot and block; storage changes by block and address.\<close>

theorem table_key_order:
  "(\<exists>k k'. pair_encode u64_encode h256_encode (n, h) = Inr k \<and> pair_encode u64_encode h256_encode (m, g) = Inr k' \<and>
      (bytes_less k k' \<longleftrightarrow> n < m \<or> n = m \<and> h < g) \<and> (bytes_less k' (u64_encode n) \<longleftrightarrow> m < n)) \<and>
   (bytes_less (bitmap_address_encode \<lparr> bk_inner = a, bk_block_number = n \<rparr>)
      (bitmap_address_encode \<lparr> bk_inner = b, bk_block_number = m \<rparr>) \<longleftrightarrow> a < b \<or> a = b \<and> n < m) \<and>
   (bytes_less (bitmap_slot_encode \<lparr> bk_inner = (a, h), bk_block_number = n \<rparr>)
      (bitmap_slot_encode \<lparr> bk_inner = (b, g), bk_block_number = m \<rparr>) \<longleftrightarrow> a < b \<or> a = b \<and> (h < g \<or> h = g \<and> n < m)) \<and>
   (bytes_less (storage_change_key_encode \<lparr> sk_block_number = n, sk_address = a \<rparr>)
      (storage_change_key_encode \<lparr> sk_block_number = m, sk_address = b \<rparr>) \<longleftrightarrow> n < m \<or> n = m \<and> a < b)"
  using u64.prefixed_less [of m "h256_encode g" n "[]"]
  by (simp add: header_key.pair_encode_eq header_key.pair_less bitmap_address_encode_def bitmap_slot_encode_def
      storage_change_key_encode_def u64.prefixed_less addr.prefixed_less h256.prefixed_less u64.enc_less addr.enc_less h256.enc_less)

end
