(* ===== verification/Bitmapdb.thy ===== *)
theory Bitmapdb
  imports
    Table_Codecs
begin

text \<open>
  Sharded bitmaps (\<^verbatim>\<open>src/src/bitmapdb/mod.rs\<close>): a bitmap of block numbers is cut into chunks of
  bounded size, each stored under the key and its greatest element, the last one under the
  greatest block number; \<open>get\<close> joins the chunks that may meet a range of blocks.

  The bitmaps are those of the croaring crate: a record of operations with the laws of the
  interface \<open>treemap\<close>.  The table is the list of its entries in the order of the store.
\<close>

section \<open>Definitions\<close>

record 'b treemap_ops =
  tm_create :: 'b
  tm_add :: "u64 \<Rightarrow> 'b \<Rightarrow> 'b"
  tm_remove :: "u64 \<Rightarrow> 'b \<Rightarrow> 'b"
  tm_or :: "'b \<Rightarrow> 'b \<Rightarrow> 'b"
  tm_iter :: "'b \<Rightarrow> u64 list"
  tm_is_empty :: "'b \<Rightarrow> bool"
  tm_maximum :: "'b \<Rightarrow> u64 option"
  tm_size :: "'b \<Rightarrow> nat"

definition CHUNK_LIMIT :: nat where "CHUNK_LIMIT = 1950"

record 'b chunks =
  ch_bm :: 'b
  ch_size_limit :: nat

definition chunks_new :: "'b \<Rightarrow> nat \<Rightarrow> 'b chunks" where
  "chunks_new bm size_limit = \<lparr> ch_bm = bm, ch_size_limit = size_limit \<rparr>"

text \<open>The loop that fills a chunk: it ends with the first element that did not fit.\<close>

fun fill_chunk :: "'b treemap_ops \<Rightarrow> nat \<Rightarrow> 'b \<Rightarrow> u64 list \<Rightarrow> 'b \<times> u64 option" where
  "fill_chunk T limit v [] = (v, None)"
| "fill_chunk T limit v (n # ns) =
     (let w = tm_add T n v in
      if tm_size T w > limit then (tm_remove T n w, Some n) else fill_chunk T limit w ns)"

definition chunks_next :: "'b treemap_ops \<Rightarrow> 'b chunks \<Rightarrow> ('b \<times> 'b chunks) option" where
  "chunks_next T c =
     (if tm_is_empty T (ch_bm c) then None
      else if tm_size T (ch_bm c) \<le> ch_size_limit c then Some (ch_bm c, c\<lparr>ch_bm := tm_create T\<rparr>)
      else (case fill_chunk T (ch_size_limit c) (tm_create T) (tm_iter T (ch_bm c)) of
          (v, Some min_n) \<Rightarrow>
            Some (v, c\<lparr>ch_bm := fold (tm_remove T) (takeWhile (\<lambda>n. n < min_n) (tm_iter T (ch_bm c))) (ch_bm c)\<rparr>)
        | (v, None) \<Rightarrow> Some (ch_bm c, c\<lparr>ch_bm := tm_create T\<rparr>)))"

text \<open>Running the iterator to its end; \<open>None\<close> is an iterator that does not end.\<close>

partial_function (option) all_chunks :: "'b treemap_ops \<Rightarrow> 'b chunks \<Rightarrow> 'b list option" where
  "all_chunks T c = (case chunks_next T c of
       None \<Rightarrow> Some []
     | Some r \<Rightarrow> Option.bind (all_chunks T (snd r)) (\<lambda>cs. Some (fst r # cs)))"

fun with_keys :: "'b treemap_ops \<Rightarrow> 'b list \<Rightarrow> table_error + (block_number \<times> 'b) list" where
  "with_keys T [] = Inr []"
| "with_keys T (c # cs) =
     bind_r (if cs = [] then Inr (- 1) else ok_or Table_Panic (tm_maximum T c)) (\<lambda>n.
     bind_r (with_keys T cs) (\<lambda>r. Inr ((n, c) # r)))"

text \<open>\<open>walk\<close> from a seek key, as far as the inner key stays the same.\<close>

definition bitmap_key_less :: "'k::linorder \<times> block_number \<Rightarrow> 'k \<times> block_number \<Rightarrow> bool" where
  "bitmap_key_less a b \<longleftrightarrow> fst a < fst b \<or> fst a = fst b \<and> snd a < snd b"

type_synonym ('k, 'b) bitmap_table = "(('k \<times> block_number) \<times> 'b) list"

fun join_chunks :: "'b treemap_ops \<Rightarrow> block_number \<Rightarrow> 'b option \<Rightarrow> (('k \<times> block_number) \<times> 'b) list \<Rightarrow> 'b option" where
  "join_chunks T to out [] = out"
| "join_chunks T to out (e # es) =
     (let out = Some (case out of None \<Rightarrow> snd e | Some o' \<Rightarrow> tm_or T o' (snd e)) in
      if snd (fst e) \<ge> to then out else join_chunks T to out es)"

definition bitmap_get ::
    "'b treemap_ops \<Rightarrow> ('k::linorder, 'b) bitmap_table \<Rightarrow> 'k \<Rightarrow> block_number \<Rightarrow> block_number \<Rightarrow> 'b" where
  "bitmap_get T table key from to =
     (case join_chunks T to None (takeWhile (\<lambda>e. fst (fst e) = key)
         (dropWhile (\<lambda>e. bitmap_key_less (fst e) (key, from)) table)) of
       None \<Rightarrow> tm_create T | Some out \<Rightarrow> out)"

section \<open>The bitmaps\<close>

lemma set_takeWhile_less:
  "sorted_wrt (<) (ns :: 'a::linorder list) \<Longrightarrow> set (takeWhile (\<lambda>x. x < m) ns) = {x \<in> set ns. x < m}"
  by (induction ns) force+

lemma sorted_last_greatest:
  "sorted_wrt (<) (ns :: 'a::linorder list) \<Longrightarrow> x \<in> set ns \<Longrightarrow> x \<le> last ns"
  by (induction ns rule: rev_induct) (auto simp: sorted_wrt_append)

text \<open>In a sorted table the walk over one key from a block on is the tail of its entries.\<close>

lemma walk_key:
  assumes "sorted_wrt (\<lambda>e e'. bitmap_key_less (fst e) (fst e')) (t :: ('k::linorder, 'b) bitmap_table)"
  shows "takeWhile (\<lambda>e. fst (fst e) = key) (dropWhile (\<lambda>e. bitmap_key_less (fst e) (key, from)) t) =
    dropWhile (\<lambda>e. snd (fst e) < from) (filter (\<lambda>e. fst (fst e) = key) t)"
  using assms
proof (induction t)
  case (Cons e t)
  have tail: "takeWhile (\<lambda>e. fst (fst e) = key) t' = filter (\<lambda>e. fst (fst e) = key) t'"
    if "sorted_wrt (\<lambda>e e'. bitmap_key_less (fst e) (fst e')) t'" "\<forall>e \<in> set t'. key \<le> fst (fst e)" for t' :: "('k, 'b) bitmap_table"
    using that by (induction t') (auto simp: bitmap_key_less_def filter_empty_conv eq_commute [of "[]"])
  have after: "\<forall>e' \<in> set t. fst (fst e) \<le> fst (fst e')" using Cons.prems by (auto simp: bitmap_key_less_def)
  consider "bitmap_key_less (fst e) (key, from)" | "fst (fst e) = key" "from \<le> snd (fst e)" | "key < fst (fst e)"
    by (auto simp: bitmap_key_less_def not_less) force
  then show ?case
  proof cases
    case 1
    with Cons show ?thesis by (auto simp: bitmap_key_less_def)
  next
    case 2
    then show ?thesis using tail [of t] Cons.prems after by (auto simp: bitmap_key_less_def not_less)
  next
    case 3
    then have "filter (\<lambda>e. fst (fst e) = key) t = []" using after by (auto simp: filter_empty_conv)
    with 3 show ?thesis by (auto simp: bitmap_key_less_def)
  qed
qed simp

locale treemap =
  fixes T :: "'b treemap_ops"
  assumes iter_sorted: "sorted_wrt (<) (tm_iter T b)"
    and iter_create: "tm_iter T (tm_create T) = []"
    and iter_add: "set (tm_iter T (tm_add T n b)) = insert n (set (tm_iter T b))"
    and iter_remove: "set (tm_iter T (tm_remove T n b)) = set (tm_iter T b) - {n}"
    and iter_or: "set (tm_iter T (tm_or T b c)) = set (tm_iter T b) \<union> set (tm_iter T c)"
    and is_empty: "tm_is_empty T b \<longleftrightarrow> tm_iter T b = []"
    and maximum: "tm_maximum T b = (if tm_iter T b = [] then None else Some (last (tm_iter T b)))"
begin

abbreviation elems :: "'b \<Rightarrow> u64 set" where
  "elems b \<equiv> set (tm_iter T b)"

lemma fill_chunk_splits:
  assumes "fill_chunk T limit v ns = (w, Some m)" and "sorted_wrt (<) ns" and "elems v \<inter> set ns = {}"
  shows "m \<in> set ns \<and> elems w = elems v \<union> {n \<in> set ns. n < m}"
  using assms
proof (induction ns arbitrary: v)
  case (Cons n ns)
  show ?case
  proof (cases "tm_size T (tm_add T n v) > limit")
    case True
    with Cons.prems show ?thesis by (fastforce simp: iter_add iter_remove Let_def)
  next
    case False
    with Cons.prems have "fill_chunk T limit (tm_add T n v) ns = (w, Some m)" by (simp add: Let_def)
    from Cons.IH [OF this] Cons.prems have "m \<in> set ns" "elems w = insert n (elems v) \<union> {n \<in> set ns. n < m}"
      by (auto simp: iter_add)
    with Cons.prems(2) show ?thesis by auto
  qed
qed simp

lemma fill_chunk_first:
  assumes "fill_chunk T limit (tm_create T) (n # ns) = (w, Some m)" and "tm_size T (tm_add T n (tm_create T)) \<le> limit"
    and "sorted_wrt (<) (n # ns)"
  shows "n < m"
proof -
  have "fill_chunk T limit (tm_add T n (tm_create T)) ns = (w, Some m)"
    using assms(1,2) by (simp add: Let_def)
  from fill_chunk_splits [OF this] assms(3) show ?thesis by (auto simp: iter_add iter_create)
qed

lemma elems_fold_remove: "elems (fold (tm_remove T) ns b) = elems b - set ns"
  by (induction ns arbitrary: b) (auto simp: iter_remove)

text \<open>A chunk takes a non-empty initial part of the bitmap, provided that one element fits.\<close>

lemma chunks_next_splits:
  assumes "chunks_next T c = Some (v, c')" and fits: "\<And>n. tm_size T (tm_add T n (tm_create T)) \<le> ch_size_limit c"
  shows "elems v \<noteq> {} \<and> elems v \<union> elems (ch_bm c') = elems (ch_bm c) \<and> ch_size_limit c' = ch_size_limit c \<and>
    (\<forall>x \<in> elems v. \<forall>y \<in> elems (ch_bm c'). x < y)"
proof (cases "tm_size T (ch_bm c) \<le> ch_size_limit c")
  case True
  with assms(1) show ?thesis by (auto simp: chunks_next_def is_empty iter_create split: if_splits)
next
  case False
  let ?ns = "tm_iter T (ch_bm c)"
  from assms(1) obtain n ns where ns: "?ns = n # ns"
    by (cases ?ns) (auto simp: chunks_next_def is_empty)
  obtain w r where fill: "fill_chunk T (ch_size_limit c) (tm_create T) ?ns = (w, r)" by (cases "fill_chunk T (ch_size_limit c) (tm_create T) ?ns")
  show ?thesis
  proof (cases r)
    case None
    with assms(1) False fill ns show ?thesis by (auto simp: chunks_next_def is_empty iter_create)
  next
    case (Some m)
    have sorted: "sorted_wrt (<) ?ns" by (rule iter_sorted)
    have w: "m \<in> set ?ns" "elems w = {x \<in> set ?ns. x < m}"
      using fill_chunk_splits [OF fill [unfolded Some] sorted] by (auto simp: iter_create)
    have "n < m" using fill_chunk_first [OF fill [unfolded Some ns] fits sorted [unfolded ns]] .
    have v: "v = w" and c': "c' = c\<lparr>ch_bm := fold (tm_remove T) (takeWhile (\<lambda>n. n < m) ?ns) (ch_bm c)\<rparr>"
      using assms(1) False fill Some ns by (simp_all add: chunks_next_def is_empty)
    have rest: "elems (ch_bm c') = {x \<in> elems (ch_bm c). \<not> x < m}"
      using elems_fold_remove [of "takeWhile (\<lambda>n. n < m) ?ns" "ch_bm c"] unfolding set_takeWhile_less [OF sorted] c'
      by auto
    have "n \<in> elems w" using w(2) ns \<open>n < m\<close> by simp
    moreover have "elems w \<union> {x \<in> elems (ch_bm c). \<not> x < m} = elems (ch_bm c)" unfolding w(2) by blast
    moreover have "\<forall>x \<in> elems w. \<forall>y \<in> {x \<in> elems (ch_bm c). \<not> x < m}. x < y" unfolding w(2) by auto
    ultimately show ?thesis unfolding v rest by (auto simp: c')
  qed
qed

text \<open>The iterator ends: its chunks are non-empty, ascending, and together the bitmap.\<close>

lemma all_chunks_split:
  assumes "\<And>n. tm_size T (tm_add T n (tm_create T)) \<le> ch_size_limit c"
  shows "\<exists>cs. all_chunks T c = Some cs \<and> (\<forall>v \<in> set cs. elems v \<noteq> {}) \<and> (\<Union>v \<in> set cs. elems v) = elems (ch_bm c) \<and>
    sorted_wrt (\<lambda>v w. \<forall>x \<in> elems v. \<forall>y \<in> elems w. x < y) cs"
  using assms
proof (induction "card (elems (ch_bm c))" arbitrary: c rule: less_induct)
  case less
  show ?case
  proof (cases "chunks_next T c")
    case None
    then have "elems (ch_bm c) = {}" by (auto simp: chunks_next_def is_empty split: if_splits prod.splits option.splits)
    with None show ?thesis by (simp add: all_chunks.simps [of T c])
  next
    case (Some r)
    obtain v c' where r: "r = (v, c')" by (cases r)
    have ne: "elems v \<noteq> {}" and un: "elems (ch_bm c) = elems v \<union> elems (ch_bm c')"
      and lim: "ch_size_limit c' = ch_size_limit c" and below: "\<forall>x \<in> elems v. \<forall>y \<in> elems (ch_bm c'). x < y"
      using chunks_next_splits [OF Some [unfolded r] less.prems] by simp_all
    from ne obtain x where "x \<in> elems v" by (meson ex_in_conv)
    moreover from this below have "x \<notin> elems (ch_bm c')" by auto
    ultimately have "elems (ch_bm c') \<subset> elems (ch_bm c)" unfolding un by auto
    then have "card (elems (ch_bm c')) < card (elems (ch_bm c))" by (intro psubset_card_mono) simp_all
    moreover have "\<And>n. tm_size T (tm_add T n (tm_create T)) \<le> ch_size_limit c'" using less.prems lim by simp
    ultimately obtain cs where cs: "all_chunks T c' = Some cs"
      "\<forall>v \<in> set cs. elems v \<noteq> {}" "(\<Union>v \<in> set cs. elems v) = elems (ch_bm c')"
      "sorted_wrt (\<lambda>v w. \<forall>x \<in> elems v. \<forall>y \<in> elems w. x < y) cs"
      using less.hyps [of c'] by blast
    have "all_chunks T c = Some (v # cs)" using Some r cs(1) by (simp add: all_chunks.simps [of T c])
    moreover have "\<forall>w \<in> set cs. \<forall>x \<in> elems v. \<forall>y \<in> elems w. x < y" using cs(3) below by auto
    ultimately show ?thesis using cs(2-4) ne un by simp
  qed
qed

text \<open>The stored chunks: no element is above the key of its chunk, and all elements of later
  chunks are.\<close>

definition shards :: "(block_number \<times> 'b) list \<Rightarrow> bool" where
  "shards es \<longleftrightarrow> (\<forall>e \<in> set es. \<forall>x \<in> elems (snd e). x \<le> fst e) \<and>
     sorted_wrt (\<lambda>e e'. \<forall>x \<in> elems (snd e'). fst e < x) es"

lemma shards_tail: "shards (xs @ ys) \<Longrightarrow> shards ys"
  by (auto simp: shards_def sorted_wrt_append)

lemma with_keys_shards:
  assumes "\<forall>v \<in> set cs. elems v \<noteq> {}" and "sorted_wrt (\<lambda>v w. \<forall>x \<in> elems v. \<forall>y \<in> elems w. x < y) cs"
  shows "\<exists>es. with_keys T cs = Inr es \<and> map snd es = cs \<and> shards es"
  using assms
proof (induction cs)
  case Nil
  then show ?case by (simp add: shards_def)
next
  case (Cons c cs)
  then obtain es where es: "with_keys T cs = Inr es" "map snd es = cs" "shards es" by auto
  have c: "tm_iter T c \<noteq> []" "tm_maximum T c = Some (last (tm_iter T c))" using Cons.prems(1) by (auto simp: maximum)
  then have max: "last (tm_iter T c) \<in> elems c" "\<forall>x \<in> elems c. x \<le> last (tm_iter T c)"
    using sorted_last_greatest [OF iter_sorted] by simp_all
  show ?case
  proof (cases "cs = []")
    case True
    with es show ?thesis by (auto simp: shards_def)
  next
    case False
    with es c max Cons.prems(2) show ?thesis by (auto simp: shards_def)
  qed
qed

lemma join_chunks_Some: "join_chunks T to (Some o') es \<noteq> None"
  by (induction es arbitrary: o') (auto simp: Let_def)

lemma join_chunks_elems:
  assumes "shards (map (\<lambda>e. (snd (fst e), snd e)) es)" and "join_chunks T to out es = Some r" and "n \<le> to"
  shows "n \<in> elems r \<longleftrightarrow> (\<exists>o'. out = Some o' \<and> n \<in> elems o') \<or> (\<exists>e \<in> set es. n \<in> elems (snd e))"
  using assms
proof (induction es arbitrary: out)
  case Nil
  then show ?case by simp
next
  case (Cons e es)
  let ?out = "case out of None \<Rightarrow> snd e | Some o' \<Rightarrow> tm_or T o' (snd e)"
  have out: "n \<in> elems ?out \<longleftrightarrow> (\<exists>o'. out = Some o' \<and> n \<in> elems o') \<or> n \<in> elems (snd e)"
    by (auto simp: iter_or split: option.splits)
  show ?case
  proof (cases "snd (fst e) \<ge> to")
    case True
    then have "n \<notin> elems (snd e')" if "e' \<in> set es" for e'
      using Cons.prems(1,3) that by (force simp: shards_def)
    with True Cons.prems(2) out show ?thesis by (auto simp: Let_def)
  next
    case False
    with Cons.prems have "shards (map (\<lambda>e. (snd (fst e), snd e)) es)" "join_chunks T to (Some ?out) es = Some r"
      by (auto simp: shards_def Let_def)
    from Cons.IH [OF this Cons.prems(3)] out show ?thesis by auto
  qed
qed

text \<open>Reading a range of a bitmap that was stored in chunks.\<close>

lemma bitmap_get_range:
  assumes sorted: "sorted_wrt (\<lambda>e e'. bitmap_key_less (fst e) (fst e')) table"
    and entries: "filter (\<lambda>e. fst (fst e) = key) table = map (\<lambda>e. ((key, fst e), snd e)) es"
    and es: "shards es" and n: "from \<le> n" "n \<le> to"
  shows "n \<in> elems (bitmap_get T table key from to) \<longleftrightarrow> (\<exists>e \<in> set es. n \<in> elems (snd e))"
proof -
  let ?es = "dropWhile (\<lambda>e. fst e < from) es"
  let ?w = "map (\<lambda>e. ((key, fst e), snd e)) ?es"
  have walk: "takeWhile (\<lambda>e. fst (fst e) = key) (dropWhile (\<lambda>e. bitmap_key_less (fst e) (key, from)) table) = ?w"
    unfolding walk_key [OF sorted] entries by (simp add: dropWhile_map comp_def)
  have split: "takeWhile (\<lambda>e. fst e < from) es @ ?es = es" by simp
  have "shards (takeWhile (\<lambda>e. fst e < from) es @ ?es)" using es by simp
  then have sh: "shards ?es" by (rule shards_tail)
  have "n \<notin> elems (snd e)" if "e \<in> set (takeWhile (\<lambda>e. fst e < from) es)" for e
  proof -
    from that have "fst e < from" "e \<in> set es" by (auto dest: set_takeWhileD)
    with es n(1) show ?thesis by (force simp: shards_def)
  qed
  then have all: "(\<exists>e \<in> set es. n \<in> elems (snd e)) \<longleftrightarrow> (\<exists>e \<in> set ?es. n \<in> elems (snd e))"
    by (metis Un_iff set_append split)
  show ?thesis
  proof (cases "join_chunks T to None ?w")
    case None
    moreover have "?es = []" using None by (cases ?es) (simp_all add: Let_def join_chunks_Some split: if_splits)
    ultimately show ?thesis unfolding bitmap_get_def walk all by (simp only: None option.case iter_create) simp
  next
    case (Some r)
    have "shards (map (\<lambda>e. (snd (fst e), snd e)) ?w)" using sh by (simp add: comp_def)
    from join_chunks_elems [OF this Some n(2)] show ?thesis unfolding bitmap_get_def walk all using Some by auto
  qed
qed

end

text \<open>Sets of numbers are bitmaps; an element takes eight bytes.\<close>

definition set_bitmap :: "u64 set treemap_ops" where
  "set_bitmap = \<lparr> tm_create = {}, tm_add = insert, tm_remove = (\<lambda>n b. b - {n}), tm_or = (\<union>),
     tm_iter = sorted_list_of_set, tm_is_empty = (\<lambda>b. b = {}),
     tm_maximum = (\<lambda>b. if b = {} then None else Some (Max b)), tm_size = (\<lambda>b. 8 + 8 * card b) \<rparr>"

interpretation set_treemap: treemap set_bitmap
proof
  fix b c :: "u64 set" and n :: u64
  show "sorted_wrt (<) (tm_iter set_bitmap b)"
    by (simp add: set_bitmap_def strict_sorted_list_of_set)
  show "tm_maximum set_bitmap b =
      (if tm_iter set_bitmap b = [] then None else Some (last (tm_iter set_bitmap b)))"
  proof (cases "b = {}")
    case False
    then have "last (sorted_list_of_set b) \<in> b"
      using last_in_set [of "sorted_list_of_set b"] by simp
    then have "Max b = last (sorted_list_of_set b)"
      using sorted_last_greatest [OF strict_sorted_list_of_set, of _ b] by (intro Max_eqI) simp_all
    with False show ?thesis by (simp add: set_bitmap_def)
  qed (simp add: set_bitmap_def)
qed (auto simp: set_bitmap_def set_insort_key)

section \<open>Reading back a stored bitmap\<close>

text \<open>C25. Sharding is lossless.  If a chunk of one element fits the limit, the iterator over the chunks of
  a bitmap ends, \<open>with_keys\<close> finds a key for each, and whatever else a sorted table
  holds, \<open>get\<close> over the stored chunks returns a bitmap that agrees with the original one on every
  block of the range.\<close>

theorem bitmap_shards_roundtrip:
  assumes "treemap T" and "\<And>n. tm_size T (tm_add T n (tm_create T)) \<le> limit"
  shows "\<exists>cs es. all_chunks T (chunks_new bm limit) = Some cs \<and> with_keys T cs = Inr es \<and>
    (\<forall>table key from to n.
       sorted_wrt (\<lambda>e e'. bitmap_key_less (fst e) (fst e')) table \<and>
       filter (\<lambda>e. fst (fst e) = key) table = map (\<lambda>e. ((key, fst e), snd e)) es \<and> from \<le> n \<and> n \<le> to \<longrightarrow>
       (n \<in> set (tm_iter T (bitmap_get T table (key :: 'k::linorder) from to)) \<longleftrightarrow> n \<in> set (tm_iter T bm)))"
proof -
  from treemap.all_chunks_split [OF assms(1), of "chunks_new bm limit"] assms(2) obtain cs where
    cs: "all_chunks T (chunks_new bm limit) = Some cs" "\<forall>v \<in> set cs. set (tm_iter T v) \<noteq> {}"
      "(\<Union>v \<in> set cs. set (tm_iter T v)) = set (tm_iter T bm)"
      "sorted_wrt (\<lambda>v w. \<forall>x \<in> set (tm_iter T v). \<forall>y \<in> set (tm_iter T w). x < y) cs"
    by (auto simp: chunks_new_def)
  from treemap.with_keys_shards [OF assms(1) cs(2,4)] obtain es where
    es: "with_keys T cs = Inr es" "map snd es = cs" "treemap.shards T es" by blast
  have "(\<exists>e \<in> set es. n \<in> set (tm_iter T (snd e))) \<longleftrightarrow> n \<in> set (tm_iter T bm)" for n
    unfolding cs(3) [symmetric] es(2) [symmetric] by simp
  with cs(1) es(1) treemap.bitmap_get_range [OF assms(1) _ _ es(3)] show ?thesis by blast
qed

theorem bitmap_shards_roundtrip_witness:
  "\<exists>cs es. all_chunks set_bitmap (chunks_new {3, 5, 900} 24) = Some cs \<and> with_keys set_bitmap cs = Inr es"
proof -
  have "tm_size set_bitmap (tm_add set_bitmap n (tm_create set_bitmap)) \<le> 24" for n
    by (simp add: set_bitmap_def)
  from bitmap_shards_roundtrip [OF set_treemap.treemap_axioms this, of "{3, 5, 900}", where ?'k = nat]
  show ?thesis by blast
qed

end
