(* ===== verification/Precompiled.thy ===== *)
theory Precompiled
  imports
    Account_Codec Chain_Spec "HOL-Library.Log_Nat"
begin

text \<open>
  The precompiled contracts (\<^verbatim>\<open>src/src/execution/precompiled.rs\<close>) and the compression function of
  BLAKE2b (\<^verbatim>\<open>src/src/crypto/blake2.rs\<close>).  Hash functions, the recovery of public keys and the
  curve of the crate \<open>substrate_bn\<close> are parameters; values of \<open>BigUint\<close> are natural numbers.
  A gas function returns \<open>None\<close> for an amount out of range; a contract returns \<open>Some\<close> output or fails,
  and an index out of range is the error \<open>Contract_Panic\<close>.
\<close>

datatype contract_panic = Contract_Panic

type_synonym gas_function = "bytes \<Rightarrow> revision \<Rightarrow> u64 option"
type_synonym run_function = "bytes \<Rightarrow> contract_panic + bytes option"

section \<open>Hashes, identity, signatures\<close>

definition ecrecover_gas :: gas_function where
  "ecrecover_gas input revision = Some 3000"

text \<open>\<open>recover\<close> gives the uncompressed public key without its first byte, if there is one.\<close>

definition ecrecover_run_inner ::
    "(bytes \<Rightarrow> bytes \<Rightarrow> bool \<Rightarrow> bytes option) \<Rightarrow> (bytes \<Rightarrow> h256) \<Rightarrow> bytes \<Rightarrow> bytes option" where
  "ecrecover_run_inner recover keccak input =
     (let input = (if length input < 128 then resize 128 0 input else input);
          v = of_be (take 32 (drop 32 input)) :: u256;
          r = of_be (take 32 (drop 64 input)) :: h256;
          s = of_be (take 32 (drop 96 input)) :: h256
      in if \<not> is_valid_signature r s then None
         else if v = 28 \<or> v = 27 then
           Option.bind (recover (take 32 input) (to_be 32 r @ to_be 32 s) (v = 28)) (\<lambda>public.
             Some (replicate 12 0 @ drop 12 (to_be 32 (keccak public))))
         else None)"

definition ecrecover_run :: "(bytes \<Rightarrow> bytes \<Rightarrow> bool \<Rightarrow> bytes option) \<Rightarrow> (bytes \<Rightarrow> h256) \<Rightarrow> run_function" where
  "ecrecover_run recover keccak input =
     Inr (Some (case ecrecover_run_inner recover keccak input of None \<Rightarrow> [] | Some out \<Rightarrow> out))"

definition sha256_gas :: gas_function where
  "sha256_gas input revision = Some (60 + 12 * ((of_nat (length input) + 31) div 32))"

definition sha256_run :: "(bytes \<Rightarrow> bytes) \<Rightarrow> run_function" where
  "sha256_run sha256 input = Inr (Some (sha256 input))"

definition ripemd160_gas :: gas_function where
  "ripemd160_gas input revision = Some (600 + 120 * ((of_nat (length input) + 31) div 32))"

definition ripemd160_run :: "(bytes \<Rightarrow> bytes) \<Rightarrow> run_function" where
  "ripemd160_run ripemd160 input = Inr (Some (replicate 12 0 @ ripemd160 input))"

definition id_gas :: gas_function where
  "id_gas input revision = Some (15 + 3 * ((of_nat (length input) + 31) div 32))"

definition id_run :: run_function where
  "id_run input = Inr (Some input)"

section \<open>Modular exponentiation\<close>

definition mult_complexity_eip198 :: "u256 \<Rightarrow> u256" where
  "mult_complexity_eip198 x =
     (let x_squared = x * x in
      if x \<le> 64 then x_squared
      else if x \<le> 1024 then drop_bit 2 x_squared + 96 * x - 3072
      else drop_bit 4 x_squared + 480 * x - 199680)"

definition mult_complexity_eip2565 :: "u256 \<Rightarrow> u256" where
  "mult_complexity_eip2565 max_length = (let words = drop_bit 3 (max_length + 7) in words * words)"

definition try_u64 :: "u256 \<Rightarrow> u64 option" where
  "try_u64 x = (if x < 0x10000000000000000 then Some (ucast x) else None)"

definition leading_zeros :: "u256 \<Rightarrow> nat" where
  "leading_zeros w = length (takeWhile (\<lambda>i. \<not> bit w i) (rev [0..<256]))"

definition expmod_exp_head :: "bytes \<Rightarrow> nat \<Rightarrow> nat \<Rightarrow> u256" where
  "expmod_exp_head input base_len exp_len =
     (if length input > base_len then
        (let e = right_pad (take (min (base_len + 32) (length input) - base_len) (drop base_len input)) 32;
             e = (if exp_len < 32 then left_pad (take exp_len e) 32 else e)
         in of_be (take 32 e))
      else 0)"

definition expmod_gas :: gas_function where
  "expmod_gas input revision =
     (let min_gas = (if revision < Berlin then 0 else 200);
          input = right_pad input 96;
          base_len256 = of_be (take 32 input) :: u256;
          exp_len256 = of_be (take 32 (drop 32 input)) :: u256;
          mod_len256 = of_be (take 32 (drop 64 input)) :: u256
      in if base_len256 = 0 \<and> mod_len256 = 0 then Some min_gas
         else Option.bind (try_u64 base_len256) (\<lambda>base_len.
              Option.bind (try_u64 exp_len256) (\<lambda>exp_len.
              Option.bind (try_u64 mod_len256) (\<lambda>_.
                let exp_head = expmod_exp_head (drop 96 input) (unat base_len) (unat exp_len);
                    bit_len = 256 - leading_zeros exp_head;
                    adjusted = (if exp_len > 32 then ucast (8 * (exp_len - 32)) else 0) :: u256;
                    adjusted = (if bit_len > 1 then adjusted + of_nat (bit_len - 1) else adjusted);
                    adjusted = (if adjusted = 0 then 1 else adjusted);
                    max_length = max mod_len256 base_len256;
                    gas = (if revision < Berlin
                           then mult_complexity_eip198 max_length * adjusted div ucast G_QUAD_DIVISOR_BYZANTIUM
                           else mult_complexity_eip2565 max_length * adjusted div ucast G_QUAD_DIVISOR_BERLIN)
                in map_option (max min_gas) (try_u64 gas)))))"

text \<open>\<open>BigUint::to_bytes_be\<close>: no leading zero, and one byte for zero.\<close>

fun biguint_to_bytes_be :: "nat \<Rightarrow> bytes" where
  "biguint_to_bytes_be n =
     (if n < 256 then [word_of_nat n] else biguint_to_bytes_be (n div 256) @ [word_of_nat (n mod 256)])"

declare biguint_to_bytes_be.simps [simp del]

text \<open>No vector or buffer has more than \<open>isize::MAX\<close> bytes: the padding of the operands and the
  vector of the result panic beyond it.  A smaller allocation is taken to succeed.\<close>

definition MAX_ALLOC :: nat where "MAX_ALLOC = 2 ^ 63 - 1"

definition expmod_run :: run_function where
  "expmod_run input =
     (let input = right_pad input 96;
          base_len = unat (of_be (take 8 (drop 24 input)) :: u64);
          exponent_len = unat (of_be (take 8 (drop 56 input)) :: u64);
          modulus_len = unat (of_be (take 8 (drop 88 input)) :: u64)
      in if modulus_len = 0 then Inr (Some [])
         else (let input = drop 96 input;
                   total = (base_len + exponent_len + modulus_len) mod 2 ^ 64
               in if length input < total \<and> total > MAX_ALLOC then Inl Contract_Panic
                  else (let input = right_pad input total
                        in if base_len + exponent_len + modulus_len > length input \<or> modulus_len > MAX_ALLOC
                           then Inl Contract_Panic
                           else (let base = nat_of_be (take base_len input);
                                     exponent = nat_of_be (take exponent_len (drop base_len input));
                                     modulus = nat_of_be (take modulus_len (drop (base_len + exponent_len) input))
                                 in if modulus = 0 then Inr (Some (replicate modulus_len 0))
                                    else (let b = biguint_to_bytes_be (base ^ exponent mod modulus)
                                          in if length b > modulus_len then Inl Contract_Panic
                                             else Inr (Some (replicate (modulus_len - length b) 0 @ b)))))))"

section \<open>The curve alt_bn128\<close>

record ('fq, 'fr, 'g1, 'g2, 'gt) bn_ops =
  fq_from_slice :: "bytes \<Rightarrow> 'fq option"
  fq_is_zero :: "'fq \<Rightarrow> bool"
  fq_to_big_endian :: "'fq \<Rightarrow> bytes"
  fr_from_slice :: "bytes \<Rightarrow> 'fr option"
  g1_zero :: 'g1
  g1_new :: "'fq \<Rightarrow> 'fq \<Rightarrow> 'g1 option"
  g1_add :: "'g1 \<Rightarrow> 'g1 \<Rightarrow> 'g1"
  g1_mul :: "'g1 \<Rightarrow> 'fr \<Rightarrow> 'g1"
  g1_affine :: "'g1 \<Rightarrow> ('fq \<times> 'fq) option"
  g2_zero :: 'g2
  g2_new :: "'fq \<times> 'fq \<Rightarrow> 'fq \<times> 'fq \<Rightarrow> 'g2 option"
  bn_pairing :: "'g1 \<Rightarrow> 'g2 \<Rightarrow> 'gt"
  gt_one :: 'gt
  gt_mul :: "'gt \<Rightarrow> 'gt \<Rightarrow> 'gt"

text \<open>Reading from the input followed by zeros for ever.\<close>

definition read_exact_padded :: "nat \<Rightarrow> bytes \<Rightarrow> bytes \<times> bytes" where
  "read_exact_padded n input = (resize n 0 input, drop n input)"

definition bn_add_gas :: gas_function where
  "bn_add_gas input revision = Some (if revision \<ge> Istanbul then 150 else 500)"

definition parse_fr_point :: "('fq, 'fr, 'g1, 'g2, 'gt) bn_ops \<Rightarrow> bytes \<Rightarrow> ('fr \<times> bytes) option" where
  "parse_fr_point B r = (case read_exact_padded 32 r of (buf, r) \<Rightarrow> map_option (\<lambda>f. (f, r)) (fr_from_slice B buf))"

definition g1_point :: "('fq, 'fr, 'g1, 'g2, 'gt) bn_ops \<Rightarrow> 'fq \<Rightarrow> 'fq \<Rightarrow> 'g1 option" where
  "g1_point B x y = (if fq_is_zero B x \<and> fq_is_zero B y then Some (g1_zero B) else g1_new B x y)"

definition parse_bn_point :: "('fq, 'fr, 'g1, 'g2, 'gt) bn_ops \<Rightarrow> bytes \<Rightarrow> ('g1 \<times> bytes) option" where
  "parse_bn_point B r =
     (case read_exact_padded 32 r of (buf, r) \<Rightarrow>
      Option.bind (fq_from_slice B buf) (\<lambda>x.
      case read_exact_padded 32 r of (buf, r) \<Rightarrow>
      Option.bind (fq_from_slice B buf) (\<lambda>y. map_option (\<lambda>g. (g, r)) (g1_point B x y))))"

definition bn_output :: "('fq, 'fr, 'g1, 'g2, 'gt) bn_ops \<Rightarrow> 'g1 \<Rightarrow> bytes" where
  "bn_output B g = (case g1_affine B g of
       None \<Rightarrow> replicate 64 0
     | Some (x, y) \<Rightarrow> fq_to_big_endian B x @ fq_to_big_endian B y)"

definition bn_add_run :: "('fq, 'fr, 'g1, 'g2, 'gt) bn_ops \<Rightarrow> run_function" where
  "bn_add_run B input = Inr (
     Option.bind (parse_bn_point B input) (\<lambda>(a, input).
     Option.bind (parse_bn_point B input) (\<lambda>(b, input). Some (bn_output B (g1_add B a b)))))"

definition bn_mul_gas :: gas_function where
  "bn_mul_gas input revision = Some (if revision \<ge> Istanbul then 6000 else 40000)"

definition bn_mul_run :: "('fq, 'fr, 'g1, 'g2, 'gt) bn_ops \<Rightarrow> run_function" where
  "bn_mul_run B input = Inr (
     Option.bind (parse_bn_point B input) (\<lambda>(a, input).
     Option.bind (parse_fr_point B input) (\<lambda>(b, input). Some (bn_output B (g1_mul B a b)))))"

definition SNARKV_STRIDE :: nat where "SNARKV_STRIDE = 192"

definition snarkv_gas :: gas_function where
  "snarkv_gas input revision =
     (let k = of_nat (length input) div of_nat SNARKV_STRIDE :: u64
      in Some (if revision \<ge> Istanbul then 34000 * k + 45000 else 80000 * k + 100000))"

definition snarkv_pair :: "('fq, 'fr, 'g1, 'g2, 'gt) bn_ops \<Rightarrow> bytes \<Rightarrow> 'gt option" where
  "snarkv_pair B p =
     Option.bind (fq_from_slice B (take 32 p)) (\<lambda>a_x.
     Option.bind (fq_from_slice B (take 32 (drop 32 p))) (\<lambda>a_y.
     Option.bind (fq_from_slice B (take 32 (drop 64 p))) (\<lambda>b_a_y.
     Option.bind (fq_from_slice B (take 32 (drop 96 p))) (\<lambda>b_a_x.
     Option.bind (fq_from_slice B (take 32 (drop 128 p))) (\<lambda>b_b_y.
     Option.bind (fq_from_slice B (take 32 (drop 160 p))) (\<lambda>b_b_x.
     Option.bind (if fq_is_zero B b_a_x \<and> fq_is_zero B b_a_y \<and> fq_is_zero B b_b_x \<and> fq_is_zero B b_b_y
                  then Some (g2_zero B) else g2_new B (b_a_x, b_a_y) (b_b_x, b_b_y)) (\<lambda>b.
     Option.bind (g1_point B a_x a_y) (\<lambda>a. Some (bn_pairing B a b)))))))))"

fun snarkv_loop :: "('fq, 'fr, 'g1, 'g2, 'gt) bn_ops \<Rightarrow> bytes \<Rightarrow> nat list \<Rightarrow> 'gt \<Rightarrow> 'gt option" where
  "snarkv_loop B input [] acc = Some acc"
| "snarkv_loop B input (i # is) acc =
     Option.bind (snarkv_pair B (take SNARKV_STRIDE (drop (i * SNARKV_STRIDE) input))) (\<lambda>p.
     snarkv_loop B input is (gt_mul B acc p))"

definition snarkv_run :: "('fq, 'fr, 'g1, 'g2, 'gt) bn_ops \<Rightarrow> run_function" where
  "snarkv_run B input =
     (if length input mod SNARKV_STRIDE \<noteq> 0 then Inr None
      else (let k = length input div SNARKV_STRIDE
            in Inr (map_option (to_be 32)
                 (if input = [] then Some (1 :: u256)
                  else Option.bind (snarkv_loop B input [0..<k] (gt_one B)) (\<lambda>m.
                    Some (if m = gt_one B then 1 else 0))))))"

section \<open>BLAKE2\<close>

definition blake2_SIGMA :: "nat list list" where
  "blake2_SIGMA = [
    [0, 1, 2, 3, 4, 5, 6, 7, 8, 9, 10, 11, 12, 13, 14, 15],
    [14, 10, 4, 8, 9, 15, 13, 6, 1, 12, 0, 2, 11, 7, 5, 3],
    [11, 8, 12, 0, 5, 2, 15, 13, 10, 14, 3, 6, 7, 1, 9, 4],
    [7, 9, 3, 1, 13, 12, 11, 14, 2, 6, 5, 10, 4, 0, 15, 8],
    [9, 0, 5, 7, 2, 4, 10, 15, 14, 1, 11, 12, 6, 8, 3, 13],
    [2, 12, 6, 10, 0, 11, 8, 3, 4, 13, 7, 5, 15, 14, 1, 9],
    [12, 5, 1, 15, 14, 13, 4, 10, 0, 7, 6, 3, 9, 2, 8, 11],
    [13, 11, 7, 14, 12, 1, 3, 9, 5, 0, 15, 4, 8, 6, 2, 10],
    [6, 15, 14, 9, 11, 3, 0, 8, 12, 2, 13, 7, 1, 4, 10, 5],
    [10, 2, 8, 4, 7, 6, 1, 5, 15, 11, 9, 14, 3, 12, 13, 0]]"

definition blake2_IV :: "u64 list" where
  "blake2_IV = [0x6a09e667f3bcc908, 0xbb67ae8584caa73b, 0x3c6ef372fe94f82b, 0xa54ff53a5f1d36f1,
    0x510e527fade682d1, 0x9b05688c2b3e6c1f, 0x1f83d9abfb41bd6b, 0x5be0cd19137e2179]"

text \<open>The G mixing function on the work vector.\<close>

definition blake2_g :: "nat \<Rightarrow> nat \<Rightarrow> nat \<Rightarrow> nat \<Rightarrow> u64 \<Rightarrow> u64 \<Rightarrow> u64 list \<Rightarrow> u64 list" where
  "blake2_g a b c d x y v =
     (let v = v[a := v ! a + v ! b + x];
          v = v[d := word_rotr 32 (v ! d XOR v ! a)];
          v = v[c := v ! c + v ! d];
          v = v[b := word_rotr 24 (v ! b XOR v ! c)];
          v = v[a := v ! a + v ! b + y];
          v = v[d := word_rotr 16 (v ! d XOR v ! a)];
          v = v[c := v ! c + v ! d]
      in v[b := word_rotr 63 (v ! b XOR v ! c)])"

definition blake2_round :: "u64 list \<Rightarrow> nat \<Rightarrow> u64 list \<Rightarrow> u64 list" where
  "blake2_round m i v =
     (let s = blake2_SIGMA ! (i mod 10);
          v = blake2_g 0 4 8 12 (m ! (s ! 0)) (m ! (s ! 1)) v;
          v = blake2_g 1 5 9 13 (m ! (s ! 2)) (m ! (s ! 3)) v;
          v = blake2_g 2 6 10 14 (m ! (s ! 4)) (m ! (s ! 5)) v;
          v = blake2_g 3 7 11 15 (m ! (s ! 6)) (m ! (s ! 7)) v;
          v = blake2_g 0 5 10 15 (m ! (s ! 8)) (m ! (s ! 9)) v;
          v = blake2_g 1 6 11 12 (m ! (s ! 10)) (m ! (s ! 11)) v;
          v = blake2_g 2 7 8 13 (m ! (s ! 12)) (m ! (s ! 13)) v
      in blake2_g 3 4 9 14 (m ! (s ! 14)) (m ! (s ! 15)) v)"

definition blake2_compress :: "u64 list \<Rightarrow> u64 list \<Rightarrow> u64 \<Rightarrow> u64 \<Rightarrow> bool \<Rightarrow> nat \<Rightarrow> u64 list" where
  "blake2_compress h m t0 t1 f rounds =
     (let v = h @ blake2_IV;
          v = v[12 := v ! 12 XOR t0];
          v = v[13 := v ! 13 XOR t1];
          v = (if f then v[14 := NOT (v ! 14)] else v);
          v = fold (blake2_round m) [0..<rounds] v
      in map (\<lambda>i. h ! i XOR (v ! i XOR v ! (i + 8))) [0..<8])"

definition blake2_f_gas :: gas_function where
  "blake2_f_gas input revision =
     (if length input < 4 then Some 0 else Some (ucast (of_be (take 4 input) :: 32 word)))"

definition le_words :: "nat \<Rightarrow> bytes \<Rightarrow> u64 list" where
  "le_words n buf = map (\<lambda>ctr. of_be (rev (take 8 (drop (ctr * 8) buf)))) [0..<n]"

definition blake2_f_run :: run_function where
  "blake2_f_run input =
     (if length input \<noteq> 213 then Inr None
      else (let rounds = unat (of_be (take 4 input) :: 32 word);
                h = le_words 8 (take 64 (drop 4 input));
                m = le_words 16 (take 128 (drop 68 input));
                t_0 = of_be (rev (take 8 (drop 196 input)));
                t_1 = of_be (rev (take 8 (drop 204 input)))
            in if input ! 212 = 1 \<or> input ! 212 = 0 then
                 Inr (Some (concat (map (\<lambda>w. rev (to_be 8 w))
                   (blake2_compress h m t_0 t_1 (input ! 212 = 1) rounds))))
               else Inr None))"

section \<open>The table of contracts\<close>

record ('fq, 'fr, 'g1, 'g2, 'gt) contract_env =
  ce_recover :: "bytes \<Rightarrow> bytes \<Rightarrow> bool \<Rightarrow> bytes option"
  ce_keccak :: "bytes \<Rightarrow> h256"
  ce_sha256 :: "bytes \<Rightarrow> bytes"
  ce_ripemd160 :: "bytes \<Rightarrow> bytes"
  ce_bn :: "('fq, 'fr, 'g1, 'g2, 'gt) bn_ops"

definition CONTRACTS :: "('fq, 'fr, 'g1, 'g2, 'gt) contract_env \<Rightarrow> (gas_function \<times> run_function) list" where
  "CONTRACTS E = [
     (ecrecover_gas, ecrecover_run (ce_recover E) (ce_keccak E)),
     (sha256_gas, sha256_run (ce_sha256 E)),
     (ripemd160_gas, ripemd160_run (ce_ripemd160 E)),
     (id_gas, id_run),
     (expmod_gas, expmod_run),
     (bn_add_gas, bn_add_run (ce_bn E)),
     (bn_mul_gas, bn_mul_run (ce_bn E)),
     (snarkv_gas, snarkv_run (ce_bn E)),
     (blake2_f_gas, blake2_f_run)]"

section \<open>Modular exponentiation is correct\<close>

lemma nat_to_be_0: "nat_to_be n 0 = replicate n 0"
  by (induction n) (simp_all flip: replicate_append_same)

lemma biguint_padded:
  "n < 256 ^ m \<Longrightarrow> 0 < m \<Longrightarrow> length (biguint_to_bytes_be n) \<le> m \<and>
    replicate (m - length (biguint_to_bytes_be n)) 0 @ biguint_to_bytes_be n = nat_to_be m n"
proof (induction n arbitrary: m rule: biguint_to_bytes_be.induct)
  case (1 n)
  obtain k where k: "m = Suc k" using 1(3) by (cases m) auto
  show ?case
  proof (cases "n < 256")
    case True
    then have "biguint_to_bytes_be n = [word_of_nat n]" by (simp add: biguint_to_bytes_be.simps)
    with True k show ?thesis by (simp add: nat_to_be_0)
  next
    case False
    have "n div 256 < 256 ^ k" using 1(2) k by (simp add: less_mult_imp_div_less mult.commute)
    moreover from this False have "0 < k" by (cases k) auto
    ultimately have ih: "length (biguint_to_bytes_be (n div 256)) \<le> k"
      "replicate (k - length (biguint_to_bytes_be (n div 256))) 0 @ biguint_to_bytes_be (n div 256) = nat_to_be k (n div 256)"
      using 1(1) False by auto
    have "biguint_to_bytes_be n = biguint_to_bytes_be (n div 256) @ [word_of_nat (n mod 256)]"
      using False by (simp add: biguint_to_bytes_be.simps [of n])
    with ih k show ?thesis by simp
  qed
qed

text \<open>Reading from a padded input is reading from the input extended by zeros.\<close>

lemma take_drop_right_pad:
  "k + n \<le> m \<Longrightarrow> take n (drop k (right_pad b m)) = resize n 0 (drop k b)"
  by (simp add: pad_shape resize_def min_def) (auto simp: take_replicate drop_replicate min_def)

lemma drop_right_pad: "drop n (right_pad b n) = drop n b"
  by (simp add: pad_shape)

lemma length_right_pad: "n \<le> length (right_pad b n)"
  by (simp add: pad_shape)

lemma unat_of_be_le: "8 * length b \<le> LENGTH('a) \<Longrightarrow> unat (of_be b :: 'a::len word) = nat_of_be b"
proof -
  assume "8 * length b \<le> LENGTH('a)"
  then have "256 ^ length b \<le> (2 :: nat) ^ LENGTH('a)"
    using power_increasing [of "8 * length b" "LENGTH('a)" "2 :: nat"] by (simp add: power_mult)
  then show ?thesis
    using nat_of_be_less [of b] by (simp add: of_be_def unsigned_of_nat take_bit_nat_eq_self)
qed

lemma nat_of_be_zeros: "nat_of_be (replicate n 0) = 0"
  by (induction n) auto

text \<open>The lengths and operands that the input encodes.\<close>

definition operand :: "bytes \<Rightarrow> nat \<Rightarrow> nat \<Rightarrow> nat" where
  "operand input offset n = nat_of_be (resize n 0 (drop offset input))"

lemma operand_word:
  "off + n \<le> m \<Longrightarrow> 8 * n \<le> LENGTH('a) \<Longrightarrow>
    unat (of_be (take n (drop off (right_pad input m))) :: 'a::len word) = operand input off n"
  by (simp add: take_drop_right_pad unat_of_be_le operand_def)

lemma expmod_lengths:
  "unat (of_be (take 8 (drop 24 (right_pad input 96))) :: u64) = operand input 24 8"
  "unat (of_be (take 8 (drop 56 (right_pad input 96))) :: u64) = operand input 56 8"
  "unat (of_be (take 8 (drop 88 (right_pad input 96))) :: u64) = operand input 88 8"
  by (simp_all add: operand_word)

lemma expmod_run_fits:
  assumes "operand input 24 8 + operand input 56 8 + operand input 88 8 < 2 ^ 63"
  shows "expmod_run input = Inr (Some (
    let b = operand input 24 8; e = operand input 56 8; m = operand input 88 8;
        base = operand input 96 b; exponent = operand input (96 + b) e; modulus = operand input (96 + b + e) m
    in if modulus = 0 then replicate m 0 else nat_to_be m (base ^ exponent mod modulus)))"
proof -
  define b e m where "b = operand input 24 8" and "e = operand input 56 8" and "m = operand input 88 8"
  note lens = expmod_lengths [of input, folded b_def e_def m_def]
  let ?i = "right_pad (drop 96 input) (b + e + m)"
  have total: "(b + e + m) mod 2 ^ 64 = b + e + m" using assms by (simp add: b_def e_def m_def)
  have ops: "nat_of_be (take b ?i) = operand input 96 b"
    "nat_of_be (take e (drop b ?i)) = operand input (96 + b) e"
    "nat_of_be (take m (drop (b + e) ?i)) = operand input (96 + b + e) m"
    using take_drop_right_pad [of 0 b "b + e + m" "drop 96 input"] take_drop_right_pad [of b e "b + e + m" "drop 96 input"]
      take_drop_right_pad [of "b + e" m "b + e + m" "drop 96 input"]
    by (simp_all add: operand_def ac_simps)
  have len: "\<not> (b + e + m > length ?i \<or> m > MAX_ALLOC)"
    using length_right_pad [of "b + e + m" "drop 96 input"] assms by (simp add: MAX_ALLOC_def b_def e_def m_def)
  have alloc: "\<not> (length (drop 96 input) < b + e + m \<and> b + e + m > MAX_ALLOC)"
    using assms by (simp add: MAX_ALLOC_def b_def e_def m_def)
  let ?x = "operand input 96 b ^ operand input (96 + b) e mod operand input (96 + b + e) m"
  have "?x < 256 ^ m" if "operand input (96 + b + e) m \<noteq> 0"
  proof -
    have "?x < operand input (96 + b + e) m" using that by simp
    also have "\<dots> < 256 ^ m" using nat_of_be_less [of "resize m 0 (drop (96 + b + e) input)"] by (simp add: operand_def)
    finally show ?thesis .
  qed
  then have "0 < m \<Longrightarrow> operand input (96 + b + e) m \<noteq> 0 \<Longrightarrow> length (biguint_to_bytes_be ?x) \<le> m \<and>
      replicate (m - length (biguint_to_bytes_be ?x)) 0 @ biguint_to_bytes_be ?x = nat_to_be m ?x"
    using biguint_padded by blast
  moreover have "m = 0 \<Longrightarrow> operand input (96 + b + e) m = 0" by (simp add: operand_def resize_def)
  ultimately show ?thesis
    unfolding expmod_run_def Let_def lens drop_right_pad total ops if_not_P [OF len] if_not_P [OF alloc]
      b_def [symmetric] e_def [symmetric] m_def [symmetric]
    by (cases "m = 0"; cases "operand input (96 + b + e) m = 0") simp_all
qed

lemma expmod_run_empty:
  assumes "operand input 88 8 = 0"
  shows "expmod_run input = Inr (Some [])"
  using assms by (simp add: expmod_run_def Let_def expmod_lengths)

lemma expmod_run_overflow:
  assumes "operand input 88 8 \<noteq> 0" and "length input < 2 ^ 63"
    and big: "operand input 24 8 + operand input 56 8 + operand input 88 8 \<ge> 2 ^ 63"
  shows "expmod_run input = Inl Contract_Panic"
proof -
  define sum total where "sum = operand input 24 8 + operand input 56 8 + operand input 88 8" and "total = sum mod 2 ^ 64"
  let ?i = "drop 96 (right_pad input 96)"
  have len: "length ?i < 2 ^ 63" using assms(2) by (simp add: drop_right_pad)
  have "sum > length (right_pad ?i total)" if "\<not> (length ?i < total \<and> total > MAX_ALLOC)"
  proof -
    have "length (right_pad ?i total) < 2 ^ 63" using that len by (auto simp: pad_shape MAX_ALLOC_def)
    with big show ?thesis by (simp add: sum_def)
  qed
  then show ?thesis
    unfolding expmod_run_def Let_def expmod_lengths sum_def [symmetric] total_def [symmetric] if_not_P [OF assms(1)]
    by (cases "length ?i < total \<and> total > MAX_ALLOC") (simp_all only: if_True if_False simp_thms)
qed

text \<open>C27. What the contract for modular exponentiation does with any input that a buffer can hold
  (less than \<open>2 ^ 63\<close> bytes).  It returns base to the power of exponent modulo modulus, as a number
  of the length of the modulus, where missing input counts as zeros and a zero modulus gives
  zeros; it panics exactly if the modulus has a length and the three lengths add up to
  \<open>2 ^ 63\<close> or more, beyond the greatest allocation.\<close>

theorem expmod_run_correct:
  assumes "length input < 2 ^ 63"
  shows "expmod_run input =
    (let b = operand input 24 8; e = operand input 56 8; m = operand input 88 8;
         base = operand input 96 b; exponent = operand input (96 + b) e; modulus = operand input (96 + b + e) m
     in if m \<noteq> 0 \<and> b + e + m \<ge> 2 ^ 63 then Inl Contract_Panic
        else Inr (Some (if modulus = 0 then replicate m 0 else nat_to_be m (base ^ exponent mod modulus))))"
proof (cases "operand input 24 8 + operand input 56 8 + operand input 88 8 < 2 ^ 63")
  case True
  then show ?thesis using expmod_run_fits by (simp add: Let_def)
next
  case False
  then show ?thesis using expmod_run_overflow [OF _ assms] expmod_run_empty by (simp add: Let_def not_less)
qed

text \<open>3 to the power of 5 modulo 7.\<close>

theorem expmod_run_correct_witness:
  "expmod_run (replicate 31 0 @ [1] @ replicate 31 0 @ [1] @ replicate 31 0 @ [1, 3, 5, 7]) = Inr (Some [5])"
proof -
  let ?i = "replicate 31 0 @ [1] @ replicate 31 0 @ [1] @ replicate 31 0 @ [1, 3, 5, 7 :: u8]"
  have "operand ?i 24 8 = 1" "operand ?i 56 8 = 1" "operand ?i 88 8 = 1"
    "operand ?i 96 1 = 3" "operand ?i 97 1 = 5" "operand ?i 98 1 = 7"
    by (simp_all add: operand_def resize_def nat_of_be_append nat_of_be_zeros)
  with expmod_run_correct [of ?i] show ?thesis by simp
qed

section \<open>The price of modular exponentiation\<close>

text \<open>The formulas of EIP-198 and EIP-2565 on natural numbers.\<close>

definition complexity_eip198 :: "nat \<Rightarrow> nat" where
  "complexity_eip198 x =
     (if x \<le> 64 then x ^ 2 else if x \<le> 1024 then x ^ 2 div 4 + 96 * x - 3072 else x ^ 2 div 16 + 480 * x - 199680)"

definition complexity_eip2565 :: "nat \<Rightarrow> nat" where
  "complexity_eip2565 x = ((x + 7) div 8) ^ 2"

definition adjusted_exponent_length :: "nat \<Rightarrow> nat \<Rightarrow> nat" where
  "adjusted_exponent_length e head = (if e > 32 then 8 * (e - 32) else 0) + (floorlog 2 head - 1)"

lemma le_length_takeWhile: "n \<le> length (takeWhile P xs) \<longleftrightarrow> n \<le> length xs \<and> (\<forall>i < n. P (xs ! i))"
proof (induction xs arbitrary: n)
  case (Cons x xs)
  then show ?case by (cases n) (auto simp: nth_Cons split: nat.splits)
qed auto

lemma bits_above: "unat (w :: 'a::len word) < 2 ^ k \<longleftrightarrow> (\<forall>i. k \<le> i \<longrightarrow> \<not> bit w i)"
proof -
  have "unat w < 2 ^ k \<longleftrightarrow> take_bit k w = w"
    by (metis take_bit_nat_eq_self_iff unsigned_take_bit_eq word_unat_eq_iff)
  also have "\<dots> \<longleftrightarrow> (\<forall>i. k \<le> i \<longrightarrow> \<not> bit w i)"
    unfolding bit_eq_iff bit_take_bit_iff by (metis bit_imp_le_length not_less impossible_bit)
  finally show ?thesis .
qed

lemma bit_len_floorlog: "256 - leading_zeros w = floorlog 2 (unat w)"
proof -
  have le: "256 - leading_zeros w \<le> k \<longleftrightarrow> floorlog 2 (unat w) \<le> k" for k
  proof (cases "k \<le> 256")
    case True
    have "256 - leading_zeros w \<le> k \<longleftrightarrow> 256 - k \<le> leading_zeros w" using True by linarith
    also have "\<dots> \<longleftrightarrow> (\<forall>i < 256 - k. \<not> bit w (255 - i))"
      unfolding leading_zeros_def le_length_takeWhile by (auto simp: rev_nth)
    also have "\<dots> \<longleftrightarrow> (\<forall>i. k \<le> i \<longrightarrow> \<not> bit w i)"
    proof safe
      fix i assume *: "\<forall>i < 256 - k. \<not> bit w (255 - i)" "k \<le> i" "bit w i"
      from *(3) have "i < 256" using bit_imp_le_length by fastforce
      with *(2) have "255 - i < 256 - k" "255 - (255 - i) = i" by auto
      with *(1,3) show False by metis
    qed auto
    also have "\<dots> \<longleftrightarrow> floorlog 2 (unat w) \<le> k" by (simp add: bits_above [symmetric] floorlog_le_iff)
    finally show ?thesis .
  next
    case False
    have "unat w < 2 ^ LENGTH(256)" by (rule unsigned_less)
    also have "\<dots> \<le> 2 ^ k" using False by (intro power_increasing) simp_all
    finally show ?thesis using False by (simp add: floorlog_le_iff)
  qed
  from le [of "256 - leading_zeros w"] le [of "floorlog 2 (unat w)"] show ?thesis by simp
qed

lemma floorlog_0 [simp]: "floorlog b 0 = 0"
  by (simp add: floorlog_eq_zero_iff)

lemma unat_exp_head: "unat (expmod_exp_head input b e) = nat_of_be (resize (min e 32) 0 (drop b input))"
proof (cases "length input > b")
  case True
  have pad: "right_pad (take (min (b + 32) (length input) - b) (drop b input)) 32 = resize 32 0 (drop b input)"
    using True by (simp add: pad_shape resize_def min_def)
  show ?thesis
  proof (cases "e < 32")
    case True
    then have "take e (resize 32 0 (drop b input)) = resize e 0 (drop b input)"
      by (simp add: resize_def min_def)
    with True \<open>length input > b\<close> pad show ?thesis
      by (simp add: expmod_exp_head_def Let_def pad_shape(1) unat_of_be_le nat_of_be_append nat_of_be_zeros min_def)
  next
    case False
    with True pad show ?thesis by (simp add: expmod_exp_head_def Let_def unat_of_be_le min_def)
  qed
next
  case False
  then show ?thesis by (simp add: expmod_exp_head_def resize_def nat_of_be_zeros)
qed

lemma unat_drop_bit_div: "unat (drop_bit k w) = unat w div 2 ^ k"
  by (simp only: unat_drop_bit_eq) (simp only: drop_bit_eq_div)

lemma unat_square:
  assumes "unat (x :: u256) < 2 ^ 65"
  shows "unat (x * x) = unat x ^ 2" "unat x ^ 2 < 2 ^ 130"
proof -
  have "unat x ^ 2 < (2 ^ 65) ^ 2" using assms by (intro power_strict_mono) simp_all
  then show "unat x ^ 2 < 2 ^ 130" by simp
  then show "unat (x * x) = unat x ^ 2" using unat_mult_no_wrap [of x x] by (simp add: power2_eq_square)
qed

lemma unat_linear_part:
  assumes "unat (q :: u256) < 2 ^ 130" and "unat (x :: u256) < 2 ^ 64" and "unat (c :: u256) < 2 ^ 10" and "unat d \<le> unat q + unat c * unat x"
  shows "unat (q + c * x - d) = unat q + unat c * unat x - unat d"
proof -
  have "unat c * unat x < 2 ^ 10 * 2 ^ 64" using assms(2,3) by (intro mult_strict_mono) simp_all
  then have cx: "unat (c * x) = unat c * unat x" "unat c * unat x < 2 ^ 74" using unat_mult_no_wrap [of c x] by simp_all
  then have "unat (q + c * x) = unat q + unat c * unat x" using assms(1) unat_add_no_wrap [of q "c * x"] by simp
  then show ?thesis using assms(4) by (simp add: unat_diff_no_wrap word_le_nat_alt)
qed

lemma unat_mult_complexity_eip198:
  assumes "unat x < 2 ^ 64"
  shows "unat (mult_complexity_eip198 x) = complexity_eip198 (unat x)"
proof -
  note sq = unat_square [of x]
  have q: "unat (drop_bit k (x * x)) = unat x ^ 2 div 2 ^ k" "unat (drop_bit k (x * x)) < 2 ^ 130" for k
  proof -
    show "unat (drop_bit k (x * x)) = unat x ^ 2 div 2 ^ k" using sq assms by (simp add: unat_drop_bit_div)
    then show "unat (drop_bit k (x * x)) < 2 ^ 130" 
      using sq(2) assms le_less_trans [OF div_le_dividend, of "unat x ^ 2" "2 ^ 130" "2 ^ k"] by simp
  qed
  consider "unat x \<le> 64" | "64 < unat x" "unat x \<le> 1024" | "1024 < unat x" by linarith
  then show ?thesis
  proof cases
    case 1
    then show ?thesis using sq(1) assms by (simp add: mult_complexity_eip198_def complexity_eip198_def word_le_nat_alt)
  next
    case 2
    have "unat (drop_bit 2 (x * x) + 96 * x - 3072) = unat x ^ 2 div 4 + 96 * unat x - 3072"
      using unat_linear_part [of "drop_bit 2 (x * x)" x 96 3072] q(1) [of 2] q(2) [of 2] assms 2 by simp
    with 2 show ?thesis by (simp add: mult_complexity_eip198_def complexity_eip198_def word_le_nat_alt Let_def)
  next
    case 3
    have "unat (drop_bit 4 (x * x) + 480 * x - 199680) = unat x ^ 2 div 16 + 480 * unat x - 199680"
      using unat_linear_part [of "drop_bit 4 (x * x)" x 480 199680] q(1) [of 4] q(2) [of 4] assms 3 by simp
    with 3 show ?thesis by (simp add: mult_complexity_eip198_def complexity_eip198_def word_le_nat_alt Let_def)
  qed
qed

lemma unat_mult_complexity_eip2565:
  assumes "unat x < 2 ^ 64"
  shows "unat (mult_complexity_eip2565 x) = complexity_eip2565 (unat x)"
proof -
  have "unat (x + 7) = unat x + 7" using unat_add_no_wrap [of x 7] assms by simp
  then have w: "unat (drop_bit 3 (x + 7)) = (unat x + 7) div 8" by (simp add: unat_drop_bit_div)
  then have "unat (drop_bit 3 (x + 7)) < 2 ^ 65" using assms by simp
  from unat_square(1) [OF this] w show ?thesis by (simp add: mult_complexity_eip2565_def complexity_eip2565_def Let_def)
qed

lemma complexity_bounds:
  assumes "n < 2 ^ 64"
  shows "complexity_eip198 n < 2 ^ 131" "complexity_eip2565 n < 2 ^ 131"
proof -
  have "n ^ 2 < (2 ^ 64) ^ 2" using assms by (intro power_strict_mono) simp_all
  then have sq: "n ^ 2 < 2 ^ 128" by simp
  then show "complexity_eip198 n < 2 ^ 131"
    using assms div_le_dividend [of "n ^ 2" 4] div_le_dividend [of "n ^ 2" 16] unfolding complexity_eip198_def
    by (auto split: if_splits)
  have "((n + 7) div 8) ^ 2 < (2 ^ 64) ^ 2" using assms by (intro power_strict_mono) simp_all
  then show "complexity_eip2565 n < 2 ^ 131" unfolding complexity_eip2565_def by simp
qed

text \<open>The whole computation in words, once the lengths are known.\<close>

lemma unat_expmod_product:
  assumes "unat (c :: u256) < 2 ^ 131" and "unat (a :: u256) < 2 ^ 68" and "unat (d :: u256) \<noteq> 0"
  shows "unat (c * a div d) = unat c * unat a div unat d"
proof -
  have "unat c * unat a < 2 ^ 131 * 2 ^ 68" using assms(1,2) by (intro mult_strict_mono) simp_all
  then have "unat (c * a) = unat c * unat a" using unat_mult_no_wrap [of c a] by simp
  then show ?thesis by (simp add: unat_div)
qed

lemma try_u64_spec: "try_u64 x = (if unat x < 2 ^ 64 then Some (ucast x) else None)"
  by (simp add: try_u64_def word_less_nat_alt)

lemma unat_try_u64: "unat (x :: u256) < 2 ^ 64 \<Longrightarrow> unat (ucast x :: u64) = unat x"
  by (simp add: unsigned_ucast_eq take_bit_nat_eq_self)

definition adjusted_word :: "u64 \<Rightarrow> u256 \<Rightarrow> u256" where
  "adjusted_word exp_len exp_head =
     (let bit_len = 256 - leading_zeros exp_head;
          adjusted = (if exp_len > 32 then ucast (8 * (exp_len - 32)) else 0) :: u256;
          adjusted = (if bit_len > 1 then adjusted + of_nat (bit_len - 1) else adjusted)
      in if adjusted = 0 then 1 else adjusted)"

lemma unat_adjusted_word:
  assumes "unat exp_len < 2 ^ 61"
  shows "unat (adjusted_word exp_len head) = max 1 (adjusted_exponent_length (unat exp_len) (unat head))"
    "unat (adjusted_word exp_len head) < 2 ^ 68"
proof -
  have len: "floorlog 2 (unat head) \<le> 256"
    using unsigned_less [of head, where ?'a = nat] by (simp add: floorlog_le_iff)
  have "unat (8 * (exp_len - 32)) = 8 * (unat exp_len - 32)" if "exp_len > 32"
  proof -
    have "unat (exp_len - 32) = unat exp_len - 32" using that by (simp add: unat_diff_no_wrap less_imp_le)
    then show ?thesis using unat_mult_no_wrap [of 8 "exp_len - 32"] assms by simp
  qed
  then have a: "unat (if exp_len > 32 then ucast (8 * (exp_len - 32)) else 0 :: u256) =
      (if unat exp_len > 32 then 8 * (unat exp_len - 32) else 0)" (is "unat ?a = ?n")
    by (simp add: unat_ucast_up word_less_nat_alt)
  let ?k = "floorlog 2 (unat head) - 1"
  have k: "unat (of_nat ?k :: u256) = ?k" using len by (simp add: unsigned_of_nat take_bit_nat_eq_self)
  have "?n < 2 ^ 64" using assms by (simp add: less_imp_diff_less)
  then have sum: "unat (?a + of_nat ?k) = ?n + ?k" "?n + ?k < 2 ^ 65"
    using len a k unat_add_no_wrap [of ?a "of_nat ?k"] by simp_all
  have adj: "adjusted_word exp_len head = (if ?a + of_nat ?k = 0 then 1 else ?a + of_nat ?k)"
    by (cases "floorlog 2 (unat head) > 1") (simp_all add: adjusted_word_def bit_len_floorlog Let_def)
  have "?a + of_nat ?k = 0 \<longleftrightarrow> ?n + ?k = 0" using sum(1) by (metis unat_eq_zero)
  then show "unat (adjusted_word exp_len head) = max 1 (adjusted_exponent_length (unat exp_len) (unat head))"
    unfolding adj adjusted_exponent_length_def using sum(1) by auto
  then show "unat (adjusted_word exp_len head) < 2 ^ 68"
    unfolding adjusted_exponent_length_def using sum(2) by auto
qed

lemma expmod_gas_words:
  "expmod_gas input r =
     (let min_gas = (if r < Berlin then 0 else 200); input = right_pad input 96;
          b = of_be (take 32 (drop 0 input)) :: u256; e = of_be (take 32 (drop 32 input)) :: u256;
          m = of_be (take 32 (drop 64 input)) :: u256
      in if b = 0 \<and> m = 0 then Some min_gas
         else Option.bind (try_u64 b) (\<lambda>base_len. Option.bind (try_u64 e) (\<lambda>exp_len. Option.bind (try_u64 m) (\<lambda>_.
           let a = adjusted_word exp_len (expmod_exp_head (drop 96 input) (unat base_len) (unat exp_len));
               gas = (if r < Berlin then mult_complexity_eip198 (max m b) * a div 20
                      else mult_complexity_eip2565 (max m b) * a div 3)
           in map_option (max min_gas) (try_u64 gas)))))"
  by (simp add: expmod_gas_def adjusted_word_def Let_def G_QUAD_DIVISOR_BYZANTIUM_def G_QUAD_DIVISOR_BERLIN_def)

lemma unat_expmod_price:
  fixes head :: u256
  assumes "unat (x :: u256) < 2 ^ 64" and "unat exp_len < 2 ^ 61"
  defines "a \<equiv> adjusted_word exp_len head" and "n \<equiv> max 1 (adjusted_exponent_length (unat exp_len) (unat head))"
  shows "unat (mult_complexity_eip198 x * a div 20) = complexity_eip198 (unat x) * n div 20"
    "unat (mult_complexity_eip2565 x * a div 3) = complexity_eip2565 (unat x) * n div 3"
proof -
  note a = unat_adjusted_word [OF assms(2), of head, folded a_def n_def]
  note c = unat_mult_complexity_eip198 [OF assms(1)] unat_mult_complexity_eip2565 [OF assms(1)] complexity_bounds [OF assms(1)]
  show "unat (mult_complexity_eip198 x * a div 20) = complexity_eip198 (unat x) * n div 20"
    using unat_expmod_product [of "mult_complexity_eip198 x" a 20] a c by simp
  show "unat (mult_complexity_eip2565 x * a div 3) = complexity_eip2565 (unat x) * n div 3"
    using unat_expmod_product [of "mult_complexity_eip2565 x" a 3] a c by simp
qed

text \<open>The price in natural numbers.\<close>

definition expmod_price :: "revision \<Rightarrow> bytes \<Rightarrow> nat" where
  "expmod_price r input =
     (let b = operand input 0 32; e = operand input 32 32; m = operand input 64 32;
          n = max 1 (adjusted_exponent_length e (operand input (96 + b) (min e 32)))
      in if r < Berlin then complexity_eip198 (max m b) * n div 20 else complexity_eip2565 (max m b) * n div 3)"

text \<open>C26. For exponents of less than \<open>2^61\<close> bytes the price of modular exponentiation is the one of
  EIP-198, and from Berlin on of EIP-2565 with its minimum of 200, computed without wrap-around;
  lengths or prices that do not fit 64 bits have no price, so that the call runs out of gas.\<close>

theorem expmod_gas_exact:
  assumes "operand input 32 32 < 2 ^ 61"
  shows "map_option unat (expmod_gas input r) =
    (let b = operand input 0 32; m = operand input 64 32; least = (if r < Berlin then 0 else 200)
     in if b = 0 \<and> m = 0 then Some least
        else if b < 2 ^ 64 \<and> m < 2 ^ 64 \<and> expmod_price r input < 2 ^ 64 then Some (max least (expmod_price r input))
        else None)"
proof -
  define b e m where "b = (of_be (take 32 (drop 0 (right_pad input 96))) :: u256)"
    and "e = (of_be (take 32 (drop 32 (right_pad input 96))) :: u256)"
    and "m = (of_be (take 32 (drop 64 (right_pad input 96))) :: u256)"
  have lens: "unat b = operand input 0 32" "unat e = operand input 32 32" "unat m = operand input 64 32"
    unfolding b_def e_def m_def by (intro operand_word; simp)+
  let ?e = "ucast e :: u64" and ?b = "ucast b :: u64"
  let ?head = "expmod_exp_head (drop 96 (right_pad input 96)) (unat ?b) (unat ?e)"
  have e: "unat ?e = unat e" "unat ?e < 2 ^ 61" using assms lens unat_try_u64 [of e] by simp_all
  have head: "unat ?head = operand input (96 + unat b) (min (unat e) 32)" if "unat b < 2 ^ 64"
    using unat_try_u64 [OF that] e by (simp add: unat_exp_head operand_def drop_right_pad add.commute)
  have max: "unat (max m b) = max (unat m) (unat b)" by (simp add: max_def word_le_nat_alt)
  let ?gas = "if r < Berlin then mult_complexity_eip198 (max m b) * adjusted_word ?e ?head div 20
      else mult_complexity_eip2565 (max m b) * adjusted_word ?e ?head div 3"
  have gas: "unat ?gas = expmod_price r input" if "unat b < 2 ^ 64" "unat m < 2 ^ 64"
  proof -
    have "unat (max m b) < 2 ^ 64" using that by (simp add: max)
    from unat_expmod_price [OF this e(2), of ?head] show ?thesis
      unfolding expmod_price_def lens [symmetric] by (simp add: max head [OF that(1), unfolded e(1)] e(1) Let_def)
  qed
  have "expmod_gas input r = (if b = 0 \<and> m = 0 then Some (if r < Berlin then 0 else 200)
      else Option.bind (try_u64 b) (\<lambda>base_len. Option.bind (try_u64 e) (\<lambda>exp_len. Option.bind (try_u64 m) (\<lambda>_.
        let a = adjusted_word exp_len (expmod_exp_head (drop 96 (right_pad input 96)) (unat base_len) (unat exp_len));
            gas = (if r < Berlin then mult_complexity_eip198 (max m b) * a div 20
                   else mult_complexity_eip2565 (max m b) * a div 3)
        in map_option (max (if r < Berlin then 0 else 200)) (try_u64 gas)))))"
    by (simp only: expmod_gas_words Let_def b_def e_def m_def)
  also have "\<dots> = (if b = 0 \<and> m = 0 then Some (if r < Berlin then 0 else 200)
      else if unat b < 2 ^ 64 \<and> unat m < 2 ^ 64 \<and> unat ?gas < 2 ^ 64
      then Some (max (if r < Berlin then 0 else 200) (ucast ?gas)) else None)"
    using e by (simp add: try_u64_spec Let_def)
  finally have eq: "expmod_gas input r = (if b = 0 \<and> m = 0 then Some (if r < Berlin then 0 else 200)
      else if unat b < 2 ^ 64 \<and> unat m < 2 ^ 64 \<and> unat ?gas < 2 ^ 64
      then Some (max (if r < Berlin then 0 else 200) (ucast ?gas)) else None)" .
  have mx: "unat (max (u :: u64) v) = max (unat u) (unat v)" for u v by (simp add: max_def word_le_nat_alt)
  show ?thesis
  proof (cases "unat b < 2 ^ 64 \<and> unat m < 2 ^ 64")
    case True
    then show ?thesis
      unfolding eq lens [symmetric] gas [OF conjunct1 [OF True] conjunct2 [OF True]] Let_def
      using unat_try_u64 [of ?gas] gas by (simp add: mx unat_eq_0)
  next
    case False
    then have "b \<noteq> 0 \<or> m \<noteq> 0" by auto
    with False show ?thesis unfolding eq lens [symmetric] Let_def by (auto simp: unat_eq_zero)
  qed
qed

theorem expmod_gas_exact_witness:
  "map_option unat (expmod_gas (replicate 31 0 @ [1] @ replicate 31 0 @ [1] @ replicate 31 0 @ [1, 3, 5, 7]) Berlin) = Some 200"
proof -
  define i where "i = replicate 31 0 @ [1] @ replicate 31 0 @ [1] @ replicate 31 0 @ [1, 3, 5, 7 :: u8]"
  have ops: "operand i 0 32 = 1" "operand i 32 32 = 1" "operand i 64 32 = 1" "operand i 97 1 = 5"
    by (simp_all add: operand_def resize_def nat_of_be_append nat_of_be_zeros i_def)
  have "floorlog 2 5 \<le> 3" by (simp add: floorlog_le_iff)
  with ops have "expmod_price Berlin i = 0"
    by (simp add: expmod_price_def complexity_eip2565_def adjusted_exponent_length_def Let_def)
  with expmod_gas_exact [of i Berlin] ops have "map_option unat (expmod_gas i Berlin) = Some 200" by (simp add: Let_def)
  then show ?thesis by (simp only: i_def)
qed

text \<open>The length of the exponent is not checked before it is multiplied by eight in 64 bits: an exponent
  of \<open>2^61 + 32\<close> bytes costs the minimum of 200 gas, where EIP-2565 asks for more than
  \<open>6 * 10^18\<close>, and the contract then asks for a buffer of that size.\<close>

theorem expmod_gas_wraps:
  "let input = replicate 56 0 @ [0x20, 0, 0, 0, 0, 0, 0, 0x20] @ replicate 31 0 @ [1]
   in expmod_gas input Berlin = Some 200 \<and> expmod_price Berlin input = 2 ^ 64 div 3"
proof -
  define i where "i = replicate 56 0 @ [0x20, 0, 0, 0, 0, 0, 0, 0x20] @ replicate 31 0 @ [1 :: u8]"
  have pad: "right_pad i 96 = i" and rest: "drop 96 i = []" by (simp_all add: pad_shape i_def)
  have ops: "operand i 0 32 = 0" "operand i 32 32 = 0x2000000000000020" "operand i 64 32 = 1" "operand i 96 n = 0" for n
    by (simp_all add: operand_def resize_def nat_of_be_append nat_of_be_zeros i_def)
  have "unat (of_be (take 32 (drop off i)) :: u256) = operand i off 32" if "off \<le> 64" for off
    using operand_word [of off 32 96 i, where ?'a = 256] that pad by simp
  from this [of 0] this [of 32] this [of 64] ops
  have words: "of_be (take 32 (drop 0 i)) = (0 :: u256)" "of_be (take 32 (drop 32 i)) = (0x2000000000000020 :: u256)"
    "of_be (take 32 (drop 64 i)) = (1 :: u256)"
    by (simp_all add: word_unat_eq_iff)
  have "expmod_exp_head [] 0 k = 0" for k by (simp add: expmod_exp_head_def)
  then have "expmod_gas i Berlin = Some 200"
    unfolding expmod_gas_words pad Let_def words rest
    by (simp add: try_u64_def adjusted_word_def bit_len_floorlog mult_complexity_eip2565_def Let_def)
  moreover have "expmod_price Berlin i = 2 ^ 64 div 3"
    by (simp add: expmod_price_def ops complexity_eip2565_def adjusted_exponent_length_def)
  ultimately show ?thesis by (simp only: Let_def i_def)
qed

end
