(* ===== verification/Header_Verifier.thy ===== *)
theory Header_Verifier
  imports
    Consensus
begin

text \<open>
  Verification of downloaded headers: the header with its cached encoding and hash
  (\<^verbatim>\<open>downloader/headers_downloader/headers/header.rs\<close>) and the ethash slice verifier
  (\<^verbatim>\<open>verification/header_slice_verifier.rs\<close>).  The encoding of a header and Keccak are the
  parameters \<open>rlp\<close> and \<open>keccak\<close>; the panic on a chain specification of another engine is \<open>None\<close>.
\<close>

section \<open>Headers with caches\<close>

record cached_header =
  ch_header :: block_header
  rlp_repr_cached :: "bytes option"
  hash_cached :: "h256 option"

definition cached_header_new :: "block_header \<Rightarrow> h256 \<Rightarrow> cached_header" where
  "cached_header_new h known_hash = \<lparr> ch_header = h, rlp_repr_cached = None, hash_cached = Some known_hash \<rparr>"

definition cached_header_from :: "block_header \<Rightarrow> cached_header" where
  "cached_header_from h = \<lparr> ch_header = h, rlp_repr_cached = None, hash_cached = None \<rparr>"

definition rlp_repr_compute :: "(block_header \<Rightarrow> bytes) \<Rightarrow> cached_header \<Rightarrow> bytes" where
  "rlp_repr_compute rlp h = rlp (ch_header h)"

definition rlp_repr_prepare :: "(block_header \<Rightarrow> bytes) \<Rightarrow> cached_header \<Rightarrow> cached_header" where
  "rlp_repr_prepare rlp h = h\<lparr>rlp_repr_cached := Some (rlp_repr_compute rlp h)\<rparr>"

definition rlp_repr :: "(block_header \<Rightarrow> bytes) \<Rightarrow> cached_header \<Rightarrow> bytes" where
  "rlp_repr rlp h = (case rlp_repr_cached h of Some r \<Rightarrow> r | None \<Rightarrow> rlp_repr_compute rlp h)"

definition hash_prepare :: "(block_header \<Rightarrow> bytes) \<Rightarrow> (bytes \<Rightarrow> h256) \<Rightarrow> cached_header \<Rightarrow> cached_header" where
  "hash_prepare rlp keccak h =
     (let h = (if rlp_repr_cached h = None then rlp_repr_prepare rlp h else h)
      in h\<lparr>hash_cached := map_option keccak (rlp_repr_cached h)\<rparr>)"

definition cached_hash :: "(block_header \<Rightarrow> bytes) \<Rightarrow> (bytes \<Rightarrow> h256) \<Rightarrow> cached_header \<Rightarrow> h256" where
  "cached_hash rlp keccak h = (case hash_cached h of Some k \<Rightarrow> k | None \<Rightarrow> keccak (rlp_repr rlp h))"

text \<open>Caches that hold what they stand for.\<close>

definition cache_ok :: "(block_header \<Rightarrow> bytes) \<Rightarrow> (bytes \<Rightarrow> h256) \<Rightarrow> cached_header \<Rightarrow> bool" where
  "cache_ok rlp keccak h \<longleftrightarrow> (\<forall>r. rlp_repr_cached h = Some r \<longrightarrow> r = rlp (ch_header h)) \<and>
     (\<forall>k. hash_cached h = Some k \<longrightarrow> k = keccak (rlp (ch_header h)))"

lemma cached_hash_eq: "cache_ok rlp keccak h \<Longrightarrow> cached_hash rlp keccak h = keccak (rlp (ch_header h))"
  by (auto simp: cache_ok_def cached_hash_def rlp_repr_def rlp_repr_compute_def split: option.splits)

lemma cache_ok_operations:
  "cache_ok rlp keccak (cached_header_from h)"
  "cache_ok rlp keccak (cached_header_new h (keccak (rlp h)))"
  "cache_ok rlp keccak c \<Longrightarrow> cache_ok rlp keccak (rlp_repr_prepare rlp c)"
  "cache_ok rlp keccak c \<Longrightarrow> cache_ok rlp keccak (hash_prepare rlp keccak c)"
  by (auto simp: cache_ok_def cached_header_from_def cached_header_new_def rlp_repr_prepare_def hash_prepare_def
      rlp_repr_compute_def Let_def)

section \<open>Links\<close>

abbreviation cnum :: "cached_header \<Rightarrow> block_number" where "cnum h \<equiv> h_number (ch_header h)"
abbreviation ctime :: "cached_header \<Rightarrow> u64" where "ctime h \<equiv> h_timestamp (ch_header h)"

definition verify_link_by_parent_hash :: "(cached_header \<Rightarrow> h256) \<Rightarrow> cached_header \<Rightarrow> cached_header \<Rightarrow> bool" where
  "verify_link_by_parent_hash hash child parent \<longleftrightarrow> h_parent_hash (ch_header child) = hash parent"

definition verify_link_block_nums :: "cached_header \<Rightarrow> cached_header \<Rightarrow> bool" where
  "verify_link_block_nums child parent \<longleftrightarrow> cnum child = cnum parent + 1"

definition verify_link_timestamps :: "cached_header \<Rightarrow> cached_header \<Rightarrow> bool" where
  "verify_link_timestamps child parent \<longleftrightarrow> ctime parent < ctime child"

definition verify_link_difficulties :: "chain_spec \<Rightarrow> cached_header \<Rightarrow> cached_header \<Rightarrow> bool option" where
  "verify_link_difficulties cs child parent = (case seal_verification (cs_consensus cs) of
       Ethash_params _ _ homestead_formula byzantium_formula difficulty_bomb _ \<Rightarrow>
         Some (h_difficulty (ch_header child) =
           canonical_difficulty (cnum child) (ctime child) (h_difficulty (ch_header parent)) (ctime parent)
             (h_ommers_hash (ch_header parent) \<noteq> EMPTY_LIST_HASH)
             (switch_is_active byzantium_formula (cnum child)) (switch_is_active homestead_formula (cnum child))
             (map_option (\<lambda>bomb. get_delay_to bomb (cnum child)) difficulty_bomb))
     | _ \<Rightarrow> None)"

text \<open>The proof of work is not checked yet.\<close>

definition verify_link_pow :: "cached_header \<Rightarrow> cached_header \<Rightarrow> bool" where
  "verify_link_pow child parent = True"

text \<open>The conjunction of Rust: the right-hand side is evaluated only if the left one holds.\<close>

definition and_then :: "bool option \<Rightarrow> bool option \<Rightarrow> bool option" where
  "and_then a b = (case a of Some True \<Rightarrow> b | _ \<Rightarrow> a)"

definition verify_link :: "(cached_header \<Rightarrow> h256) \<Rightarrow> chain_spec \<Rightarrow> cached_header \<Rightarrow> cached_header \<Rightarrow> bool option" where
  "verify_link hash cs child parent =
     and_then (Some (verify_link_by_parent_hash hash child parent \<and> verify_link_block_nums child parent \<and>
         verify_link_timestamps child parent))
       (and_then (verify_link_difficulties cs child parent) (Some (verify_link_pow child parent)))"

section \<open>Slices\<close>

definition enumerate_sequential_pairs :: "cached_header list \<Rightarrow> (cached_header \<times> cached_header) list" where
  "enumerate_sequential_pairs headers = zip headers (drop 1 headers)"

definition verify_slice_is_linked_by_parent_hash :: "(cached_header \<Rightarrow> h256) \<Rightarrow> cached_header list \<Rightarrow> bool" where
  "verify_slice_is_linked_by_parent_hash hash headers =
     list_all (\<lambda>(parent, child). verify_link_by_parent_hash hash child parent) (enumerate_sequential_pairs headers)"

definition verify_slice_block_nums :: "cached_header list \<Rightarrow> block_number \<Rightarrow> bool" where
  "verify_slice_block_nums headers start_block_num = (case headers of
       [] \<Rightarrow> True
     | first # _ \<Rightarrow>
         list_all (\<lambda>(parent, child). verify_link_block_nums child parent) (enumerate_sequential_pairs headers) \<and>
         cnum first = start_block_num)"

definition verify_slice_timestamps :: "cached_header list \<Rightarrow> u64 \<Rightarrow> bool" where
  "verify_slice_timestamps headers max_timestamp =
     (if headers = [] then True
      else list_all (\<lambda>(parent, child). verify_link_timestamps child parent) (enumerate_sequential_pairs headers) \<and>
           ctime (last headers) < max_timestamp)"

fun all_lazily :: "('a \<Rightarrow> bool option) \<Rightarrow> 'a list \<Rightarrow> bool option" where
  "all_lazily P [] = Some True"
| "all_lazily P (x # xs) = and_then (P x) (all_lazily P xs)"

definition verify_slice_difficulties :: "chain_spec \<Rightarrow> cached_header list \<Rightarrow> bool option" where
  "verify_slice_difficulties cs headers =
     all_lazily (\<lambda>(parent, child). verify_link_difficulties cs child parent) (enumerate_sequential_pairs headers)"

definition verify_slice_pow :: "cached_header list \<Rightarrow> bool" where
  "verify_slice_pow headers = True"

definition verify_slice ::
    "(cached_header \<Rightarrow> h256) \<Rightarrow> chain_spec \<Rightarrow> cached_header list \<Rightarrow> block_number \<Rightarrow> u64 \<Rightarrow> bool option" where
  "verify_slice hash cs headers start_block_num max_timestamp =
     and_then (Some (verify_slice_is_linked_by_parent_hash hash headers \<and>
         verify_slice_block_nums headers start_block_num \<and> verify_slice_timestamps headers max_timestamp))
       (and_then (verify_slice_difficulties cs headers) (Some (verify_slice_pow headers)))"

section \<open>Verified slices are chains\<close>

lemma and_then_True [simp]: "and_then a b = Some True \<longleftrightarrow> a = Some True \<and> b = Some True"
  by (auto simp: and_then_def split: option.splits bool.splits)

lemma all_lazily_True [simp]: "all_lazily P xs = Some True \<longleftrightarrow> list_all (\<lambda>x. P x = Some True) xs"
  by (induction xs) auto

lemma pairs_successively:
  "list_all (\<lambda>(parent, child). P child parent) (enumerate_sequential_pairs hs) \<longleftrightarrow>
     successively (\<lambda>parent child. P child parent) hs"
  unfolding enumerate_sequential_pairs_def by (induction hs rule: induct_list012) auto

lemma successively_conj:
  "successively (\<lambda>a b. P a b \<and> Q a b) xs \<longleftrightarrow> successively P xs \<and> successively Q xs"
  by (induction xs rule: induct_list012) auto

lemma slice_checks:
  "verify_slice_is_linked_by_parent_hash hash hs \<longleftrightarrow> successively (\<lambda>parent child. verify_link_by_parent_hash hash child parent) hs"
  "verify_slice_block_nums hs start \<longleftrightarrow>
     successively (\<lambda>parent child. verify_link_block_nums child parent) hs \<and> (hs \<noteq> [] \<longrightarrow> cnum (hd hs) = start)"
  "verify_slice_timestamps hs mx \<longleftrightarrow>
     successively (\<lambda>parent child. verify_link_timestamps child parent) hs \<and> (hs \<noteq> [] \<longrightarrow> ctime (last hs) < mx)"
  by (cases hs; simp add: verify_slice_is_linked_by_parent_hash_def verify_slice_block_nums_def
      verify_slice_timestamps_def pairs_successively)+

lemma slice_difficulties:
  "verify_slice_difficulties cs hs = Some True \<longleftrightarrow>
     successively (\<lambda>parent child. verify_link_difficulties cs child parent = Some True) hs"
  using pairs_successively [of "\<lambda>child parent. verify_link_difficulties cs child parent = Some True" hs]
  by (simp add: verify_slice_difficulties_def case_prod_unfold)

lemma verify_link_iff:
  "verify_link hash cs child parent = Some True \<longleftrightarrow> verify_link_by_parent_hash hash child parent \<and>
     verify_link_block_nums child parent \<and> verify_link_timestamps child parent \<and>
     verify_link_difficulties cs child parent = Some True"
  by (simp add: verify_link_def verify_link_pow_def)

lemma verify_slice_iff:
  "verify_slice hash cs hs start mx = Some True \<longleftrightarrow>
     successively (\<lambda>parent child. verify_link hash cs child parent = Some True) hs \<and>
     (hs \<noteq> [] \<longrightarrow> cnum (hd hs) = start \<and> ctime (last hs) < mx)"
  unfolding verify_link_iff successively_conj
  by (auto simp: verify_slice_def verify_slice_pow_def slice_checks slice_difficulties)

lemma successively_nth: "successively P xs \<Longrightarrow> Suc i < length xs \<Longrightarrow> P (xs ! i) (xs ! Suc i)"
  by (induction xs arbitrary: i rule: induct_list012) (auto simp: nth_Cons split: nat.splits)

lemma slice_numbers:
  assumes "successively (\<lambda>parent child. verify_link hash cs child parent = Some True) hs" and "i < length hs"
  shows "cnum (hs ! i) = cnum (hd hs) + of_nat i"
  using assms(2)
proof (induction i)
  case 0
  then show ?case by (cases hs) auto
next
  case (Suc i)
  with successively_nth [OF assms(1)] show ?case
    by (simp add: verify_link_iff verify_link_block_nums_def)
qed

lemma slice_timestamps:
  "successively (\<lambda>parent child. verify_link hash cs child parent = Some True) hs \<Longrightarrow> h \<in> set hs \<Longrightarrow> ctime h \<le> ctime (last hs)"
proof (induction hs arbitrary: h rule: induct_list012)
  case (3 x y zs)
  then have "ctime x < ctime y" by (simp add: verify_link_iff verify_link_timestamps_def)
  moreover have "ctime h' \<le> ctime (last (y # zs))" if "h' \<in> set (y # zs)" for h' using 3 that by simp
  ultimately show ?case using 3(4) by (metis last.simps less_imp_le list.distinct(1) list.set_intros(1) order_trans set_ConsD)
qed auto

lemma verify_slice_append:
  assumes "xs \<noteq> []" and "ys \<noteq> []"
  shows "verify_slice hash cs (xs @ ys) start mx = Some True \<longleftrightarrow>
    verify_slice hash cs xs start mx = Some True \<and>
    verify_slice hash cs ys (start + of_nat (length xs)) mx = Some True \<and>
    verify_link hash cs (hd ys) (last xs) = Some True"
proof -
  let ?P = "\<lambda>parent child. verify_link hash cs child parent = Some True"
  have number: "cnum (hd ys) = cnum (hd xs) + of_nat (length xs)" if "successively ?P xs" "?P (last xs) (hd ys)"
  proof -
    have "cnum (last xs) = cnum (hd xs) + of_nat (length xs - 1)"
      using slice_numbers [OF that(1), of "length xs - 1"] assms(1) by (simp add: last_conv_nth)
    with that(2) assms(1) show ?thesis
      by (cases xs) (simp_all add: verify_link_iff verify_link_block_nums_def)
  qed
  have time: "ctime (last xs) < mx" if "successively ?P ys" "?P (last xs) (hd ys)" "ctime (last ys) < mx"
    using slice_timestamps [OF that(1), of "hd ys"] that(2,3) assms(2)
    by (auto simp: verify_link_iff verify_link_timestamps_def)
  show ?thesis
    using assms number time by (auto simp: verify_slice_iff successively_append_iff)
qed

lemma verified_slice_chain:
  assumes "verify_slice (cached_hash rlp keccak) cs hs start mx = Some True" and "list_all (cache_ok rlp keccak) hs"
    and "i < length hs"
  shows "cnum (hs ! i) = start + of_nat i \<and> ctime (hs ! i) < mx \<and>
    (0 < i \<longrightarrow> h_parent_hash (ch_header (hs ! i)) = keccak (rlp (ch_header (hs ! (i - 1)))))"
proof -
  let ?P = "\<lambda>parent child. verify_link (cached_hash rlp keccak) cs child parent = Some True"
  from assms(1,3) have links: "successively ?P hs" and ends: "cnum (hd hs) = start" "ctime (last hs) < mx"
    by (auto simp: verify_slice_iff)
  have "h_parent_hash (ch_header (hs ! i)) = keccak (rlp (ch_header (hs ! (i - 1))))" if "0 < i"
    using successively_nth [OF links, of "i - 1"] that assms(2,3)
    by (simp add: verify_link_iff verify_link_by_parent_hash_def cached_hash_eq list_all_length)
  with slice_numbers [OF links assms(3)] slice_timestamps [OF links, of "hs ! i"] ends assms(3)
  show ?thesis by auto
qed

text \<open>Downloaded slices that are verified one by one and linked at their border form a verified
  slice, and only those.  In a verified slice whose caches are right, the header at position \<open>i\<close> has
  number \<open>start + i\<close> and a timestamp in the past, and each header names the hash of the one before.\<close>

theorem verified_slices_form_chain:
  assumes "xs \<noteq> []" and "ys \<noteq> []"
  shows "(verify_slice (cached_hash rlp keccak) cs (xs @ ys) start mx = Some True \<longleftrightarrow>
      verify_slice (cached_hash rlp keccak) cs xs start mx = Some True \<and>
      verify_slice (cached_hash rlp keccak) cs ys (start + of_nat (length xs)) mx = Some True \<and>
      verify_link (cached_hash rlp keccak) cs (hd ys) (last xs) = Some True) \<and>
    (verify_slice (cached_hash rlp keccak) cs xs start mx = Some True \<and> list_all (cache_ok rlp keccak) xs \<longrightarrow>
      (\<forall>i < length xs. cnum (xs ! i) = start + of_nat i \<and> ctime (xs ! i) < mx \<and>
        (0 < i \<longrightarrow> h_parent_hash (ch_header (xs ! i)) = keccak (rlp (ch_header (xs ! (i - 1)))))))"
  using verify_slice_append [OF assms] verified_slice_chain by blast

definition sample_chain_header :: "block_number \<Rightarrow> u64 \<Rightarrow> h256 \<Rightarrow> u256 \<Rightarrow> cached_header" where
  "sample_chain_header n t parent d = cached_header_from \<lparr> h_parent_hash = parent, h_ommers_hash = EMPTY_LIST_HASH,
     h_beneficiary = 0, h_state_root = 0, h_transactions_root = 0, h_receipts_root = 0, h_logs_bloom = 0,
     h_difficulty = d, h_number = n, h_gas_limit = 0, h_gas_used = 0, h_timestamp = t, h_extra_data = [],
     h_mix_hash = 0, h_nonce = 0, h_base_fee_per_gas = None \<rparr>"

theorem verified_slices_form_chain_witness:
  "\<forall>cs. cnum ([sample_chain_header 7 5 3 131072] ! 0) = 7 + of_nat 0 \<and> ctime ([sample_chain_header 7 5 3 131072] ! 0) < 9"
proof
  fix cs
  have "verify_slice (cached_hash (\<lambda>_. []) (\<lambda>_. 0)) cs [sample_chain_header 7 5 3 131072] 7 9 = Some True"
    by (simp add: verify_slice_iff sample_chain_header_def cached_header_from_def)
  moreover have "list_all (cache_ok (\<lambda>_. []) (\<lambda>_. 0)) [sample_chain_header 7 5 3 131072]"
    by (simp add: sample_chain_header_def cache_ok_operations)
  ultimately show "cnum ([sample_chain_header 7 5 3 131072] ! 0) = 7 + of_nat 0 \<and> ctime ([sample_chain_header 7 5 3 131072] ! 0) < 9"
    using verified_slices_form_chain [of "[sample_chain_header 7 5 3 131072]" "[sample_chain_header 8 6 0 131072]"
        "\<lambda>_. []" "\<lambda>_. 0" cs 7 9] by simp
qed

end
