(* ===== verification/Header_Slices.thy ===== *)
theory Header_Slices
  imports
    Header_Verifier
begin

text \<open>
  The window of header slices the downloader works on
  (\<^verbatim>\<open>downloader/headers_downloader/headers/header_slices.rs\<close>): the status of a slice, the slice,
  and the bounded buffer of slices with a counter and a watch channel per status.  A shared
  pointer to a locked slice is its position in the buffer.  Counters and block numbers are
  machine words, as in the source; a failed assertion is \<open>None\<close>.  The well-formedness
  invariant of the buffer is \<open>slices_ok\<close>.
\<close>

section \<open>Status of a slice\<close>

datatype header_slice_status =
  Empty | Waiting | Downloaded | VerifiedInternally | Verified | Invalid | Fork | Saved

definition header_slice_status_iter :: "header_slice_status list" where
  "header_slice_status_iter = [Empty, Waiting, Downloaded, VerifiedInternally, Verified, Invalid, Fork, Saved]"

definition header_slice_status_default :: header_slice_status where
  "header_slice_status_default = Empty"

definition char_of_status :: "header_slice_status \<Rightarrow> char" where
  "char_of_status status = (case status of
       Empty \<Rightarrow> CHR ''-'' | Waiting \<Rightarrow> CHR ''<'' | Downloaded \<Rightarrow> CHR ''.''
     | VerifiedInternally \<Rightarrow> CHR ''='' | Verified \<Rightarrow> CHR ''#'' | Invalid \<Rightarrow> CHR ''x''
     | Fork \<Rightarrow> CHR ''Y'' | Saved \<Rightarrow> CHR ''+'')"

definition status_of_char :: "char \<Rightarrow> header_slice_status option" where
  "status_of_char c =
     (if c = CHR ''-'' then Some Empty else if c = CHR ''<'' then Some Waiting
      else if c = CHR ''.'' then Some Downloaded else if c = CHR ''='' then Some VerifiedInternally
      else if c = CHR ''#'' then Some Verified else if c = CHR ''x'' then Some Invalid
      else if c = CHR ''Y'' then Some Fork else if c = CHR ''+'' then Some Saved else None)"

lemma status_char_roundtrip: "status_of_char c = Some s \<longleftrightarrow> c = char_of_status s"
  by (cases s) (auto simp: status_of_char_def char_of_status_def)

section \<open>A slice\<close>

type_synonym peer_id = u512

record header_slice =
  sl_start_block_num :: block_number
  sl_status :: header_slice_status
  sl_headers :: "cached_header list option"
  sl_from_peer_id :: "peer_id option"
  sl_request_time :: "nat option"
  sl_request_attempt :: u16
  sl_refetch_attempt :: u16

definition header_slice_default :: header_slice where
  "header_slice_default = \<lparr> sl_start_block_num = 0, sl_status = header_slice_status_default, sl_headers = None,
     sl_from_peer_id = None, sl_request_time = None, sl_request_attempt = 0, sl_refetch_attempt = 0 \<rparr>"

definition slice_len :: "header_slice \<Rightarrow> nat" where
  "slice_len s = (case sl_headers s of None \<Rightarrow> 0 | Some headers \<Rightarrow> length headers)"

text \<open>A half-open range of block numbers is the pair of its bounds.\<close>

type_synonym block_range = "block_number \<times> block_number"

definition range_contains :: "block_range \<Rightarrow> block_number \<Rightarrow> bool" where
  "range_contains r n \<longleftrightarrow> fst r \<le> n \<and> n < snd r"

definition range_is_empty :: "block_range \<Rightarrow> bool" where
  "range_is_empty r \<longleftrightarrow> \<not> fst r < snd r"

definition block_num_range :: "header_slice \<Rightarrow> block_range" where
  "block_num_range s = (sl_start_block_num s, sl_start_block_num s + of_nat (slice_len s))"

definition HEADER_SLICE_SIZE :: nat where "HEADER_SLICE_SIZE = 192"

definition align_block_num_to_slice_start :: "block_number \<Rightarrow> block_number" where
  "align_block_num_to_slice_start num = num div of_nat HEADER_SLICE_SIZE * of_nat HEADER_SLICE_SIZE"

definition is_block_num_aligned_to_slice_start :: "block_number \<Rightarrow> bool" where
  "is_block_num_aligned_to_slice_start num \<longleftrightarrow> num mod of_nat HEADER_SLICE_SIZE = 0"

text \<open>The size of a header in memory, a constant of the compiler, is the parameter \<open>header_bytes\<close>.\<close>

definition estimate_max_slices_for_mem_limit :: "u64 \<Rightarrow> u64 \<Rightarrow> u64" where
  "estimate_max_slices_for_mem_limit header_bytes mem_limit = mem_limit div header_bytes div of_nat HEADER_SLICE_SIZE"

section \<open>The window\<close>

record status_watch =
  sw_channel :: u64
  sw_count :: u64

record header_slices =
  hs_slices :: "header_slice list"
  hs_max_slices :: nat
  hs_max_block_num :: block_number
  hs_final_block_num :: block_number
  hs_watches :: "header_slice_status \<Rightarrow> status_watch"

definition make_state_watches_from_slices :: "header_slice list \<Rightarrow> header_slice_status \<Rightarrow> status_watch" where
  "make_state_watches_from_slices slices =
     (let counters = fold (\<lambda>s c. c(sl_status s := c (sl_status s) + 1)) slices
            (fold (\<lambda>i c. c(i := 0)) header_slice_status_iter (\<lambda>_. 0))
      in (\<lambda>i. \<lparr> sw_channel = counters i, sw_count = counters i \<rparr>))"

definition from_slices_vec ::
    "header_slice list \<Rightarrow> block_number option \<Rightarrow> nat option \<Rightarrow> block_number option \<Rightarrow> header_slices option" where
  "from_slices_vec slices start_block_num_opt max_slices_opt final_block_num_opt =
     (let slices_count = length slices;
          start_block_num = (case slices of s # _ \<Rightarrow> sl_start_block_num s
            | [] \<Rightarrow> (case start_block_num_opt of Some n \<Rightarrow> n | None \<Rightarrow> 0))
      in if \<not> is_block_num_aligned_to_slice_start start_block_num then None
         else let max_slices = (case max_slices_opt of Some m \<Rightarrow> m | None \<Rightarrow> slices_count);
                  slices = take max_slices slices @
                    map (\<lambda>i. header_slice_default\<lparr>sl_start_block_num := start_block_num + of_nat (i * HEADER_SLICE_SIZE)\<rparr>)
                      [slices_count..<max_slices];
                  max_block_num = start_block_num + of_nat (max_slices * HEADER_SLICE_SIZE);
                  final_block_num = (case final_block_num_opt of Some n \<Rightarrow> n | None \<Rightarrow> max_block_num)
              in if \<not> is_block_num_aligned_to_slice_start final_block_num then None
                 else Some \<lparr> hs_slices = slices, hs_max_slices = max_slices, hs_max_block_num = max_block_num,
                        hs_final_block_num = final_block_num,
                        hs_watches = make_state_watches_from_slices slices \<rparr>)"

definition header_slices_new :: "u64 \<Rightarrow> u64 \<Rightarrow> block_number \<Rightarrow> block_number \<Rightarrow> header_slices option" where
  "header_slices_new header_bytes mem_limit start_block_num final_block_num =
     (let total_block_num = final_block_num - start_block_num;
          max_slices = min (estimate_max_slices_for_mem_limit header_bytes mem_limit)
            ((total_block_num + of_nat HEADER_SLICE_SIZE - 1) div of_nat HEADER_SLICE_SIZE)
      in from_slices_vec [] (Some start_block_num) (Some (unat max_slices)) (Some final_block_num))"

definition header_slices_empty :: "nat \<Rightarrow> header_slices" where
  "header_slices_empty max_slices = \<lparr> hs_slices = [], hs_max_slices = max_slices, hs_max_block_num = 0,
     hs_final_block_num = 0, hs_watches = make_state_watches_from_slices [] \<rparr>"

definition clone_statuses :: "header_slices \<Rightarrow> header_slice_status list" where
  "clone_statuses hs = map sl_status (hs_slices hs)"

text \<open>
  The iterations: \<open>for_each\<close> runs a closure that may change the buffer through the lock of the
  visited slice, \<open>try_fold\<close> stops at the first \<open>Break\<close>.  Both visit the positions in order.
\<close>

datatype ('b, 'c) control_flow = Break 'b | Continue 'c

fun try_fold_list :: "('c \<Rightarrow> 'a \<Rightarrow> ('b, 'c) control_flow) \<Rightarrow> 'c \<Rightarrow> 'a list \<Rightarrow> ('b, 'c) control_flow" where
  "try_fold_list f c [] = Continue c"
| "try_fold_list f c (x # xs) = (case f c x of Break b \<Rightarrow> Break b | Continue c' \<Rightarrow> try_fold_list f c' xs)"

definition for_each :: "(nat \<Rightarrow> 's \<Rightarrow> 's) \<Rightarrow> header_slices \<Rightarrow> 's \<Rightarrow> 's" where
  "for_each f hs st = fold f [0..<length (hs_slices hs)] st"

definition try_fold :: "('c \<Rightarrow> nat \<Rightarrow> ('b, 'c) control_flow) \<Rightarrow> header_slices \<Rightarrow> 'c \<Rightarrow> ('b, 'c) control_flow" where
  "try_fold f hs c = try_fold_list f c [0..<length (hs_slices hs)]"

definition try_rfold :: "('c \<Rightarrow> nat \<Rightarrow> ('b, 'c) control_flow) \<Rightarrow> header_slices \<Rightarrow> 'c \<Rightarrow> ('b, 'c) control_flow" where
  "try_rfold f hs c = try_fold_list f c (List.rev [0..<length (hs_slices hs)])"

section \<open>Searching the window\<close>

definition find_slice :: "(header_slice \<Rightarrow> bool) \<Rightarrow> header_slices \<Rightarrow> nat option" where
  "find_slice P hs = List.find (\<lambda>i. P (hs_slices hs ! i)) [0..<length (hs_slices hs)]"

definition find_by_start_block_num :: "header_slices \<Rightarrow> block_number \<Rightarrow> nat option" where
  "find_by_start_block_num hs start_block_num = find_slice (\<lambda>s. sl_start_block_num s = start_block_num) hs"

definition find_by_block_num :: "header_slices \<Rightarrow> block_number \<Rightarrow> nat option" where
  "find_by_block_num hs block_num =
     (case find_by_start_block_num hs (align_block_num_to_slice_start block_num) of
        None \<Rightarrow> None
      | Some i \<Rightarrow> if range_contains (block_num_range (hs_slices hs ! i)) block_num then Some i else None)"

definition find_by_status :: "header_slices \<Rightarrow> header_slice_status \<Rightarrow> nat option" where
  "find_by_status hs status = find_slice (\<lambda>s. sl_status s = status) hs"

fun find_batch_from :: "header_slice_status \<Rightarrow> nat \<Rightarrow> header_slice list \<Rightarrow> nat list \<Rightarrow> nat list \<Rightarrow> nat list" where
  "find_batch_from status batch_size slices batch [] = batch"
| "find_batch_from status batch_size slices batch (i # is) =
     (if sl_status (slices ! i) = status
      then let batch = batch @ [i]
           in if length batch = batch_size then batch else find_batch_from status batch_size slices batch is
      else find_batch_from status batch_size slices batch is)"

definition find_batch_by_status :: "header_slices \<Rightarrow> header_slice_status \<Rightarrow> nat \<Rightarrow> nat list" where
  "find_batch_by_status hs status batch_size =
     find_batch_from status batch_size (hs_slices hs) [] [0..<length (hs_slices hs)]"

section \<open>Counters\<close>

definition watch_add :: "header_slice_status \<Rightarrow> u64 \<Rightarrow> header_slices \<Rightarrow> header_slices" where
  "watch_add status n hs =
     hs\<lparr>hs_watches := (hs_watches hs)(status := (hs_watches hs status)\<lparr>sw_count := sw_count (hs_watches hs status) + n\<rparr>)\<rparr>"

definition watch_sub :: "header_slice_status \<Rightarrow> u64 \<Rightarrow> header_slices \<Rightarrow> header_slices" where
  "watch_sub status n hs =
     hs\<lparr>hs_watches := (hs_watches hs)(status := (hs_watches hs status)\<lparr>sw_count := sw_count (hs_watches hs status) - n\<rparr>)\<rparr>"

definition watch_store :: "header_slice_status \<Rightarrow> u64 \<Rightarrow> header_slices \<Rightarrow> header_slices" where
  "watch_store status n hs =
     hs\<lparr>hs_watches := (hs_watches hs)(status := (hs_watches hs status)\<lparr>sw_count := n\<rparr>)\<rparr>"

definition watch_clear :: "header_slices \<Rightarrow> header_slices" where
  "watch_clear hs = fold (\<lambda>status. watch_store status 0) header_slice_status_iter hs"

definition count_slices_in_status :: "header_slices \<Rightarrow> header_slice_status \<Rightarrow> u64" where
  "count_slices_in_status hs status = sw_count (hs_watches hs status)"

definition has_one_of_statuses :: "header_slices \<Rightarrow> header_slice_status list \<Rightarrow> bool" where
  "has_one_of_statuses hs statuses = list_ex (\<lambda>status. count_slices_in_status hs status > 0) statuses"

definition contains_status :: "header_slices \<Rightarrow> header_slice_status \<Rightarrow> bool" where
  "contains_status hs status \<longleftrightarrow> count_slices_in_status hs status > 0"

definition all_in_status :: "header_slices \<Rightarrow> header_slice_status \<Rightarrow> bool" where
  "all_in_status hs status \<longleftrightarrow> count_slices_in_status hs status = of_nat (length (hs_slices hs))"

definition status_counters :: "header_slices \<Rightarrow> (header_slice_status \<times> u64) list" where
  "status_counters hs = map (\<lambda>status. (status, count_slices_in_status hs status)) header_slice_status_iter"

definition notify_status_watchers :: "header_slices \<Rightarrow> header_slices" where
  "notify_status_watchers hs = hs\<lparr>hs_watches := (\<lambda>status. (hs_watches hs status)\<lparr>sw_channel := sw_count (hs_watches hs status)\<rparr>)\<rparr>"

definition watch_status_changes :: "header_slices \<Rightarrow> header_slice_status \<Rightarrow> u64" where
  "watch_status_changes hs status = sw_channel (hs_watches hs status)"

text \<open>The change of a slice's status, given the slice and returning it.\<close>

definition set_slice_status ::
    "header_slices \<Rightarrow> header_slice \<Rightarrow> header_slice_status \<Rightarrow> header_slices \<times> header_slice" where
  "set_slice_status hs s status =
     (let old_status = sl_status s
      in if status = old_status then (hs, s)
         else (watch_add status 1 (watch_sub old_status 1 hs), s\<lparr>sl_status := status\<rparr>))"

text \<open>Under the lock of the slice at position \<open>i\<close>: \<open>f\<close>, the new status, \<open>g\<close>, and the slice is written back.\<close>

definition update_slice_at ::
    "(header_slice \<Rightarrow> header_slice) \<Rightarrow> header_slice_status \<Rightarrow> (header_slice \<Rightarrow> header_slice) \<Rightarrow> nat \<Rightarrow> header_slices \<Rightarrow> header_slices" where
  "update_slice_at f status g i hs =
     (let (hs, s) = set_slice_status hs (f (hs_slices hs ! i)) status
      in hs\<lparr>hs_slices := (hs_slices hs)[i := g s]\<rparr>)"

section \<open>Moving the window\<close>

text \<open>The loop of \<open>remove\<close>: the remaining slices and the number of those removed.\<close>

function remove_loop :: "header_slice_status \<Rightarrow> nat \<Rightarrow> nat \<Rightarrow> header_slice list \<Rightarrow> header_slice list \<times> nat" where
  "remove_loop status cursor count slices =
     (if cursor < length slices
      then if sl_status (slices ! cursor) = status
           then remove_loop status cursor (Suc count) (take cursor slices @ drop (Suc cursor) slices)
           else remove_loop status (Suc cursor) count slices
      else (slices, count))"
  by pat_completeness auto
termination
  by (relation "measure (\<lambda>(_, cursor, _, slices). length slices - cursor)") auto

declare remove_loop.simps [simp del]

definition remove_slices :: "header_slice_status \<Rightarrow> header_slices \<Rightarrow> header_slices" where
  "remove_slices status hs =
     (let (slices, count) = remove_loop status 0 0 (hs_slices hs)
      in watch_sub status (of_nat count) (hs\<lparr>hs_slices := slices\<rparr>))"

fun refill_loop :: "nat \<Rightarrow> header_slices \<Rightarrow> nat \<Rightarrow> header_slices \<times> nat" where
  "refill_loop 0 hs count = (hs, count)"
| "refill_loop (Suc n) hs count =
     (if hs_final_block_num hs \<le> hs_max_block_num hs then (hs, count)
      else refill_loop n
        (hs\<lparr>hs_slices := hs_slices hs @ [header_slice_default\<lparr>sl_start_block_num := hs_max_block_num hs\<rparr>],
            hs_max_block_num := hs_max_block_num hs + of_nat HEADER_SLICE_SIZE\<rparr>) (Suc count))"

definition refill :: "header_slices \<Rightarrow> header_slices" where
  "refill hs =
     (let (hs', count) = refill_loop (hs_max_slices hs - length (hs_slices hs)) hs 0
      in watch_add Empty (of_nat count) hs')"

definition clear :: "header_slices \<Rightarrow> header_slices" where
  "clear hs = watch_clear (hs\<lparr>hs_slices := [], hs_max_block_num := 0\<rparr>)"

definition reset_to_single_slice :: "header_slice \<Rightarrow> header_slices \<Rightarrow> header_slices" where
  "reset_to_single_slice initial_slice hs =
     watch_store (sl_status initial_slice) 1
       (watch_clear (hs\<lparr>hs_slices := [initial_slice],
          hs_max_block_num := sl_start_block_num initial_slice + of_nat HEADER_SLICE_SIZE\<rparr>))"

datatype slices_error = MaxSlicesReached | PrependIfEmpty | PrependBefore block_number

definition prepend_slice :: "header_slices \<Rightarrow> slices_error + header_slices" where
  "prepend_slice hs =
     (if hs_max_slices hs \<le> length (hs_slices hs) then Inl MaxSlicesReached
      else case hs_slices hs of
        [] \<Rightarrow> Inl PrependIfEmpty
      | first # _ \<Rightarrow>
          (let first_block_num = sl_start_block_num first
           in if first_block_num < of_nat HEADER_SLICE_SIZE then Inl (PrependBefore first_block_num)
              else Inr (watch_add Empty 1
                (hs\<lparr>hs_slices := header_slice_default\<lparr>sl_start_block_num := first_block_num - of_nat HEADER_SLICE_SIZE\<rparr> #
                   hs_slices hs\<rparr>))))"

definition append_slice :: "header_slices \<Rightarrow> header_slices" where
  "append_slice hs =
     watch_add Empty 1
       (hs\<lparr>hs_slices := hs_slices hs @ [header_slice_default\<lparr>sl_start_block_num := hs_max_block_num hs\<rparr>],
           hs_max_block_num := hs_max_block_num hs + of_nat HEADER_SLICE_SIZE\<rparr>)"

function trim_start_to_fit_max_slices :: "header_slices \<Rightarrow> header_slices" where
  "trim_start_to_fit_max_slices hs =
     (if hs_max_slices hs < length (hs_slices hs)
      then trim_start_to_fit_max_slices
             (watch_sub (sl_status (hd (hs_slices hs))) 1 (hs\<lparr>hs_slices := tl (hs_slices hs)\<rparr>))
      else hs)"
  by pat_completeness auto
termination
  by (relation "measure (\<lambda>hs. length (hs_slices hs))") (auto simp: watch_sub_def)

declare trim_start_to_fit_max_slices.simps [simp del]

section \<open>Position of the window\<close>

definition min_block_num :: "header_slices \<Rightarrow> block_number" where
  "min_block_num hs = (case hs_slices hs of first # _ \<Rightarrow> sl_start_block_num first | [] \<Rightarrow> hs_max_block_num hs)"

definition is_empty_at_final_position :: "header_slices \<Rightarrow> bool" where
  "is_empty_at_final_position hs \<longleftrightarrow> hs_final_block_num hs \<le> hs_max_block_num hs \<and> hs_slices hs = []"


section \<open>Well-formed windows\<close>

text \<open>
  The counter of each status is the number of slices in it (modulo the width of the counter);
  the slices are adjacent, start at multiples of the slice size, and end at \<open>max_block_num\<close>.
\<close>

definition status_count :: "header_slice_status \<Rightarrow> header_slice list \<Rightarrow> nat" where
  "status_count status slices = length (filter (\<lambda>s. sl_status s = status) slices)"

definition counts_ok :: "header_slices \<Rightarrow> bool" where
  "counts_ok hs \<longleftrightarrow> (\<forall>status. count_slices_in_status hs status = of_nat (status_count status (hs_slices hs)))"

definition positions_ok :: "header_slices \<Rightarrow> bool" where
  "positions_ok hs \<longleftrightarrow> 192 dvd unat (min_block_num hs) \<and> 192 dvd unat (hs_final_block_num hs) \<and>
     (\<forall>i < length (hs_slices hs). unat (sl_start_block_num (hs_slices hs ! i)) = unat (min_block_num hs) + i * 192) \<and>
     unat (hs_max_block_num hs) = unat (min_block_num hs) + length (hs_slices hs) * 192"

definition slices_ok :: "header_slices \<Rightarrow> bool" where
  "slices_ok hs \<longleftrightarrow> counts_ok hs \<and> positions_ok hs"

subsection \<open>Counters under the operations\<close>

lemma watch_fields [simp]:
  "hs_slices (watch_add st n hs) = hs_slices hs" "hs_slices (watch_sub st n hs) = hs_slices hs"
  "hs_slices (watch_store st n hs) = hs_slices hs"
  "hs_max_slices (watch_add st n hs) = hs_max_slices hs" "hs_max_slices (watch_sub st n hs) = hs_max_slices hs"
  "hs_max_slices (watch_store st n hs) = hs_max_slices hs"
  "hs_max_block_num (watch_add st n hs) = hs_max_block_num hs" "hs_max_block_num (watch_sub st n hs) = hs_max_block_num hs"
  "hs_max_block_num (watch_store st n hs) = hs_max_block_num hs"
  "hs_final_block_num (watch_add st n hs) = hs_final_block_num hs"
  "hs_final_block_num (watch_sub st n hs) = hs_final_block_num hs"
  "hs_final_block_num (watch_store st n hs) = hs_final_block_num hs"
  by (simp_all add: watch_add_def watch_sub_def watch_store_def)

lemma min_block_num_watch [simp]:
  "min_block_num (watch_add st n hs) = min_block_num hs" "min_block_num (watch_sub st n hs) = min_block_num hs"
  "min_block_num (notify_status_watchers hs) = min_block_num hs"
  by (simp_all add: min_block_num_def watch_add_def watch_sub_def notify_status_watchers_def split: list.split)

lemma count_watch [simp]:
  "count_slices_in_status (watch_add st n hs) st' = count_slices_in_status hs st' + (if st' = st then n else 0)"
  "count_slices_in_status (watch_sub st n hs) st' = count_slices_in_status hs st' - (if st' = st then n else 0)"
  "count_slices_in_status (watch_store st n hs) st' = (if st' = st then n else count_slices_in_status hs st')"
  "count_slices_in_status (hs\<lparr>hs_slices := ss\<rparr>) st' = count_slices_in_status hs st'"
  "count_slices_in_status (hs\<lparr>hs_max_block_num := m\<rparr>) st' = count_slices_in_status hs st'"
  "count_slices_in_status (notify_status_watchers hs) st' = count_slices_in_status hs st'"
  by (simp_all add: count_slices_in_status_def watch_add_def watch_sub_def watch_store_def notify_status_watchers_def)

lemma watch_clear [simp]:
  "count_slices_in_status (watch_clear hs) st = 0" "hs_slices (watch_clear hs) = hs_slices hs"
  "hs_max_slices (watch_clear hs) = hs_max_slices hs" "hs_max_block_num (watch_clear hs) = hs_max_block_num hs"
  "hs_final_block_num (watch_clear hs) = hs_final_block_num hs"
  by (cases st; simp add: watch_clear_def header_slice_status_iter_def)+

lemma notify_fields [simp]:
  "hs_slices (notify_status_watchers hs) = hs_slices hs" "hs_max_slices (notify_status_watchers hs) = hs_max_slices hs"
  "hs_max_block_num (notify_status_watchers hs) = hs_max_block_num hs"
  "hs_final_block_num (notify_status_watchers hs) = hs_final_block_num hs"
  by (simp_all add: notify_status_watchers_def)

lemma status_count_simps [simp]:
  "status_count st [] = 0"
  "status_count st (s # ss) = (if sl_status s = st then 1 else 0) + status_count st ss"
  "status_count st (ss @ ts) = status_count st ss + status_count st ts"
  by (simp_all add: status_count_def)

lemma status_count_update:
  "i < length ss \<Longrightarrow> status_count st (ss[i := s]) + (if sl_status (ss ! i) = st then 1 else 0) =
     status_count st ss + (if sl_status s = st then 1 else 0)"
proof (induction ss arbitrary: i)
  case (Cons t ss)
  then show ?case by (cases i) (use Cons.IH in force)+
qed simp

lemma status_count_le: "status_count st ss \<le> length ss"
  by (simp add: status_count_def)

lemma status_count_pos: "0 < status_count st ss \<longleftrightarrow> (\<exists>i < length ss. sl_status (ss ! i) = st)"
  unfolding status_count_def length_greater_0_conv filter_empty_conv by (metis in_set_conv_nth)

lemma watches_fold:
  "fold (\<lambda>s c. c(sl_status s := c (sl_status s) + 1)) ss c st = c st + of_nat (status_count st ss)"
  for c :: "header_slice_status \<Rightarrow> u64"
  by (induction ss arbitrary: c) auto

lemma make_state_watches [simp]: "sw_count (make_state_watches_from_slices ss st) = of_nat (status_count st ss)"
  by (cases st) (simp_all add: make_state_watches_from_slices_def Let_def watches_fold header_slice_status_iter_def)

subsection \<open>Changing a slice\<close>

lemma set_slice_status_slice [simp]: "snd (set_slice_status hs s st) = s\<lparr>sl_status := st\<rparr>"
  by (simp add: set_slice_status_def Let_def)

lemma set_slice_status_window [simp]:
  "hs_slices (fst (set_slice_status hs s st)) = hs_slices hs"
  "hs_max_slices (fst (set_slice_status hs s st)) = hs_max_slices hs"
  "hs_max_block_num (fst (set_slice_status hs s st)) = hs_max_block_num hs"
  "hs_final_block_num (fst (set_slice_status hs s st)) = hs_final_block_num hs"
  by (simp_all add: set_slice_status_def Let_def)

lemma update_slice_at_fields [simp]:
  "hs_slices (update_slice_at f st g i hs) = (hs_slices hs)[i := g ((f (hs_slices hs ! i))\<lparr>sl_status := st\<rparr>)]"
  "hs_max_slices (update_slice_at f st g i hs) = hs_max_slices hs"
  "hs_max_block_num (update_slice_at f st g i hs) = hs_max_block_num hs"
  "hs_final_block_num (update_slice_at f st g i hs) = hs_final_block_num hs"
  by (simp_all add: update_slice_at_def case_prod_unfold Let_def)

definition keeps_identity :: "(header_slice \<Rightarrow> header_slice) \<Rightarrow> bool" where
  "keeps_identity f \<longleftrightarrow> (\<forall>s. sl_start_block_num (f s) = sl_start_block_num s \<and> sl_status (f s) = sl_status s)"

lemma counts_ok_update_slice_at:
  assumes "counts_ok hs" and "i < length (hs_slices hs)" and "keeps_identity f" and "keeps_identity g"
  shows "counts_ok (update_slice_at f st g i hs)"
  unfolding counts_ok_def
proof
  fix st'
  let ?old = "sl_status (hs_slices hs ! i)" and ?new = "hs_slices (update_slice_at f st g i hs)"
  have "sl_status (g ((f (hs_slices hs ! i))\<lparr>sl_status := st\<rparr>)) = st"
    using assms(4) by (simp add: keeps_identity_def)
  with status_count_update [OF assms(2), of st' "g ((f (hs_slices hs ! i))\<lparr>sl_status := st\<rparr>)"]
  have "status_count st' ?new + (if ?old = st' then 1 else 0) = status_count st' (hs_slices hs) + (if st = st' then 1 else 0)"
    by simp
  from arg_cong [OF this, of "of_nat :: nat \<Rightarrow> u64"]
  have "of_nat (status_count st' ?new) + (if ?old = st' then 1 else 0) =
      (of_nat (status_count st' (hs_slices hs)) + (if st = st' then 1 else 0) :: u64)"
    by (simp only: of_nat_add if_distrib [where f = of_nat] of_nat_1 semiring_1_class.of_nat_0)
  moreover have "count_slices_in_status (update_slice_at f st g i hs) st' =
      count_slices_in_status hs st' + (if st = st' then 1 else 0) - (if ?old = st' then 1 else 0)"
    using assms(3) by (auto simp: update_slice_at_def case_prod_unfold Let_def set_slice_status_def keeps_identity_def)
  ultimately show "count_slices_in_status (update_slice_at f st g i hs) st' = of_nat (status_count st' ?new)"
    using assms(1) unfolding counts_ok_def by (metis add_diff_cancel_right')
qed

lemma positions_ok_cong:
  assumes "positions_ok hs" and "map sl_start_block_num (hs_slices hs') = map sl_start_block_num (hs_slices hs)"
    and "hs_max_block_num hs' = hs_max_block_num hs" and "hs_final_block_num hs' = hs_final_block_num hs"
  shows "positions_ok hs'"
proof -
  from assms(2) have len: "length (hs_slices hs') = length (hs_slices hs)" by (metis length_map)
  have nth: "sl_start_block_num (hs_slices hs' ! i) = sl_start_block_num (hs_slices hs ! i)" if "i < length (hs_slices hs)" for i
    using assms(2) len that by (metis nth_map)
  have "min_block_num hs' = min_block_num hs"
    using assms(2,3) by (auto simp: min_block_num_def split: list.splits)
  with assms len nth show ?thesis by (simp add: positions_ok_def)
qed

lemma slices_ok_update_slice_at:
  assumes "slices_ok hs" and "i < length (hs_slices hs)" and "keeps_identity f" and "keeps_identity g"
  shows "slices_ok (update_slice_at f st g i hs)"
proof -
  have "map sl_start_block_num (hs_slices (update_slice_at f st g i hs)) = map sl_start_block_num (hs_slices hs)"
    using assms(2-4) by (auto simp: keeps_identity_def map_update intro!: nth_equalityI) (metis nth_list_update nth_map list_update_id)
  with assms show ?thesis
    by (auto simp: slices_ok_def counts_ok_update_slice_at intro: positions_ok_cong)
qed

subsection \<open>Moving the window\<close>

lemma remove_loop_eq:
  "remove_loop st cursor n ss =
     (take cursor ss @ filter (\<lambda>s. sl_status s \<noteq> st) (drop cursor ss), n + status_count st (drop cursor ss))"
proof (induction st cursor n ss rule: remove_loop.induct)
  case (1 st cursor n ss)
  show ?case
  proof (cases "cursor < length ss")
    case True
    with 1 show ?thesis
      by (subst remove_loop.simps) (auto simp: Cons_nth_drop_Suc [symmetric] take_Suc_conv_app_nth min_absorb2)
  next
    case False
    then show ?thesis by (subst remove_loop.simps) simp
  qed
qed

lemma remove_slices_fields [simp]:
  "hs_slices (remove_slices st hs) = filter (\<lambda>s. sl_status s \<noteq> st) (hs_slices hs)"
  "hs_max_slices (remove_slices st hs) = hs_max_slices hs"
  "hs_max_block_num (remove_slices st hs) = hs_max_block_num hs"
  "hs_final_block_num (remove_slices st hs) = hs_final_block_num hs"
  by (simp_all add: remove_slices_def remove_loop_eq)

lemma counts_ok_remove: "counts_ok hs \<Longrightarrow> counts_ok (remove_slices st hs)"
proof -
  have "status_count st' (filter (\<lambda>s. sl_status s \<noteq> st) ss) = (if st' = st then 0 else status_count st' ss)" for st' ss
    by (induction ss) auto
  then show "counts_ok hs \<Longrightarrow> counts_ok (remove_slices st hs)"
    by (simp add: counts_ok_def remove_slices_def remove_loop_eq)
qed

lemma min_block_num_max: "positions_ok hs \<Longrightarrow> unat (min_block_num hs) \<le> unat (hs_max_block_num hs)"
  by (simp add: positions_ok_def)

lemma min_block_num_hd: "hs_slices hs \<noteq> [] \<Longrightarrow> min_block_num hs = sl_start_block_num (hs_slices hs ! 0)"
  by (cases "hs_slices hs") (auto simp: min_block_num_def)

lemma positions_ok_drop:
  assumes "positions_ok hs" and "hs_slices hs' = drop k (hs_slices hs)" and "k \<le> length (hs_slices hs)"
    and "hs_max_block_num hs' = hs_max_block_num hs" and "hs_final_block_num hs' = hs_final_block_num hs"
  shows "positions_ok hs'" and "unat (min_block_num hs') = unat (min_block_num hs) + k * 192"
proof -
  show min: "unat (min_block_num hs') = unat (min_block_num hs) + k * 192"
  proof (cases "k < length (hs_slices hs)")
    case True
    with assms show ?thesis by (simp add: min_block_num_hd positions_ok_def)
  next
    case False
    with assms show ?thesis by (simp add: min_block_num_def [of hs'] positions_ok_def)
  qed
  have "unat (hs_max_block_num hs) = unat (min_block_num hs) + length (hs_slices hs) * 192"
    using assms(1) by (simp add: positions_ok_def)
  with min assms show "positions_ok hs'" by (simp add: positions_ok_def diff_mult_distrib algebra_simps)
qed

lemma filter_status_prefix:
  assumes "\<forall>i < k. sl_status (ss ! i) = st" and "\<forall>i. k \<le> i \<and> i < length ss \<longrightarrow> sl_status (ss ! i) \<noteq> st"
    and "k \<le> length ss"
  shows "filter (\<lambda>s. sl_status s \<noteq> st) ss = drop k ss"
proof -
  have "filter (\<lambda>s. sl_status s \<noteq> st) (take k ss) = []"
    using assms by (auto simp: filter_empty_conv in_set_conv_nth)
  moreover have "sl_status (drop k ss ! j) \<noteq> st" if "j < length (drop k ss)" for j
    using assms(2) [rule_format, of "k + j"] assms(3) that by simp
  then have "filter (\<lambda>s. sl_status s \<noteq> st) (drop k ss) = drop k ss"
    by (metis (mono_tags, lifting) filter_True in_set_conv_nth)
  ultimately show ?thesis by (metis append_take_drop_id filter_append self_append_conv2)
qed

lemma slices_ok_remove:
  assumes "slices_ok hs" and "\<forall>i < k. sl_status (hs_slices hs ! i) = st"
    and "\<forall>i. k \<le> i \<and> i < length (hs_slices hs) \<longrightarrow> sl_status (hs_slices hs ! i) \<noteq> st" and "k \<le> length (hs_slices hs)"
  shows "slices_ok (remove_slices st hs)" and "unat (min_block_num (remove_slices st hs)) = unat (min_block_num hs) + k * 192"
    and "hs_slices (remove_slices st hs) = drop k (hs_slices hs)"
  using assms positions_ok_drop [of hs "remove_slices st hs" k] filter_status_prefix [OF assms(2-4)]
  by (simp_all add: slices_ok_def counts_ok_remove)

text \<open>A slice is added behind the last one, unless the block numbers overflow.\<close>

lemma positions_ok_snoc:
  assumes "positions_ok hs" and "unat (hs_max_block_num hs) + 192 < 2 ^ 64"
    and "hs_slices hs' = hs_slices hs @ [s]" and "sl_start_block_num s = hs_max_block_num hs"
    and "hs_max_block_num hs' = hs_max_block_num hs + of_nat HEADER_SLICE_SIZE"
    and "hs_final_block_num hs' = hs_final_block_num hs"
  shows "positions_ok hs'" and "min_block_num hs' = min_block_num hs"
    and "unat (hs_max_block_num hs') = unat (hs_max_block_num hs) + 192"
proof -
  show min: "min_block_num hs' = min_block_num hs"
    using assms(3,4) by (auto simp: min_block_num_def split: list.splits)
  show max: "unat (hs_max_block_num hs') = unat (hs_max_block_num hs) + 192"
    using assms(2,5) by (simp add: HEADER_SLICE_SIZE_def unat_word_ariths)
  show "positions_ok hs'"
    using assms(1,3,4,6) min max by (auto simp: positions_ok_def nth_append less_Suc_eq)
qed

lemma aligned_less:
  fixes m f :: u64
  assumes "192 dvd unat m" and "192 dvd unat f" and "m < f"
  shows "unat m + 192 \<le> unat f"
proof -
  from assms obtain a b where ab: "unat m = 192 * a" "unat f = 192 * b" by (auto elim!: dvdE)
  with assms(3) have "a < b" by (simp add: word_less_nat_alt)
  with ab show ?thesis by simp
qed

lemma positions_ok_max_dvd: "positions_ok hs \<Longrightarrow> 192 dvd unat (hs_max_block_num hs)"
  by (simp add: positions_ok_def)

lemma refill_loop_ok:
  assumes "positions_ok hs" and "refill_loop n hs c = (hs', c')"
  shows "positions_ok hs' \<and> min_block_num hs' = min_block_num hs \<and> hs_max_slices hs' = hs_max_slices hs \<and>
    hs_final_block_num hs' = hs_final_block_num hs \<and> c \<le> c' \<and> c' \<le> c + n \<and>
    (\<forall>st. count_slices_in_status hs' st = count_slices_in_status hs st) \<and>
    (\<exists>new. hs_slices hs' = hs_slices hs @ new \<and> length new = c' - c \<and>
       (\<forall>s \<in> set new. \<exists>n. s = header_slice_default\<lparr>sl_start_block_num := n\<rparr>)) \<and>
    (c' < c + n \<longrightarrow> hs_final_block_num hs \<le> hs_max_block_num hs') \<and>
    (hs_max_block_num hs \<le> hs_final_block_num hs \<longrightarrow> hs_max_block_num hs' \<le> hs_final_block_num hs)"
  using assms
proof (induction n arbitrary: hs c)
  case (Suc n)
  show ?case
  proof (cases "hs_final_block_num hs \<le> hs_max_block_num hs")
    case True
    with Suc.prems show ?thesis by auto
  next
    case False
    define s where "s = header_slice_default\<lparr>sl_start_block_num := hs_max_block_num hs\<rparr>"
    define hs1 where "hs1 = hs\<lparr>hs_slices := hs_slices hs @ [s], hs_max_block_num := hs_max_block_num hs + of_nat HEADER_SLICE_SIZE\<rparr>"
    have run: "refill_loop n hs1 (Suc c) = (hs', c')" using Suc.prems(2) False by (simp add: hs1_def s_def)
    have room: "unat (hs_max_block_num hs) + 192 \<le> unat (hs_final_block_num hs)"
      using Suc.prems(1) False by (intro aligned_less) (auto simp: positions_ok_max_dvd positions_ok_def)
    have "unat (hs_final_block_num hs) < 2 ^ 64" using unsigned_less [of "hs_final_block_num hs", where ?'a = nat] by simp
    with room have lt: "unat (hs_max_block_num hs) + 192 < 2 ^ 64" by linarith
    note snoc = positions_ok_snoc [OF Suc.prems(1) lt, of hs1 s]
    from snoc have ok1: "positions_ok hs1" "min_block_num hs1 = min_block_num hs"
      "unat (hs_max_block_num hs1) = unat (hs_max_block_num hs) + 192"
      by (simp_all add: hs1_def s_def)
    have flds: "hs_slices hs1 = hs_slices hs @ [s]" "hs_max_slices hs1 = hs_max_slices hs"
      "hs_final_block_num hs1 = hs_final_block_num hs" "count_slices_in_status hs1 = count_slices_in_status hs"
      by (auto simp: hs1_def fun_eq_iff)
    have max: "hs_max_block_num hs1 \<le> hs_final_block_num hs1" using ok1(3) room by (simp add: word_le_nat_alt flds)
    from Suc.IH [OF ok1(1) run] obtain new where new: "hs_slices hs' = hs_slices hs1 @ new" "length new = c' - Suc c"
        "\<forall>s \<in> set new. \<exists>n. s = header_slice_default\<lparr>sl_start_block_num := n\<rparr>" and "Suc c \<le> c'"
      by blast
    have "hs_slices hs' = hs_slices hs @ s # new \<and> length (s # new) = c' - c \<and>
       (\<forall>s \<in> set (s # new). \<exists>n. s = header_slice_default\<lparr>sl_start_block_num := n\<rparr>)"
      using new \<open>Suc c \<le> c'\<close> by (auto simp: flds s_def)
    with Suc.IH [OF ok1(1) run] flds ok1(2) max show ?thesis by (auto intro: exI [of _ "s # new"])
  qed
qed auto

text \<open>What refilling gives: empty slices behind the others, as many as fit or until the end is reached.\<close>

lemma refill_ok:
  assumes "slices_ok hs"
  shows "slices_ok (refill hs)" and "min_block_num (refill hs) = min_block_num hs"
    and "hs_max_slices (refill hs) = hs_max_slices hs" and "hs_final_block_num (refill hs) = hs_final_block_num hs"
    and "\<exists>new. hs_slices (refill hs) = hs_slices hs @ new \<and>
       (\<forall>s \<in> set new. \<exists>n. s = header_slice_default\<lparr>sl_start_block_num := n\<rparr>)"
    and "length (hs_slices hs) \<le> hs_max_slices hs \<Longrightarrow> length (hs_slices (refill hs)) \<le> hs_max_slices hs"
    and "length (hs_slices (refill hs)) < hs_max_slices hs \<Longrightarrow> hs_final_block_num hs \<le> hs_max_block_num (refill hs)"
    and "hs_max_block_num hs \<le> hs_final_block_num hs \<Longrightarrow> hs_max_block_num (refill hs) \<le> hs_final_block_num hs"
proof -
  obtain hs' c' where run: "refill_loop (hs_max_slices hs - length (hs_slices hs)) hs 0 = (hs', c')" by fastforce
  then have eq: "refill hs = watch_add Empty (of_nat c') hs'" by (simp add: refill_def)
  from assms have pos: "positions_ok hs" and counts: "counts_ok hs" by (auto simp: slices_ok_def)
  note L = refill_loop_ok [OF pos run]
  then obtain new where new: "hs_slices hs' = hs_slices hs @ new" "length new = c'"
      "\<forall>s \<in> set new. \<exists>n. s = header_slice_default\<lparr>sl_start_block_num := n\<rparr>" by auto
  have "status_count st ss = (if st = Empty then length ss else 0)"
    if "\<forall>s \<in> set ss. \<exists>n. s = header_slice_default\<lparr>sl_start_block_num := n\<rparr>" for st ss
    using that by (induction ss) (auto simp: header_slice_default_def header_slice_status_default_def)
  with new counts L have "counts_ok (refill hs)" by (simp add: eq counts_ok_def)
  moreover have "positions_ok (refill hs)" using L positions_ok_cong [of hs' "refill hs"] by (simp add: eq)
  ultimately show "slices_ok (refill hs)" by (simp add: slices_ok_def)
  show "min_block_num (refill hs) = min_block_num hs" using L by (simp add: eq)
  show "hs_max_slices (refill hs) = hs_max_slices hs" "hs_final_block_num (refill hs) = hs_final_block_num hs"
    using L by (simp_all add: eq)
  show "\<exists>new. hs_slices (refill hs) = hs_slices hs @ new \<and>
       (\<forall>s \<in> set new. \<exists>n. s = header_slice_default\<lparr>sl_start_block_num := n\<rparr>)"
    using new by (auto simp: eq)
  show "length (hs_slices (refill hs)) \<le> hs_max_slices hs" if "length (hs_slices hs) \<le> hs_max_slices hs"
  proof -
    from L have "c' \<le> hs_max_slices hs - length (hs_slices hs)" by simp
    with new that show ?thesis by (simp add: eq)
  qed
  show "hs_final_block_num hs \<le> hs_max_block_num (refill hs)" if "length (hs_slices (refill hs)) < hs_max_slices hs"
    using L new that by (simp add: eq)
  show "hs_max_block_num (refill hs) \<le> hs_final_block_num hs" if "hs_max_block_num hs \<le> hs_final_block_num hs"
    using L that by (simp add: eq)
qed

lemma append_slice_ok:
  assumes "slices_ok hs" and "unat (hs_max_block_num hs) + 192 < 2 ^ 64"
  shows "slices_ok (append_slice hs)"
proof -
  have "positions_ok (append_slice hs)"
    using assms positions_ok_snoc(1) [of hs "append_slice hs" "header_slice_default\<lparr>sl_start_block_num := hs_max_block_num hs\<rparr>"]
    by (simp add: append_slice_def slices_ok_def)
  moreover have "counts_ok (append_slice hs)"
    using assms(1) by (auto simp: slices_ok_def counts_ok_def append_slice_def header_slice_default_def header_slice_status_default_def)
  ultimately show ?thesis by (simp add: slices_ok_def)
qed

lemma prepend_slice_ok:
  assumes "slices_ok hs" and "prepend_slice hs = Inr hs'"
  shows "slices_ok hs'"
proof -
  from assms(2) obtain first rest where ss: "hs_slices hs = first # rest" by (auto simp: prepend_slice_def split: if_splits list.splits)
  define s where "s = header_slice_default\<lparr>sl_start_block_num := sl_start_block_num first - 192\<rparr>"
  from assms(2) ss have hs': "hs' = watch_add Empty 1 (hs\<lparr>hs_slices := s # hs_slices hs\<rparr>)" and ge: "192 \<le> sl_start_block_num first"
    by (auto simp: prepend_slice_def s_def HEADER_SLICE_SIZE_def Let_def not_less split: if_splits)
  have min: "unat (min_block_num hs) = unat (min_block_num hs') + 192"
    using ge ss by (simp add: min_block_num_def hs' s_def unat_sub word_le_nat_alt)
  have start: "unat (sl_start_block_num s) = unat (min_block_num hs')" by (simp add: hs' min_block_num_def)
  from assms(1) have pos: "positions_ok hs" by (simp add: slices_ok_def)
  have "unat (sl_start_block_num (hs_slices hs' ! i)) = unat (min_block_num hs') + i * 192" if "i < length (hs_slices hs')" for i
    using that pos start min by (cases i) (auto simp: positions_ok_def hs')
  moreover have "192 dvd unat (min_block_num hs')"
    using pos min by (metis dvd_add_left_iff dvd_refl positions_ok_def)
  ultimately have "positions_ok hs'" using pos min by (auto simp: positions_ok_def hs')
  moreover have "counts_ok hs'" using assms(1)
    by (auto simp: slices_ok_def counts_ok_def hs' s_def header_slice_default_def header_slice_status_default_def)
  ultimately show ?thesis by (simp add: slices_ok_def)
qed

lemma trim_start_ok:
  assumes "slices_ok hs"
  shows "slices_ok (trim_start_to_fit_max_slices hs) \<and>
    hs_slices (trim_start_to_fit_max_slices hs) = drop (length (hs_slices hs) - hs_max_slices hs) (hs_slices hs) \<and>
    hs_max_slices (trim_start_to_fit_max_slices hs) = hs_max_slices hs"
  using assms
proof (induction hs rule: trim_start_to_fit_max_slices.induct)
  case (1 hs)
  show ?case
  proof (cases "hs_max_slices hs < length (hs_slices hs)")
    case True
    then obtain s ss where ss: "hs_slices hs = s # ss" by (cases "hs_slices hs") auto
    define hs1 where "hs1 = watch_sub (sl_status (hd (hs_slices hs))) 1 (hs\<lparr>hs_slices := tl (hs_slices hs)\<rparr>)"
    have eq: "trim_start_to_fit_max_slices hs = trim_start_to_fit_max_slices hs1"
      using True trim_start_to_fit_max_slices.simps [of hs] by (simp only: hs1_def if_True)
    have flds: "hs_slices hs1 = ss" "hs_max_slices hs1 = hs_max_slices hs" by (simp_all add: hs1_def ss)
    have "counts_ok hs1" using 1(2) by (auto simp: slices_ok_def counts_ok_def hs1_def ss)
    moreover have "positions_ok hs1"
      using 1(2) positions_ok_drop(1) [of hs hs1 1] by (simp add: slices_ok_def hs1_def ss)
    ultimately have "slices_ok hs1" by (simp add: slices_ok_def)
    from 1(1) [OF True, folded hs1_def, OF this] True show ?thesis
      unfolding eq flds by (simp add: ss Suc_diff_le)
  next
    case False
    with 1(2) show ?thesis by (simp add: trim_start_to_fit_max_slices.simps [of hs])
  qed
qed

lemma clear_ok: "192 dvd unat (hs_final_block_num hs) \<Longrightarrow> slices_ok (clear hs)"
  by (simp add: slices_ok_def counts_ok_def positions_ok_def clear_def min_block_num_def)

lemma reset_to_single_slice_ok:
  assumes "192 dvd unat (hs_final_block_num hs)" and "192 dvd unat (sl_start_block_num s)"
    and "unat (sl_start_block_num s) + 192 < 2 ^ 64"
  shows "slices_ok (reset_to_single_slice s hs)"
  using assms
  by (auto simp: slices_ok_def counts_ok_def positions_ok_def reset_to_single_slice_def min_block_num_def
      HEADER_SLICE_SIZE_def unat_word_ariths)

lemma aligned_iff: "is_block_num_aligned_to_slice_start n \<longleftrightarrow> 192 dvd unat n"
  by (simp add: is_block_num_aligned_to_slice_start_def HEADER_SLICE_SIZE_def dvd_eq_mod_eq_0 unat_mod_distrib
      flip: unat_eq_0)

lemma align_le: "unat (align_block_num_to_slice_start n) = unat n div 192 * 192"
proof -
  have "unat n div 192 * 192 < 2 ^ 64"
    using unsigned_less [of n, where ?'a = nat] div_times_less_eq_dividend [of "unat n" 192] by simp
  then show ?thesis by (simp add: align_block_num_to_slice_start_def HEADER_SLICE_SIZE_def unat_word_ariths unat_div)
qed

lemma header_slices_empty_ok: "slices_ok (header_slices_empty n)"
  by (simp add: slices_ok_def counts_ok_def positions_ok_def header_slices_empty_def min_block_num_def count_slices_in_status_def)

lemma from_slices_vec_ok:
  assumes "from_slices_vec ss start (Some m) final = Some hs"
    and "\<And>s rest. ss = s # rest \<Longrightarrow> start = Some (sl_start_block_num s)" and "start = Some n"
    and "\<And>i. i < length ss \<Longrightarrow> unat (sl_start_block_num (ss ! i)) = unat n + i * 192" and "length ss \<le> m"
    and "unat n + m * 192 < 2 ^ 64"
  shows "slices_ok hs" and "min_block_num hs = n" and "length (hs_slices hs) = m" and "hs_max_slices hs = m"
    and "unat (hs_max_block_num hs) = unat n + m * 192"
    and "\<And>f. final = Some f \<Longrightarrow> hs_final_block_num hs = f"
    and "\<And>i. i < m \<Longrightarrow> hs_slices hs ! i = (if i < length ss then ss ! i
      else header_slice_default\<lparr>sl_start_block_num := n + of_nat (i * 192)\<rparr>)"
proof -
  have first: "(case ss of s # _ \<Rightarrow> sl_start_block_num s | [] \<Rightarrow> (case start of Some n \<Rightarrow> n | None \<Rightarrow> 0)) = n"
    using assms(2,3) by (auto split: list.splits)
  define new where "new = map (\<lambda>i. header_slice_default\<lparr>sl_start_block_num := n + of_nat (i * 192)\<rparr>) [length ss..<m]"
  from assms(1) have hs: "hs_slices hs = ss @ new" "hs_max_slices hs = m" "hs_max_block_num hs = n + of_nat (m * 192)"
      "\<And>st. count_slices_in_status hs st = of_nat (status_count st (hs_slices hs))"
      "192 dvd unat n" "192 dvd unat (hs_final_block_num hs)"
    and fin: "\<And>f. final = Some f \<Longrightarrow> hs_final_block_num hs = f"
    using assms(5) unfolding from_slices_vec_def Let_def first
    by (auto simp: new_def HEADER_SLICE_SIZE_def count_slices_in_status_def aligned_iff split: if_splits)
  show "\<And>f. final = Some f \<Longrightarrow> hs_final_block_num hs = f" by (rule fin)
  show len: "length (hs_slices hs) = m" using assms(5) by (simp add: hs new_def)
  show "hs_max_slices hs = m" by (rule hs(2))
  show nth: "hs_slices hs ! i = (if i < length ss then ss ! i
      else header_slice_default\<lparr>sl_start_block_num := n + of_nat (i * 192)\<rparr>)" if "i < m" for i
    using that by (simp add: hs new_def nth_append)
  have offset: "unat (n + of_nat (i * 192)) = unat n + i * 192" if "i \<le> m" for i
  proof -
    have "i * 192 \<le> m * 192" using that by (rule mult_le_mono1)
    with assms(6) have "unat n + i * 192 < 2 ^ 64" by linarith
    then show ?thesis by (simp add: unat_word_ariths unat_of_nat)
  qed
  then show max: "unat (hs_max_block_num hs) = unat n + m * 192" by (simp add: hs)
  have starts: "unat (sl_start_block_num (hs_slices hs ! i)) = unat n + i * 192" if "i < m" for i
    using nth [OF that] assms(4) offset [of i] that by auto
  show min: "min_block_num hs = n"
  proof (cases "m = 0")
    case True
    then show ?thesis using hs len by (simp add: min_block_num_def)
  next
    case False
    then show ?thesis using starts [of 0] len by (subst min_block_num_hd) (auto simp flip: word_unat_eq_iff)
  qed
  show "slices_ok hs" using hs len starts max by (auto simp: slices_ok_def counts_ok_def positions_ok_def min)
qed

lemma slices_for_range:
  fixes t :: u64
  assumes "192 dvd unat t"
  shows "unat ((t + 192 - 1) div 192) * 192 \<le> unat t"
proof -
  obtain k where k: "unat t = 192 * k" using assms by (auto elim: dvdE)
  have eq: "t + 192 - 1 = t + 191" by (simp add: algebra_simps)
  have t: "unat t < 2 ^ 64" using unsigned_less [of t, where ?'a = nat] by simp
  have "unat (t + 191) = (unat t + 191) mod 2 ^ 64" by (simp add: unat_word_ariths)
  moreover have "(unat t + 191) mod 2 ^ 64 div 192 \<le> k"
  proof (cases "unat t + 191 < 2 ^ 64")
    case True
    then show ?thesis by (simp add: k)
  next
    case False
    then have "(unat t + 191) mod 2 ^ 64 = unat t + 191 - 2 ^ 64"
      using t by (subst le_mod_geq) (auto intro: mod_less)
    also have "\<dots> < 192" using t by simp
    finally show ?thesis by simp
  qed
  ultimately show ?thesis by (simp add: eq unat_div k)
qed

lemma header_slices_new_ok:
  assumes "header_slices_new header_bytes mem_limit start final = Some hs" and "start \<le> final"
  shows "slices_ok hs" and "min_block_num hs = start" and "hs_final_block_num hs = final"
    and "length (hs_slices hs) = hs_max_slices hs" and "hs_max_block_num hs \<le> final"
    and "\<And>i. i < length (hs_slices hs) \<Longrightarrow> hs_slices hs ! i = header_slice_default\<lparr>sl_start_block_num := start + of_nat (i * 192)\<rparr>"
proof -
  define m where "m = unat (min (estimate_max_slices_for_mem_limit header_bytes mem_limit) ((final - start + 192 - 1) div 192))"
  have run: "from_slices_vec [] (Some start) (Some m) (Some final) = Some hs"
    using assms(1) by (simp add: header_slices_new_def Let_def m_def HEADER_SLICE_SIZE_def)
  then have "192 dvd unat start" "192 dvd unat final" by (auto simp: from_slices_vec_def Let_def aligned_iff split: if_splits)
  moreover have total: "unat (final - start) = unat final - unat start" using assms(2) by (simp add: unat_sub)
  ultimately have "192 dvd unat (final - start)" by simp
  note slices_for_range [OF this]
  moreover have "m \<le> unat ((final - start + 192 - 1) div 192)" by (simp add: m_def flip: word_le_nat_alt)
  ultimately have "m * 192 \<le> unat final - unat start"
    unfolding total by (meson mult_le_mono1 order_trans)
  moreover have "unat start \<le> unat final" using assms(2) by (simp add: word_le_nat_alt)
  ultimately have le: "unat start + m * 192 \<le> unat final" by linarith
  have "unat final < 2 ^ 64" using unsigned_less [of final, where ?'a = nat] by simp
  with le have lt: "unat start + m * 192 < 2 ^ 64" by linarith
  note vec = from_slices_vec_ok [OF run _ refl _ _ lt, simplified]
  show "slices_ok hs" "min_block_num hs = start" "hs_final_block_num hs = final" "length (hs_slices hs) = hs_max_slices hs"
    using vec(1,2,3,4,6) by simp_all
  show "hs_max_block_num hs \<le> final" using vec(5) le by (simp add: word_le_nat_alt)
  show "hs_slices hs ! i = header_slice_default\<lparr>sl_start_block_num := start + of_nat (i * 192)\<rparr>"
    if "i < length (hs_slices hs)" for i
    using vec(7) [of i] vec(3) that by simp
qed

section \<open>Searching well-formed windows\<close>

lemma slices_ok_length: "slices_ok hs \<Longrightarrow> length (hs_slices hs) < 2 ^ 64"
  using unsigned_less [of "hs_max_block_num hs", where ?'a = nat] by (simp add: slices_ok_def positions_ok_def)

text \<open>A counter tells whether a status occurs, and whether all slices have it.\<close>

lemma count_slices_in_status_unat:
  "slices_ok hs \<Longrightarrow> unat (count_slices_in_status hs st) = status_count st (hs_slices hs)"
  using slices_ok_length [of hs] status_count_le [of st "hs_slices hs"]
  by (simp add: slices_ok_def counts_ok_def unat_of_nat)

lemma contains_status_iff:
  "slices_ok hs \<Longrightarrow> contains_status hs st \<longleftrightarrow> (\<exists>i < length (hs_slices hs). sl_status (hs_slices hs ! i) = st)"
  by (simp add: contains_status_def word_less_nat_alt count_slices_in_status_unat status_count_pos)

lemma status_count_all: "status_count st ss = length ss \<longleftrightarrow> (\<forall>i < length ss. sl_status (ss ! i) = st)"
proof -
  have "status_count st ss = length ss \<longleftrightarrow> (\<forall>s \<in> set ss. sl_status s = st)"
  proof (induction ss)
    case (Cons s ss)
    with status_count_le [of st ss] show ?case by auto
  qed simp
  then show ?thesis by (simp add: all_set_conv_all_nth)
qed

lemma all_in_status_iff:
  assumes "slices_ok hs"
  shows "all_in_status hs st \<longleftrightarrow> (\<forall>i < length (hs_slices hs). sl_status (hs_slices hs ! i) = st)"
proof -
  have "all_in_status hs st \<longleftrightarrow> unat (count_slices_in_status hs st) = unat (of_nat (length (hs_slices hs)) :: u64)"
    by (simp add: all_in_status_def word_unat_eq_iff)
  also have "unat (of_nat (length (hs_slices hs)) :: u64) = length (hs_slices hs)"
    using slices_ok_length [OF assms] by (simp add: unat_of_nat)
  finally show ?thesis by (simp add: count_slices_in_status_unat [OF assms] status_count_all)
qed

lemma find_slice_Some:
  "find_slice P hs = Some i \<longleftrightarrow> i < length (hs_slices hs) \<and> P (hs_slices hs ! i) \<and> (\<forall>j < i. \<not> P (hs_slices hs ! j))"
  by (auto simp: find_slice_def find_Some_iff)

lemma find_slice_None: "find_slice P hs = None \<longleftrightarrow> (\<forall>i < length (hs_slices hs). \<not> P (hs_slices hs ! i))"
  by (auto simp: find_slice_def find_None_iff)

lemma start_block_num_inj:
  assumes "slices_ok hs" and "i < length (hs_slices hs)" and "j < length (hs_slices hs)"
    and "sl_start_block_num (hs_slices hs ! i) = sl_start_block_num (hs_slices hs ! j)"
  shows "i = j"
  using assms by (metis (no_types, lifting) add_left_cancel mult_cancel2 positions_ok_def slices_ok_def zero_neq_numeral)

lemma find_by_start_block_num_iff:
  "slices_ok hs \<Longrightarrow> find_by_start_block_num hs n = Some i \<longleftrightarrow>
     i < length (hs_slices hs) \<and> sl_start_block_num (hs_slices hs ! i) = n"
  by (auto simp: find_by_start_block_num_def find_slice_Some) (metis less_trans nat_neq_iff start_block_num_inj)

lemma find_by_block_num_iff:
  assumes "slices_ok hs"
  shows "find_by_block_num hs n = Some i \<longleftrightarrow>
    i < length (hs_slices hs) \<and> sl_start_block_num (hs_slices hs ! i) = align_block_num_to_slice_start n \<and>
    range_contains (block_num_range (hs_slices hs ! i)) n"
proof (cases "find_by_start_block_num hs (align_block_num_to_slice_start n)")
  case None
  then have "find_by_block_num hs n = None" by (simp add: find_by_block_num_def)
  with None show ?thesis by (auto simp: find_by_start_block_num_def find_slice_None)
next
  case (Some j)
  then have "find_by_block_num hs n = (if range_contains (block_num_range (hs_slices hs ! j)) n then Some j else None)"
    by (simp add: find_by_block_num_def)
  moreover have "i = j" if "i < length (hs_slices hs)" "sl_start_block_num (hs_slices hs ! i) = align_block_num_to_slice_start n"
    using that Some find_by_start_block_num_iff [OF assms] start_block_num_inj [OF assms] by metis
  ultimately show ?thesis using Some by (auto simp: find_by_start_block_num_iff [OF assms])
qed

lemma find_batch_from_eq:
  "find_batch_from st n ss batch is = batch @
     (if length batch < n then take (n - length batch) (filter (\<lambda>i. sl_status (ss ! i) = st) is)
      else filter (\<lambda>i. sl_status (ss ! i) = st) is)"
  by (induction st n ss batch "is" rule: find_batch_from.induct) (auto simp: Let_def Suc_diff_Suc take_Cons' not_less_eq)

text \<open>A batch is the first positions in the status; a batch size of zero asks for all of them.\<close>

lemma find_batch_by_status_eq:
  "find_batch_by_status hs st n =
     (if n = 0 then id else take n) (filter (\<lambda>i. sl_status (hs_slices hs ! i) = st) [0..<length (hs_slices hs)])"
  by (simp add: find_batch_by_status_def find_batch_from_eq)

text \<open>The first block of the window that \<open>from_slices_vec\<close> builds, and its size.\<close>

definition vec_start :: "header_slice list \<Rightarrow> block_number option \<Rightarrow> block_number" where
  "vec_start ss start = (case ss of s # _ \<Rightarrow> sl_start_block_num s | [] \<Rightarrow> (case start of Some n \<Rightarrow> n | None \<Rightarrow> 0))"

definition vec_size :: "header_slice list \<Rightarrow> nat option \<Rightarrow> nat" where
  "vec_size ss limit = (case limit of Some m \<Rightarrow> m | None \<Rightarrow> length ss)"

lemma from_slices_vec_type:
  assumes "from_slices_vec ss start limit final = Some hs" and "length ss \<le> vec_size ss limit"
    and "unat (vec_start ss start) + vec_size ss limit * 192 < 2 ^ 64"
    and "\<forall>i < length ss. unat (sl_start_block_num (ss ! i)) = unat (vec_start ss start) + i * 192"
  shows "slices_ok hs \<and> min_block_num hs = vec_start ss start \<and> length (hs_slices hs) = vec_size ss limit"
proof -
  have "from_slices_vec ss (Some (vec_start ss start)) (Some (vec_size ss limit)) final = from_slices_vec ss start limit final"
    by (cases ss; cases start; cases limit; simp add: from_slices_vec_def vec_start_def vec_size_def Let_def)
  with assms(1) have "from_slices_vec ss (Some (vec_start ss start)) (Some (vec_size ss limit)) final = Some hs" by simp
  from from_slices_vec_ok(1-3) [OF this _ refl _ assms(2,3)] assms(4) show ?thesis by (simp add: vec_start_def)
qed

text \<open>C20. The window is well-formed (the counter of each status is the number of slices in that status,
  the slices are adjacent, start at multiples of the slice size and end at \<open>max_block_num\<close>) when it
  is created over an ordered range, or from a vector of adjacent slices that fits the size and
  ends below \<open>2 ^ 64\<close>.  It stays so, without a condition, under the notification of the watchers,
  refilling, clearing, trimming (which brings it down to the maximal size) and a prepending that
  succeeds; and under a change of the status and contents of one of its slices that keeps its
  first block, appending while there is room below \<open>2 ^ 64\<close>, the reset to an aligned slice below
  it, and the removal of a status if the slices in it are the first ones, which moves the window
  up by the slices removed.  The counters are exact after any removal.\<close>

theorem window_operations_type:
  assumes "slices_ok hs"
  shows "(header_slices_new header_bytes mem_limit start final = Some w \<and> start \<le> final \<longrightarrow>
      slices_ok w \<and> min_block_num w = start \<and> hs_max_block_num w \<le> final) \<and>
    (from_slices_vec ss start_opt max_opt final_opt = Some w' \<and> length ss \<le> vec_size ss max_opt \<and>
      unat (vec_start ss start_opt) + vec_size ss max_opt * 192 < 2 ^ 64 \<and>
      (\<forall>i < length ss. unat (sl_start_block_num (ss ! i)) = unat (vec_start ss start_opt) + i * 192) \<longrightarrow>
      slices_ok w' \<and> min_block_num w' = vec_start ss start_opt \<and> length (hs_slices w') = vec_size ss max_opt) \<and>
    slices_ok (notify_status_watchers hs) \<and> slices_ok (refill hs) \<and> slices_ok (clear hs) \<and>
    slices_ok (trim_start_to_fit_max_slices hs) \<and>
    length (hs_slices (trim_start_to_fit_max_slices hs)) \<le> hs_max_slices hs \<and>
    (prepend_slice hs = Inr hs' \<longrightarrow> slices_ok hs') \<and>
    (i < length (hs_slices hs) \<and> keeps_identity f \<and> keeps_identity g \<longrightarrow> slices_ok (update_slice_at f st g i hs)) \<and>
    (unat (hs_max_block_num hs) + 192 < 2 ^ 64 \<longrightarrow> slices_ok (append_slice hs)) \<and>
    (192 dvd unat (sl_start_block_num s) \<and> unat (sl_start_block_num s) + 192 < 2 ^ 64 \<longrightarrow>
      slices_ok (reset_to_single_slice s hs)) \<and>
    counts_ok (remove_slices st hs) \<and>
    (k \<le> length (hs_slices hs) \<and> (\<forall>i < length (hs_slices hs). sl_status (hs_slices hs ! i) = st \<longleftrightarrow> i < k) \<longrightarrow>
      slices_ok (remove_slices st hs) \<and> unat (min_block_num (remove_slices st hs)) = unat (min_block_num hs) + k * 192)"
proof (intro conjI impI)
  show "slices_ok (notify_status_watchers hs)"
    using assms positions_ok_cong [of hs "notify_status_watchers hs"] by (simp add: slices_ok_def counts_ok_def)
  show "slices_ok (clear hs)" using assms by (intro clear_ok) (simp add: slices_ok_def positions_ok_def)
  show "length (hs_slices (trim_start_to_fit_max_slices hs)) \<le> hs_max_slices hs"
    using trim_start_ok [OF assms] by simp
  show "counts_ok (remove_slices st hs)" using assms by (simp add: slices_ok_def counts_ok_remove)
  assume "k \<le> length (hs_slices hs) \<and> (\<forall>i < length (hs_slices hs). sl_status (hs_slices hs ! i) = st \<longleftrightarrow> i < k)"
  with slices_ok_remove [OF assms, of k st] show "slices_ok (remove_slices st hs)"
    and "unat (min_block_num (remove_slices st hs)) = unat (min_block_num hs) + k * 192" by auto
next
  assume "from_slices_vec ss start_opt max_opt final_opt = Some w' \<and> length ss \<le> vec_size ss max_opt \<and>
      unat (vec_start ss start_opt) + vec_size ss max_opt * 192 < 2 ^ 64 \<and>
      (\<forall>i < length ss. unat (sl_start_block_num (ss ! i)) = unat (vec_start ss start_opt) + i * 192)"
  with from_slices_vec_type show "slices_ok w'" "min_block_num w' = vec_start ss start_opt"
    "length (hs_slices w') = vec_size ss max_opt" by blast+
next
  assume "192 dvd unat (sl_start_block_num s) \<and> unat (sl_start_block_num s) + 192 < 2 ^ 64"
  with assms show "slices_ok (reset_to_single_slice s hs)"
    by (intro reset_to_single_slice_ok) (auto simp: slices_ok_def positions_ok_def)
qed (use assms in \<open>auto simp: header_slices_new_ok slices_ok_update_slice_at refill_ok trim_start_ok prepend_slice_ok
      append_slice_ok\<close>)

text \<open>A window of two slices: the first is saved and removed, and the window moves up to block 192.\<close>

definition sample_pair_window :: header_slices where
  "sample_pair_window = the (header_slices_new 1 1000 0 384)"

lemma sample_pair_window:
  "header_slices_new 1 1000 0 384 = Some sample_pair_window"
  "hs_slices sample_pair_window = [header_slice_default, header_slice_default\<lparr>sl_start_block_num := 192\<rparr>]"
  "slices_ok sample_pair_window"
proof -
  show some: "header_slices_new 1 1000 0 384 = Some sample_pair_window"
    by (simp add: sample_pair_window_def header_slices_new_def from_slices_vec_def Let_def HEADER_SLICE_SIZE_def
        is_block_num_aligned_to_slice_start_def)
  show "slices_ok sample_pair_window" using header_slices_new_ok(1) [OF some] by simp
  show "hs_slices sample_pair_window = [header_slice_default, header_slice_default\<lparr>sl_start_block_num := 192\<rparr>]"
    by (simp add: sample_pair_window_def header_slices_new_def from_slices_vec_def Let_def HEADER_SLICE_SIZE_def
        is_block_num_aligned_to_slice_start_def estimate_max_slices_for_mem_limit_def header_slice_default_def upt_rec)
qed

theorem window_operations_type_witness:
  "slices_ok (update_slice_at (\<lambda>s. s) Saved (\<lambda>s. s) 0 sample_pair_window) \<and>
   slices_ok (remove_slices Saved (update_slice_at (\<lambda>s. s) Saved (\<lambda>s. s) 0 sample_pair_window)) \<and>
   unat (min_block_num (remove_slices Saved (update_slice_at (\<lambda>s. s) Saved (\<lambda>s. s) 0 sample_pair_window))) = 192"
proof -
  let ?w = "update_slice_at (\<lambda>s. s) Saved (\<lambda>s. s) 0 sample_pair_window"
  have w: "slices_ok ?w"
    using window_operations_type [OF sample_pair_window(3), where i = 0 and f = "\<lambda>s. s" and g = "\<lambda>s. s" and st = Saved]
    by (simp add: sample_pair_window(2) keeps_identity_def)
  have "hs_slices ?w = [header_slice_default\<lparr>sl_status := Saved\<rparr>, header_slice_default\<lparr>sl_start_block_num := 192\<rparr>]"
    by (simp add: sample_pair_window(2))
  moreover from this have "min_block_num ?w = 0" by (simp add: min_block_num_def header_slice_default_def)
  ultimately show ?thesis
    using w window_operations_type [OF w, where k = 1 and st = Saved]
    by (simp add: less_Suc_eq header_slice_default_def header_slice_status_default_def)
qed

end
