(* ===== verification/Header_Stages.thy ===== *)
theory Header_Stages
  imports
    Header_Slices
begin

text \<open>
  The stages of the header downloader
  (\<^verbatim>\<open>downloader/headers_downloader/stages\<close>): requesting slices, receiving them, retrying, verifying
  them one by one (against the consensus rules or against hashes known in advance), linking them to
  the chain, penalizing peers, saving, and moving the window.  The network is a parameter: the
  outcome of sending a request and the messages that arrive.  The clock is a parameter too.  A
  stage that fails returns an error, a panic is \<open>None\<close>.  The tables the stages write are the record
  \<open>header_db\<close>.
\<close>

section \<open>Waiting for a status\<close>

definition pending_count :: "header_slice_status \<Rightarrow> header_slices \<Rightarrow> u64" where
  "pending_count status hs = count_slices_in_status hs status"

text \<open>The wait returns at once, or when the value in the channel is another one.\<close>

definition wait_while :: "header_slice_status \<Rightarrow> u64 \<Rightarrow> header_slices \<Rightarrow> bool" where
  "wait_while status v hs \<longleftrightarrow> pending_count status hs \<noteq> v \<or> watch_status_changes hs status \<noteq> v"

definition wait :: "header_slice_status \<Rightarrow> header_slices \<Rightarrow> bool" where
  "wait status hs = wait_while status 0 hs"

definition pending_counts :: "header_slice_status \<Rightarrow> header_slices \<Rightarrow> header_slice_status \<Rightarrow> header_slices \<Rightarrow> u64 \<times> u64" where
  "pending_counts status1 hs1 status2 hs2 = (pending_count status1 hs1, pending_count status2 hs2)"

definition wait_while_all ::
    "header_slice_status \<Rightarrow> header_slices \<Rightarrow> header_slice_status \<Rightarrow> header_slices \<Rightarrow> u64 \<times> u64 \<Rightarrow> bool" where
  "wait_while_all status1 hs1 status2 hs2 values \<longleftrightarrow>
     pending_count status1 hs1 \<noteq> fst values \<or> pending_count status2 hs2 \<noteq> snd values \<or>
     \<not> (watch_status_changes hs1 status1 = fst values \<and> watch_status_changes hs2 status2 = snd values)"

section \<open>Requesting slices\<close>

record get_block_headers =
  gbh_request_id :: u64
  gbh_start_block :: block_number
  gbh_limit :: u64
  gbh_skip :: u64
  gbh_reverse :: u64

datatype send_result = Sent | SendQueueFull | ReactorStopped | SendFailed

definition request :: "(get_block_headers \<Rightarrow> send_result) \<Rightarrow> u64 \<Rightarrow> block_number \<Rightarrow> u64 \<Rightarrow> send_result" where
  "request send request_id block_num limit =
     send \<lparr> gbh_request_id = request_id, gbh_start_block = block_num, gbh_limit = limit, gbh_skip = 0, gbh_reverse = 0 \<rparr>"

definition request_slice ::
    "(get_block_headers \<Rightarrow> send_result) \<Rightarrow> nat \<Rightarrow> nat \<Rightarrow> header_slices \<times> u64 \<Rightarrow> nat \<Rightarrow>
       ((header_slices \<times> u64) \<times> send_result option, header_slices \<times> u64) control_flow" where
  "request_slice send slice_size now st i =
     (let (hs, last_request_id) = st; s = hs_slices hs ! i
      in if sl_status s = Empty
         then let request_id = last_request_id; last_request_id = last_request_id + 1
              in (case request send request_id (sl_start_block_num s) (of_nat slice_size) of
                    SendQueueFull \<Rightarrow> Break ((hs, last_request_id), None)
                  | Sent \<Rightarrow> Continue (update_slice_at (\<lambda>s. s\<lparr>sl_request_time := Some now\<rparr>) Waiting (\<lambda>s. s) i hs, last_request_id)
                  | error \<Rightarrow> Break ((hs, last_request_id), Some error))
         else Continue (hs, last_request_id))"

text \<open>The result: the window, the identifier of the next request, and the error if there is one.\<close>

definition request_pending ::
    "(get_block_headers \<Rightarrow> send_result) \<Rightarrow> nat \<Rightarrow> nat \<Rightarrow> u64 \<Rightarrow> header_slices \<Rightarrow> (header_slices \<times> u64) \<times> send_result option" where
  "request_pending send slice_size now last_request_id hs =
     (case try_fold (request_slice send slice_size now) hs (hs, last_request_id) of
        Break break_result \<Rightarrow> break_result
      | Continue st \<Rightarrow> (st, None))"

section \<open>Receiving slices\<close>

definition update_slice :: "cached_header list \<Rightarrow> peer_id option \<Rightarrow> nat \<Rightarrow> header_slices \<Rightarrow> header_slices" where
  "update_slice headers from_peer_id =
     update_slice_at (\<lambda>s. s\<lparr>sl_headers := Some headers, sl_from_peer_id := from_peer_id\<rparr>) Downloaded (\<lambda>s. s)"

definition on_headers_message :: "block_header list \<Rightarrow> peer_id option \<Rightarrow> header_slices \<Rightarrow> header_slices" where
  "on_headers_message headers from_peer_id hs = (case headers of
       [] \<Rightarrow> hs
     | first # _ \<Rightarrow>
         (case find_by_start_block_num hs (h_number first) of
            None \<Rightarrow> hs
          | Some i \<Rightarrow>
              if sl_status (hs_slices hs ! i) = Waiting
              then update_slice (map cached_header_from headers) from_peer_id i hs
              else hs))"

section \<open>Retrying\<close>

text \<open>Instants and durations are numbers of nanoseconds; a negative duration saturates at zero.\<close>

definition timeout_for_attempt :: "u16 \<Rightarrow> nat" where
  "timeout_for_attempt attempt =
     (if attempt = 0 then 5 else if attempt = 1 then 10 else if attempt = 2 then 15 else 30) * 10 ^ 9"

definition is_waiting_timeout_expired :: "header_slice \<Rightarrow> nat \<Rightarrow> bool" where
  "is_waiting_timeout_expired s now = (case sl_request_time s of
       None \<Rightarrow> False
     | Some request_time \<Rightarrow> timeout_for_attempt (sl_request_attempt s) < now - request_time)"

definition retry_reset_pending :: "nat \<Rightarrow> header_slices \<Rightarrow> header_slices \<times> nat" where
  "retry_reset_pending now hs =
     for_each (\<lambda>i (hs, count).
       let s = hs_slices hs ! i
       in if sl_status s = Waiting \<and> is_waiting_timeout_expired s now
          then (update_slice_at (\<lambda>s. s\<lparr>sl_request_time := None, sl_request_attempt := sl_request_attempt s + 1\<rparr>)
                  Empty (\<lambda>s. s) i hs, Suc count)
          else (hs, count)) hs (hs, 0)"

section \<open>Verifying slices\<close>

record downloader_env =
  env_rlp :: "block_header \<Rightarrow> bytes"
  env_keccak :: "bytes \<Rightarrow> h256"
  env_chain_spec :: chain_spec
  env_genesis_hash :: h256

abbreviation env_hash :: "downloader_env \<Rightarrow> cached_header \<Rightarrow> h256" where
  "env_hash e \<equiv> cached_hash (env_rlp e) (env_keccak e)"

definition prepare_slice_hashes :: "downloader_env \<Rightarrow> header_slice \<Rightarrow> header_slice" where
  "prepare_slice_hashes e s = s\<lparr>sl_headers := map_option (map (hash_prepare (env_rlp e) (env_keccak e))) (sl_headers s)\<rparr>"

text \<open>
  The verification of a batch: every slice of it is prepared and verified, then the statuses are set.
  The check of one slice and the status of the good ones are parameters, since the two verifying
  stages share this code.
\<close>

definition verify_slices_parallel ::
    "downloader_env \<Rightarrow> (header_slice \<Rightarrow> bool option) \<Rightarrow> nat list \<Rightarrow> header_slices \<Rightarrow> (header_slices \<times> bool list) option" where
  "verify_slices_parallel e accepts batch hs =
     (let hs = hs\<lparr>hs_slices := fold (\<lambda>i ss. ss[i := prepare_slice_hashes e (ss ! i)]) batch (hs_slices hs)\<rparr>
      in map_option (Pair hs) (those (map (\<lambda>i. accepts (hs_slices hs ! i)) batch)))"

definition set_verified :: "header_slice_status \<Rightarrow> (nat \<times> bool) list \<Rightarrow> header_slices \<Rightarrow> header_slices" where
  "set_verified good = fold (\<lambda>(i, is_verified). update_slice_at (\<lambda>s. s) (if is_verified then good else Invalid) (\<lambda>s. s) i)"

partial_function (option) verify_pending_batches ::
    "downloader_env \<Rightarrow> (header_slice \<Rightarrow> bool option) \<Rightarrow> header_slice_status \<Rightarrow> nat \<Rightarrow> header_slices \<Rightarrow> header_slices option" where
  "verify_pending_batches e accepts good cpus hs =
     (let batch = find_batch_by_status hs Downloaded cpus
      in if batch = [] then Some hs
         else Option.bind (verify_slices_parallel e accepts batch hs)
           (\<lambda>(hs', slices_verified). verify_pending_batches e accepts good cpus (set_verified good (zip batch slices_verified) hs')))"

declare verify_pending_batches.simps [code]

text \<open>The rules of the consensus engine; \<open>now\<close> gives the clock when a slice is verified.\<close>

definition verify_slice_stage :: "downloader_env \<Rightarrow> (block_number \<Rightarrow> u64) \<Rightarrow> header_slice \<Rightarrow> bool option" where
  "verify_slice_stage e now s = (case sl_headers s of
       None \<Rightarrow> Some False
     | Some headers \<Rightarrow>
         verify_slice (env_hash e) (env_chain_spec e) headers (sl_start_block_num s) (now (sl_start_block_num s)))"

definition verify_slices_pending :: "downloader_env \<Rightarrow> (block_number \<Rightarrow> u64) \<Rightarrow> nat \<Rightarrow> header_slices \<Rightarrow> header_slices option" where
  "verify_slices_pending e now = verify_pending_batches e (verify_slice_stage e now) VerifiedInternally"

text \<open>The hashes known in advance: those of every 192nd block.\<close>

definition preverified_hash :: "h256 list \<Rightarrow> block_number \<Rightarrow> h256 option" where
  "preverified_hash hashes block_num =
     (let preverified_step_size = of_nat HEADER_SLICE_SIZE
      in if block_num mod preverified_step_size \<noteq> 0 then None
         else let index = unat (block_num div preverified_step_size)
              in if index < length hashes then Some (hashes ! index) else None)"

definition verify_preverified_slice :: "downloader_env \<Rightarrow> h256 list \<Rightarrow> header_slice \<Rightarrow> bool" where
  "verify_preverified_slice e hashes s = (case sl_headers s of
       None \<Rightarrow> False
     | Some headers \<Rightarrow>
         if headers = [] then False
         else case preverified_hash hashes (sl_start_block_num s) of
           None \<Rightarrow> False
         | Some expected_first_hash \<Rightarrow>
             if env_hash e (hd headers) \<noteq> expected_first_hash then False
             else case preverified_hash hashes (sl_start_block_num s + of_nat (length headers) - 1) of
               None \<Rightarrow> False
             | Some expected_last_hash \<Rightarrow>
                 if env_hash e (last headers) \<noteq> expected_last_hash then False
                 else verify_slice_is_linked_by_parent_hash (env_hash e) headers)"

definition verify_preverified_pending :: "downloader_env \<Rightarrow> h256 list \<Rightarrow> nat \<Rightarrow> header_slices \<Rightarrow> header_slices option" where
  "verify_preverified_pending e hashes =
     verify_pending_batches e (\<lambda>s. Some (verify_preverified_slice e hashes s)) Verified"

section \<open>Linking slices to the chain\<close>

record link_stage =
  lk_invalid_status :: header_slice_status
  lk_last_verified_header :: "cached_header option"
  lk_remaining_count :: u64

text \<open>The last slice of the verified prefix, and its last header.\<close>

definition find_last_verified_header :: "header_slices \<Rightarrow> cached_header option" where
  "find_last_verified_header hs =
     (let slices = takeWhile (\<lambda>s. sl_status s = Verified \<or> sl_status s = Saved) (hs_slices hs)
      in if slices = [] then None
         else case sl_headers (last slices) of
           None \<Rightarrow> None
         | Some headers \<Rightarrow> if headers = [] then None else Some (last headers))"

definition link_stage_new :: "header_slices \<Rightarrow> cached_header option \<Rightarrow> header_slice_status \<Rightarrow> link_stage option" where
  "link_stage_new hs last_verified_header invalid_status =
     (let last_ok = (case last_verified_header of None \<Rightarrow> True | Some h \<Rightarrow> cnum h + 1 = min_block_num hs)
      in if \<not> last_ok then None
         else Some \<lparr> lk_invalid_status = invalid_status,
                lk_last_verified_header = (case find_last_verified_header hs of None \<Rightarrow> last_verified_header | Some h \<Rightarrow> Some h),
                lk_remaining_count = 0 \<rparr>)"

definition link_find_next_pending :: "header_slices \<Rightarrow> nat option" where
  "link_find_next_pending hs =
     (case try_fold (\<lambda>_ i. case sl_status (hs_slices hs ! i) of
          Verified \<Rightarrow> Continue None | Saved \<Rightarrow> Continue None
        | VerifiedInternally \<Rightarrow> Break (Some i) | _ \<Rightarrow> Break None) hs (None :: nat option) of
        Break slice_opt \<Rightarrow> slice_opt
      | Continue _ \<Rightarrow> None)"

definition verify_slice_link :: "downloader_env \<Rightarrow> header_slice \<Rightarrow> cached_header option \<Rightarrow> bool option" where
  "verify_slice_link e s parent = (case sl_headers s of
       None \<Rightarrow> Some False
     | Some headers \<Rightarrow>
         if headers = [] then Some False
         else if length headers \<noteq> HEADER_SLICE_SIZE then Some False
         else let child = hd headers
              in if cnum child = 0 then Some (env_hash e child = env_genesis_hash e)
                 else case parent of
                   None \<Rightarrow> Some False
                 | Some parent \<Rightarrow> verify_link (env_hash e) (env_chain_spec e) child parent)"

definition verify_pending_slice ::
    "downloader_env \<Rightarrow> nat \<Rightarrow> link_stage \<times> header_slices \<Rightarrow> ((link_stage \<times> header_slices) \<times> bool) option" where
  "verify_pending_slice e i st =
     (let (lk, hs) = st; s = hs_slices hs ! i
      in map_option (\<lambda>is_verified.
           if is_verified
           then ((case sl_headers s of
                    Some headers \<Rightarrow> if headers = [] then lk else lk\<lparr>lk_last_verified_header := Some (last headers)\<rparr>
                  | None \<Rightarrow> lk,
                  update_slice_at (\<lambda>s. s) Verified (\<lambda>s. s) i hs), True)
           else ((lk, update_slice_at (\<lambda>s. s) (lk_invalid_status lk) (\<lambda>s. s) i hs), False))
         (verify_slice_link e s (lk_last_verified_header lk)))"

fun verify_pending_monotonic ::
    "downloader_env \<Rightarrow> nat \<Rightarrow> nat \<Rightarrow> link_stage \<times> header_slices \<Rightarrow> ((link_stage \<times> header_slices) \<times> nat) option" where
  "verify_pending_monotonic e 0 updated_count st = Some (st, updated_count)"
| "verify_pending_monotonic e (Suc n) updated_count st =
     (case link_find_next_pending (snd st) of
        None \<Rightarrow> Some (st, updated_count)
      | Some i \<Rightarrow>
          (case verify_pending_slice e i st of
             None \<Rightarrow> None
           | Some (st, is_verified) \<Rightarrow>
               if is_verified then verify_pending_monotonic e n (Suc updated_count) st
               else Some (st, Suc updated_count)))"

definition link_execute :: "downloader_env \<Rightarrow> link_stage \<times> header_slices \<Rightarrow> (link_stage \<times> header_slices) option" where
  "link_execute e st =
     (let count = pending_count VerifiedInternally (snd st)
      in map_option (\<lambda>((lk, hs), updated_count). (lk\<lparr>lk_remaining_count := count - of_nat updated_count\<rparr>, hs))
           (verify_pending_monotonic e (unat count) 0 st))"

section \<open>Penalizing peers\<close>

definition collect_bad_peers :: "header_slices \<Rightarrow> peer_id hash_set" where
  "collect_bad_peers hs =
     for_each (\<lambda>i peers.
       let s = hs_slices hs ! i
       in if sl_status s = Invalid
          then (case sl_from_peer_id s of Some from_peer_id \<Rightarrow> hs_insert from_peer_id peers | None \<Rightarrow> peers)
          else peers) hs []"

definition penalize_reset_pending :: "header_slices \<Rightarrow> header_slices" where
  "penalize_reset_pending hs =
     for_each (\<lambda>i hs.
       if sl_status (hs_slices hs ! i) = Invalid
       then update_slice_at (\<lambda>s. s) Empty (\<lambda>s. s\<lparr>sl_headers := None\<rparr>) i hs
       else hs) hs hs"

section \<open>Saving headers\<close>

type_synonym header_key = "block_number \<times> h256"

record header_db =
  db_canonical_header :: "block_number \<Rightarrow> h256 option"
  db_last_header :: "h256 option"
  db_header :: "header_key \<Rightarrow> block_header option"
  db_header_number :: "h256 \<Rightarrow> block_number option"
  db_total_difficulty :: "header_key \<Rightarrow> u256 option"

definition read_parent_header_total_difficulty :: "cached_header \<Rightarrow> header_db \<Rightarrow> u256 option" where
  "read_parent_header_total_difficulty child db =
     (if cnum child = 0 then Some 0
      else db_total_difficulty db (cnum child - 1, h_parent_hash (ch_header child)))"

definition header_total_difficulty :: "cached_header \<Rightarrow> header_db \<Rightarrow> u256 option" where
  "header_total_difficulty header db =
     (case read_parent_header_total_difficulty header db of
        None \<Rightarrow> None
      | Some parent_total_difficulty \<Rightarrow> Some (parent_total_difficulty + h_difficulty (ch_header header)))"

definition load_canonical_header_by_num :: "block_number \<Rightarrow> header_db \<Rightarrow> cached_header option" where
  "load_canonical_header_by_num block_num db =
     (case db_canonical_header db block_num of
        None \<Rightarrow> None
      | Some hash \<Rightarrow> map_option (\<lambda>header. cached_header_new header hash) (db_header db (block_num, hash)))"

definition update_canonical_chain_header :: "downloader_env \<Rightarrow> cached_header \<Rightarrow> header_db \<Rightarrow> header_db" where
  "update_canonical_chain_header e header db =
     (let block_num = cnum header; hash = env_hash e header;
          db = db\<lparr>db_canonical_header := (db_canonical_header db)(block_num \<mapsto> hash), db_last_header := Some hash\<rparr>
      in case header_total_difficulty header db of
           None \<Rightarrow> db
         | Some td \<Rightarrow> db\<lparr>db_total_difficulty := (db_total_difficulty db)((block_num, hash) \<mapsto> td)\<rparr>)"

definition save_header :: "downloader_env \<Rightarrow> bool \<Rightarrow> cached_header \<Rightarrow> header_db \<Rightarrow> header_db" where
  "save_header e is_canonical_chain header db =
     (let block_num = cnum header; hash = env_hash e header;
          db = (if is_canonical_chain then update_canonical_chain_header e header db else db)
      in db\<lparr>db_header := (db_header db)((block_num, hash) \<mapsto> ch_header header),
            db_header_number := (db_header_number db)(hash \<mapsto> block_num)\<rparr>)"

definition save_headers :: "downloader_env \<Rightarrow> bool \<Rightarrow> cached_header list \<Rightarrow> header_db \<Rightarrow> header_db" where
  "save_headers e is_canonical_chain headers db = fold (save_header e is_canonical_chain) headers db"

datatype save_error = VerifiedSliceHasNoHeaders

text \<open>The slice is left without headers when they cannot be taken out.\<close>

definition save_slice :: "downloader_env \<Rightarrow> bool \<Rightarrow> nat \<Rightarrow> header_slices \<times> header_db \<Rightarrow> save_error + header_slices \<times> header_db" where
  "save_slice e is_canonical_chain i st =
     (let (hs, db) = st
      in case sl_headers (hs_slices hs ! i) of
           None \<Rightarrow> Inl VerifiedSliceHasNoHeaders
         | Some headers \<Rightarrow>
             Inr (update_slice_at (\<lambda>s. s\<lparr>sl_headers := Some headers\<rparr>) Saved (\<lambda>s. s) i hs,
                  save_headers e is_canonical_chain headers db))"

definition save_find_next_pending :: "header_slices \<Rightarrow> nat option" where
  "save_find_next_pending hs =
     (case try_fold (\<lambda>_ i. case sl_status (hs_slices hs ! i) of
          Saved \<Rightarrow> Continue None | Verified \<Rightarrow> Break (Some i) | _ \<Rightarrow> Break None) hs (None :: nat option) of
        Break slice_opt \<Rightarrow> slice_opt
      | Continue _ \<Rightarrow> None)"

fun save_pending_monotonic ::
    "downloader_env \<Rightarrow> bool \<Rightarrow> nat \<Rightarrow> nat \<Rightarrow> header_slices \<times> header_db \<Rightarrow> save_error + (header_slices \<times> header_db) \<times> nat" where
  "save_pending_monotonic e can 0 saved_count st = Inr (st, saved_count)"
| "save_pending_monotonic e can (Suc n) saved_count st =
     (case save_find_next_pending (fst st) of
        None \<Rightarrow> Inr (st, saved_count)
      | Some i \<Rightarrow>
          (case save_slice e can i st of
             Inl err \<Rightarrow> Inl err
           | Inr st \<Rightarrow> save_pending_monotonic e can n (Suc saved_count) st))"

fun save_pending_all ::
    "downloader_env \<Rightarrow> bool \<Rightarrow> nat \<Rightarrow> nat \<Rightarrow> header_slices \<times> header_db \<Rightarrow> save_error + (header_slices \<times> header_db) \<times> nat" where
  "save_pending_all e can 0 saved_count st = Inr (st, saved_count)"
| "save_pending_all e can (Suc n) saved_count st =
     (case find_by_status (fst st) Verified of
        None \<Rightarrow> Inr (st, saved_count)
      | Some i \<Rightarrow>
          (case save_slice e can i st of
             Inl err \<Rightarrow> Inl err
           | Inr st \<Rightarrow> save_pending_all e can n (Suc saved_count) st))"

datatype save_order = Monotonic | Random

record save_stage =
  sv_order :: save_order
  sv_is_canonical_chain :: bool
  sv_remaining_count :: u64

definition save_execute ::
    "downloader_env \<Rightarrow> save_stage \<Rightarrow> header_slices \<times> header_db \<Rightarrow> save_error + save_stage \<times> header_slices \<times> header_db" where
  "save_execute e sv st =
     (let count = pending_count Verified (fst st);
          result = (case sv_order sv of
            Monotonic \<Rightarrow> save_pending_monotonic e (sv_is_canonical_chain sv) (unat count) 0 st
          | Random \<Rightarrow> save_pending_all e (sv_is_canonical_chain sv) (unat count) 0 st)
      in case result of
           Inl err \<Rightarrow> Inl err
         | Inr (st, saved_count) \<Rightarrow> Inr (sv\<lparr>sv_remaining_count := count - of_nat saved_count\<rparr>, st))"

text \<open>
  The unwinding of the canonical chain: the entries above the given block are deleted one by one,
  until one is missing.  An error tells that the block itself is missing; its deletions stay.
\<close>

partial_function (option) delete_canonical_from :: "block_number \<Rightarrow> header_db \<Rightarrow> header_db option" where
  "delete_canonical_from i db =
     (let was_found = db_canonical_header db i \<noteq> None;
          db = db\<lparr>db_canonical_header := (db_canonical_header db)(i := None)\<rparr>
      in if was_found then delete_canonical_from (i + 1) db else Some db)"

declare delete_canonical_from.simps [code]

definition save_unwind :: "block_number \<Rightarrow> header_db \<Rightarrow> (header_db \<times> bool) option" where
  "save_unwind unwind_to_block_num db =
     map_option (\<lambda>db.
       case db_canonical_header db unwind_to_block_num of
         Some hash \<Rightarrow> (db\<lparr>db_last_header := Some hash\<rparr>, True)
       | None \<Rightarrow> (db, False)) (delete_canonical_from (unwind_to_block_num + 1) db)"

section \<open>Moving the window\<close>

definition refill_pending :: "header_slices \<Rightarrow> header_slices" where
  "refill_pending hs = refill (remove_slices Saved hs)"

text \<open>The new count and the window.\<close>

definition extend_execute :: "header_slices \<Rightarrow> u64 \<times> header_slices" where
  "extend_execute hs = (pending_count Saved hs, if all_in_status hs Saved then append_slice hs else hs)"

section \<open>Estimating the top block\<close>

definition top_block_on_message ::
    "block_number list \<Rightarrow> peer_id option \<Rightarrow> (peer_id, block_number) hash_map \<Rightarrow> (peer_id, block_number) hash_map" where
  "top_block_on_message ids from_peer_id peer_top_blocks =
     (if ids = [] then peer_top_blocks
      else case from_peer_id of
        None \<Rightarrow> peer_top_blocks
      | Some from_peer_id \<Rightarrow>
          let block_nums = (case hm_get peer_top_blocks from_peer_id of
                Some current_peer_top_block \<Rightarrow> ids @ [current_peer_top_block]
              | None \<Rightarrow> ids)
          in hm_insert from_peer_id (foldr max block_nums 0) peer_top_blocks)"

definition average_peer_block_num :: "(peer_id, block_number) hash_map \<Rightarrow> block_number option" where
  "average_peer_block_num peer_blocks =
     (if peer_blocks = [] then None
      else Some (sum_list (map snd peer_blocks) div of_nat (length peer_blocks)))"

section \<open>Whether a stage can proceed\<close>

definition fetch_request_can_proceed :: "header_slices \<Rightarrow> bool" where
  "fetch_request_can_proceed hs = contains_status hs Empty"

definition fetch_receive_can_proceed :: "bool \<Rightarrow> header_slices \<Rightarrow> bool" where
  "fetch_receive_can_proceed is_over hs \<longleftrightarrow> \<not> is_over \<and> contains_status hs Waiting"

definition retry_can_proceed :: "header_slices \<Rightarrow> bool" where
  "retry_can_proceed hs = False"

definition verify_slices_can_proceed :: "header_slices \<Rightarrow> bool" where
  "verify_slices_can_proceed hs = contains_status hs Downloaded"

definition link_can_proceed :: "header_slices \<Rightarrow> bool" where
  "link_can_proceed hs = contains_status hs VerifiedInternally"

definition penalize_can_proceed :: "header_slices \<Rightarrow> bool" where
  "penalize_can_proceed hs = contains_status hs Invalid"

definition save_can_proceed :: "save_stage \<Rightarrow> header_slices \<Rightarrow> bool" where
  "save_can_proceed sv hs \<longleftrightarrow> count_slices_in_status hs Verified \<noteq> sv_remaining_count sv"

definition refill_can_proceed :: "header_slices \<Rightarrow> bool" where
  "refill_can_proceed hs = contains_status hs Saved"

definition extend_can_proceed :: "header_slices \<Rightarrow> bool" where
  "extend_can_proceed hs = all_in_status hs Saved"

section \<open>Loops over the window\<close>

lemma try_fold_list_invariant:
  assumes "I c" and "\<And>c x. I c \<Longrightarrow> x \<in> set xs \<Longrightarrow> (case f c x of Break b \<Rightarrow> J b | Continue c' \<Rightarrow> I c')"
  shows "case try_fold_list f c xs of Break b \<Rightarrow> J b | Continue c' \<Rightarrow> I c'"
  using assms
proof (induction xs arbitrary: c)
  case (Cons x xs)
  from Cons.prems(2) [OF Cons.prems(1), of x] show ?case
    by (cases "f c x") (auto intro!: Cons.IH Cons.prems(2))
qed simp

text \<open>A pass that changes the slices with a property, one after the other.\<close>

definition sweep_step ::
    "(header_slice \<Rightarrow> bool) \<Rightarrow> (header_slice \<Rightarrow> header_slice) \<Rightarrow> header_slice_status \<Rightarrow> (header_slice \<Rightarrow> header_slice) \<Rightarrow>
       nat \<Rightarrow> header_slices \<Rightarrow> header_slices" where
  "sweep_step P f st g i hs = (if P (hs_slices hs ! i) then update_slice_at f st g i hs else hs)"

lemma sweep:
  assumes "slices_ok hs" and "keeps_identity f" and "keeps_identity g" and "n \<le> length (hs_slices hs)"
  shows "slices_ok (fold (sweep_step P f st g) [0..<n] hs) \<and>
    hs_slices (fold (sweep_step P f st g) [0..<n] hs) =
      map (\<lambda>s. if P s then g ((f s)\<lparr>sl_status := st\<rparr>) else s) (take n (hs_slices hs)) @ drop n (hs_slices hs) \<and>
    hs_max_slices (fold (sweep_step P f st g) [0..<n] hs) = hs_max_slices hs \<and>
    hs_max_block_num (fold (sweep_step P f st g) [0..<n] hs) = hs_max_block_num hs \<and>
    hs_final_block_num (fold (sweep_step P f st g) [0..<n] hs) = hs_final_block_num hs"
  using assms(4)
proof (induction n)
  case (Suc n)
  then show ?case
    using assms(1-3)
    by (auto simp: sweep_step_def slices_ok_update_slice_at nth_append list_update_append take_Suc_conv_app_nth
        Cons_nth_drop_Suc [symmetric])
qed (simp add: assms)

lemma retry_sweep:
  "fst (retry_reset_pending now hs) = fold (sweep_step (\<lambda>s. sl_status s = Waiting \<and> is_waiting_timeout_expired s now)
      (\<lambda>s. s\<lparr>sl_request_time := None, sl_request_attempt := sl_request_attempt s + 1\<rparr>) Empty (\<lambda>s. s)) [0..<length (hs_slices hs)] hs"
proof -
  have "fst (fold (\<lambda>i (hs, count).
       let s = hs_slices hs ! i
       in if sl_status s = Waiting \<and> is_waiting_timeout_expired s now
          then (update_slice_at (\<lambda>s. s\<lparr>sl_request_time := None, sl_request_attempt := sl_request_attempt s + 1\<rparr>)
                  Empty (\<lambda>s. s) i hs, Suc count)
          else (hs, count)) is (hs, c)) =
      fold (sweep_step (\<lambda>s. sl_status s = Waiting \<and> is_waiting_timeout_expired s now)
      (\<lambda>s. s\<lparr>sl_request_time := None, sl_request_attempt := sl_request_attempt s + 1\<rparr>) Empty (\<lambda>s. s)) is hs" for "is" c
    by (induction "is" arbitrary: hs c) (auto simp: sweep_step_def Let_def)
  then show ?thesis by (simp add: retry_reset_pending_def for_each_def)
qed

lemma penalize_sweep:
  "penalize_reset_pending hs =
     fold (sweep_step (\<lambda>s. sl_status s = Invalid) (\<lambda>s. s) Empty (\<lambda>s. s\<lparr>sl_headers := None\<rparr>)) [0..<length (hs_slices hs)] hs"
  by (simp add: penalize_reset_pending_def for_each_def sweep_step_def [abs_def])

section \<open>Operations that leave the verified slices alone\<close>

definition settled :: "header_slice_status \<Rightarrow> bool" where
  "settled st \<longleftrightarrow> st = VerifiedInternally \<or> st = Verified \<or> st = Saved"

definition received_ok :: "downloader_env \<Rightarrow> header_slice \<Rightarrow> bool" where
  "received_ok e s \<longleftrightarrow>
     (sl_status s = Downloaded \<longrightarrow> (\<forall>hs. sl_headers s = Some hs \<longrightarrow> list_all (cache_ok (env_rlp e) (env_keccak e)) hs))"

definition quiet :: "downloader_env \<Rightarrow> header_slices \<Rightarrow> header_slices \<Rightarrow> bool" where
  "quiet e hs hs' \<longleftrightarrow> slices_ok hs' \<and> hs_max_slices hs' = hs_max_slices hs \<and> hs_max_block_num hs' = hs_max_block_num hs \<and>
     hs_final_block_num hs' = hs_final_block_num hs \<and>
     list_all2 (\<lambda>s s'. s' = s \<or> \<not> settled (sl_status s) \<and> \<not> settled (sl_status s') \<and> sl_status s' \<noteq> Fork \<and> received_ok e s')
       (hs_slices hs) (hs_slices hs')"

lemma quiet_refl: "slices_ok hs \<Longrightarrow> quiet e hs hs"
  by (simp add: quiet_def list_all2_same)

lemma quiet_trans: "quiet e hs1 hs2 \<Longrightarrow> quiet e hs2 hs3 \<Longrightarrow> quiet e hs1 hs3"
  by (simp add: quiet_def list_all2_conv_all_nth) metis

lemma keeps_identity_id: "keeps_identity (\<lambda>s. s)"
  by (simp add: keeps_identity_def)

lemma quiet_update_slice_at:
  assumes "slices_ok hs" and "i < length (hs_slices hs)" and "keeps_identity f" and "keeps_identity g"
    and "\<not> settled (sl_status (hs_slices hs ! i))" and "\<not> settled st" and "st \<noteq> Fork"
    and "received_ok e (g ((f (hs_slices hs ! i))\<lparr>sl_status := st\<rparr>))"
  shows "quiet e hs (update_slice_at f st g i hs)"
proof -
  have "sl_status (g ((f (hs_slices hs ! i))\<lparr>sl_status := st\<rparr>)) = st" using assms(4) by (simp add: keeps_identity_def)
  with assms show ?thesis
    by (auto simp: quiet_def slices_ok_update_slice_at list_all2_conv_all_nth nth_list_update)
qed

lemma quiet_sweep:
  assumes "slices_ok hs" and "keeps_identity f" and "keeps_identity g" and "\<not> settled st" and "st \<noteq> Downloaded" and "st \<noteq> Fork"
    and "\<And>s. P s \<Longrightarrow> \<not> settled (sl_status s)"
  shows "quiet e hs (fold (sweep_step P f st g) [0..<length (hs_slices hs)] hs)"
proof -
  have "sl_status (g ((f s)\<lparr>sl_status := st\<rparr>)) = st" for s using assms(3) by (simp add: keeps_identity_def)
  with assms sweep [OF assms(1-3), of "length (hs_slices hs)" P st] show ?thesis
    by (auto simp: quiet_def list_all2_conv_all_nth received_ok_def)
qed

lemma quiet_request_pending:
  assumes "slices_ok hs" and "request_pending send slice_size now n hs = ((hs', n'), err)"
  shows "quiet e hs hs'"
proof -
  let ?I = "\<lambda>(hs', n :: u64). quiet e hs hs'"
  have "case try_fold_list (request_slice send slice_size now) (hs, n) [0..<length (hs_slices hs)] of
      Break b \<Rightarrow> ?I (fst b) | Continue c \<Rightarrow> ?I c"
  proof (rule try_fold_list_invariant)
    fix c i
    assume I: "?I c" and i: "i \<in> set [0..<length (hs_slices hs)]"
    obtain hs1 n1 where c: "c = (hs1, n1)" by fastforce
    from I c have q: "quiet e hs hs1" by simp
    then have len: "length (hs_slices hs1) = length (hs_slices hs)" and ok: "slices_ok hs1"
      by (auto simp: quiet_def list_all2_lengthD)
    have "quiet e hs (update_slice_at (\<lambda>s. s\<lparr>sl_request_time := Some now\<rparr>) Waiting (\<lambda>s. s) i hs1)" if "sl_status (hs_slices hs1 ! i) = Empty"
      by (rule quiet_trans [OF q quiet_update_slice_at])
        (use that i len ok in \<open>auto simp: keeps_identity_def settled_def received_ok_def\<close>)
    with q show "case request_slice send slice_size now c i of Break b \<Rightarrow> ?I (fst b) | Continue c' \<Rightarrow> ?I c'"
      by (auto simp: request_slice_def c Let_def split: send_result.splits)
  qed (simp add: quiet_refl assms)
  with assms(2) show ?thesis
    by (auto simp: request_pending_def try_fold_def split: control_flow.splits prod.splits)
qed

lemma quiet_on_headers_message:
  assumes "slices_ok hs"
  shows "quiet e hs (on_headers_message headers peer hs)"
proof -
  have "list_all (cache_ok (env_rlp e) (env_keccak e)) (map cached_header_from headers)"
    by (simp add: list_all_iff cache_ok_operations)
  then have "quiet e hs (update_slice (map cached_header_from headers) peer i hs)"
    if "i < length (hs_slices hs)" "sl_status (hs_slices hs ! i) = Waiting" for i
    unfolding update_slice_def
    by (intro quiet_update_slice_at) (use that assms in \<open>auto simp: keeps_identity_def settled_def received_ok_def\<close>)
  then show ?thesis
    using quiet_refl [OF assms]
    by (auto simp: on_headers_message_def find_by_start_block_num_iff [OF assms] split: list.splits option.splits)
qed

lemma quiet_retry: "slices_ok hs \<Longrightarrow> quiet e hs (fst (retry_reset_pending now hs))"
  unfolding retry_sweep by (rule quiet_sweep) (auto simp: keeps_identity_def settled_def)

lemma quiet_penalize: "slices_ok hs \<Longrightarrow> quiet e hs (penalize_reset_pending hs)"
  unfolding penalize_sweep by (rule quiet_sweep) (auto simp: keeps_identity_def settled_def)

lemma quiet_notify:
  "slices_ok hs \<Longrightarrow> quiet e hs (notify_status_watchers hs)"
  using positions_ok_cong [of hs "notify_status_watchers hs"]
  by (simp add: quiet_def slices_ok_def counts_ok_def list_all2_same)

section \<open>Verification in batches\<close>

text \<open>
  What the batches amount to: every downloaded slice is prepared and gets the status its own check
  decides, whatever the size of the batches.
\<close>

definition verified_slice :: "downloader_env \<Rightarrow> (header_slice \<Rightarrow> bool option) \<Rightarrow> header_slice_status \<Rightarrow> header_slice \<Rightarrow> header_slice" where
  "verified_slice e accepts good s =
     (if sl_status s = Downloaded
      then let s' = prepare_slice_hashes e s in s'\<lparr>sl_status := if accepts s' = Some True then good else Invalid\<rparr>
      else s)"

lemma those_map: "those (map f xs) = Some ys \<longleftrightarrow> (\<forall>x \<in> set xs. f x \<noteq> None) \<and> ys = map (\<lambda>x. the (f x)) xs"
  by (induction xs arbitrary: ys) (auto split: option.splits)

lemma those_map_None: "those (map f xs) = None \<longleftrightarrow> (\<exists>x \<in> set xs. f x = None)"
  by (induction xs) (auto split: option.splits)

lemma prepare_keeps [simp]:
  "sl_start_block_num (prepare_slice_hashes e s) = sl_start_block_num s" "sl_status (prepare_slice_hashes e s) = sl_status s"
  by (simp_all add: prepare_slice_hashes_def)

lemma slices_ok_cong:
  assumes "slices_ok hs" and "hs_watches hs' = hs_watches hs" and "hs_max_block_num hs' = hs_max_block_num hs"
    and "hs_final_block_num hs' = hs_final_block_num hs"
    and "map sl_start_block_num (hs_slices hs') = map sl_start_block_num (hs_slices hs)"
    and "map sl_status (hs_slices hs') = map sl_status (hs_slices hs)"
  shows "slices_ok hs'"
proof -
  have "status_count st ss = length (filter ((=) st) (map sl_status ss))" for st ss
    by (induction ss) auto
  then have "status_count st (hs_slices hs') = status_count st (hs_slices hs)" for st using assms(6) by metis
  with assms have "counts_ok hs'" by (simp add: slices_ok_def counts_ok_def count_slices_in_status_def)
  with assms positions_ok_cong [of hs hs'] show ?thesis by (simp add: slices_ok_def)
qed

lemma fold_list_update:
  "distinct is \<Longrightarrow> \<forall>i \<in> set is. i < length ss \<Longrightarrow> length (fold (\<lambda>i ss. ss[i := f (ss ! i)]) is ss) = length ss \<and>
     (\<forall>i < length ss. fold (\<lambda>i ss. ss[i := f (ss ! i)]) is ss ! i = (if i \<in> set is then f (ss ! i) else ss ! i))"
  by (induction "is" arbitrary: ss) (auto simp: nth_list_update)

lemma set_verified_ok:
  assumes "slices_ok hs" and "distinct (map fst ps)" and "\<forall>i \<in> fst ` set ps. i < length (hs_slices hs)"
  shows "slices_ok (set_verified good ps hs) \<and> length (hs_slices (set_verified good ps hs)) = length (hs_slices hs) \<and>
    hs_max_slices (set_verified good ps hs) = hs_max_slices hs \<and>
    hs_max_block_num (set_verified good ps hs) = hs_max_block_num hs \<and>
    hs_final_block_num (set_verified good ps hs) = hs_final_block_num hs \<and>
    (\<forall>i < length (hs_slices hs). hs_slices (set_verified good ps hs) ! i = (case map_of ps i of
        Some b \<Rightarrow> (hs_slices hs ! i)\<lparr>sl_status := if b then good else Invalid\<rparr> | None \<Rightarrow> hs_slices hs ! i))"
  using assms
proof (induction ps arbitrary: hs)
  case (Cons p ps)
  obtain i b where p: "p = (i, b)" by fastforce
  define hs1 where "hs1 = update_slice_at (\<lambda>s. s) (if b then good else Invalid) (\<lambda>s. s) i hs"
  have flds: "hs_slices hs1 = (hs_slices hs)[i := (hs_slices hs ! i)\<lparr>sl_status := if b then good else Invalid\<rparr>]"
    "hs_max_slices hs1 = hs_max_slices hs" "hs_max_block_num hs1 = hs_max_block_num hs"
    "hs_final_block_num hs1 = hs_final_block_num hs"
    by (simp_all add: hs1_def)
  have ok: "slices_ok hs1" unfolding hs1_def
    by (rule slices_ok_update_slice_at) (use Cons.prems p in \<open>auto simp: keeps_identity_id\<close>)
  have eq: "set_verified good (p # ps) hs = set_verified good ps hs1" by (simp add: set_verified_def hs1_def p)
  have none: "map_of ps i = None" using Cons.prems(2) by (simp add: p map_of_eq_None_iff)
  from Cons.IH [OF ok] Cons.prems(2,3) flds none show ?case unfolding eq
    by (auto simp: p nth_list_update split: option.splits)
qed (simp add: set_verified_def)

lemma verify_batch:
  assumes "slices_ok hs" and "distinct batch" and "\<forall>i \<in> set batch. i < length (hs_slices hs) \<and> sl_status (hs_slices hs ! i) = Downloaded"
  shows "(\<exists>i \<in> set batch. accepts (prepare_slice_hashes e (hs_slices hs ! i)) = None) \<Longrightarrow>
      verify_slices_parallel e accepts batch hs = None"
    and "(\<forall>i \<in> set batch. accepts (prepare_slice_hashes e (hs_slices hs ! i)) \<noteq> None) \<Longrightarrow>
      \<exists>hs1 rs. verify_slices_parallel e accepts batch hs = Some (hs1, rs) \<and>
        slices_ok (set_verified good (zip batch rs) hs1) \<and>
        hs_max_slices (set_verified good (zip batch rs) hs1) = hs_max_slices hs \<and>
        hs_max_block_num (set_verified good (zip batch rs) hs1) = hs_max_block_num hs \<and>
        hs_final_block_num (set_verified good (zip batch rs) hs1) = hs_final_block_num hs \<and>
        length (hs_slices (set_verified good (zip batch rs) hs1)) = length (hs_slices hs) \<and>
        (\<forall>i < length (hs_slices hs). hs_slices (set_verified good (zip batch rs) hs1) ! i =
          (if i \<in> set batch then verified_slice e accepts good (hs_slices hs ! i) else hs_slices hs ! i))"
proof -
  define hs1 where "hs1 = hs\<lparr>hs_slices := fold (\<lambda>i ss. ss[i := prepare_slice_hashes e (ss ! i)]) batch (hs_slices hs)\<rparr>"
  have len: "length (hs_slices hs1) = length (hs_slices hs)"
    and nth: "\<And>i. i < length (hs_slices hs) \<Longrightarrow>
      hs_slices hs1 ! i = (if i \<in> set batch then prepare_slice_hashes e (hs_slices hs ! i) else hs_slices hs ! i)"
    using fold_list_update [OF assms(2), of "hs_slices hs" "prepare_slice_hashes e"] assms(3) by (simp_all add: hs1_def)
  have par: "verify_slices_parallel e accepts batch hs =
      map_option (Pair hs1) (those (map (\<lambda>i. accepts (prepare_slice_hashes e (hs_slices hs ! i))) batch))"
    using nth assms(3) by (simp add: verify_slices_parallel_def hs1_def [symmetric] cong: map_cong)
  show "verify_slices_parallel e accepts batch hs = None"
    if "\<exists>i \<in> set batch. accepts (prepare_slice_hashes e (hs_slices hs ! i)) = None"
    using that those_map_None [of "\<lambda>i. accepts (prepare_slice_hashes e (hs_slices hs ! i))" batch] by (simp add: par)
  assume some: "\<forall>i \<in> set batch. accepts (prepare_slice_hashes e (hs_slices hs ! i)) \<noteq> None"
  define rs where "rs = map (\<lambda>i. the (accepts (prepare_slice_hashes e (hs_slices hs ! i)))) batch"
  have run: "verify_slices_parallel e accepts batch hs = Some (hs1, rs)"
    using some those_map [of "\<lambda>i. accepts (prepare_slice_hashes e (hs_slices hs ! i))" batch rs] by (simp add: par rs_def)
  have "map sl_start_block_num (hs_slices hs1) = map sl_start_block_num (hs_slices hs)"
    and "map sl_status (hs_slices hs1) = map sl_status (hs_slices hs)"
    using len nth by (auto intro!: nth_equalityI)
  then have ok1: "slices_ok hs1" using slices_ok_cong [OF assms(1), of hs1] by (simp add: hs1_def)
  have fst: "map fst (zip batch rs) = batch" by (simp add: rs_def)
  then have "fst ` set (zip batch rs) = set batch" by (metis list.set_map)
  with assms(3) fst len set_verified_ok [OF ok1, of "zip batch rs" good] assms(2)
  have sv: "slices_ok (set_verified good (zip batch rs) hs1)" "length (hs_slices (set_verified good (zip batch rs) hs1)) = length (hs_slices hs)"
      "hs_max_slices (set_verified good (zip batch rs) hs1) = hs_max_slices hs1"
      "hs_max_block_num (set_verified good (zip batch rs) hs1) = hs_max_block_num hs1"
      "hs_final_block_num (set_verified good (zip batch rs) hs1) = hs_final_block_num hs1"
      "\<And>i. i < length (hs_slices hs) \<Longrightarrow> hs_slices (set_verified good (zip batch rs) hs1) ! i = (case map_of (zip batch rs) i of
        Some b \<Rightarrow> (hs_slices hs1 ! i)\<lparr>sl_status := if b then good else Invalid\<rparr> | None \<Rightarrow> hs_slices hs1 ! i)"
    by simp_all
  have "hs_slices (set_verified good (zip batch rs) hs1) ! i =
      (if i \<in> set batch then verified_slice e accepts good (hs_slices hs ! i) else hs_slices hs ! i)" if "i < length (hs_slices hs)" for i
    using sv(6) [OF that] nth [OF that] assms(3) some
    by (auto simp: rs_def map_of_zip_map verified_slice_def Let_def)
  with run sv show "\<exists>hs1 rs. verify_slices_parallel e accepts batch hs = Some (hs1, rs) \<and>
        slices_ok (set_verified good (zip batch rs) hs1) \<and>
        hs_max_slices (set_verified good (zip batch rs) hs1) = hs_max_slices hs \<and>
        hs_max_block_num (set_verified good (zip batch rs) hs1) = hs_max_block_num hs \<and>
        hs_final_block_num (set_verified good (zip batch rs) hs1) = hs_final_block_num hs \<and>
        length (hs_slices (set_verified good (zip batch rs) hs1)) = length (hs_slices hs) \<and>
        (\<forall>i < length (hs_slices hs). hs_slices (set_verified good (zip batch rs) hs1) ! i =
          (if i \<in> set batch then verified_slice e accepts good (hs_slices hs ! i) else hs_slices hs ! i))"
    by (auto simp: hs1_def)
qed

lemma verified_slice_status [simp]:
  "good \<noteq> Downloaded \<Longrightarrow> sl_status (verified_slice e accepts good s) \<noteq> Downloaded"
  by (simp add: verified_slice_def Let_def)

lemma verified_slice_idem: "good \<noteq> Downloaded \<Longrightarrow> verified_slice e accepts good (verified_slice e accepts good s) = verified_slice e accepts good s"
  by (simp add: verified_slice_def [of e accepts good "verified_slice e accepts good s"])

lemma status_count_less:
  assumes "length ss' = length ss" and "\<forall>i < length ss. sl_status (ss' ! i) = st \<longrightarrow> sl_status (ss ! i) = st"
    and "j < length ss" and "sl_status (ss ! j) = st" and "sl_status (ss' ! j) \<noteq> st"
  shows "status_count st ss' < status_count st ss"
  unfolding status_count_def length_filter_conv_card
  by (rule psubset_card_mono) (use assms in auto)

lemma verify_pending_batches_eq:
  assumes "slices_ok hs" and "good \<noteq> Downloaded"
  shows "(\<exists>i < length (hs_slices hs). sl_status (hs_slices hs ! i) = Downloaded \<and> accepts (prepare_slice_hashes e (hs_slices hs ! i)) = None) \<and>
      verify_pending_batches e accepts good cpus hs = None \<or>
    (\<exists>hs'. verify_pending_batches e accepts good cpus hs = Some hs' \<and> slices_ok hs' \<and>
      hs_slices hs' = map (verified_slice e accepts good) (hs_slices hs) \<and> hs_max_slices hs' = hs_max_slices hs \<and>
      hs_max_block_num hs' = hs_max_block_num hs \<and> hs_final_block_num hs' = hs_final_block_num hs)"
  using assms(1)
proof (induction hs rule: measure_induct_rule [where f = "\<lambda>hs. status_count Downloaded (hs_slices hs)"])
  case (less hs)
  define batch where "batch = find_batch_by_status hs Downloaded cpus"
  have distinct: "distinct batch" and batch: "\<forall>i \<in> set batch. i < length (hs_slices hs) \<and> sl_status (hs_slices hs ! i) = Downloaded"
    by (auto simp: batch_def find_batch_by_status_eq dest: in_set_takeD)
  note simp = verify_pending_batches.simps [of e accepts good cpus hs]
  consider (finished) "batch = []" | (panic) "\<exists>i \<in> set batch. accepts (prepare_slice_hashes e (hs_slices hs ! i)) = None" "batch \<noteq> []"
    | (step) "\<forall>i \<in> set batch. accepts (prepare_slice_hashes e (hs_slices hs ! i)) \<noteq> None" "batch \<noteq> []"
    by metis
  then show ?case
  proof cases
    case finished
    then have "\<forall>i < length (hs_slices hs). sl_status (hs_slices hs ! i) \<noteq> Downloaded"
      by (auto simp: batch_def find_batch_by_status_eq filter_empty_conv split: if_splits)
    then have "map (verified_slice e accepts good) (hs_slices hs) = hs_slices hs"
      by (auto simp: verified_slice_def intro!: nth_equalityI)
    with finished less.prems show ?thesis by (subst simp) (simp add: batch_def)
  next
    case panic
    from panic(1) batch show ?thesis
      using verify_batch(1) [OF less.prems distinct batch panic(1)] panic(2) by (subst simp) (auto simp: batch_def)
  next
    case step
    from verify_batch(2) [OF less.prems distinct batch step(1), of good] obtain hs1 rs hs2 where
      run: "verify_slices_parallel e accepts batch hs = Some (hs1, rs)" and hs2: "hs2 = set_verified good (zip batch rs) hs1"
      and ok: "slices_ok hs2" and flds: "hs_max_slices hs2 = hs_max_slices hs" "hs_max_block_num hs2 = hs_max_block_num hs"
        "hs_final_block_num hs2 = hs_final_block_num hs" and len: "length (hs_slices hs2) = length (hs_slices hs)"
      and nth: "\<forall>i < length (hs_slices hs). hs_slices hs2 ! i =
          (if i \<in> set batch then verified_slice e accepts good (hs_slices hs ! i) else hs_slices hs ! i)"
      by metis
    have eq: "verify_pending_batches e accepts good cpus hs = verify_pending_batches e accepts good cpus hs2"
      using step(2) run by (subst simp) (simp add: batch_def [symmetric] hs2)
    have "status_count Downloaded (hs_slices hs2) < status_count Downloaded (hs_slices hs)"
      by (rule status_count_less [of _ _ _ "hd batch"]) (use len nth batch step(2) assms(2) in auto)
    note IH = less.IH [OF this ok]
    have "map (verified_slice e accepts good) (hs_slices hs2) = map (verified_slice e accepts good) (hs_slices hs)"
      using len nth assms(2) by (auto intro!: nth_equalityI simp: verified_slice_idem)
    moreover have "\<exists>i < length (hs_slices hs). sl_status (hs_slices hs ! i) = Downloaded \<and> accepts (prepare_slice_hashes e (hs_slices hs ! i)) = None"
      if "\<exists>i < length (hs_slices hs2). sl_status (hs_slices hs2 ! i) = Downloaded \<and> accepts (prepare_slice_hashes e (hs_slices hs2 ! i)) = None"
      using that len nth assms(2) by (metis verified_slice_status)
    ultimately show ?thesis using IH unfolding eq flds len by metis
  qed
qed

text \<open>C28. The verification in batches of any size always ends.  Unless the check of a downloaded slice
  panics, it gives what one pass over the window gives: each downloaded slice has its hashes computed
  and becomes good or invalid by its own check, every other slice is as before, and the window is
  well-formed.\<close>

theorem verify_in_batches_pointwise:
  assumes "slices_ok hs" and "good \<noteq> Downloaded"
    and "\<forall>s \<in> set (hs_slices hs). sl_status s = Downloaded \<longrightarrow> accepts (prepare_slice_hashes e s) \<noteq> None"
  shows "\<exists>hs'. verify_pending_batches e accepts good cpus hs = Some hs' \<and> slices_ok hs' \<and>
    hs_slices hs' = map (verified_slice e accepts good) (hs_slices hs) \<and> hs_max_block_num hs' = hs_max_block_num hs"
  using verify_pending_batches_eq [OF assms(1,2), of accepts e cpus] assms(3) by auto

definition sample_download_spec :: chain_spec where
  "sample_download_spec = \<lparr> cs_name = ''sample'',
     cs_consensus = \<lparr> seal_verification = Ethash_params 13 [] None None None True, eip1559_block = None \<rparr>,
     cs_upgrades = \<lparr> up_homestead = Some 0, up_tangerine = None, up_spurious = None, up_byzantium = None,
       up_constantinople = None, up_petersburg = None, up_istanbul = None, up_berlin = None, up_london = None \<rparr>,
     cs_params = \<lparr> pa_chain_id = 1, pa_network_id = 1, pa_min_gas_limit = 5000 \<rparr>,
     cs_genesis = \<lparr> ge_number = 0, ge_author = 0, ge_gas_limit = 1000000, ge_timestamp = 0,
       ge_seal = Ethash_seal [] 1 0 0 \<rparr>,
     cs_contracts = [], cs_balances = [], cs_p2p = \<lparr> bootnodes = [], preverified_hashes = [] \<rparr> \<rparr>"

text \<open>An injective stand-in for the hash: the number of the block.\<close>

definition sample_env :: downloader_env where
  "sample_env = \<lparr> env_rlp = (\<lambda>h. [ucast (h_number h)]), env_keccak = (\<lambda>b. ucast (hd b)),
     env_chain_spec = sample_download_spec, env_genesis_hash = 0 \<rparr>"

definition sample_window :: header_slices where
  "sample_window = on_headers_message [ch_header (sample_chain_header 0 5 0 131072)] (Some 7)
     (fst (fst (request_pending (\<lambda>_. Sent) 192 0 0 (the (header_slices_new 1 1000 0 384)))))"

lemma sample_window_statuses: "clone_statuses sample_window = [Downloaded, Waiting]"
  by code_simp

lemma sample_window_ok: "slices_ok sample_window"
proof -
  have "header_slices_new 1 1000 0 384 \<noteq> None" by code_simp
  then obtain hs where hs: "header_slices_new 1 1000 0 384 = Some hs" by blast
  have "slices_ok hs" by (rule header_slices_new_ok(1) [OF hs]) simp
  moreover obtain hs' n' err where "request_pending (\<lambda>_. Sent) 192 0 0 hs = ((hs', n'), err)" by (metis prod.exhaust)
  ultimately have "slices_ok hs'" using quiet_request_pending [of hs "\<lambda>_. Sent" 192 0 0 hs' n' err] by (simp add: quiet_def)
  from quiet_on_headers_message [OF this] \<open>request_pending (\<lambda>_. Sent) 192 0 0 hs = ((hs', n'), err)\<close> hs
  show ?thesis by (simp add: sample_window_def quiet_def)
qed

theorem verify_in_batches_pointwise_witness:
  "\<exists>hs'. verify_pending_batches sample_env (\<lambda>s. Some (sl_from_peer_id s = Some 7)) VerifiedInternally 8 sample_window = Some hs' \<and>
     clone_statuses hs' = [VerifiedInternally, Waiting]"
proof -
  have "map sl_status (map (verified_slice sample_env (\<lambda>s. Some (sl_from_peer_id s = Some 7)) VerifiedInternally)
      (hs_slices sample_window)) = [VerifiedInternally, Waiting]"
    by code_simp
  with verify_in_batches_pointwise [OF sample_window_ok, of VerifiedInternally "\<lambda>s. Some (sl_from_peer_id s = Some 7)" sample_env 8]
  show ?thesis by (auto simp: clone_statuses_def)
qed

section \<open>Slices with hashes known in advance\<close>

lemma verify_preverified_slice_iff:
  "verify_preverified_slice e hashes s \<longleftrightarrow> (\<exists>hs. sl_headers s = Some hs \<and> hs \<noteq> [] \<and>
     preverified_hash hashes (sl_start_block_num s) = Some (env_hash e (hd hs)) \<and>
     preverified_hash hashes (sl_start_block_num s + of_nat (length hs) - 1) = Some (env_hash e (last hs)) \<and>
     successively (\<lambda>parent child. h_parent_hash (ch_header child) = env_hash e parent) hs)"
  by (auto simp: verify_preverified_slice_def slice_checks verify_link_by_parent_hash_def split: option.splits)

lemma linked_chain_unique:
  assumes "length hs = length good" and "hs \<noteq> []"
    and "successively (\<lambda>parent child. h_parent_hash (ch_header child) = hash parent) hs"
    and "successively (\<lambda>parent child. h_parent_hash (ch_header child) = hash parent) good"
    and "hash (last hs) = hash (last good)"
    and "\<forall>a \<in> set hs. \<forall>b \<in> set good. hash a = hash b \<longrightarrow> ch_header a = ch_header b"
  shows "map ch_header hs = map ch_header good"
proof (rule nth_equalityI)
  have same: "ch_header (hs ! i) = ch_header (good ! i)" if "i < length hs" "hash (hs ! i) = hash (good ! i)" for i
    using assms(1,6) that by simp
  have backwards: "hash (hs ! (length hs - Suc j)) = hash (good ! (length hs - Suc j))" if "j < length hs" for j
    using that
  proof (induction j)
    case 0
    then show ?case using assms(1,2,5) by (metis last_conv_nth length_0_conv diff_Suc_1 One_nat_def)
  next
    case (Suc j)
    define k where "k = length hs - Suc (Suc j)"
    have k: "Suc k < length hs" "length hs - Suc j = Suc k" using Suc.prems by (auto simp: k_def)
    have "ch_header (hs ! Suc k) = ch_header (good ! Suc k)" using Suc k by (intro same) auto
    with successively_nth [OF assms(3), of k] successively_nth [OF assms(4), of k] k assms(1)
    have "hash (hs ! k) = hash (good ! k)" by simp
    then show ?case by (simp add: k_def)
  qed
  show "map ch_header hs ! i = map ch_header good ! i" if "i < length (map ch_header hs)" for i
    using that same [of i] backwards [of "length hs - Suc i"] assms(1) by (simp add: Suc_diff_Suc)
qed (use assms(1) in simp)

text \<open>C29. A slice accepted against the preverified hashes starts and ends at multiples of the slice size.
  If no two headers involved have the same hash, it consists of the headers of the chain that the
  preverified hashes belong to: of every chain, linked by parent hashes, of the same length that
  ends in the header with the preverified hash.  The check says nothing on how many headers there
  are: with an accepted slice, the slice cut down to its first header is accepted as well.\<close>

theorem preverified_slice_is_chain:
  assumes "verify_preverified_slice e hashes s" and "sl_headers s = Some hs"
  shows "192 dvd unat (sl_start_block_num s) \<and> 192 dvd unat (sl_start_block_num s + of_nat (length hs) - 1) \<and>
    (\<forall>good. length good = length hs \<and>
      successively (\<lambda>parent child. h_parent_hash (ch_header child) = env_hash e parent) good \<and>
      preverified_hash hashes (sl_start_block_num s + of_nat (length hs) - 1) = Some (env_hash e (last good)) \<and>
      (\<forall>a \<in> set hs. \<forall>b \<in> set good. env_hash e a = env_hash e b \<longrightarrow> ch_header a = ch_header b) \<longrightarrow>
      map ch_header hs = map ch_header good) \<and>
    verify_preverified_slice e hashes (s\<lparr>sl_headers := Some [hd hs]\<rparr>)"
proof -
  have step: "192 dvd unat n" if "preverified_hash hashes n = Some h" for n h
    using that aligned_iff [of n]
    by (auto simp: preverified_hash_def Let_def is_block_num_aligned_to_slice_start_def split: if_splits)
  from assms have hs: "hs \<noteq> []" "preverified_hash hashes (sl_start_block_num s) = Some (env_hash e (hd hs))"
      "preverified_hash hashes (sl_start_block_num s + of_nat (length hs) - 1) = Some (env_hash e (last hs))"
      "successively (\<lambda>parent child. h_parent_hash (ch_header child) = env_hash e parent) hs"
    by (auto simp: verify_preverified_slice_iff)
  then have "verify_preverified_slice e hashes (s\<lparr>sl_headers := Some [hd hs]\<rparr>)" by (simp add: verify_preverified_slice_iff)
  with step [OF hs(2)] step [OF hs(3)] show ?thesis
    using hs linked_chain_unique [of hs _ "env_hash e"] by auto
qed

theorem preverified_slice_is_chain_witness:
  "\<exists>s. verify_preverified_slice sample_env [5, 9] s \<and> sl_headers s = Some [sample_chain_header 5 0 0 0] \<and>
     192 dvd unat (sl_start_block_num s)"
proof -
  let ?s = "header_slice_default\<lparr>sl_headers := Some [sample_chain_header 5 0 0 0]\<rparr>"
  have "verify_preverified_slice sample_env [5, 9] ?s" by code_simp
  with preverified_slice_is_chain [of sample_env "[5, 9]" ?s "[sample_chain_header 5 0 0 0]"]
  have "verify_preverified_slice sample_env [5, 9] ?s \<and> sl_headers ?s = Some [sample_chain_header 5 0 0 0] \<and>
     192 dvd unat (sl_start_block_num ?s)" by simp
  then show ?thesis by (rule exI)
qed

section \<open>Unwinding the canonical chain\<close>

lemma next_block_num:
  fixes i t :: block_number
  assumes "i < t"
  shows "unat (i + 1) = unat i + 1" and "i + 1 \<le> n \<longleftrightarrow> i < n"
proof -
  have "unat i + 1 < 2 ^ 64" using assms unsigned_less [of t, where ?'a = nat] by (simp add: word_less_nat_alt)
  then show next_num: "unat (i + 1) = unat i + 1" by (simp add: unat_word_ariths)
  then show "i + 1 \<le> n \<longleftrightarrow> i < n" by (simp add: word_le_nat_alt word_less_nat_alt Suc_le_eq)
qed

lemma delete_canonical_from_ok:
  assumes "i \<le> top_num" and "\<And>n. i \<le> n \<Longrightarrow> db_canonical_header db n \<noteq> None \<longleftrightarrow> n < top_num"
  shows "delete_canonical_from i db =
    Some (db\<lparr>db_canonical_header := (\<lambda>n. if i \<le> n then None else db_canonical_header db n)\<rparr>)"
  using assms
proof (induction "unat top_num - unat i" arbitrary: i db)
  case 0
  then have "i = top_num" by (simp add: word_le_nat_alt word_unat_eq_iff)
  with 0(3) [of i] have none: "db_canonical_header db i = None" by simp
  have "(db_canonical_header db)(i := None) = (\<lambda>n. if i \<le> n then None else db_canonical_header db n)"
    using 0(3) \<open>i = top_num\<close> none by (auto simp: fun_eq_iff) (metis leD not_None_eq)
  with none show ?case by (subst delete_canonical_from.simps) (simp add: Let_def)
next
  case (Suc k)
  then have less: "i < top_num" by (simp add: word_less_nat_alt)
  note next_num = next_block_num(1) [OF less] and above = next_block_num(2) [OF less]
  define db1 where "db1 = db\<lparr>db_canonical_header := (db_canonical_header db)(i := None)\<rparr>"
  have "delete_canonical_from (i + 1) db1 =
      Some (db1\<lparr>db_canonical_header := (\<lambda>n. if i + 1 \<le> n then None else db_canonical_header db1 n)\<rparr>)"
  proof (rule Suc.hyps(1))
    show "k = unat top_num - unat (i + 1)" using Suc.hyps(2) next_num by simp
    show "i + 1 \<le> top_num" using less by (simp add: above)
    show "db_canonical_header db1 n \<noteq> None \<longleftrightarrow> n < top_num" if "i + 1 \<le> n" for n
      using Suc.prems(2) [of n] that by (auto simp: db1_def above)
  qed
  moreover have "(\<lambda>n. if i + 1 \<le> n then None else db_canonical_header db1 n) = (\<lambda>n. if i \<le> n then None else db_canonical_header db n)"
    by (auto simp: fun_eq_iff above db1_def)
  ultimately show ?case
    using Suc.prems(2) [of i] less by (subst delete_canonical_from.simps) (simp add: Let_def db1_def)
qed

text \<open>Unwinding a canonical chain without gaps, to a block below its top, ends; exactly the entries
  above that block are deleted, the last header is the hash of that block, and no other table changes.\<close>

theorem save_unwind_truncates:
  assumes "u < top_num" and "\<And>n. db_canonical_header db n \<noteq> None \<longleftrightarrow> n < top_num"
  shows "save_unwind u db = Some (db\<lparr>db_canonical_header := (\<lambda>n. if n \<le> u then db_canonical_header db n else None),
    db_last_header := db_canonical_header db u\<rparr>, True)"
proof -
  note above = next_block_num(2) [OF assms(1)]
  have "delete_canonical_from (u + 1) db =
      Some (db\<lparr>db_canonical_header := (\<lambda>n. if u + 1 \<le> n then None else db_canonical_header db n)\<rparr>)"
    by (rule delete_canonical_from_ok [of _ top_num]) (use assms in \<open>simp_all add: above\<close>)
  moreover obtain h where "db_canonical_header db u = Some h" using assms by blast
  moreover have "(\<lambda>n. if u < n then None else db_canonical_header db n) = (\<lambda>n. if n \<le> u then db_canonical_header db n else None)"
    by (auto simp: fun_eq_iff)
  ultimately show ?thesis by (simp add: save_unwind_def above)
qed

definition sample_db :: header_db where
  "sample_db = \<lparr> db_canonical_header = (\<lambda>n. if n < 3 then Some (ucast n) else None), db_last_header = Some 2,
     db_header = (\<lambda>_. None), db_header_number = (\<lambda>_. None), db_total_difficulty = (\<lambda>_. None) \<rparr>"

theorem save_unwind_truncates_witness:
  "save_unwind 1 sample_db = Some (sample_db\<lparr>db_canonical_header := (\<lambda>n. if n \<le> 1 then db_canonical_header sample_db n else None),
     db_last_header := Some 1\<rparr>, True)"
  using save_unwind_truncates [of 1 3 sample_db] by (simp add: sample_db_def)

end
