(* ===== verification/Header_Fork.thy ===== *)
theory Header_Fork
  imports
    Header_Stages
begin

text \<open>
  Forks at the top of the header chain (\<^verbatim>\<open>downloader/headers_downloader/stages/fork_mode_stage.rs\<close>,
  \<^verbatim>\<open>fork_switch_command.rs\<close> and \<^verbatim>\<open>verify_link_forky_stage.rs\<close>): a second window holds the slices of a
  fork, which grows downwards until it meets the canonical chain; then the heavier one of the two is
  kept.  A panic of the verifier or of an \<open>unwrap\<close>, and a loop that does not end, are \<open>None\<close>; an
  error is returned beside the windows, which outlive it.
\<close>

section \<open>The fork mode\<close>

record fork_switch_command =
  fs_canonical_range :: block_range
  fs_fork_range :: block_range
  fs_connection_block_num :: block_number

record fork_mode_stage =
  fm_canonical_range :: block_range
  fm_fork_range :: block_range
  fm_pending_switch_to_fork_command :: "fork_switch_command option"
  fm_remaining_count :: u64
  fm_fork_remaining_count :: u64

text \<open>The stage, the canonical window and the window of the fork.\<close>

type_synonym fork_state = "fork_mode_stage \<times> header_slices \<times> header_slices"

datatype fork_error = InitialForkSliceNotFound | InitialForkSliceInvalidStatus | PrependFailed slices_error

definition is_canonical_slice_status :: "header_slice_status \<Rightarrow> bool" where
  "is_canonical_slice_status status \<longleftrightarrow> status = Verified \<or> status = Saved"

definition find_canonical_range :: "header_slices \<Rightarrow> block_range" where
  "find_canonical_range hs =
     (case try_fold (\<lambda>rng i.
          let s = hs_slices hs ! i;
              rng = (if fst rng = 0 \<and> range_is_empty rng
                       then (sl_start_block_num s, sl_start_block_num s) else rng)
          in if is_canonical_slice_status (sl_status s) then Continue (fst rng, snd (block_num_range s))
             else Break rng) hs (0, 0) of
        Break rng \<Rightarrow> rng
      | Continue rng \<Rightarrow> rng)"

definition find_fork_range :: "header_slices \<Rightarrow> block_range" where
  "find_fork_range hs =
     (case try_rfold (\<lambda>rng i.
          let s = hs_slices hs ! i;
              rng = (if fst rng = 0 \<and> range_is_empty rng
                       then (snd (block_num_range s), snd (block_num_range s)) else rng)
          in if is_canonical_slice_status (sl_status s) then Continue (sl_start_block_num s, snd rng)
             else Break rng) hs (0, 0) of
        Break rng \<Rightarrow> rng
      | Continue rng \<Rightarrow> rng)"

definition fork_mode_new :: "header_slices \<Rightarrow> header_slices \<Rightarrow> fork_mode_stage" where
  "fork_mode_new hs fhs = \<lparr> fm_canonical_range = find_canonical_range hs, fm_fork_range = find_fork_range fhs,
     fm_pending_switch_to_fork_command = None, fm_remaining_count = 0, fm_fork_remaining_count = 0 \<rparr>"

definition find_canonical_continuation_slice :: "fork_mode_stage \<Rightarrow> header_slices \<Rightarrow> nat option" where
  "find_canonical_continuation_slice fm hs = find_by_block_num hs (snd (fm_canonical_range fm))"

definition find_fork_continuation_slice :: "fork_mode_stage \<Rightarrow> header_slices \<Rightarrow> nat option" where
  "find_fork_continuation_slice fm fhs =
     (let fork_start = fst (fm_fork_range fm)
      in if fork_start = 0 then None else find_by_block_num fhs (fork_start - 1))"

definition find_canonical_last_slice :: "fork_mode_stage \<Rightarrow> header_slices \<Rightarrow> nat option" where
  "find_canonical_last_slice fm hs =
     (let canonical_end = snd (fm_canonical_range fm)
      in if canonical_end = 0 then None else find_by_block_num hs (canonical_end - 1))"

definition find_fork_first_slice :: "fork_mode_stage \<Rightarrow> header_slices \<Rightarrow> nat option" where
  "find_fork_first_slice fm fhs = find_by_block_num fhs (fst (fm_fork_range fm))"

text \<open>The code has one such method for each of the two windows.\<close>

definition refetch_slice :: "nat \<Rightarrow> header_slices \<Rightarrow> header_slices" where
  "refetch_slice = update_slice_at (\<lambda>s. s) Empty (\<lambda>s. s\<lparr>sl_headers := None, sl_refetch_attempt := sl_refetch_attempt s + 1\<rparr>)"

definition fork_setup :: "fork_state \<Rightarrow> fork_state \<times> fork_error option" where
  "fork_setup st = (case st of (fm, hs, fhs) \<Rightarrow>
     (case find_canonical_continuation_slice fm hs of
        None \<Rightarrow> (st, Some InitialForkSliceNotFound)
      | Some i \<Rightarrow>
          (let s = hs_slices hs ! i
           in if sl_status s \<noteq> Fork then (st, Some InitialForkSliceInvalidStatus)
              else let hs = refetch_slice i hs;
                       fork_initial_slice = header_slice_default\<lparr>sl_start_block_num := sl_start_block_num s,
                         sl_status := Verified, sl_headers := sl_headers s, sl_from_peer_id := sl_from_peer_id s\<rparr>;
                       fhs = reset_to_single_slice fork_initial_slice fhs;
                       fm = fm\<lparr>fm_fork_range := block_num_range fork_initial_slice\<rparr>
              in (case prepend_slice fhs of
                    Inl err \<Rightarrow> ((fm, hs, fhs), Some (PrependFailed err))
                  | Inr fhs \<Rightarrow> ((fm, hs, fhs), None)))))"

definition verify_slices_link :: "downloader_env \<Rightarrow> header_slice \<Rightarrow> header_slice \<Rightarrow> bool option" where
  "verify_slices_link e child_slice parent_slice =
     (case (sl_headers child_slice, sl_headers parent_slice) of
        (Some child_headers, Some parent_headers) \<Rightarrow>
          if child_headers = [] \<or> parent_headers = [] then Some False
          else verify_link (env_hash e) (env_chain_spec e) (hd child_headers) (last parent_headers)
      | _ \<Rightarrow> Some False)"

text \<open>The slice that extends a chain becomes verified.\<close>

definition verify_continuation_slice :: "nat \<Rightarrow> header_slices \<Rightarrow> header_slices" where
  "verify_continuation_slice = update_slice_at (\<lambda>s. s) Verified (\<lambda>s. s\<lparr>sl_refetch_attempt := 0\<rparr>)"

definition try_extend_canonical ::
    "downloader_env \<Rightarrow> nat \<Rightarrow> fork_mode_stage \<times> header_slices \<Rightarrow> ((fork_mode_stage \<times> header_slices) \<times> bool) option" where
  "try_extend_canonical e i st = (case st of (fm, hs) \<Rightarrow>
     (case find_canonical_last_slice fm hs of
        None \<Rightarrow> Some (st, False)
      | Some end_slice \<Rightarrow>
          map_option (\<lambda>is_linked.
            if is_linked
            then let hs = verify_continuation_slice i hs
                 in ((fm\<lparr>fm_canonical_range := (fst (fm_canonical_range fm), snd (block_num_range (hs_slices hs ! i)))\<rparr>, hs), True)
            else (st, False))
          (verify_slices_link e (hs_slices hs ! i) (hs_slices hs ! end_slice))))"

definition try_extend_fork ::
    "downloader_env \<Rightarrow> nat \<Rightarrow> fork_mode_stage \<times> header_slices \<Rightarrow> ((fork_mode_stage \<times> header_slices) \<times> bool) option" where
  "try_extend_fork e i st = (case st of (fm, fhs) \<Rightarrow>
     (case find_fork_first_slice fm fhs of
        None \<Rightarrow> Some (st, False)
      | Some end_slice \<Rightarrow>
          map_option (\<lambda>is_linked.
            if is_linked
            then let fhs = verify_continuation_slice i fhs
                 in ((fm\<lparr>fm_fork_range := (fst (block_num_range (hs_slices fhs ! i)), snd (fm_fork_range fm))\<rparr>, fhs), True)
            else (st, False))
          (verify_slices_link e (hs_slices fhs ! end_slice) (hs_slices fhs ! i))))"

definition find_fork_connection_block_num :: "downloader_env \<Rightarrow> fork_state \<Rightarrow> block_number option" where
  "find_fork_connection_block_num e st = (case st of (fm, hs, fhs) \<Rightarrow>
     (case find_fork_first_slice fm fhs of
        None \<Rightarrow> None
      | Some j \<Rightarrow>
          (case find_by_start_block_num hs (sl_start_block_num (hs_slices fhs ! j)) of
             None \<Rightarrow> None
           | Some i \<Rightarrow>
               (case (sl_headers (hs_slices hs ! i), sl_headers (hs_slices fhs ! j)) of
                  (Some canonical_headers, Some fork_headers) \<Rightarrow>
                    map_option (\<lambda>(header, _). cnum header)
                      (List.find (\<lambda>(header, fork_header). env_hash e header = env_hash e fork_header)
                        (List.rev (zip canonical_headers fork_headers)))
                | _ \<Rightarrow> None))))"

subsection \<open>The difficulty of a range\<close>

text \<open>The inner loop: the headers of one slice from \<open>index\<close> on.\<close>

function slice_difficulty ::
    "block_range \<Rightarrow> cached_header list \<Rightarrow> nat \<Rightarrow> block_number \<Rightarrow> u256 \<Rightarrow> block_number \<times> u256" where
  "slice_difficulty rng headers index num difficulty =
     (if index < length headers \<and> range_contains rng num
      then slice_difficulty rng headers (Suc index) (num + 1) (difficulty + h_difficulty (ch_header (headers ! index)))
      else (num, difficulty))"
  by pat_completeness auto
termination
  by (relation "measure (\<lambda>(_, headers, index, _, _). length headers - index)") auto

declare slice_difficulty.simps [simp del]

partial_function (option) range_difficulty_from ::
    "header_slices \<Rightarrow> block_range \<Rightarrow> block_number \<Rightarrow> u256 \<Rightarrow> u256 option" where
  "range_difficulty_from hs rng num difficulty =
     (if range_contains rng num
      then case find_by_block_num hs num of
          None \<Rightarrow> Some difficulty
        | Some i \<Rightarrow>
            (let s = hs_slices hs ! i
             in if \<not> is_canonical_slice_status (sl_status s) then Some difficulty
                else case sl_headers s of
                    None \<Rightarrow> Some difficulty
                  | Some headers \<Rightarrow>
                      (let index = unat (num - sl_start_block_num s);
                           (num, difficulty) = slice_difficulty rng headers index num difficulty
                       in range_difficulty_from hs rng num difficulty))
      else Some difficulty)"

declare range_difficulty_from.simps [code]

definition range_difficulty :: "header_slices \<Rightarrow> block_range \<Rightarrow> block_number \<Rightarrow> u256 option" where
  "range_difficulty hs rng connection_block_num = range_difficulty_from hs rng (connection_block_num + 1) 0"

definition canonical_range_difficulty :: "fork_state \<Rightarrow> block_number \<Rightarrow> u256 option" where
  "canonical_range_difficulty st = (case st of (fm, hs, fhs) \<Rightarrow> range_difficulty hs (fm_canonical_range fm))"

definition fork_range_difficulty :: "fork_state \<Rightarrow> block_number \<Rightarrow> u256 option" where
  "fork_range_difficulty st = (case st of (fm, hs, fhs) \<Rightarrow> range_difficulty fhs (fm_fork_range fm))"

subsection \<open>An execution of the stage\<close>

definition switch_to_fork :: "block_number \<Rightarrow> fork_mode_stage \<Rightarrow> fork_mode_stage" where
  "switch_to_fork connection_block_num fm = fm\<lparr>fm_pending_switch_to_fork_command :=
     Some \<lparr> fs_canonical_range = fm_canonical_range fm, fs_fork_range = fm_fork_range fm,
       fs_connection_block_num = connection_block_num \<rparr>\<rparr>"

definition discard_fork :: "fork_mode_stage \<times> header_slices \<Rightarrow> fork_mode_stage \<times> header_slices" where
  "discard_fork st = (case st of (fm, fhs) \<Rightarrow>
     (fm\<lparr>fm_fork_range := (snd (fm_fork_range fm), snd (fm_fork_range fm))\<rparr>, clear fhs))"

text \<open>The first two parts of \<open>process_pending\<close>: whether the chain was extended, and the number of slices updated.\<close>

definition extend_canonical_pending ::
    "downloader_env \<Rightarrow> u64 \<Rightarrow> fork_mode_stage \<times> header_slices \<Rightarrow> ((fork_mode_stage \<times> header_slices) \<times> bool \<times> u64) option" where
  "extend_canonical_pending e pending st =
     (case find_canonical_continuation_slice (fst st) (snd st) of
        None \<Rightarrow> Some (st, False, 0)
      | Some i \<Rightarrow>
          if sl_status (hs_slices (snd st) ! i) = VerifiedInternally \<and> 0 < pending
          then map_option (\<lambda>((fm, hs), did_extend). ((fm, if did_extend then hs else refetch_slice i hs), did_extend, 1))
                 (try_extend_canonical e i st)
          else Some (st, False, 0))"

definition extend_fork_pending ::
    "downloader_env \<Rightarrow> u64 \<Rightarrow> fork_mode_stage \<times> header_slices \<Rightarrow> ((fork_mode_stage \<times> header_slices) \<times> bool \<times> u64) option" where
  "extend_fork_pending e fork_pending st =
     (case find_fork_continuation_slice (fst st) (snd st) of
        None \<Rightarrow> Some (st, False, 0)
      | Some i \<Rightarrow>
          if sl_status (hs_slices (snd st) ! i) = VerifiedInternally \<and> 0 < fork_pending
          then map_option (\<lambda>((fm, fhs), did_extend). ((fm, if did_extend then fhs else refetch_slice i fhs), did_extend, 1))
                 (try_extend_fork e i st)
          else Some (st, False, 0))"

text \<open>The termination conditions: \<open>Some None\<close> if none of them holds.\<close>

definition fork_termination :: "downloader_env \<Rightarrow> fork_state \<Rightarrow> fork_state option option" where
  "fork_termination e st = (case st of (fm, hs, fhs) \<Rightarrow>
     (case find_fork_connection_block_num e st of
        Some connection_block_num \<Rightarrow>
          Option.bind (fork_range_difficulty st connection_block_num) (\<lambda>fork_range_difficulty.
          Option.bind (canonical_range_difficulty st connection_block_num) (\<lambda>canonical_range_difficulty.
            if fork_range_difficulty > canonical_range_difficulty
            then Some (Some (switch_to_fork connection_block_num fm, hs, fhs))
            else let (fm, fhs) = discard_fork (fm, fhs) in Some (Some (fm, hs, fhs))))
      | None \<Rightarrow>
          if fst (fm_fork_range fm) = fst (fm_canonical_range fm)
          then let (fm, fhs) = discard_fork (fm, fhs) in Some (Some (fm, hs, fhs))
          else Some None))"

text \<open>Not terminated: the next slices of both chains are to be fetched.\<close>

definition prolong_canonical :: "u64 \<Rightarrow> u64 \<Rightarrow> fork_mode_stage \<Rightarrow> header_slices \<Rightarrow> header_slices \<times> u64" where
  "prolong_canonical pending updated_count fm hs =
     (case find_canonical_continuation_slice fm hs of
        None \<Rightarrow> (hs, updated_count)
      | Some i \<Rightarrow>
          (refetch_slice i hs,
           if sl_status (hs_slices hs ! i) = VerifiedInternally \<and> updated_count < pending
           then updated_count + 1 else updated_count))"

definition prolong_chains ::
    "bool \<Rightarrow> bool \<Rightarrow> u64 \<Rightarrow> u64 \<times> u64 \<Rightarrow> fork_state \<Rightarrow> fork_state \<times> (fork_error + u64 \<times> u64)" where
  "prolong_chains did_extend_canonical did_extend_fork pending updated st = (case st of (fm, hs, fhs) \<Rightarrow>
     (let (updated_count, fork_updated_count) = updated;
          (hs, updated_count) =
            (if did_extend_canonical then prolong_canonical pending updated_count fm hs else (hs, updated_count))
      in if did_extend_fork
         then case prepend_slice fhs of
             Inl err \<Rightarrow> ((fm, hs, fhs), Inl (PrependFailed err))
           | Inr fhs \<Rightarrow> ((fm, hs, fhs), Inr (updated_count, fork_updated_count))
         else ((fm, hs, fhs), Inr (updated_count, fork_updated_count))))"

definition process_pending ::
    "downloader_env \<Rightarrow> u64 \<Rightarrow> u64 \<Rightarrow> fork_state \<Rightarrow> (fork_state \<times> (fork_error + u64 \<times> u64)) option" where
  "process_pending e pending fork_pending st = (case st of (fm, hs, fhs) \<Rightarrow>
     Option.bind (extend_canonical_pending e pending (fm, hs)) (\<lambda>((fm, hs), did_extend_canonical, updated_count).
     Option.bind (extend_fork_pending e fork_pending (fm, fhs)) (\<lambda>((fm, fhs), did_extend_fork, fork_updated_count).
     map_option (\<lambda>terminated. case terminated of
         Some st \<Rightarrow> (st, Inr (updated_count, fork_updated_count))
       | None \<Rightarrow> prolong_chains did_extend_canonical did_extend_fork pending (updated_count, fork_updated_count) (fm, hs, fhs))
       (if did_extend_fork then fork_termination e (fm, hs, fhs) else Some None))))"

definition fork_execute :: "downloader_env \<Rightarrow> fork_state \<Rightarrow> (fork_state \<times> fork_error option) option" where
  "fork_execute e st = (case st of (fm, hs, fhs) \<Rightarrow>
     (let (pending, fork_pending) = pending_counts VerifiedInternally hs VerifiedInternally fhs
      in map_option (\<lambda>((fm, hs, fhs), res). case res of
           Inl err \<Rightarrow> ((fm, hs, fhs), Some err)
         | Inr (updated_count, fork_updated_count) \<Rightarrow>
             ((fm\<lparr>fm_remaining_count := pending - updated_count,
                  fm_fork_remaining_count := fork_pending - fork_updated_count\<rparr>, hs, fhs), None))
         (process_pending e pending fork_pending st)))"

definition fork_is_done :: "header_slices \<Rightarrow> bool" where
  "fork_is_done fhs \<longleftrightarrow> hs_slices fhs = []"

definition fork_is_over :: "fork_mode_stage \<Rightarrow> bool" where
  "fork_is_over fm \<longleftrightarrow> fm_pending_switch_to_fork_command fm \<noteq> None"

definition take_pending_termination_command :: "fork_mode_stage \<Rightarrow> fork_switch_command option \<times> fork_mode_stage" where
  "take_pending_termination_command fm =
     (fm_pending_switch_to_fork_command fm, fm\<lparr>fm_pending_switch_to_fork_command := None\<rparr>)"

definition adjust_fork_slices_after_header_slices_trim :: "header_slices \<Rightarrow> header_slices \<Rightarrow> header_slices" where
  "adjust_fork_slices_after_header_slices_trim fhs hs = (if min_block_num fhs \<le> min_block_num hs then clear fhs else fhs)"

definition fork_can_proceed :: "header_slices \<Rightarrow> header_slices \<Rightarrow> bool" where
  "fork_can_proceed hs fhs \<longleftrightarrow> contains_status hs VerifiedInternally \<or> contains_status fhs VerifiedInternally"

section \<open>Switching to the fork\<close>

text \<open>The fork is promoted slice by slice.\<close>

partial_function (option) promote_fork ::
    "block_number \<Rightarrow> block_number \<Rightarrow> header_slices \<times> header_slices \<Rightarrow> (block_number \<times> header_slices \<times> header_slices) option" where
  "promote_fork fork_end num st = (case st of (hs, fhs) \<Rightarrow>
     if num < fork_end
     then Option.bind (find_by_start_block_num hs num) (\<lambda>i.
          Option.bind (find_by_start_block_num fhs num) (\<lambda>j.
            let fork_slice = hs_slices fhs ! j;
                hs = update_slice_at (\<lambda>s. s) (sl_status fork_slice)
                  (\<lambda>s. s\<lparr>sl_headers := sl_headers fork_slice, sl_refetch_attempt := 0\<rparr>) i hs;
                fhs = fhs\<lparr>hs_slices := (hs_slices fhs)[j := fork_slice\<lparr>sl_headers := None\<rparr>]\<rparr>
            in promote_fork fork_end (num + of_nat (slice_len (hs_slices hs ! i))) (hs, fhs)))
     else Some (num, hs, fhs))"

declare promote_fork.simps [code]

text \<open>The canonical slices after the fork are emptied.\<close>

partial_function (option) discard_canonical :: "block_number \<Rightarrow> block_number \<Rightarrow> header_slices \<Rightarrow> header_slices option" where
  "discard_canonical canonical_end num hs =
     (if num < canonical_end
      then Option.bind (find_by_start_block_num hs num) (\<lambda>i.
             let s = hs_slices hs ! i; len = slice_len s
             in if \<not> is_canonical_slice_status (sl_status s) then None
                else if len = 0 then None
                else discard_canonical canonical_end (num + of_nat len)
                  (update_slice_at (\<lambda>s. s) Empty (\<lambda>s. s\<lparr>sl_headers := None, sl_refetch_attempt := 0\<rparr>) i hs))
      else Some hs)"

declare discard_canonical.simps [code]

definition command_switch_to_fork :: "fork_switch_command \<Rightarrow> header_slices \<times> header_slices \<Rightarrow> (header_slices \<times> header_slices) option" where
  "command_switch_to_fork cmd st =
     Option.bind (promote_fork (snd (fs_fork_range cmd)) (fst (fs_fork_range cmd)) st) (\<lambda>(num, hs, fhs).
       let num = align_block_num_to_slice_start (num + of_nat HEADER_SLICE_SIZE - 1)
       in map_option (\<lambda>hs. (hs, clear fhs)) (discard_canonical (snd (fs_canonical_range cmd)) num hs))"

definition promote_header :: "downloader_env \<Rightarrow> block_number \<Rightarrow> cached_header \<Rightarrow> header_db \<Rightarrow> header_db" where
  "promote_header e connection_block_num header db =
     (if cnum header \<le> connection_block_num then db else update_canonical_chain_header e header db)"

partial_function (option) update_canonical_chain_headers ::
    "downloader_env \<Rightarrow> fork_switch_command \<Rightarrow> header_slices \<Rightarrow> block_number \<Rightarrow> header_db \<Rightarrow> header_db option" where
  "update_canonical_chain_headers e cmd hs num db =
     (if num < snd (fs_fork_range cmd)
      then Option.bind (find_by_start_block_num hs num) (\<lambda>i.
             let s = hs_slices hs ! i; len = slice_len s;
                 headers = (if sl_status s = Saved then sl_headers s else None);
                 db = (case headers of
                         None \<Rightarrow> db
                       | Some headers \<Rightarrow> fold (promote_header e (fs_connection_block_num cmd)) headers db)
             in update_canonical_chain_headers e cmd hs (num + of_nat len) db)
      else Some db)"

declare update_canonical_chain_headers.simps [code]

definition fork_switch_execute ::
    "downloader_env \<Rightarrow> fork_switch_command \<Rightarrow> (header_slices \<times> header_slices) \<times> header_db \<Rightarrow>
      ((header_slices \<times> header_slices) \<times> header_db) option" where
  "fork_switch_execute e cmd st =
     Option.bind (command_switch_to_fork cmd (fst st)) (\<lambda>(hs, fhs).
       map_option (\<lambda>db. ((hs, fhs), db)) (update_canonical_chain_headers e cmd hs (fst (fs_fork_range cmd)) (snd st)))"

section \<open>Linking slices with forks\<close>

datatype link_mode = Linear_mode link_stage | Fork_mode fork_mode_stage

record forky_link_stage =
  fl_last_verified_header :: "cached_header option"
  fl_start_block_num :: block_number
  fl_mode :: link_mode
  fl_termination_command :: "fork_switch_command option"

definition forky_link_new :: "header_slices \<Rightarrow> header_slices \<Rightarrow> cached_header option \<Rightarrow> forky_link_stage option" where
  "forky_link_new hs fhs last_verified_header =
     map_option (\<lambda>mode. \<lparr> fl_last_verified_header = last_verified_header,
         fl_start_block_num = (case last_verified_header of None \<Rightarrow> 0 | Some h \<Rightarrow> cnum h + 1),
         fl_mode = mode, fl_termination_command = None \<rparr>)
       (if hs_slices fhs = [] then map_option Linear_mode (link_stage_new hs last_verified_header Fork)
        else Some (Fork_mode (fork_mode_new hs fhs)))"

definition switch_to_linear_mode :: "header_slices \<Rightarrow> forky_link_stage \<Rightarrow> forky_link_stage option" where
  "switch_to_linear_mode hs fl =
     map_option (\<lambda>lk. fl\<lparr>fl_mode := Linear_mode lk\<rparr>) (link_stage_new hs (fl_last_verified_header fl) Fork)"

definition switch_to_fork_mode ::
    "forky_link_stage \<times> header_slices \<times> header_slices \<Rightarrow> (forky_link_stage \<times> header_slices \<times> header_slices) \<times> fork_error option" where
  "switch_to_fork_mode st = (case st of (fl, hs, fhs) \<Rightarrow>
     (case fork_setup (fork_mode_new hs fhs, hs, fhs) of
        ((fm, hs, fhs), None) \<Rightarrow> ((fl\<lparr>fl_mode := Fork_mode fm\<rparr>, hs, fhs), None)
      | ((fm, hs, fhs), Some err) \<Rightarrow> ((fl, hs, fhs), Some err)))"

definition forky_link_execute ::
    "downloader_env \<Rightarrow> forky_link_stage \<times> header_slices \<times> header_slices \<Rightarrow>
      ((forky_link_stage \<times> header_slices \<times> header_slices) \<times> fork_error option) option" where
  "forky_link_execute e st = (case st of (fl, hs, fhs) \<Rightarrow>
     (case fl_mode fl of
        Linear_mode lk \<Rightarrow>
          Option.bind (link_execute e (lk, hs)) (\<lambda>(lk, hs).
            let fl = fl\<lparr>fl_mode := Linear_mode lk\<rparr>
            in case find_by_status hs Fork of
                 None \<Rightarrow> Some ((fl, hs, fhs), None)
               | Some i \<Rightarrow>
                   if sl_start_block_num (hs_slices hs ! i) = fl_start_block_num fl
                   then Some ((fl, update_slice_at (\<lambda>s. s) Invalid (\<lambda>s. s) i hs, fhs), None)
                   else Some (switch_to_fork_mode (fl, hs, fhs)))
      | Fork_mode fm \<Rightarrow>
          Option.bind (fork_execute e (fm, hs, fhs)) (\<lambda>((fm, hs, fhs), err).
            let fl = fl\<lparr>fl_mode := Fork_mode fm\<rparr>
            in case err of
                 Some err \<Rightarrow> Some ((fl, hs, fhs), Some err)
               | None \<Rightarrow>
                   if fork_is_over fm
                   then let (cmd, fm) = take_pending_termination_command fm
                        in Some ((fl\<lparr>fl_mode := Fork_mode fm, fl_termination_command := cmd\<rparr>, hs, fhs), None)
                   else if fork_is_done fhs
                   then map_option (\<lambda>fl. ((fl, hs, fhs), None)) (switch_to_linear_mode hs fl)
                   else Some ((fl, hs, fhs), None))))"

definition forky_link_is_over :: "forky_link_stage \<Rightarrow> bool" where
  "forky_link_is_over fl \<longleftrightarrow> fl_termination_command fl \<noteq> None"

end
