(* ===== verification/Header_Fork_Choice.thy ===== *)
theory Header_Fork_Choice
  imports
    Header_Fork
begin

text \<open>
  The fork mode of the header downloader keeps the heavier chain: the windows of the canonical chain
  and of the fork as partial functions from block numbers to headers (\<open>window_header\<close>), the difficulty
  of a range as a sum over them, the invariant of the mode, what an execution of the stage decides,
  and when the mode can be entered.
\<close>

section \<open>Headers of a window\<close>

text \<open>The slices hold at most as many headers as one request asks for.  This is an assumption on
  the messages of peers, part of the invariant of the mode: \<open>on_headers_message\<close> stores what it
  gets without counting.\<close>

definition sized :: "header_slices \<Rightarrow> bool" where
  "sized hs \<longleftrightarrow> (\<forall>s \<in> set (hs_slices hs). slice_len s \<le> 192)"

text \<open>The header with number \<open>n\<close>, if a verified or saved slice has it.\<close>

definition window_header :: "header_slices \<Rightarrow> block_number \<Rightarrow> cached_header option" where
  "window_header hs n = (case find_by_block_num hs n of
       None \<Rightarrow> None
     | Some i \<Rightarrow>
         let s = hs_slices hs ! i
         in if is_canonical_slice_status (sl_status s)
            then map_option (\<lambda>headers. headers ! unat (n - sl_start_block_num s)) (sl_headers s) else None)"

lemma slice_start_room:
  assumes "slices_ok hs" and "i < length (hs_slices hs)"
  shows "unat (sl_start_block_num (hs_slices hs ! i)) + 192 < 2 ^ 64" "192 dvd unat (sl_start_block_num (hs_slices hs ! i))"
proof -
  from assms have pos: "unat (sl_start_block_num (hs_slices hs ! i)) = unat (min_block_num hs) + i * 192"
      "unat (hs_max_block_num hs) = unat (min_block_num hs) + length (hs_slices hs) * 192" "192 dvd unat (min_block_num hs)"
    by (auto simp: slices_ok_def positions_ok_def)
  from assms(2) have "(i + 1) * 192 \<le> length (hs_slices hs) * 192" by (intro mult_le_mono1) simp
  moreover have "unat (hs_max_block_num hs) < 2 ^ 64" using unsigned_less [of "hs_max_block_num hs", where ?'a = nat] by simp
  ultimately show "unat (sl_start_block_num (hs_slices hs ! i)) + 192 < 2 ^ 64" using pos(1,2) by (simp add: algebra_simps)
  show "192 dvd unat (sl_start_block_num (hs_slices hs ! i))" using pos(1,3) by simp
qed

lemma slice_end:
  assumes "slices_ok hs" and "sized hs" and "i < length (hs_slices hs)"
  shows "unat (snd (block_num_range (hs_slices hs ! i))) = unat (sl_start_block_num (hs_slices hs ! i)) + slice_len (hs_slices hs ! i)"
proof -
  have "slice_len (hs_slices hs ! i) \<le> 192" using assms(2,3) by (simp add: sized_def)
  with slice_start_room(1) [OF assms(1,3)] show ?thesis
    by (simp add: block_num_range_def unat_word_ariths unat_of_nat)
qed

text \<open>The search by number finds the slice that has the block.\<close>

lemma find_by_block_num_sized:
  assumes "slices_ok hs" and "sized hs"
  shows "find_by_block_num hs n = Some i \<longleftrightarrow> i < length (hs_slices hs) \<and>
    unat (sl_start_block_num (hs_slices hs ! i)) \<le> unat n \<and>
    unat n < unat (sl_start_block_num (hs_slices hs ! i)) + slice_len (hs_slices hs ! i)"
proof (cases "i < length (hs_slices hs)")
  case True
  let ?s = "hs_slices hs ! i"
  have len: "slice_len ?s \<le> 192" using assms(2) True by (simp add: sized_def)
  from slice_start_room(2) [OF assms(1) True] obtain k where k: "unat (sl_start_block_num ?s) = 192 * k" by auto
  have "sl_start_block_num ?s = align_block_num_to_slice_start n"
    if "unat (sl_start_block_num ?s) \<le> unat n" "unat n < unat (sl_start_block_num ?s) + slice_len ?s"
  proof -
    have "unat n div 192 = k" using that k len by auto
    then show ?thesis using k by (simp add: word_unat_eq_iff align_le)
  qed
  with True show ?thesis
    by (auto simp: find_by_block_num_iff [OF assms(1)] range_contains_def word_le_nat_alt word_less_nat_alt
        slice_end [OF assms True]) (simp_all add: block_num_range_def)
qed (simp add: find_by_block_num_iff [OF assms(1)])

lemma window_header_iff:
  assumes "slices_ok hs" and "sized hs"
  shows "window_header hs n = Some h \<longleftrightarrow>
    (\<exists>s \<in> set (hs_slices hs). is_canonical_slice_status (sl_status s) \<and>
      (\<exists>headers t. sl_headers s = Some headers \<and> t < length headers \<and> unat n = unat (sl_start_block_num s) + t \<and> h = headers ! t))"
    (is "_ \<longleftrightarrow> ?R")
proof
  assume "window_header hs n = Some h"
  then obtain i headers where i: "find_by_block_num hs n = Some i" "is_canonical_slice_status (sl_status (hs_slices hs ! i))"
      "sl_headers (hs_slices hs ! i) = Some headers" "h = headers ! unat (n - sl_start_block_num (hs_slices hs ! i))"
    by (auto simp: window_header_def Let_def split: option.splits if_splits)
  from i(1) have n: "i < length (hs_slices hs)" "unat (sl_start_block_num (hs_slices hs ! i)) \<le> unat n"
      "unat n < unat (sl_start_block_num (hs_slices hs ! i)) + length headers"
    using i(3) by (simp_all add: find_by_block_num_sized [OF assms] slice_len_def)
  then show ?R using i(2-4)
    by (intro bexI [of _ "hs_slices hs ! i"])
      (auto simp: unat_sub word_le_nat_alt intro!: exI [of _ "unat n - unat (sl_start_block_num (hs_slices hs ! i))"])
next
  assume ?R
  then obtain i headers t where i: "i < length (hs_slices hs)" "is_canonical_slice_status (sl_status (hs_slices hs ! i))"
      "sl_headers (hs_slices hs ! i) = Some headers" "t < length headers"
      "unat n = unat (sl_start_block_num (hs_slices hs ! i)) + t" "h = headers ! t"
    by (auto simp: in_set_conv_nth)
  then have "find_by_block_num hs n = Some i" by (simp add: find_by_block_num_sized [OF assms] slice_len_def)
  moreover have "unat (n - sl_start_block_num (hs_slices hs ! i)) = t"
    using i(5) by (simp add: unat_sub word_le_nat_alt)
  ultimately show "window_header hs n = Some h" using i by (simp add: window_header_def Let_def)
qed

section \<open>The difficulty of a range is a sum\<close>

lemma slice_difficulty_eq:
  assumes "fst rng \<le> num" and "num \<le> snd rng" and "index \<le> length headers"
  shows "slice_difficulty rng headers index num d =
    (let k = min (length headers - index) (unat (snd rng) - unat num)
     in (num + of_nat k, d + sum_list (map (\<lambda>h. h_difficulty (ch_header h)) (take k (drop index headers)))))"
  using assms
proof (induction rng headers index num d rule: slice_difficulty.induct)
  case (1 rng headers index num d)
  show ?case
  proof (cases "index < length headers \<and> range_contains rng num")
    case True
    then have less: "num < snd rng" by (simp add: range_contains_def)
    have next_num: "unat (num + 1) = Suc (unat num)" "fst rng \<le> num + 1" "num + 1 \<le> snd rng"
      using less 1(2) unsigned_less [of "snd rng", where ?'a = nat]
      by (auto simp: word_less_nat_alt word_le_nat_alt unat_word_ariths)
    define k where "k = min (length headers - Suc index) (unat (snd rng) - unat (num + 1))"
    have k: "min (length headers - index) (unat (snd rng) - unat num) = Suc k"
      using True less next_num(1) by (auto simp: k_def word_less_nat_alt)
    have "drop index headers = headers ! index # drop (Suc index) headers" using True by (simp add: Cons_nth_drop_Suc)
    with 1(1) [OF True next_num(2,3)] True show ?thesis
      unfolding slice_difficulty.simps [of rng headers index num d] k by (simp add: k_def [symmetric] Let_def add.assoc)
  next
    case False
    then have "min (length headers - index) (unat (snd rng) - unat num) = 0"
      using 1(2-4) by (auto simp: range_contains_def word_less_nat_alt)
    with False show ?thesis unfolding slice_difficulty.simps [of rng headers index num d] by (auto simp: Let_def)
  qed
qed

text \<open>The reference: the sum over the block numbers from \<open>a\<close> up to \<open>b\<close>.\<close>

definition difficulty_between :: "header_slices \<Rightarrow> nat \<Rightarrow> nat \<Rightarrow> u256" where
  "difficulty_between hs a b = (\<Sum>n \<leftarrow> [a..<b]. case window_header hs (of_nat n) of
     None \<Rightarrow> 0 | Some h \<Rightarrow> h_difficulty (ch_header h))"

lemma difficulty_between_split: "a \<le> b \<Longrightarrow> b \<le> c \<Longrightarrow> difficulty_between hs a c = difficulty_between hs a b + difficulty_between hs b c"
  using upt_add_eq_append [of a b "c - b"] by (simp add: difficulty_between_def)

definition covers :: "header_slices \<Rightarrow> block_range \<Rightarrow> bool" where
  "covers hs rng \<longleftrightarrow> (\<forall>n. range_contains rng n \<longrightarrow> window_header hs n \<noteq> None)"

lemma range_difficulty_from_sum:
  assumes "slices_ok hs" and "sized hs" and "covers hs rng" and "fst rng \<le> num" and "num \<le> snd rng"
  shows "range_difficulty_from hs rng num d = Some (d + difficulty_between hs (unat num) (unat (snd rng)))"
  using assms(4,5)
proof (induction "unat (snd rng) - unat num" arbitrary: num d rule: less_induct)
  case less
  show ?case
  proof (cases "num = snd rng")
    case True
    then show ?thesis by (subst range_difficulty_from.simps) (simp add: range_contains_def difficulty_between_def)
  next
    case False
    with less.prems have num: "num < snd rng" "range_contains rng num" by (simp_all add: range_contains_def)
    with assms(3) obtain i headers where i: "find_by_block_num hs num = Some i"
        "is_canonical_slice_status (sl_status (hs_slices hs ! i))" "sl_headers (hs_slices hs ! i) = Some headers"
      by (fastforce simp: covers_def window_header_def Let_def split: option.splits if_splits)
    let ?start = "sl_start_block_num (hs_slices hs ! i)"
    from i(1,3) have at: "i < length (hs_slices hs)" "unat ?start \<le> unat num" "unat num < unat ?start + length headers"
      by (simp_all add: find_by_block_num_sized [OF assms(1,2)] slice_len_def)
    define index where "index = unat num - unat ?start"
    have index: "unat (num - ?start) = index" "index < length headers" "unat num = unat ?start + index"
      using at(2,3) by (simp_all add: index_def unat_sub word_le_nat_alt)
    define k where "k = min (length headers - index) (unat (snd rng) - unat num)"
    have k: "0 < k" "unat num + k \<le> unat (snd rng)" "index + k \<le> length headers"
      using index(2) num(1) by (auto simp: k_def word_less_nat_alt)
    have next_num: "unat (num + of_nat k) = unat num + k"
      using k(2) unsigned_less [of "snd rng", where ?'a = nat] by (simp add: unat_word_ariths unat_of_nat)
    have "window_header hs (of_nat (unat num + t)) = Some (headers ! (index + t))" if "t < k" for t
    proof -
      have "unat (of_nat (unat num + t) :: block_number) = unat ?start + (index + t)"
        using that k(2) unsigned_less [of "snd rng", where ?'a = nat] index(3) by (simp add: unat_of_nat del: of_nat_add)
      with at(1) i(2,3) that k(3) show ?thesis
        by (subst window_header_iff [OF assms(1,2)]) (intro bexI [of _ "hs_slices hs ! i"], auto intro!: exI [of _ "index + t"])
    qed
    then have "difficulty_between hs (unat num) (unat num + k) =
        sum_list (map (\<lambda>h. h_difficulty (ch_header h)) (take k (drop index headers)))"
      using k(3) by (auto simp: difficulty_between_def intro!: arg_cong [where f = sum_list] nth_equalityI)
    with difficulty_between_split [of "unat num" "unat num + k" "unat (snd rng)" hs] k(2)
      less.hyps [of "num + of_nat k" "d + sum_list (map (\<lambda>h. h_difficulty (ch_header h)) (take k (drop index headers)))"]
      next_num less.prems k(1)
    show ?thesis
      by (subst range_difficulty_from.simps)
        (simp add: num(2) i Let_def index(1) slice_difficulty_eq [OF less.prems less_imp_le [OF index(2)]]
          k_def [symmetric] word_le_nat_alt add.assoc)
  qed
qed

section \<open>The invariant of the fork mode\<close>

text \<open>The headers of checked slices have the numbers of their positions.\<close>

definition numbered_slice :: "header_slice \<Rightarrow> bool" where
  "numbered_slice s \<longleftrightarrow> sl_status s \<in> {VerifiedInternally, Verified, Saved, Fork} \<longrightarrow>
     (\<forall>headers t. sl_headers s = Some headers \<and> t < length headers \<longrightarrow>
        unat (cnum (headers ! t)) = unat (sl_start_block_num s) + t)"

definition window_ok :: "header_slices \<Rightarrow> bool" where
  "window_ok hs \<longleftrightarrow> slices_ok hs \<and> sized hs \<and> (\<forall>s \<in> set (hs_slices hs). numbered_slice s)"

text \<open>No slice continues over the block number.\<close>

definition boundary :: "header_slices \<Rightarrow> block_number \<Rightarrow> bool" where
  "boundary hs n \<longleftrightarrow> (\<forall>s \<in> set (hs_slices hs).
     unat (sl_start_block_num s) < unat n \<longrightarrow> unat (sl_start_block_num s) + slice_len s \<le> unat n)"

text \<open>
  Both windows cover their ranges; the fork starts within the canonical range, and as long as nothing
  is decided above its first block.
\<close>

definition fork_inv :: "fork_state \<Rightarrow> bool" where
  "fork_inv st \<longleftrightarrow> (case st of (fm, hs, fhs) \<Rightarrow> let (cs, ce) = fm_canonical_range fm; (fs, fe) = fm_fork_range fm in
     window_ok hs \<and> window_ok fhs \<and> covers hs (cs, ce) \<and> covers fhs (fs, fe) \<and> boundary hs ce \<and> boundary fhs fe \<and>
     192 dvd unat cs \<and> cs \<le> ce \<and>
     (hs_slices fhs \<noteq> [] \<longrightarrow> cs \<le> fs \<and> fs \<le> ce \<and> fs < fe \<and> 192 dvd unat fs \<and> fe \<le> hs_max_block_num hs))"

definition fork_undecided :: "fork_state \<Rightarrow> bool" where
  "fork_undecided st \<longleftrightarrow> (case st of (fm, hs, fhs) \<Rightarrow> fm_pending_switch_to_fork_command fm = None \<and>
     (hs_slices fhs \<noteq> [] \<longrightarrow> fst (fm_canonical_range fm) < fst (fm_fork_range fm)))"

lemma window_okD: "window_ok hs \<Longrightarrow> slices_ok hs" "window_ok hs \<Longrightarrow> sized hs"
  by (simp_all add: window_ok_def)

lemmas window_header_ok = window_header_iff [OF window_okD]

lemma window_headerI:
  assumes "window_ok hs" and "s \<in> set (hs_slices hs)" and "is_canonical_slice_status (sl_status s)" and "sl_headers s = Some headers"
    and "t < length headers" and "unat n = unat (sl_start_block_num s) + t"
  shows "window_header hs n = Some (headers ! t)"
  unfolding window_header_ok [OF assms(1) assms(1)] using assms(2-6) by blast

subsection \<open>Changing one slice\<close>

lemma set_update_other: "x \<in> set xs \<Longrightarrow> x \<noteq> xs ! i \<Longrightarrow> x \<in> set (xs[i := y])"
  by (metis in_set_conv_nth length_list_update nth_list_update_neq)

lemma set_update_cases: "x \<in> set (xs[i := y]) \<Longrightarrow> (x = y \<Longrightarrow> P) \<Longrightarrow> (x \<in> set xs \<Longrightarrow> P) \<Longrightarrow> P"
  using set_update_subset_insert [of xs i y] by auto

lemma window_ok_update:
  assumes "window_ok hs" and "i < length (hs_slices hs)" and "keeps_identity g"
    and "s' = g ((hs_slices hs ! i)\<lparr>sl_status := st\<rparr>)" and "slice_len s' \<le> 192" and "numbered_slice s'"
  shows "window_ok (update_slice_at (\<lambda>s. s) st g i hs)"
proof -
  have "slices_ok (update_slice_at (\<lambda>s. s) st g i hs)"
    using assms by (intro slices_ok_update_slice_at) (simp_all add: window_ok_def keeps_identity_def)
  with assms show ?thesis by (auto simp: window_ok_def sized_def elim!: set_update_cases)
qed

lemma boundary_update:
  assumes "boundary hs n" and "i < length (hs_slices hs)" and "keeps_identity g"
    and "slice_len (g ((hs_slices hs ! i)\<lparr>sl_status := st\<rparr>)) \<le> slice_len (hs_slices hs ! i)"
  shows "boundary (update_slice_at (\<lambda>s. s) st g i hs) n"
  using assms nth_mem [OF assms(2)] by (fastforce simp: boundary_def keeps_identity_def elim!: set_update_cases)

lemma refetch_ok:
  assumes "window_ok hs" and "i < length (hs_slices hs)"
  shows "window_ok (refetch_slice i hs)" and "boundary hs n \<Longrightarrow> boundary (refetch_slice i hs) n"
    and "hs_max_block_num (refetch_slice i hs) = hs_max_block_num hs" and "length (hs_slices (refetch_slice i hs)) = length (hs_slices hs)"
proof -
  show "window_ok (refetch_slice i hs)" unfolding refetch_slice_def
    by (rule window_ok_update [OF assms _ refl]) (simp_all add: keeps_identity_def numbered_slice_def slice_len_def)
  show "boundary (refetch_slice i hs) n" if "boundary hs n" unfolding refetch_slice_def
    by (rule boundary_update [OF that assms(2)]) (simp_all add: keeps_identity_def slice_len_def)
qed (simp_all add: refetch_slice_def)

lemma refetch_keeps:
  assumes "window_ok hs" and "i < length (hs_slices hs)" and "window_header hs n = Some h"
    and "\<not> is_canonical_slice_status (sl_status (hs_slices hs ! i)) \<or> unat n < unat (sl_start_block_num (hs_slices hs ! i))"
  shows "window_header (refetch_slice i hs) n = Some h"
proof -
  from assms(3) obtain s headers t where s: "s \<in> set (hs_slices hs)" "is_canonical_slice_status (sl_status s)"
      "sl_headers s = Some headers" "t < length headers" "unat n = unat (sl_start_block_num s) + t" "h = headers ! t"
    unfolding window_header_ok [OF assms(1) assms(1)] by blast
  moreover have "s \<noteq> hs_slices hs ! i" using s assms(4) by auto
  then have "s \<in> set (hs_slices (refetch_slice i hs))" using s(1) by (simp add: refetch_slice_def set_update_other)
  ultimately show ?thesis
    unfolding window_header_ok [OF refetch_ok(1) refetch_ok(1), OF assms(1,2) assms(1,2)] by blast
qed

lemma refetch_covers:
  assumes "window_ok hs" and "i < length (hs_slices hs)" and "covers hs rng"
    and "\<not> is_canonical_slice_status (sl_status (hs_slices hs ! i)) \<or> snd rng \<le> sl_start_block_num (hs_slices hs ! i)"
  shows "covers (refetch_slice i hs) rng"
  unfolding covers_def
proof (intro allI impI)
  fix n
  assume n: "range_contains rng n"
  with assms(3) obtain h where "window_header hs n = Some h" by (auto simp: covers_def)
  moreover have "unat n < unat (sl_start_block_num (hs_slices hs ! i))" if "snd rng \<le> sl_start_block_num (hs_slices hs ! i)"
    using n that by (simp add: range_contains_def word_less_nat_alt word_le_nat_alt)
  ultimately show "window_header (refetch_slice i hs) n \<noteq> None" using refetch_keeps [OF assms(1,2)] assms(4) by fastforce
qed

lemma verify_continuation_ok:
  assumes "window_ok hs" and "i < length (hs_slices hs)" and "sl_status (hs_slices hs ! i) = VerifiedInternally"
  shows "window_ok (verify_continuation_slice i hs)" and "boundary hs n \<Longrightarrow> boundary (verify_continuation_slice i hs) n"
    and "hs_max_block_num (verify_continuation_slice i hs) = hs_max_block_num hs"
    and "length (hs_slices (verify_continuation_slice i hs)) = length (hs_slices hs)"
proof -
  have "slice_len (hs_slices hs ! i) \<le> 192" and "numbered_slice (hs_slices hs ! i)"
    using assms(1,2) by (simp_all add: window_ok_def sized_def)
  then show "window_ok (verify_continuation_slice i hs)" unfolding verify_continuation_slice_def
    by (intro window_ok_update [OF assms(1,2) _ refl]) (use assms(3) in \<open>simp_all add: keeps_identity_def numbered_slice_def slice_len_def\<close>)
  show "boundary (verify_continuation_slice i hs) n" if "boundary hs n" unfolding verify_continuation_slice_def
    by (rule boundary_update [OF that assms(2)]) (simp_all add: keeps_identity_def slice_len_def)
qed (simp_all add: verify_continuation_slice_def)

text \<open>The verified slice adds its blocks to those the window has.\<close>

lemma verify_continuation_header:
  assumes "window_ok hs" and "i < length (hs_slices hs)" and "sl_status (hs_slices hs ! i) = VerifiedInternally"
    and "window_header hs n \<noteq> None \<or>
      unat (sl_start_block_num (hs_slices hs ! i)) \<le> unat n \<and> unat n < unat (sl_start_block_num (hs_slices hs ! i)) + slice_len (hs_slices hs ! i)"
  shows "window_header (verify_continuation_slice i hs) n \<noteq> None"
proof -
  let ?hs = "verify_continuation_slice i hs"
  note iff = window_header_ok [OF verify_continuation_ok(1) verify_continuation_ok(1), OF assms(1-3) assms(1-3)]
  consider h where "window_header hs n = Some h"
    | "unat (sl_start_block_num (hs_slices hs ! i)) \<le> unat n" "unat n < unat (sl_start_block_num (hs_slices hs ! i)) + slice_len (hs_slices hs ! i)"
    using assms(4) by auto
  then have "\<exists>h. window_header ?hs n = Some h"
  proof cases
    case 1
    then obtain s headers t where s: "s \<in> set (hs_slices hs)" "is_canonical_slice_status (sl_status s)"
        "sl_headers s = Some headers" "t < length headers" "unat n = unat (sl_start_block_num s) + t" "h = headers ! t"
      unfolding window_header_ok [OF assms(1) assms(1)] by blast
    moreover have "s \<noteq> hs_slices hs ! i" using s(2) assms(3) by (auto simp: is_canonical_slice_status_def)
    then have "s \<in> set (hs_slices ?hs)" using s(1) by (simp add: verify_continuation_slice_def set_update_other)
    ultimately show ?thesis unfolding iff by blast
  next
    case 2
    let ?s = "(hs_slices hs ! i)\<lparr>sl_status := Verified, sl_refetch_attempt := 0\<rparr>"
    from 2 obtain headers where h: "sl_headers (hs_slices hs ! i) = Some headers" "unat n - unat (sl_start_block_num ?s) < length headers"
      by (auto simp: slice_len_def split: option.splits)
    have "?s \<in> set (hs_slices ?hs)" using assms(2) by (simp add: verify_continuation_slice_def set_update_memI)
    with 2 h show ?thesis unfolding iff
      by (intro exI bexI [of _ ?s]) (auto simp: is_canonical_slice_status_def
          intro!: exI [of _ "unat n - unat (sl_start_block_num ?s)"])
  qed
  then show ?thesis by simp
qed

lemma prepend_slice_window:
  assumes "window_ok hs" and "prepend_slice hs = Inr hs'"
  shows "window_ok hs'" and "window_header hs' = window_header hs" and "boundary hs n \<Longrightarrow> boundary hs' n" and "hs_slices hs' \<noteq> []"
proof -
  from assms(2) obtain s where s: "hs_slices hs' = s # hs_slices hs" "sl_status s = Empty" "sl_headers s = None"
    by (auto simp: prepend_slice_def header_slice_default_def header_slice_status_default_def Let_def split: if_splits list.splits)
  from assms prepend_slice_ok [OF window_okD(1)] s show ok: "window_ok hs'"
    by (auto simp: window_ok_def sized_def numbered_slice_def slice_len_def)
  have "window_header hs' n = Some h \<longleftrightarrow> window_header hs n = Some h" for n h
    unfolding window_header_ok [OF ok ok] window_header_ok [OF assms(1) assms(1)] using s
    by (auto simp: is_canonical_slice_status_def)
  then show "window_header hs' = window_header hs" by (intro ext) (metis option.exhaust)
  show "boundary hs' n" if "boundary hs n"
    using that s by (auto simp: boundary_def slice_len_def)
  show "hs_slices hs' \<noteq> []" using s by simp
qed

text \<open>Slices end where no other slice continues.\<close>

lemma slice_boundary:
  assumes "window_ok hs" and "i < length (hs_slices hs)"
    and "unat n = unat (sl_start_block_num (hs_slices hs ! i)) + slice_len (hs_slices hs ! i)"
  shows "boundary hs n"
  unfolding boundary_def
proof (intro ballI impI)
  fix s
  assume "s \<in> set (hs_slices hs)" and less: "unat (sl_start_block_num s) < unat n"
  then obtain j where j: "j < length (hs_slices hs)" "s = hs_slices hs ! j" by (auto simp: in_set_conv_nth)
  note ok = window_okD(1) [OF assms(1)]
  from slice_start_room(2) [OF ok j(1)] slice_start_room(2) [OF ok assms(2)] obtain a b
    where ab: "unat (sl_start_block_num s) = 192 * a" "unat (sl_start_block_num (hs_slices hs ! i)) = 192 * b"
    using j(2) by (auto elim!: dvdE)
  have len: "slice_len (hs_slices hs ! i) \<le> 192" "slice_len s \<le> 192" using assms(1,2) j by (simp_all add: window_ok_def sized_def)
  have "a \<le> b" using less assms(3) ab len(1) by simp
  moreover have "s = hs_slices hs ! i" if "a = b"
    using start_block_num_inj [OF ok j(1) assms(2)] that ab j(2) by (simp add: word_unat_eq_iff)
  ultimately show "unat (sl_start_block_num s) + slice_len s \<le> unat n"
    using assms(3) ab len(2) by (cases "a = b") auto
qed

subsection \<open>Extending the chains\<close>

lemma extend_canonical_inv:
  assumes "fork_inv (fm, hs, fhs)" and "extend_canonical_pending e p (fm, hs) = Some ((fm', hs'), did, u)"
  shows "fork_inv (fm', hs', fhs) \<and> fm_fork_range fm' = fm_fork_range fm \<and>
    fst (fm_canonical_range fm') = fst (fm_canonical_range fm) \<and>
    fm_pending_switch_to_fork_command fm' = fm_pending_switch_to_fork_command fm"
proof -
  obtain cs ce fs fe where rngs: "fm_canonical_range fm = (cs, ce)" "fm_fork_range fm = (fs, fe)" by fastforce
  from assms(1) rngs have inv: "window_ok hs" "covers hs (cs, ce)" "boundary hs ce" "cs \<le> ce"
    by (simp_all add: fork_inv_def)
  show ?thesis
  proof (cases "hs' = hs \<and> fm' = fm")
    case False
    with assms(2) obtain i where i: "find_by_block_num hs ce = Some i" "sl_status (hs_slices hs ! i) = VerifiedInternally"
        and res: "fm' = fm \<and> hs' = refetch_slice i hs \<or> hs' = verify_continuation_slice i hs \<and>
          fm' = fm\<lparr>fm_canonical_range := (cs, snd (block_num_range (hs_slices hs' ! i)))\<rparr>"
      by (auto simp: extend_canonical_pending_def try_extend_canonical_def find_canonical_continuation_slice_def rngs Let_def
          split: option.splits if_splits)
    let ?s = "hs_slices hs ! i"
    from i(1) have at: "i < length (hs_slices hs)" "unat (sl_start_block_num ?s) \<le> unat ce" "unat ce < unat (sl_start_block_num ?s) + slice_len ?s"
      by (simp_all add: find_by_block_num_sized [OF window_okD, OF inv(1) inv(1)])
    have nc: "\<not> is_canonical_slice_status (sl_status ?s)" using i(2) by (simp add: is_canonical_slice_status_def)
    from res show ?thesis
    proof
      assume r: "fm' = fm \<and> hs' = refetch_slice i hs"
      with assms(1) refetch_ok [OF inv(1) at(1)] refetch_covers [OF inv(1) at(1) inv(2)] nc
      show ?thesis by (simp add: fork_inv_def rngs)
    next
      assume r: "hs' = verify_continuation_slice i hs \<and>
          fm' = fm\<lparr>fm_canonical_range := (cs, snd (block_num_range (hs_slices hs' ! i)))\<rparr>"
      define ce' where "ce' = snd (block_num_range (hs_slices hs' ! i))"
      have "block_num_range (hs_slices hs' ! i) = block_num_range ?s"
        using r at(1) by (simp add: verify_continuation_slice_def block_num_range_def slice_len_def)
      then have ce': "unat ce' = unat (sl_start_block_num ?s) + slice_len ?s"
        using slice_end [OF window_okD, OF inv(1) inv(1) at(1)] by (simp add: ce'_def)
      have "covers hs' (cs, ce')" unfolding covers_def
      proof (intro allI impI)
        fix n
        assume n: "range_contains (cs, ce') n"
        show "window_header hs' n \<noteq> None"
          using verify_continuation_header [OF inv(1) at(1) i(2), of n] inv(2) n at ce' r
          by (cases "n < ce") (auto simp: covers_def range_contains_def word_less_nat_alt word_le_nat_alt)
      qed
      moreover have "boundary hs' ce'"
        using slice_boundary [OF verify_continuation_ok(1) [OF inv(1) at(1) i(2)], of i] r ce' at(1)
        by (simp add: verify_continuation_slice_def slice_len_def)
      moreover have "ce < ce'" using at ce' by (simp add: word_less_nat_alt)
      ultimately show ?thesis using assms(1) r verify_continuation_ok [OF inv(1) at(1) i(2)]
        by (auto simp: fork_inv_def rngs ce'_def [symmetric])
    qed
  qed (use assms(1) in simp)
qed

lemma extend_fork_inv:
  assumes "fork_inv (fm, hs, fhs)" and "fork_undecided (fm, hs, fhs)"
    and "extend_fork_pending e p (fm, fhs) = Some ((fm', fhs'), did, u)"
  shows "fork_inv (fm', hs, fhs') \<and> fm_canonical_range fm' = fm_canonical_range fm \<and>
    fm_pending_switch_to_fork_command fm' = None \<and>
    (if did then hs_slices fhs' \<noteq> [] \<and> fst (fm_fork_range fm') < snd (fm_canonical_range fm') else fork_undecided (fm', hs, fhs'))"
proof -
  obtain cs ce fs fe where rngs: "fm_canonical_range fm = (cs, ce)" "fm_fork_range fm = (fs, fe)" by fastforce
  from assms(1) rngs have inv: "window_ok fhs" "covers fhs (fs, fe)" "boundary fhs fe"
    by (simp_all add: fork_inv_def)
  show ?thesis
  proof (cases "fhs' = fhs \<and> fm' = fm \<and> \<not> did")
    case False
    with assms(3) obtain i where f: "find_fork_continuation_slice fm fhs = Some i"
        and i: "sl_status (hs_slices fhs ! i) = VerifiedInternally" and p: "0 < p"
      by (cases "find_fork_continuation_slice fm fhs") (auto simp: extend_fork_pending_def split: if_splits)
    from f have fs: "fs \<noteq> 0" "find_by_block_num fhs (fs - 1) = Some i"
      by (simp_all add: find_fork_continuation_slice_def rngs Let_def split: if_splits)
    from assms(3) f i p obtain fm1 fhs1 where t: "try_extend_fork e i (fm, fhs) = Some ((fm1, fhs1), did)"
        and r: "fm' = fm1" "fhs' = (if did then fhs1 else refetch_slice i fhs1)"
      by (auto simp: extend_fork_pending_def)
    from t r have res: "fm' = fm \<and> fhs' = refetch_slice i fhs \<and> \<not> did \<or> fhs' = verify_continuation_slice i fhs \<and>
          fm' = fm\<lparr>fm_fork_range := (fst (block_num_range (hs_slices fhs' ! i)), fe)\<rparr> \<and> did"
      by (cases did) (auto simp: try_extend_fork_def rngs Let_def split: option.splits if_splits)
    let ?s = "hs_slices fhs ! i"
    have pred: "unat (fs - 1) = unat fs - 1" "0 < unat fs" using fs(1) by (auto simp: unat_minus_one unat_gt_0)
    from fs(2) pred have at: "i < length (hs_slices fhs)" "unat (sl_start_block_num ?s) < unat fs" "unat fs \<le> unat (sl_start_block_num ?s) + slice_len ?s"
      by (auto simp: find_by_block_num_sized [OF window_okD, OF inv(1) inv(1)])
    have ne: "hs_slices fhs \<noteq> []" using at(1) by auto
    with assms(1,2) rngs have fork: "cs < fs" "fs \<le> ce" "fs < fe" "192 dvd unat cs" "fe \<le> hs_max_block_num hs"
        "fm_pending_switch_to_fork_command fm = None"
      by (auto simp: fork_inv_def fork_undecided_def)
    have nc: "\<not> is_canonical_slice_status (sl_status ?s)" using i by (simp add: is_canonical_slice_status_def)
    from res show ?thesis
    proof
      assume r: "fm' = fm \<and> fhs' = refetch_slice i fhs \<and> \<not> did"
      then show ?thesis using assms(1,2) refetch_ok [OF inv(1) at(1)] refetch_covers [OF inv(1) at(1) inv(2)] nc ne
        by (auto simp: fork_inv_def fork_undecided_def rngs)
    next
      assume r: "fhs' = verify_continuation_slice i fhs \<and>
          fm' = fm\<lparr>fm_fork_range := (fst (block_num_range (hs_slices fhs' ! i)), fe)\<rparr> \<and> did"
      have first: "fst (block_num_range (hs_slices fhs' ! i)) = sl_start_block_num ?s"
        using r at(1) by (simp add: verify_continuation_slice_def block_num_range_def)
      have start: "192 dvd unat (sl_start_block_num ?s)" by (rule slice_start_room(2) [OF window_okD(1) [OF inv(1)] at(1)])
      have "slice_len ?s \<le> 192" using inv(1) at(1) by (simp add: window_ok_def sized_def)
      then have "unat cs < unat (sl_start_block_num ?s) + 192" using fork(1) at(3) by (simp add: word_less_nat_alt)
      with start fork(4) have cs: "cs \<le> sl_start_block_num ?s" by (auto simp: word_le_nat_alt elim!: dvdE)
      have less: "sl_start_block_num ?s < fs" using at(2) by (simp add: word_less_nat_alt)
      have "covers fhs' (sl_start_block_num ?s, fe)" unfolding covers_def
      proof (intro allI impI)
        fix n
        assume n: "range_contains (sl_start_block_num ?s, fe) n"
        show "window_header fhs' n \<noteq> None"
          using verify_continuation_header [OF inv(1) at(1) i, of n] inv(2) n at r
          by (cases "fs \<le> n") (auto simp: covers_def range_contains_def word_less_nat_alt word_le_nat_alt)
      qed
      with assms(1) r verify_continuation_ok [OF inv(1) at(1) i] first cs less fork start ne
      show ?thesis by (auto simp: fork_inv_def rngs)
    qed
  qed (use assms in \<open>auto simp: fork_undecided_def\<close>)
qed

subsection \<open>The choice between the chains\<close>

text \<open>The slice of a window that starts at a covered block number.\<close>

lemma aligned_header_slice:
  assumes "window_ok hs" and "window_header hs n \<noteq> None" and "192 dvd unat n"
  shows "\<exists>i < length (hs_slices hs). sl_start_block_num (hs_slices hs ! i) = n \<and>
    is_canonical_slice_status (sl_status (hs_slices hs ! i)) \<and> 0 < slice_len (hs_slices hs ! i)"
proof -
  from assms(2) obtain h where "window_header hs n = Some h" by blast
  then obtain j headers t where j: "j < length (hs_slices hs)" "is_canonical_slice_status (sl_status (hs_slices hs ! j))"
      "sl_headers (hs_slices hs ! j) = Some headers" "t < length headers" "unat n = unat (sl_start_block_num (hs_slices hs ! j)) + t"
    unfolding window_header_ok [OF assms(1) assms(1)] by (auto simp: in_set_conv_nth)
  have "slice_len (hs_slices hs ! j) \<le> 192" using assms(1) j(1) by (simp add: window_ok_def sized_def)
  then have "t < 192" using j(3,4) by (simp add: slice_len_def)
  with slice_start_room(2) [OF window_okD(1) [OF assms(1)] j(1)] assms(3) j(5) have "t = 0" by (auto elim!: dvdE) presburger
  then have "sl_start_block_num (hs_slices hs ! j) = n" using j(5) by (simp add: word_unat_eq_iff)
  with j show ?thesis by (auto simp: slice_len_def intro!: exI [of _ j])
qed

lemma covered_slice:
  assumes "window_ok hs" and "covers hs rng" and "range_contains rng n" and "192 dvd unat n"
    and "i < length (hs_slices hs)" and "sl_start_block_num (hs_slices hs ! i) = n"
  shows "is_canonical_slice_status (sl_status (hs_slices hs ! i))" "0 < slice_len (hs_slices hs ! i)"
  using aligned_header_slice [OF assms(1) _ assms(4)] assms(2,3,5,6) start_block_num_inj [OF window_okD(1) [OF assms(1)]]
  by (auto simp: covers_def)

text \<open>A header at a position of a covered slice lies in the range and is found by its number.\<close>

lemma covered_header:
  assumes "window_ok hs" and "covers hs rng" and "range_contains rng n" and "192 dvd unat n" and "boundary hs (snd rng)"
    and "i < length (hs_slices hs)" and "sl_start_block_num (hs_slices hs ! i) = n"
    and "sl_headers (hs_slices hs ! i) = Some headers" and "t < length headers"
  shows "unat (cnum (headers ! t)) = unat n + t" "cnum (headers ! t) < snd rng" "\<And>c. unat c = unat n + t \<Longrightarrow> window_header hs c = Some (headers ! t)"
proof -
  note canonical = covered_slice(1) [OF assms(1-4) assms(6,7)]
  have mem: "hs_slices hs ! i \<in> set (hs_slices hs)" using assms(6) by simp
  then have "numbered_slice (hs_slices hs ! i)" using assms(1) by (simp add: window_ok_def)
  with canonical assms(7-9) show num: "unat (cnum (headers ! t)) = unat n + t"
    by (auto simp: numbered_slice_def is_canonical_slice_status_def)
  have "unat n + length headers \<le> unat (snd rng)"
    using assms(3,5,7,8) mem by (fastforce simp: boundary_def range_contains_def word_less_nat_alt slice_len_def)
  with num assms(9) show "cnum (headers ! t) < snd rng" by (simp add: word_less_nat_alt)
  show "window_header hs c = Some (headers ! t)" if "unat c = unat n + t" for c
    unfolding window_header_ok [OF assms(1) assms(1)] using mem canonical assms(7-9) that by blast
qed

lemma find_SomeD: "List.find P xs = Some x \<Longrightarrow> x \<in> set xs \<and> P x"
  by (induction xs) (auto split: if_splits)

lemma connection_block:
  assumes "fork_inv (fm, hs, fhs)" and "hs_slices fhs \<noteq> []" and "fst (fm_fork_range fm) < snd (fm_canonical_range fm)"
    and "find_fork_connection_block_num e (fm, hs, fhs) = Some c"
  shows "fst (fm_fork_range fm) \<le> c" "c < snd (fm_fork_range fm)" "c < snd (fm_canonical_range fm)"
    "\<exists>h f. window_header hs c = Some h \<and> window_header fhs c = Some f \<and> env_hash e h = env_hash e f"
proof -
  obtain cs ce fs fe where rngs: "fm_canonical_range fm = (cs, ce)" "fm_fork_range fm = (fs, fe)" by fastforce
  from assms(1-3) rngs have inv: "window_ok hs" "window_ok fhs" "covers hs (cs, ce)" "covers fhs (fs, fe)" "boundary hs ce" "boundary fhs fe"
      "cs \<le> fs" "fs < ce" "fs < fe" "192 dvd unat fs"
    by (auto simp: fork_inv_def)
  from assms(4) obtain i j chs fhds where ij: "find_by_block_num fhs fs = Some j"
      "find_by_start_block_num hs (sl_start_block_num (hs_slices fhs ! j)) = Some i"
      "sl_headers (hs_slices hs ! i) = Some chs" "sl_headers (hs_slices fhs ! j) = Some fhds"
      and found: "map_option (\<lambda>(header, _). cnum header) (List.find (\<lambda>(header, fork_header). env_hash e header = env_hash e fork_header)
        (List.rev (zip chs fhds))) = Some c"
    by (auto simp: find_fork_connection_block_num_def find_fork_first_slice_def rngs split: option.splits)
  from ij(1) have j: "j < length (hs_slices fhs)" "unat (sl_start_block_num (hs_slices fhs ! j)) \<le> unat fs"
      "unat fs < unat (sl_start_block_num (hs_slices fhs ! j)) + slice_len (hs_slices fhs ! j)"
    by (simp_all add: find_by_block_num_sized [OF window_okD, OF inv(2) inv(2)])
  have "slice_len (hs_slices fhs ! j) \<le> 192" using inv(2) j(1) by (simp add: window_ok_def sized_def)
  with slice_start_room(2) [OF window_okD(1) [OF inv(2)] j(1)] inv(10) j(2,3)
  have "unat (sl_start_block_num (hs_slices fhs ! j)) = unat fs" by (auto elim!: dvdE)
  then have sj: "sl_start_block_num (hs_slices fhs ! j) = fs" by (simp add: word_unat_eq_iff)
  from ij(2) sj have i: "i < length (hs_slices hs)" "sl_start_block_num (hs_slices hs ! i) = fs"
    by (simp_all add: find_by_start_block_num_iff [OF window_okD(1) [OF inv(1)]])
  from found obtain x where "List.find (\<lambda>(header, fork_header). env_hash e header = env_hash e fork_header) (List.rev (zip chs fhds)) = Some x"
      and c: "c = cnum (fst x)"
    by (auto simp: case_prod_unfold)
  then have "x \<in> set (zip chs fhds)" "env_hash e (fst x) = env_hash e (snd x)"
    by (auto dest!: find_SomeD simp: case_prod_unfold)
  with c obtain t where t: "t < length chs" "t < length fhds" "env_hash e (chs ! t) = env_hash e (fhds ! t)" "c = cnum (chs ! t)"
    by (auto simp: set_zip)
  have fr: "range_contains (fs, fe) fs" "range_contains (cs, ce) fs" using inv(7-9) by (simp_all add: range_contains_def)
  note C = covered_header [OF inv(1) inv(3) fr(2) inv(10) _ i ij(3) t(1)] and F = covered_header [OF inv(2) inv(4) fr(1) inv(10) _ j(1) sj ij(4) t(2)]
  have c: "unat c = unat fs + t" using C(1) inv(5) t(4) by simp
  then show "fst (fm_fork_range fm) \<le> c" using rngs by (simp add: word_le_nat_alt)
  show "c < snd (fm_canonical_range fm)" using C(2) inv(5) t(4) rngs by simp
  have "cnum (fhds ! t) = c" using F(1) inv(6) c by (simp add: word_unat_eq_iff)
  then show "c < snd (fm_fork_range fm)" using F(2) inv(6) rngs by simp
  show "\<exists>h f. window_header hs c = Some h \<and> window_header fhs c = Some f \<and> env_hash e h = env_hash e f"
    using C(3) F(3) inv(5,6) c t(3) by auto
qed

text \<open>The reference: with a common block the heavier chain above it is kept, the canonical one if they weigh the same.\<close>

definition fork_choice :: "downloader_env \<Rightarrow> fork_state \<Rightarrow> fork_state option" where
  "fork_choice e st = (case st of (fm, hs, fhs) \<Rightarrow>
     let discarded = (fst (discard_fork (fm, fhs)), hs, snd (discard_fork (fm, fhs)))
     in case find_fork_connection_block_num e st of
          Some c \<Rightarrow>
            Some (if difficulty_between fhs (unat c + 1) (unat (snd (fm_fork_range fm)))
                   > difficulty_between hs (unat c + 1) (unat (snd (fm_canonical_range fm)))
                  then (switch_to_fork c fm, hs, fhs) else discarded)
        | None \<Rightarrow> if fst (fm_fork_range fm) = fst (fm_canonical_range fm) then Some discarded else None)"

lemma range_difficulty_sum:
  assumes "window_ok hs" and "covers hs rng" and "fst rng \<le> c" and "c < snd rng"
  shows "range_difficulty hs rng c = Some (difficulty_between hs (unat c + 1) (unat (snd rng)))"
proof -
  note next_c = next_block_num [OF assms(4)]
  have "fst rng \<le> c + 1" using assms(3) next_c(1) by (simp add: word_le_nat_alt)
  moreover have "c + 1 \<le> snd rng" using assms(4) next_c(2) by simp
  ultimately show ?thesis
    using range_difficulty_from_sum [OF window_okD assms(2), OF assms(1) assms(1), of "c + 1" 0] next_c(1)
    by (simp add: range_difficulty_def)
qed

lemma fork_termination_choice:
  assumes "fork_inv (fm, hs, fhs)" and "hs_slices fhs \<noteq> []" and "fst (fm_fork_range fm) < snd (fm_canonical_range fm)"
  shows "fork_termination e (fm, hs, fhs) = Some (fork_choice e (fm, hs, fhs))"
proof (cases "find_fork_connection_block_num e (fm, hs, fhs)")
  case (Some c)
  note B = connection_block [OF assms Some]
  from assms(1,2) have inv: "window_ok hs" "window_ok fhs" "covers hs (fm_canonical_range fm)" "covers fhs (fm_fork_range fm)"
      "fst (fm_canonical_range fm) \<le> fst (fm_fork_range fm)"
    by (auto simp: fork_inv_def split: prod.splits)
  have "fst (fm_canonical_range fm) \<le> c" using inv(5) B(1) by simp
  from range_difficulty_sum [OF inv(1,3) this B(3)] range_difficulty_sum [OF inv(2,4) B(1,2)] Some
  show ?thesis
    by (simp add: fork_termination_def fork_choice_def fork_range_difficulty_def canonical_range_difficulty_def Let_def case_prod_unfold)
next
  case None
  then show ?thesis by (simp add: fork_termination_def fork_choice_def Let_def case_prod_unfold)
qed

lemma discard_fork_inv:
  assumes "fork_inv (fm, hs, fhs)"
  shows "fork_inv (fst (discard_fork (fm, fhs)), hs, snd (discard_fork (fm, fhs)))"
proof -
  have "192 dvd unat (hs_final_block_num fhs)" using assms by (auto simp: fork_inv_def window_ok_def slices_ok_def positions_ok_def split: prod.splits)
  from clear_ok [OF this] have "window_ok (clear fhs)" "hs_slices (clear fhs) = []"
    by (simp_all add: window_ok_def sized_def clear_def)
  with assms show ?thesis
    by (auto simp: fork_inv_def discard_fork_def covers_def range_contains_def boundary_def split: prod.splits)
qed

lemma prolong_canonical_inv:
  assumes "fork_inv (fm, hs, fhs)" and "prolong_canonical p u fm hs = (hs', u')"
  shows "fork_inv (fm, hs', fhs)"
proof (cases "find_canonical_continuation_slice fm hs")
  case (Some i)
  obtain cs ce fs fe where rngs: "fm_canonical_range fm = (cs, ce)" "fm_fork_range fm = (fs, fe)" by fastforce
  from assms(1) rngs have inv: "window_ok hs" "covers hs (cs, ce)" "boundary hs ce" by (simp_all add: fork_inv_def)
  from Some rngs have i: "i < length (hs_slices hs)" "unat (sl_start_block_num (hs_slices hs ! i)) \<le> unat ce"
      "unat ce < unat (sl_start_block_num (hs_slices hs ! i)) + slice_len (hs_slices hs ! i)"
    by (simp_all add: find_canonical_continuation_slice_def find_by_block_num_sized [OF window_okD, OF inv(1) inv(1)])
  then have "unat ce \<le> unat (sl_start_block_num (hs_slices hs ! i))"
    using bspec [OF inv(3) [unfolded boundary_def] nth_mem [OF i(1)]] by linarith
  then have "ce \<le> sl_start_block_num (hs_slices hs ! i)" by (simp add: word_le_nat_alt)
  with assms Some refetch_ok [OF inv(1) i(1)] refetch_covers [OF inv(1) i(1) inv(2)] show ?thesis
    by (auto simp: prolong_canonical_def fork_inv_def rngs)
qed (use assms in \<open>simp add: prolong_canonical_def\<close>)

lemma prepend_fork_inv:
  assumes "fork_inv (fm, hs, fhs)" and "prepend_slice fhs = Inr fhs'" and "hs_slices fhs \<noteq> []"
  shows "fork_inv (fm, hs, fhs') \<and> hs_slices fhs' \<noteq> []"
  using assms prepend_slice_window [of fhs fhs'] by (auto simp: fork_inv_def covers_def split: prod.splits)

lemma switch_to_fork_simps [simp]:
  "fm_canonical_range (switch_to_fork c fm) = fm_canonical_range fm" "fm_fork_range (switch_to_fork c fm) = fm_fork_range fm"
  "fork_inv (switch_to_fork c fm, hs, fhs) = fork_inv (fm, hs, fhs)"
  by (simp_all add: switch_to_fork_def fork_inv_def)

text \<open>What a command to switch promises: the chains share the connection block, and the fork is heavier above it.\<close>

definition switch_justified :: "downloader_env \<Rightarrow> fork_state \<Rightarrow> fork_switch_command \<Rightarrow> bool" where
  "switch_justified e st cmd \<longleftrightarrow> (case st of (fm, hs, fhs) \<Rightarrow> let c = fs_connection_block_num cmd in
     fs_canonical_range cmd = fm_canonical_range fm \<and> fs_fork_range cmd = fm_fork_range fm \<and>
     fst (fm_fork_range fm) \<le> c \<and> c < snd (fm_fork_range fm) \<and> c < snd (fm_canonical_range fm) \<and>
     (\<exists>h f. window_header hs c = Some h \<and> window_header fhs c = Some f \<and> env_hash e h = env_hash e f) \<and>
     difficulty_between fhs (unat c + 1) (unat (snd (fm_fork_range fm)))
       > difficulty_between hs (unat c + 1) (unat (snd (fm_canonical_range fm))))"

definition fork_decided :: "downloader_env \<Rightarrow> fork_state \<Rightarrow> bool" where
  "fork_decided e st \<longleftrightarrow> fork_inv st \<and> (case fm_pending_switch_to_fork_command (fst st) of
     None \<Rightarrow> fork_undecided st | Some cmd \<Rightarrow> switch_justified e st cmd)"

lemma fork_choice_decided:
  assumes "fork_inv (fm, hs, fhs)" and "hs_slices fhs \<noteq> []" and "fst (fm_fork_range fm) < snd (fm_canonical_range fm)"
    and "fm_pending_switch_to_fork_command fm = None"
  shows "case fork_choice e (fm, hs, fhs) of None \<Rightarrow> fork_undecided (fm, hs, fhs) | Some st \<Rightarrow> fork_decided e st"
proof -
  let ?discarded = "(fst (discard_fork (fm, fhs)), hs, snd (discard_fork (fm, fhs)))"
  have discarded: "fork_decided e ?discarded"
    using discard_fork_inv [OF assms(1)] assms(4)
    by (simp add: fork_decided_def fork_undecided_def discard_fork_def clear_def)
  show ?thesis
  proof (cases "find_fork_connection_block_num e (fm, hs, fhs)")
    case (Some c)
    with discarded connection_block [OF assms(1-3) Some] assms(1) show ?thesis
      by (auto simp: fork_choice_def Let_def fork_decided_def [of e "(switch_to_fork c fm, hs, fhs)"] switch_justified_def)
        (simp_all add: switch_to_fork_def switch_justified_def)
  next
    case None
    have "fst (fm_canonical_range fm) \<le> fst (fm_fork_range fm)" using assms(1,2) by (auto simp: fork_inv_def split: prod.splits)
    with None discarded assms(4) show ?thesis by (auto simp: fork_choice_def fork_undecided_def Let_def)
  qed
qed

lemma prolong_chains_decided:
  assumes "fork_inv (fm, hs, fhs)" and "fork_undecided (fm, hs, fhs)" and "df \<Longrightarrow> hs_slices fhs \<noteq> []"
    and "prolong_chains dc df p us (fm, hs, fhs) = (st', r)"
  shows "fork_decided e st'"
proof -
  obtain hs' u' where pr: "(if dc then prolong_canonical p (fst us) fm hs else (hs, fst us)) = (hs', u')" by fastforce
  then have inv: "fork_inv (fm, hs', fhs)" using assms(1) prolong_canonical_inv [OF assms(1)] by (auto split: if_splits)
  have same: "fork_decided e (fm, hs', fhs)" using inv assms(2) by (simp add: fork_decided_def fork_undecided_def)
  show ?thesis
  proof (cases "df \<and> (\<exists>fhs'. prepend_slice fhs = Inr fhs')")
    case True
    then obtain fhs' where fhs': df "prepend_slice fhs = Inr fhs'" by blast
    have "fork_decided e (fm, hs', fhs')"
      using prepend_fork_inv [OF inv fhs'(2) assms(3) [OF fhs'(1)]] assms(2,3) fhs'(1) by (auto simp: fork_decided_def fork_undecided_def)
    with fhs' pr assms(4) show ?thesis by (cases us; cases dc) (auto simp: prolong_chains_def Let_def)
  next
    case False
    with same pr assms(4) show ?thesis by (cases us; cases dc) (auto simp: prolong_chains_def Let_def split: sum.splits if_splits)
  qed
qed

lemma process_pending_decided:
  assumes "fork_inv st" and "fork_undecided st" and "process_pending e p fp st = Some (st', r)"
  shows "fork_decided e st'"
proof -
  obtain fm hs fhs where st: "st = (fm, hs, fhs)" by (cases st) auto
  from assms(3) st obtain fm1 hs1 dc u1 fm2 fhs2 df u2 ter
    where s1: "extend_canonical_pending e p (fm, hs) = Some ((fm1, hs1), dc, u1)"
      and s2: "extend_fork_pending e fp (fm1, fhs) = Some ((fm2, fhs2), df, u2)"
      and ter: "(if df then fork_termination e (fm2, hs1, fhs2) else Some None) = Some ter"
      and rest: "(case ter of Some st \<Rightarrow> (st, Inr (u1, u2)) | None \<Rightarrow> prolong_chains dc df p (u1, u2) (fm2, hs1, fhs2)) = (st', r)"
    by (auto simp: process_pending_def bind_eq_Some_conv)
  from extend_canonical_inv [OF assms(1) [unfolded st] s1] assms(2)
  have I1: "fork_inv (fm1, hs1, fhs)" "fork_undecided (fm1, hs1, fhs)" by (simp_all add: fork_undecided_def st)
  note I2 = extend_fork_inv [OF I1 s2]
  have choice: "df \<Longrightarrow> case ter of None \<Rightarrow> fork_undecided (fm2, hs1, fhs2) | Some st \<Rightarrow> fork_decided e st"
    using I2 ter fork_termination_choice [of fm2 hs1 fhs2 e] fork_choice_decided [of fm2 hs1 fhs2 e] by auto
  show ?thesis
  proof (cases ter)
    case (Some st1)
    with ter have df by (cases df) auto
    with choice Some rest show ?thesis by simp
  next
    case None
    have und: "fork_undecided (fm2, hs1, fhs2)" using choice I2 None by (cases df) simp_all
    have "df \<Longrightarrow> hs_slices fhs2 \<noteq> []" using I2 by simp
    from prolong_chains_decided [OF conjunct1 [OF I2] und this] rest None show ?thesis by simp
  qed
qed

section \<open>Entering the fork mode\<close>

lemma try_fold_list_map: "try_fold_list F c (map g is) = try_fold_list (\<lambda>c i. F c (g i)) c is"
  by (induction "is" arbitrary: c) (auto split: control_flow.split)

lemma try_fold_slices: "try_fold (\<lambda>c i. F c (hs_slices hs ! i)) hs c = try_fold_list F c (hs_slices hs)"
  using try_fold_list_map [of F c "\<lambda>i. hs_slices hs ! i" "[0..<length (hs_slices hs)]"] by (simp add: try_fold_def map_nth)

definition canonical_scan :: "block_range \<Rightarrow> header_slice \<Rightarrow> (block_range, block_range) control_flow" where
  "canonical_scan rng s =
     (let rng = (if fst rng = 0 \<and> range_is_empty rng then (sl_start_block_num s, sl_start_block_num s) else rng)
      in if is_canonical_slice_status (sl_status s) then Continue (fst rng, snd (block_num_range s)) else Break rng)"

lemma canonical_scan_list:
  assumes "\<forall>s \<in> set xs. is_canonical_slice_status (sl_status s) \<and> snd (block_num_range s) \<noteq> 0"
    and "ys \<noteq> [] \<Longrightarrow> \<not> is_canonical_slice_status (sl_status (hd ys))" and "fst rng \<noteq> 0 \<or> snd rng \<noteq> 0"
  shows "try_fold_list canonical_scan rng (xs @ ys) =
    (let r = (fst rng, if xs = [] then snd rng else snd (block_num_range (last xs))) in if ys = [] then Continue r else Break r)"
  using assms
proof (induction xs arbitrary: rng)
  case Nil
  then show ?case by (cases ys) (auto simp: canonical_scan_def range_is_empty_def Let_def word_neq_0_conv)
next
  case (Cons s xs)
  then show ?case by (auto simp: canonical_scan_def range_is_empty_def Let_def word_neq_0_conv)
qed

lemma find_canonical_range_eq:
  assumes "hs_slices hs = xs @ ys" and "xs \<noteq> []" and "\<forall>s \<in> set xs. is_canonical_slice_status (sl_status s) \<and> snd (block_num_range s) \<noteq> 0"
    and "ys \<noteq> [] \<Longrightarrow> \<not> is_canonical_slice_status (sl_status (hd ys))"
  shows "find_canonical_range hs = (sl_start_block_num (hd xs), snd (block_num_range (last xs)))"
proof -
  obtain s ss where xs: "xs = s # ss" using assms(2) by (cases xs) auto
  have "canonical_scan (0, 0) s = Continue (sl_start_block_num s, snd (block_num_range s))"
    using assms(3) xs by (simp add: canonical_scan_def range_is_empty_def Let_def)
  moreover have "try_fold_list canonical_scan (sl_start_block_num s, snd (block_num_range s)) (ss @ ys) =
      (let r = (sl_start_block_num s, snd (block_num_range (last xs))) in if ys = [] then Continue r else Break r)"
    using canonical_scan_list [of ss ys "(sl_start_block_num s, snd (block_num_range s))"] assms(3,4) xs by auto
  ultimately show ?thesis
    using assms(1) xs try_fold_slices [of canonical_scan hs "(0, 0)"]
    by (simp add: find_canonical_range_def canonical_scan_def [abs_def] Let_def)
qed

text \<open>The window when a slice does not continue the verified ones: \<open>xs\<close> are verified, \<open>f\<close> is the slice of a fork.\<close>

definition fork_found :: "header_slices \<Rightarrow> header_slice list \<Rightarrow> header_slice \<Rightarrow> header_slice list \<Rightarrow> bool" where
  "fork_found hs xs f ys \<longleftrightarrow> window_ok hs \<and> hs_slices hs = xs @ f # ys \<and> xs \<noteq> [] \<and>
     (\<forall>s \<in> set xs. is_canonical_slice_status (sl_status s) \<and> 0 < slice_len s) \<and>
     (\<forall>s \<in> set (butlast xs). slice_len s = 192) \<and> sl_status f = Fork \<and> 0 < slice_len f"

lemma fork_found_facts:
  assumes "fork_found hs xs f ys"
  shows "window_ok hs" "hs_slices hs ! length xs = f" "length xs < length (hs_slices hs)"
    "unat (sl_start_block_num f) = unat (min_block_num hs) + length xs * 192"
    "find_canonical_range hs = (min_block_num hs, snd (block_num_range (last xs)))"
    "unat (snd (block_num_range (last xs))) + 192 = unat (sl_start_block_num f) + slice_len (last xs)"
proof -
  from assms have F: "window_ok hs" "hs_slices hs = xs @ f # ys" "xs \<noteq> []"
      "\<forall>s \<in> set xs. is_canonical_slice_status (sl_status s) \<and> 0 < slice_len s" "sl_status f = Fork"
    by (simp_all add: fork_found_def)
  have pos: "unat (sl_start_block_num (hs_slices hs ! i)) = unat (min_block_num hs) + i * 192" if "i < length (hs_slices hs)" for i
    using window_okD(1) [OF F(1)] that by (simp add: slices_ok_def positions_ok_def)
  have ends: "unat (snd (block_num_range (hs_slices hs ! i))) = unat (sl_start_block_num (hs_slices hs ! i)) + slice_len (hs_slices hs ! i)"
    if "i < length (hs_slices hs)" for i by (rule slice_end [OF window_okD, OF F(1) F(1) that])
  show "window_ok hs" "hs_slices hs ! length xs = f" "length xs < length (hs_slices hs)" using F by simp_all
  with pos [of "length xs"] show start: "unat (sl_start_block_num f) = unat (min_block_num hs) + length xs * 192" by simp
  have "last xs = hs_slices hs ! (length xs - 1)" using F(2,3) by (simp add: nth_append last_conv_nth)
  with ends [of "length xs - 1"] pos [of "length xs - 1"] start F(2,3)
  show "unat (snd (block_num_range (last xs))) + 192 = unat (sl_start_block_num f) + slice_len (last xs)"
    by (cases xs) (auto simp: nth_append)
  have "snd (block_num_range s) \<noteq> 0" if "s \<in> set xs" for s
  proof -
    from that F(2) obtain i where "i < length (hs_slices hs)" "s = hs_slices hs ! i" by (metis in_set_conv_nth Un_iff set_append)
    with ends [of i] F(4) that show ?thesis by (auto simp flip: unat_eq_0)
  qed
  with find_canonical_range_eq [OF F(2,3)] F(3,4,5) F(2)
  show "find_canonical_range hs = (min_block_num hs, snd (block_num_range (last xs)))"
    by (cases xs) (auto simp: min_block_num_def is_canonical_slice_status_def)
qed

lemma fork_found_covers:
  assumes "fork_found hs xs f ys" and "slice_len (last xs) = 192"
  shows "covers hs (min_block_num hs, snd (block_num_range (last xs)))"
  unfolding covers_def
proof (intro allI impI)
  fix n
  assume n: "range_contains (min_block_num hs, snd (block_num_range (last xs))) n"
  note F = fork_found_facts [OF assms(1)]
  define i where "i = (unat n - unat (min_block_num hs)) div 192"
  define t where "t = (unat n - unat (min_block_num hs)) mod 192"
  have split: "unat n = unat (min_block_num hs) + (i * 192 + t)" and t: "t < 192"
    using n by (simp_all add: i_def t_def range_contains_def word_le_nat_alt)
  have "unat n < unat (min_block_num hs) + length xs * 192" using n F(4,6) assms(2) by (simp add: range_contains_def word_less_nat_alt)
  then have i: "i < length xs" using split by simp
  have s: "hs_slices hs ! i = xs ! i" "i < length (hs_slices hs)" using i assms(1) by (simp_all add: fork_found_def nth_append)
  have "slice_len (xs ! i) = 192 \<and> is_canonical_slice_status (sl_status (xs ! i))"
  proof (cases "i = length xs - 1")
    case True
    then show ?thesis using assms i by (auto simp: fork_found_def last_conv_nth)
  next
    case False
    then have "xs ! i \<in> set (butlast xs)" using i nth_mem [of i "butlast xs"] by (simp add: nth_butlast)
    then show ?thesis using assms(1) i by (auto simp: fork_found_def)
  qed
  moreover then obtain headers where "sl_headers (xs ! i) = Some headers" "length headers = 192"
    by (auto simp: slice_len_def split: option.splits)
  moreover have "unat (sl_start_block_num (xs ! i)) = unat (min_block_num hs) + i * 192"
    using window_okD(1) [OF F(1)] s by (auto simp: slices_ok_def positions_ok_def)
  ultimately have "window_header hs n = Some (headers ! t)"
    unfolding window_header_ok [OF F(1) F(1)] using s nth_mem [OF s(2)] t split
    by (intro bexI [of _ "xs ! i"]) auto
  then show "window_header hs n \<noteq> None" by simp
qed

text \<open>The window of a fork with its first slice.\<close>

lemma single_slice_window:
  assumes "192 dvd unat (hs_final_block_num fhs)" and "192 dvd unat (sl_start_block_num s)" and "unat (sl_start_block_num s) + 192 < 2 ^ 64"
    and "numbered_slice s" and "slice_len s \<le> 192" and "is_canonical_slice_status (sl_status s)"
  shows "window_ok (reset_to_single_slice s fhs)" "covers (reset_to_single_slice s fhs) (block_num_range s)"
    "boundary (reset_to_single_slice s fhs) (snd (block_num_range s))" "hs_slices (reset_to_single_slice s fhs) = [s]"
proof -
  show one: "hs_slices (reset_to_single_slice s fhs) = [s]" by (simp add: reset_to_single_slice_def)
  with reset_to_single_slice_ok [OF assms(1-3)] assms(4,5) show ok: "window_ok (reset_to_single_slice s fhs)"
    by (simp add: window_ok_def sized_def)
  have len: "unat (snd (block_num_range s)) = unat (sl_start_block_num s) + slice_len s"
    using slice_end [OF window_okD, OF ok ok, of 0] one by simp
  show "boundary (reset_to_single_slice s fhs) (snd (block_num_range s))" using one len by (simp add: boundary_def)
  show "covers (reset_to_single_slice s fhs) (block_num_range s)"
    unfolding covers_def
  proof (intro allI impI)
    fix n
    assume n: "range_contains (block_num_range s) n"
    define t where "t = unat n - unat (sl_start_block_num s)"
    from n len have t: "unat n = unat (sl_start_block_num s) + t" "t < slice_len s"
      by (auto simp: range_contains_def t_def block_num_range_def word_le_nat_alt word_less_nat_alt)
    then obtain headers where "sl_headers s = Some headers" "t < length headers" by (auto simp: slice_len_def split: option.splits)
    with t(1) assms(6) one have "window_header (reset_to_single_slice s fhs) n = Some (headers ! t)"
      unfolding window_header_ok [OF ok ok] by auto
    then show "window_header (reset_to_single_slice s fhs) n \<noteq> None" by simp
  qed
qed

lemma fork_found_bounds:
  assumes "fork_found hs xs f ys"
  shows "boundary hs (snd (block_num_range (last xs)))" "192 dvd unat (min_block_num hs)"
    "unat (snd (block_num_range f)) = unat (sl_start_block_num f) + slice_len f" "snd (block_num_range f) \<le> hs_max_block_num hs"
    "min_block_num hs < sl_start_block_num f" "192 \<le> unat (sl_start_block_num f)"
proof -
  note F = fork_found_facts [OF assms]
  have last_pos: "length xs - 1 < length (hs_slices hs)" "last xs = hs_slices hs ! (length xs - 1)"
    using assms by (auto simp: fork_found_def nth_append last_conv_nth)
  show "boundary hs (snd (block_num_range (last xs)))"
    using slice_boundary [OF F(1) last_pos(1)] slice_end [OF window_okD last_pos(1), OF F(1) F(1)] last_pos(2) by simp
  show "192 dvd unat (min_block_num hs)" using window_okD(1) [OF F(1)] by (simp add: slices_ok_def positions_ok_def)
  show end_f: "unat (snd (block_num_range f)) = unat (sl_start_block_num f) + slice_len f"
    using slice_end [OF window_okD, OF F(1) F(1) F(3)] F(2) by simp
  have "f \<in> set (hs_slices hs)" using assms by (simp add: fork_found_def)
  then have "slice_len f \<le> 192" using F(1) by (simp add: window_ok_def sized_def)
  moreover have "(length xs + 1) * 192 \<le> length (hs_slices hs) * 192" using F(3) by (intro mult_le_mono1) simp
  moreover have "unat (hs_max_block_num hs) = unat (min_block_num hs) + length (hs_slices hs) * 192"
    using window_okD(1) [OF F(1)] by (simp add: slices_ok_def positions_ok_def)
  ultimately show "snd (block_num_range f) \<le> hs_max_block_num hs" using F(4) end_f by (simp add: word_le_nat_alt)
  have "xs \<noteq> []" using assms by (simp add: fork_found_def)
  then show "min_block_num hs < sl_start_block_num f" "192 \<le> unat (sl_start_block_num f)"
    using F(4) by (cases xs; simp add: word_less_nat_alt)+
qed

lemma fork_setup_ok:
  assumes "fork_found hs xs f ys" and "slice_len (last xs) = 192" and "window_ok fhs" and "2 \<le> hs_max_slices fhs"
  shows "\<exists>st. fork_setup (fork_mode_new hs fhs, hs, fhs) = (st, None) \<and> fork_inv st \<and> fork_undecided st"
proof -
  note F = fork_found_facts [OF assms(1)] and B = fork_found_bounds [OF assms(1)]
  let ?ce = "snd (block_num_range (last xs))" and ?fm = "fork_mode_new hs fhs"
  from assms(1) have f: "sl_status f = Fork" "0 < slice_len f" "xs \<noteq> []" by (simp_all add: fork_found_def)
  have ce: "sl_start_block_num f = ?ce" using F(6) assms(2) by (simp add: word_unat_eq_iff)
  have find: "find_canonical_continuation_slice ?fm hs = Some (length xs)"
    using F(2,3) f(2) ce by (simp add: find_canonical_continuation_slice_def fork_mode_new_def F(5)
        find_by_block_num_sized [OF window_okD, OF F(1) F(1)])
  define s where "s = header_slice_default\<lparr>sl_start_block_num := sl_start_block_num f, sl_status := Verified,
      sl_headers := sl_headers f, sl_from_peer_id := sl_from_peer_id f\<rparr>"
  have s: "sl_start_block_num s = sl_start_block_num f" "sl_status s = Verified" "sl_headers s = sl_headers f" "slice_len s = slice_len f"
      "block_num_range s = block_num_range f" by (simp_all add: s_def slice_len_def block_num_range_def)
  have "f \<in> set (hs_slices hs)" using assms(1) by (simp add: fork_found_def)
  then have ok: "numbered_slice s" "slice_len s \<le> 192"
    using F(1) f(1) s by (auto simp: window_ok_def sized_def numbered_slice_def)
  have room: "unat (sl_start_block_num s) + 192 < 2 ^ 64" "192 dvd unat (sl_start_block_num s)"
    using slice_start_room [OF window_okD(1) [OF F(1)] F(3)] F(2) s(1) by simp_all
  have final: "192 dvd unat (hs_final_block_num fhs)" using assms(3) by (simp add: window_ok_def slices_ok_def positions_ok_def)
  define R where "R = reset_to_single_slice s fhs"
  have "is_canonical_slice_status (sl_status s)" using s(2) by (simp add: is_canonical_slice_status_def)
  note R = single_slice_window [OF final room(2,1) ok this, folded R_def]
  have "hs_max_slices R = hs_max_slices fhs" by (simp add: R_def reset_to_single_slice_def)
  then obtain R' where R': "prepend_slice R = Inr R'"
    using R(4) assms(4) s(1) B(6) by (auto simp: prepend_slice_def Let_def HEADER_SLICE_SIZE_def word_less_nat_alt)
  note P = prepend_slice_window [OF R(1) R']
  let ?st = "(?fm\<lparr>fm_fork_range := block_num_range s\<rparr>, refetch_slice (length xs) hs, R')"
  have entered: "fork_setup (?fm, hs, fhs) = (?st, None)"
    using f(1) R' by (simp add: fork_setup_def find F(2) Let_def s_def [symmetric] R_def [symmetric])
  have nc: "\<not> is_canonical_slice_status (sl_status (hs_slices hs ! length xs))"
    using F(2) f(1) by (simp add: is_canonical_slice_status_def)
  have "sl_start_block_num f < snd (block_num_range s)" using B(3) f(2) s(5) by (simp add: word_less_nat_alt)
  then have "fork_inv ?st"
    using P R(1-3) refetch_ok [OF F(1,3)] refetch_covers [OF F(1,3) fork_found_covers [OF assms(1,2)]] nc B room(2) ce s(1,5)
    by (auto simp: fork_inv_def fork_mode_new_def F(5) covers_def block_num_range_def [of s])
  moreover have "fork_undecided ?st"
    using B(5) s(1) by (simp add: fork_undecided_def fork_mode_new_def F(5) block_num_range_def)
  ultimately show ?thesis using entered by blast
qed

lemma fork_setup_partial:
  assumes "fork_found hs xs f ys" and "slice_len (last xs) < 192"
  shows "fork_setup (fork_mode_new hs fhs, hs, fhs) = ((fork_mode_new hs fhs, hs, fhs), Some InitialForkSliceNotFound)"
proof -
  note F = fork_found_facts [OF assms(1)]
  let ?ce = "snd (block_num_range (last xs))"
  have "find_by_block_num hs ?ce = None"
  proof (rule ccontr)
    assume "find_by_block_num hs ?ce \<noteq> None"
    then obtain i where "find_by_block_num hs ?ce = Some i" by blast
    then have i: "i < length (hs_slices hs)" "unat (sl_start_block_num (hs_slices hs ! i)) \<le> unat ?ce"
        "unat ?ce < unat (sl_start_block_num (hs_slices hs ! i)) + slice_len (hs_slices hs ! i)"
      by (simp_all add: find_by_block_num_sized [OF window_okD, OF F(1) F(1)])
    have pos: "unat (sl_start_block_num (hs_slices hs ! i)) = unat (min_block_num hs) + i * 192"
      using window_okD(1) [OF F(1)] i(1) by (simp add: slices_ok_def positions_ok_def)
    have len: "slice_len (hs_slices hs ! i) \<le> 192" using F(1) i(1) by (simp add: window_ok_def sized_def)
    have k: "0 < length xs" "0 < slice_len (last xs)" using assms(1) by (simp_all add: fork_found_def)
    have "i = length xs - 1" using F(4,6) pos i(2,3) len assms(2) k by linarith
    then have "hs_slices hs ! i = last xs" using assms(1) by (simp add: fork_found_def nth_append last_conv_nth)
    then show False using i(3) F(4,6) pos \<open>i = length xs - 1\<close> k(1) by (cases xs) simp_all
  qed
  then show ?thesis by (simp add: fork_setup_def find_canonical_continuation_slice_def fork_mode_new_def F(5))
qed

end
