(* ===== verification/Header_Fork_Switch.thy ===== *)
theory Header_Fork_Switch
  imports
    Header_Fork_Choice
begin

text \<open>
  The execution of a command to switch to a fork: the loops over the slices of both windows end, the
  canonical window holds the fork above the connection block and nothing above the fork, and the
  canonical table has the saved headers of the fork.
\<close>

section \<open>Walking over covered slices\<close>

text \<open>
  One step of a loop over the slices of a covered range: the slice that starts at \<open>num\<close> is there, and
  the next position is the start of the next slice unless the range is finished.
\<close>

lemma covered_step:
  assumes "window_ok hs" and "num < fe" and "192 dvd unat num"
    and "\<And>n. num \<le> n \<Longrightarrow> n < fe \<Longrightarrow> window_header hs n \<noteq> None"
  obtains i where "i < length (hs_slices hs)" and "sl_start_block_num (hs_slices hs ! i) = num"
    and "find_by_start_block_num hs num = Some i" and "is_canonical_slice_status (sl_status (hs_slices hs ! i))"
    and "0 < slice_len (hs_slices hs ! i)" and "slice_len (hs_slices hs ! i) \<le> 192"
    and "unat (num + of_nat (slice_len (hs_slices hs ! i))) = unat num + slice_len (hs_slices hs ! i)"
    and "num + of_nat (slice_len (hs_slices hs ! i)) < fe \<Longrightarrow> slice_len (hs_slices hs ! i) = 192"
proof -
  from aligned_header_slice [OF assms(1) _ assms(3)] assms(2,4) obtain i
    where i: "i < length (hs_slices hs)" "sl_start_block_num (hs_slices hs ! i) = num"
      "is_canonical_slice_status (sl_status (hs_slices hs ! i))" "0 < slice_len (hs_slices hs ! i)" by blast
  let ?len = "slice_len (hs_slices hs ! i)"
  have len: "?len \<le> 192" using assms(1) i(1) by (simp add: window_ok_def sized_def)
  have next_num: "unat (num + of_nat ?len) = unat num + ?len"
    using slice_end [OF window_okD, OF assms(1) assms(1) i(1)] i(2) by (simp add: block_num_range_def)
  have "?len = 192" if "num + of_nat ?len < fe"
  proof -
    have "num \<le> num + of_nat ?len" using next_num by (simp add: word_le_nat_alt)
    from assms(4) [OF this that] obtain h where "window_header hs (num + of_nat ?len) = Some h" by blast
    then obtain j headers t where j: "j < length (hs_slices hs)" "t < length headers" "sl_headers (hs_slices hs ! j) = Some headers"
        "unat num + ?len = unat (sl_start_block_num (hs_slices hs ! j)) + t"
      unfolding window_header_ok [OF assms(1) assms(1)] next_num by (auto simp: in_set_conv_nth)
    have "slice_len (hs_slices hs ! j) \<le> 192" using assms(1) j(1) by (simp add: window_ok_def sized_def)
    then have t: "t < 192" using j(2,3) by (simp add: slice_len_def)
    have "i \<noteq> j" using j(2-4) i(2) by (auto simp: slice_len_def)
    then have "num \<noteq> sl_start_block_num (hs_slices hs ! j)"
      using start_block_num_inj [OF window_okD(1) [OF assms(1)] i(1) j(1)] i(2) by auto
    then have ne: "unat num \<noteq> unat (sl_start_block_num (hs_slices hs ! j))" by (simp add: word_unat_eq_iff)
    from slice_start_room(2) [OF window_okD(1) [OF assms(1)] j(1)] assms(3) obtain a b
      where "unat num = 192 * a" "unat (sl_start_block_num (hs_slices hs ! j)) = 192 * b" by (auto elim!: dvdE)
    with ne j(4) t len show ?thesis by simp
  qed
  with i len next_num that show thesis by (simp add: find_by_start_block_num_iff [OF window_okD(1) [OF assms(1)]])
qed

lemma slice_at_position:
  assumes "slices_ok hs" and "192 dvd unat num" and "min_block_num hs \<le> num" and "num < hs_max_block_num hs"
  obtains i where "i < length (hs_slices hs)" and "sl_start_block_num (hs_slices hs ! i) = num"
    and "find_by_start_block_num hs num = Some i"
proof -
  from assms(1) have pos: "192 dvd unat (min_block_num hs)" "unat (hs_max_block_num hs) = unat (min_block_num hs) + length (hs_slices hs) * 192"
      "\<And>i. i < length (hs_slices hs) \<Longrightarrow> unat (sl_start_block_num (hs_slices hs ! i)) = unat (min_block_num hs) + i * 192"
    by (auto simp: slices_ok_def positions_ok_def)
  from pos(1) assms(2) obtain a b where ab: "unat (min_block_num hs) = 192 * a" "unat num = 192 * b" by blast
  moreover have "a \<le> b" using ab assms(3) by (simp add: word_le_nat_alt)
  ultimately obtain i where i: "unat num = unat (min_block_num hs) + i * 192" by (metis le_Suc_ex add_mult_distrib2 mult.commute)
  then have "i < length (hs_slices hs)" using assms(4) pos(2) by (simp add: word_less_nat_alt)
  with pos(3) i have "i < length (hs_slices hs)" "sl_start_block_num (hs_slices hs ! i) = num" by (simp_all add: word_unat_eq_iff)
  with that show thesis by (simp add: find_by_start_block_num_iff [OF assms(1)])
qed

text \<open>Slices that start at different positions are a slice apart.\<close>

lemma slices_apart:
  assumes "slices_ok hs" and "i < length (hs_slices hs)" and "192 dvd unat num" and "num < sl_start_block_num (hs_slices hs ! i)"
  shows "unat num + 192 \<le> unat (sl_start_block_num (hs_slices hs ! i))"
  using slice_start_room(2) [OF assms(1,2)] assms(3,4) by (auto simp: word_less_nat_alt elim!: dvdE)

lemma later_slices:
  fixes num :: block_number
  assumes "slices_ok hs" and "k < length (hs_slices hs)" and "i < length (hs_slices hs)" and "sl_start_block_num (hs_slices hs ! i) = num"
    and "k \<noteq> i" and "192 dvd unat num" and "len \<le> 192" and "unat (num + of_nat len) = unat num + len"
  shows "num + of_nat len \<le> sl_start_block_num (hs_slices hs ! k) \<longleftrightarrow> num \<le> sl_start_block_num (hs_slices hs ! k)"
proof -
  have "sl_start_block_num (hs_slices hs ! k) \<noteq> num"
    using start_block_num_inj [OF assms(1-3)] assms(4,5) by auto
  then have "num \<le> sl_start_block_num (hs_slices hs ! k) \<longleftrightarrow> num < sl_start_block_num (hs_slices hs ! k)" by auto
  then show ?thesis
    using slices_apart [OF assms(1,2,6)] assms(7,8) by (auto simp: word_le_nat_alt word_less_nat_alt)
qed

section \<open>Discarding the canonical slices above the fork\<close>

definition emptied_slice :: "header_slice \<Rightarrow> header_slice" where
  "emptied_slice s = s\<lparr>sl_status := Empty, sl_headers := None, sl_refetch_attempt := 0\<rparr>"

lemma window_header_other:
  assumes "window_ok hs" and "window_ok hs'" and "i < length (hs_slices hs)" and "hs_slices hs' = (hs_slices hs)[i := s']"
    and "unat (sl_start_block_num (hs_slices hs ! i)) + slice_len (hs_slices hs ! i) \<le> unat n" and "window_header hs n \<noteq> None"
  shows "window_header hs' n \<noteq> None"
proof -
  from assms(6) obtain h s headers t where s: "s \<in> set (hs_slices hs)" "is_canonical_slice_status (sl_status s)"
      "sl_headers s = Some headers" "t < length headers" "unat n = unat (sl_start_block_num s) + t" "h = headers ! t"
    unfolding not_None_eq window_header_ok [OF assms(1) assms(1)] by blast
  moreover have "s \<noteq> hs_slices hs ! i" using s(3-5) assms(5) by (auto simp: slice_len_def)
  then have "s \<in> set (hs_slices hs')" using s(1) assms(4) by (simp add: set_update_other)
  ultimately show ?thesis unfolding not_None_eq window_header_ok [OF assms(2) assms(2)] by blast
qed

lemma discard_canonical_slices:
  assumes "window_ok hs" and "num < ce \<Longrightarrow> 192 dvd unat num" and "\<And>n. num \<le> n \<Longrightarrow> n < ce \<Longrightarrow> window_header hs n \<noteq> None"
  shows "\<exists>hs'. discard_canonical ce num hs = Some hs' \<and> window_ok hs' \<and>
    hs_slices hs' = map (\<lambda>s. if num \<le> sl_start_block_num s \<and> sl_start_block_num s < ce then emptied_slice s else s) (hs_slices hs)"
  using assms
proof (induction "unat ce - unat num" arbitrary: num hs rule: less_induct)
  case less
  show ?case
  proof (cases "num < ce")
    case False
    then have "\<not> (num \<le> n \<and> n < ce)" for n by auto
    then have none: "(num \<le> n \<and> n < ce) = False" for n by blast
    show ?thesis using False less.prems(1) unfolding none by (subst discard_canonical.simps) simp
  next
    case True
    from covered_step [OF less.prems(1) True less.prems(2) [OF True] less.prems(3)] obtain i
      where i: "i < length (hs_slices hs)" "sl_start_block_num (hs_slices hs ! i) = num" "find_by_start_block_num hs num = Some i"
        "is_canonical_slice_status (sl_status (hs_slices hs ! i))" "0 < slice_len (hs_slices hs ! i)" "slice_len (hs_slices hs ! i) \<le> 192"
        "unat (num + of_nat (slice_len (hs_slices hs ! i))) = unat num + slice_len (hs_slices hs ! i)"
        "num + of_nat (slice_len (hs_slices hs ! i)) < ce \<Longrightarrow> slice_len (hs_slices hs ! i) = 192" by blast
    let ?s = "hs_slices hs ! i" and ?num = "num + of_nat (slice_len (hs_slices hs ! i))"
    define hs1 where "hs1 = update_slice_at (\<lambda>s. s) Empty (\<lambda>s. s\<lparr>sl_headers := None, sl_refetch_attempt := 0\<rparr>) i hs"
    have slices1: "hs_slices hs1 = (hs_slices hs)[i := emptied_slice ?s]" by (simp add: hs1_def emptied_slice_def)
    have ok1: "window_ok hs1" unfolding hs1_def
      by (rule window_ok_update [OF less.prems(1) i(1) _ refl]) (simp_all add: keeps_identity_def numbered_slice_def slice_len_def)
    have later: "window_header hs1 n \<noteq> None" if "?num \<le> n" "n < ce" for n
      using window_header_other [OF less.prems(1) ok1 i(1) slices1, of n] less.prems(3) [of n] that i(2,7) by (simp add: word_le_nat_alt)
    have dvd1: "192 dvd unat ?num" if "?num < ce" using less.prems(2) [OF True] i(7) i(8) [OF that] by simp
    have step: "discard_canonical ce num hs = discard_canonical ce ?num hs1"
      using True i by (subst discard_canonical.simps) (simp add: Let_def hs1_def)
    have "unat ce - unat ?num < unat ce - unat num" using True i(5,7) by (simp add: word_less_nat_alt)
    from less.hyps [OF this ok1 dvd1 later] obtain hs' where hs': "discard_canonical ce ?num hs1 = Some hs'" "window_ok hs'"
        "hs_slices hs' = map (\<lambda>s. if ?num \<le> sl_start_block_num s \<and> sl_start_block_num s < ce then emptied_slice s else s) (hs_slices hs1)"
      by blast
    have "hs_slices hs' =
        map (\<lambda>s. if num \<le> sl_start_block_num s \<and> sl_start_block_num s < ce then emptied_slice s else s) (hs_slices hs)"
    proof (rule nth_equalityI)
      fix k
      assume "k < length (hs_slices hs')"
      then have k: "k < length (hs_slices hs)" by (simp add: hs'(3) slices1)
      show "hs_slices hs' ! k =
          map (\<lambda>s. if num \<le> sl_start_block_num s \<and> sl_start_block_num s < ce then emptied_slice s else s) (hs_slices hs) ! k"
        using k later_slices [OF window_okD(1) [OF less.prems(1)] k i(1,2) _ less.prems(2) [OF True] i(6,7)] True i(2,5,7)
        by (cases "k = i") (auto simp: hs'(3) slices1 emptied_slice_def word_le_nat_alt)
    qed (simp add: hs'(3) slices1)
    with hs' step show ?thesis by simp
  qed
qed

section \<open>Promoting the slices of the fork\<close>

definition slice_from :: "header_slices \<Rightarrow> block_number \<Rightarrow> header_slice" where
  "slice_from fhs n = hs_slices fhs ! the (find_by_start_block_num fhs n)"

definition promoted_slice :: "header_slices \<Rightarrow> header_slice \<Rightarrow> header_slice" where
  "promoted_slice fhs s = (let f = slice_from fhs (sl_start_block_num s)
     in s\<lparr>sl_status := sl_status f, sl_headers := sl_headers f, sl_refetch_attempt := 0\<rparr>)"

lemma promoted_slice_start [simp]: "sl_start_block_num (promoted_slice fhs s) = sl_start_block_num s"
  by (simp add: promoted_slice_def Let_def)

lemma promoted_slice_ok:
  assumes "window_ok fhs" and "j < length (hs_slices fhs)" and "sl_start_block_num s = sl_start_block_num (hs_slices fhs ! j)"
  shows "promoted_slice fhs s = s\<lparr>sl_status := sl_status (hs_slices fhs ! j), sl_headers := sl_headers (hs_slices fhs ! j), sl_refetch_attempt := 0\<rparr>"
    and "numbered_slice (promoted_slice fhs s)" and "slice_len (promoted_slice fhs s) = slice_len (hs_slices fhs ! j)"
proof -
  have "find_by_start_block_num fhs (sl_start_block_num s) = Some j"
    using assms by (simp add: find_by_start_block_num_iff [OF window_okD(1) [OF assms(1)]])
  then show eq: "promoted_slice fhs s = s\<lparr>sl_status := sl_status (hs_slices fhs ! j), sl_headers := sl_headers (hs_slices fhs ! j), sl_refetch_attempt := 0\<rparr>"
    by (simp add: promoted_slice_def slice_from_def Let_def)
  have "numbered_slice (hs_slices fhs ! j)" using assms(1,2) by (simp add: window_ok_def)
  then show "numbered_slice (promoted_slice fhs s)" using assms(3) by (simp add: eq numbered_slice_def)
  show "slice_len (promoted_slice fhs s) = slice_len (hs_slices fhs ! j)" by (simp add: eq slice_len_def)
qed

text \<open>A fork slice whose headers are taken; the other slices are as before.\<close>

definition take_headers :: "nat \<Rightarrow> header_slices \<Rightarrow> header_slices" where
  "take_headers j fhs = fhs\<lparr>hs_slices := (hs_slices fhs)[j := (hs_slices fhs ! j)\<lparr>sl_headers := None\<rparr>]\<rparr>"

lemma take_headers_update:
  "take_headers j fhs = update_slice_at (\<lambda>s. s) (sl_status (hs_slices fhs ! j)) (\<lambda>s. s\<lparr>sl_headers := None\<rparr>) j fhs"
  by (simp add: take_headers_def update_slice_at_def set_slice_status_def)

lemma take_headers_ok:
  assumes "window_ok fhs" and "j < length (hs_slices fhs)"
  shows "window_ok (take_headers j fhs)" and "boundary fhs n \<Longrightarrow> boundary (take_headers j fhs) n"
    and "k < length (hs_slices fhs) \<Longrightarrow> k \<noteq> j \<Longrightarrow> sl_start_block_num s = sl_start_block_num (hs_slices fhs ! k) \<Longrightarrow>
      promoted_slice (take_headers j fhs) s = promoted_slice fhs s"
proof -
  show ok: "window_ok (take_headers j fhs)" unfolding take_headers_update
    by (rule window_ok_update [OF assms _ refl]) (simp_all add: keeps_identity_def numbered_slice_def slice_len_def)
  show "boundary (take_headers j fhs) n" if "boundary fhs n" unfolding take_headers_update
    by (rule boundary_update [OF that assms(2)]) (simp_all add: keeps_identity_def slice_len_def)
  assume k: "k < length (hs_slices fhs)" "k \<noteq> j" "sl_start_block_num s = sl_start_block_num (hs_slices fhs ! k)"
  then have other: "hs_slices (take_headers j fhs) ! k = hs_slices fhs ! k" "k < length (hs_slices (take_headers j fhs))"
    by (simp_all add: take_headers_def)
  show "promoted_slice (take_headers j fhs) s = promoted_slice fhs s"
    using promoted_slice_ok(1) [OF ok other(2)] promoted_slice_ok(1) [OF assms(1) k(1,3)] k(3) other(1) by simp
qed

text \<open>The slices a step does not touch.\<close>

lemma promote_position:
  assumes "window_ok hs" and "window_ok fhs" and "192 dvd unat num" and "k < length (hs_slices hs)" and "k \<noteq> i" and "i < length (hs_slices hs)"
    and "sl_start_block_num (hs_slices hs ! i) = num" and "j < length (hs_slices fhs)" and "sl_start_block_num (hs_slices fhs ! j) = num"
    and "\<And>n. num \<le> n \<Longrightarrow> n < fe \<Longrightarrow> window_header fhs n \<noteq> None"
    and "num \<le> sl_start_block_num (hs_slices hs ! k)" and "sl_start_block_num (hs_slices hs ! k) < fe"
  shows "promoted_slice (take_headers j fhs) (hs_slices hs ! k) = promoted_slice fhs (hs_slices hs ! k)"
proof -
  have ne: "sl_start_block_num (hs_slices hs ! k) \<noteq> num"
    using start_block_num_inj [OF window_okD(1) [OF assms(1)] assms(4,6)] assms(5,7) by auto
  from aligned_header_slice [OF assms(2) assms(10) [OF assms(11,12)] slice_start_room(2) [OF window_okD(1) [OF assms(1)] assms(4)]]
  obtain l where "l < length (hs_slices fhs)" "sl_start_block_num (hs_slices fhs ! l) = sl_start_block_num (hs_slices hs ! k)" by blast
  moreover then have "l \<noteq> j" using ne assms(9) by auto
  ultimately show ?thesis using take_headers_ok(3) [OF assms(2,8)] by simp
qed

lemma promote_fork_slices:
  assumes "window_ok hs" and "window_ok fhs" and "num < fe \<Longrightarrow> 192 dvd unat num" and "min_block_num hs \<le> num"
    and "fe \<le> hs_max_block_num hs" and "boundary fhs fe" and "\<And>n. num \<le> n \<Longrightarrow> n < fe \<Longrightarrow> window_header fhs n \<noteq> None"
  shows "\<exists>hs' fhs'. promote_fork fe num (hs, fhs) = Some (if num < fe then fe else num, hs', fhs') \<and> window_ok hs' \<and>
    hs_final_block_num fhs' = hs_final_block_num fhs \<and>
    hs_slices hs' = map (\<lambda>s. if num \<le> sl_start_block_num s \<and> sl_start_block_num s < fe then promoted_slice fhs s else s) (hs_slices hs)"
  using assms
proof (induction "unat fe - unat num" arbitrary: num hs fhs rule: less_induct)
  case less
  show ?case
  proof (cases "num < fe")
    case False
    then have "\<not> (num \<le> n \<and> n < fe)" for n by auto
    then have none: "(num \<le> n \<and> n < fe) = False" for n by blast
    show ?thesis using False less.prems(1) unfolding none by (subst promote_fork.simps) simp
  next
    case True
    note dvd = less.prems(3) [OF True]
    from covered_step [OF less.prems(2) True dvd less.prems(7)] obtain j
      where j: "j < length (hs_slices fhs)" "sl_start_block_num (hs_slices fhs ! j) = num" "find_by_start_block_num fhs num = Some j"
        "0 < slice_len (hs_slices fhs ! j)" "slice_len (hs_slices fhs ! j) \<le> 192"
        "unat (num + of_nat (slice_len (hs_slices fhs ! j))) = unat num + slice_len (hs_slices fhs ! j)"
        "num + of_nat (slice_len (hs_slices fhs ! j)) < fe \<Longrightarrow> slice_len (hs_slices fhs ! j) = 192" by blast
    have "num < hs_max_block_num hs" using True less.prems(5) by simp
    from slice_at_position [OF window_okD(1) [OF less.prems(1)] dvd less.prems(4) this] obtain i
      where i: "i < length (hs_slices hs)" "sl_start_block_num (hs_slices hs ! i) = num" "find_by_start_block_num hs num = Some i" by blast
    let ?s = "hs_slices hs ! i" and ?num = "num + of_nat (slice_len (hs_slices fhs ! j))" and ?fhs1 = "take_headers j fhs"
    have start: "sl_start_block_num ?s = sl_start_block_num (hs_slices fhs ! j)" using i(2) j(2) by simp
    note P = promoted_slice_ok [OF less.prems(2) j(1) start] and T = take_headers_ok [OF less.prems(2) j(1)]
    define hs1 where "hs1 = update_slice_at (\<lambda>s. s) (sl_status (hs_slices fhs ! j))
        (\<lambda>s. s\<lparr>sl_headers := sl_headers (hs_slices fhs ! j), sl_refetch_attempt := 0\<rparr>) i hs"
    have slices1: "hs_slices hs1 = (hs_slices hs)[i := promoted_slice fhs ?s]" by (simp add: hs1_def P(1))
    have fields1: "min_block_num hs1 = min_block_num hs" "hs_max_block_num hs1 = hs_max_block_num hs"
      using i(1) by (auto simp: min_block_num_def slices1 list_update_beyond split: list.split nat.split) (simp_all add: hs1_def)
    have ok1: "window_ok hs1" unfolding hs1_def
      by (rule window_ok_update [OF less.prems(1) i(1) _ refl]) (use P j(5) in \<open>simp_all add: keeps_identity_def\<close>)
    have len1: "slice_len (hs_slices hs1 ! i) = slice_len (hs_slices fhs ! j)" using i(1) P(3) by (simp add: slices1)
    have later: "window_header ?fhs1 n \<noteq> None" if "?num \<le> n" "n < fe" for n
    proof (rule window_header_other [OF less.prems(2) T(1) j(1)])
      show "hs_slices ?fhs1 = (hs_slices fhs)[j := (hs_slices fhs ! j)\<lparr>sl_headers := None\<rparr>]" by (simp add: take_headers_def)
      show "unat (sl_start_block_num (hs_slices fhs ! j)) + slice_len (hs_slices fhs ! j) \<le> unat n"
        using that(1) j(2,6) by (simp add: word_le_nat_alt)
      show "window_header fhs n \<noteq> None" using less.prems(7) that j(6) by (simp add: word_le_nat_alt)
    qed
    have dvd1: "192 dvd unat ?num" if "?num < fe" using dvd j(6) j(7) [OF that] by simp
    have step: "promote_fork fe num (hs, fhs) = promote_fork fe ?num (hs1, ?fhs1)"
      using True i(3) j(3) len1 by (subst promote_fork.simps) (simp add: Let_def hs1_def take_headers_def)
    have low: "min_block_num hs1 \<le> ?num" using less.prems(4) fields1(1) j(6) by (simp add: word_le_nat_alt)
    have high: "fe \<le> hs_max_block_num hs1" using less.prems(5) fields1(2) by simp
    have "unat fe - unat ?num < unat fe - unat num" using True j(4,6) by (simp add: word_less_nat_alt)
    from less.hyps [OF this ok1 T(1) dvd1 low high T(2) [OF less.prems(6)] later] obtain hs' fhs' where R: "promote_fork fe ?num (hs1, ?fhs1) = Some (if ?num < fe then fe else ?num, hs', fhs')" "window_ok hs'"
        "hs_final_block_num fhs' = hs_final_block_num ?fhs1"
        "hs_slices hs' = map (\<lambda>s. if ?num \<le> sl_start_block_num s \<and> sl_start_block_num s < fe then promoted_slice ?fhs1 s else s) (hs_slices hs1)"
      by blast
    have "?num \<le> fe"
      using less.prems(6) nth_mem [OF j(1)] True j(2,6) by (fastforce simp: boundary_def word_le_nat_alt word_less_nat_alt)
    then have num': "(if ?num < fe then fe else ?num) = fe" by simp
    have "hs_slices hs' = map (\<lambda>s. if num \<le> sl_start_block_num s \<and> sl_start_block_num s < fe then promoted_slice fhs s else s) (hs_slices hs)"
    proof (rule nth_equalityI)
      fix k
      assume "k < length (hs_slices hs')"
      then have k: "k < length (hs_slices hs)" by (simp add: R(4) slices1)
      show "hs_slices hs' ! k = map (\<lambda>s. if num \<le> sl_start_block_num s \<and> sl_start_block_num s < fe then promoted_slice fhs s else s) (hs_slices hs) ! k"
        using k promote_position [OF less.prems(1,2) dvd k _ i(1,2) j(1,2) less.prems(7), of fe]
          later_slices [OF window_okD(1) [OF less.prems(1)] k i(1,2) _ dvd j(5,6)] True i(2) j(4,6)
        by (cases "k = i") (auto simp: R(4) slices1 word_le_nat_alt)
    qed (simp add: R(4) slices1)
    with R num' step True show ?thesis by (simp add: take_headers_def)
  qed
qed

section \<open>The windows after the switch\<close>

text \<open>The slices of the canonical window: those of the fork are promoted, the ones above it are emptied.\<close>

definition switched_slice :: "header_slices \<Rightarrow> block_number \<Rightarrow> block_number \<Rightarrow> block_number \<Rightarrow> header_slice \<Rightarrow> header_slice" where
  "switched_slice fhs fs fe ce s =
     (if fs \<le> sl_start_block_num s \<and> sl_start_block_num s < fe then promoted_slice fhs s
      else if fe \<le> sl_start_block_num s \<and> sl_start_block_num s < ce then emptied_slice s else s)"

lemma switched_slice_start [simp]: "sl_start_block_num (switched_slice fhs fs fe ce s) = sl_start_block_num s"
  by (simp add: switched_slice_def emptied_slice_def)

text \<open>A block of an aligned range lies in a slice that starts in the range.\<close>

lemma slice_start_in_range:
  fixes a :: block_number
  assumes "window_ok hs" and "s \<in> set (hs_slices hs)" and "192 dvd unat a" and "a \<le> n"
    and "sl_headers s = Some headers" and "t < length headers" and "unat n = unat (sl_start_block_num s) + t"
  shows "a \<le> sl_start_block_num s"
proof -
  from assms(2) obtain i where "i < length (hs_slices hs)" "s = hs_slices hs ! i" by (auto simp: in_set_conv_nth)
  then have "192 dvd unat (sl_start_block_num s)" using slice_start_room(2) [OF window_okD(1) [OF assms(1)]] by simp
  moreover have "slice_len s \<le> 192" using assms(1,2) by (simp add: window_ok_def sized_def)
  ultimately show ?thesis using assms(3-7) by (auto simp: word_le_nat_alt slice_len_def elim!: dvdE)
qed

lemma min_block_num_le:
  assumes "window_ok hs" and "window_header hs n \<noteq> None"
  shows "min_block_num hs \<le> n"
proof -
  from assms(2) obtain i t where "i < length (hs_slices hs)" "unat n = unat (sl_start_block_num (hs_slices hs ! i)) + t"
    unfolding not_None_eq window_header_ok [OF assms(1) assms(1)] by (auto simp: in_set_conv_nth)
  then show ?thesis using window_okD(1) [OF assms(1)] by (auto simp: slices_ok_def positions_ok_def word_le_nat_alt)
qed

lemma switch_slices:
  assumes "fork_inv (fm, hs, fhs)" and "fm_canonical_range fm = (cs, ce)" and "fm_fork_range fm = (fs, fe)"
    and "hs_slices fhs \<noteq> []" and "fs < ce" and "unat (hs_max_block_num hs) + 192 < 2 ^ 64"
    and "fs_canonical_range cmd = (cs, ce)" and "fs_fork_range cmd = (fs, fe)"
  shows "\<exists>hs' fhs'. command_switch_to_fork cmd (hs, fhs) = Some (hs', fhs') \<and> window_ok hs' \<and> window_ok fhs' \<and> hs_slices fhs' = [] \<and>
    hs_slices hs' = map (switched_slice fhs fs fe ce) (hs_slices hs)"
proof -
  from assms(1-4) have inv: "window_ok hs" "window_ok fhs" "covers hs (cs, ce)" "covers fhs (fs, fe)" "boundary fhs fe"
      "cs \<le> fs" "fs < fe" "192 dvd unat fs" "fe \<le> hs_max_block_num hs"
    by (auto simp: fork_inv_def)
  have "window_header hs fs \<noteq> None" using inv(3,6) assms(5) by (simp add: covers_def range_contains_def)
  then have "min_block_num hs \<le> fs" by (rule min_block_num_le [OF inv(1)])
  from promote_fork_slices [OF inv(1,2) inv(8) this inv(9,5)] inv(4,7) obtain hs1 fhs1
    where P: "promote_fork fe fs (hs, fhs) = Some (fe, hs1, fhs1)" "window_ok hs1" "hs_final_block_num fhs1 = hs_final_block_num fhs"
      "hs_slices hs1 = map (\<lambda>s. if fs \<le> sl_start_block_num s \<and> sl_start_block_num s < fe then promoted_slice fhs s else s) (hs_slices hs)"
    by (auto simp: covers_def range_contains_def)
  define up where "up = align_block_num_to_slice_start (fe + of_nat HEADER_SLICE_SIZE - 1)"
  have "unat (fe + of_nat HEADER_SLICE_SIZE - 1) = unat fe + 191"
    using inv(9) assms(6) by (simp add: HEADER_SLICE_SIZE_def word_le_nat_alt unat_word_ariths)
  then have up: "unat up = (unat fe + 191) div 192 * 192" by (simp add: up_def align_le)
  have above: "up \<le> sl_start_block_num s \<longleftrightarrow> fe \<le> sl_start_block_num s" if s: "s \<in> set (hs_slices hs)" for s
  proof -
    from s obtain i where "i < length (hs_slices hs)" "s = hs_slices hs ! i" by (auto simp: in_set_conv_nth)
    then have "192 dvd unat (sl_start_block_num s)" using slice_start_room(2) [OF window_okD(1) [OF inv(1)]] by simp
    then show ?thesis by (auto simp: word_le_nat_alt up elim!: dvdE)
  qed
  have "window_header hs1 n \<noteq> None" if n: "up \<le> n" "n < ce" for n
  proof -
    have fe: "fe \<le> n" using n(1) up by (simp add: word_le_nat_alt)
    then have "window_header hs n \<noteq> None" using inv(3,6,7) n(2) by (simp add: covers_def range_contains_def)
    then obtain h s headers t where s: "s \<in> set (hs_slices hs)" "is_canonical_slice_status (sl_status s)"
        "sl_headers s = Some headers" "t < length headers" "unat n = unat (sl_start_block_num s) + t" "h = headers ! t"
      unfolding not_None_eq window_header_ok [OF inv(1) inv(1)] by blast
    have "up \<le> sl_start_block_num s" by (rule slice_start_in_range [OF inv(1) s(1) _ n(1) s(3-5)]) (simp add: up)
    then have "\<not> sl_start_block_num s < fe" using above [OF s(1)] by simp
    then have "s \<in> set (hs_slices hs1)" using s(1) by (auto simp: P(4) image_iff intro: bexI [of _ s])
    with s(2-6) show ?thesis unfolding not_None_eq window_header_ok [OF P(2) P(2)] by blast
  qed
  moreover have "192 dvd unat up" by (simp add: up)
  ultimately obtain hs2 where D: "discard_canonical ce up hs1 = Some hs2" "window_ok hs2"
      "hs_slices hs2 = map (\<lambda>s. if up \<le> sl_start_block_num s \<and> sl_start_block_num s < ce then emptied_slice s else s) (hs_slices hs1)"
    using discard_canonical_slices [OF P(2), of up ce] by blast
  have "192 dvd unat (hs_final_block_num fhs1)" using P(3) inv(2) by (simp add: window_ok_def slices_ok_def positions_ok_def)
  then have "window_ok (clear fhs1)" "hs_slices (clear fhs1) = []" by (simp_all add: clear_ok window_ok_def sized_def) (simp_all add: clear_def)
  moreover have "hs_slices hs2 = map (switched_slice fhs fs fe ce) (hs_slices hs)"
    using above by (auto simp: D(3) P(4) switched_slice_def)
  moreover have "command_switch_to_fork cmd (hs, fhs) = Some (hs2, clear fhs1)"
    using P(1) D(1) assms(7,8) by (simp add: command_switch_to_fork_def Let_def up_def)
  ultimately show ?thesis using D(2) by blast
qed

lemma switched_headers:
  assumes "fork_inv (fm, hs, fhs)" and "fm_canonical_range fm = (cs, ce)" and "fm_fork_range fm = (fs, fe)"
    and "hs_slices fhs \<noteq> []" and "window_ok hs'" and "hs_slices hs' = map (switched_slice fhs fs fe ce) (hs_slices hs)"
    and "min_block_num hs \<le> fs"
  shows "n < fs \<Longrightarrow> window_header hs' n = window_header hs n" and "fs \<le> n \<Longrightarrow> n < fe \<Longrightarrow> window_header hs' n = window_header fhs n"
    and "fe \<le> n \<Longrightarrow> n < ce \<Longrightarrow> window_header hs' n = None"
proof -
  from assms(1-4) have inv: "window_ok hs" "window_ok fhs" "covers fhs (fs, fe)" "boundary fhs fe"
      "fs < fe" "192 dvd unat fs" "fe \<le> hs_max_block_num hs"
    by (auto simp: fork_inv_def)
  note iff = window_header_ok [OF assms(5) assms(5)] and iff_hs = window_header_ok [OF inv(1) inv(1)]
    and iff_fhs = window_header_ok [OF inv(2) inv(2)]
  show "window_header hs' n = window_header hs n" if n: "n < fs"
  proof -
    have "switched_slice fhs fs fe ce s = s" if "unat n = unat (sl_start_block_num s) + t" for s t
    proof -
      have "sl_start_block_num s < fs" using that n by (simp add: word_less_nat_alt)
      then show ?thesis using inv(5) by (auto simp: switched_slice_def)
    qed
    then have "window_header hs' n = Some h \<longleftrightarrow> window_header hs n = Some h" for h
      unfolding iff iff_hs assms(6) by (auto simp: image_iff) (metis switched_slice_start)+
    then show ?thesis by (metis option.exhaust)
  qed
  show "window_header hs' n = window_header fhs n" if n: "fs \<le> n" "n < fe"
  proof -
    from inv(3) n obtain h where h: "window_header fhs n = Some h" by (auto simp: covers_def range_contains_def)
    then obtain j headers t where j: "j < length (hs_slices fhs)" "is_canonical_slice_status (sl_status (hs_slices fhs ! j))"
        "sl_headers (hs_slices fhs ! j) = Some headers" "t < length headers"
        "unat n = unat (sl_start_block_num (hs_slices fhs ! j)) + t" "h = headers ! t"
      unfolding iff_fhs by (auto simp: in_set_conv_nth)
    let ?start = "sl_start_block_num (hs_slices fhs ! j)"
    have start: "fs \<le> ?start" by (rule slice_start_in_range [OF inv(2) nth_mem [OF j(1)] inv(6) n(1) j(3-5)])
    have below: "?start < fe" using j(5) n(2) by (simp add: word_less_nat_alt)
    have "min_block_num hs \<le> ?start" "?start < hs_max_block_num hs" using start assms(7) below inv(7) by auto
    from slice_at_position [OF window_okD(1) [OF inv(1)] slice_start_room(2) [OF window_okD(1) [OF inv(2)] j(1)] this]
    obtain i where i: "i < length (hs_slices hs)" "sl_start_block_num (hs_slices hs ! i) = ?start" by blast
    let ?s = "switched_slice fhs fs fe ce (hs_slices hs ! i)"
    have mem: "?s \<in> set (hs_slices hs')" using i(1) by (simp add: assms(6))
    have "switched_slice fhs fs fe ce (hs_slices hs ! i) = (hs_slices hs ! i)\<lparr>sl_status := sl_status (hs_slices fhs ! j),
        sl_headers := Some headers, sl_refetch_attempt := 0\<rparr>"
      using start below i(2) promoted_slice_ok(1) [OF inv(2) j(1) i(2)] j(3) by (simp add: switched_slice_def)
    then have "window_header hs' n = Some h"
      using window_headerI [OF assms(5) mem _ _ j(4)] j(2,5,6) i(2) by simp
    with h show ?thesis by simp
  qed
  show "window_header hs' n = None" if n: "fe \<le> n" "n < ce"
  proof (rule ccontr)
    assume "window_header hs' n \<noteq> None"
    then obtain s headers t where s: "s \<in> set (hs_slices hs)" "sl_headers (switched_slice fhs fs fe ce s) = Some headers"
        "t < length headers" "unat n = unat (sl_start_block_num s) + t"
      unfolding not_None_eq iff assms(6) by auto
    have "switched_slice fhs fs fe ce s \<in> set (hs_slices hs')" using s(1) by (simp add: assms(6))
    from slice_start_in_range [OF assms(5) this inv(6) _ s(2,3), of n] s(4) n(1) inv(5) have start: "fs \<le> sl_start_block_num s" by simp
    have "sl_start_block_num s < ce" using n(2) s(4) by (simp add: word_less_nat_alt)
    with s(2) have below: "sl_start_block_num s < fe" by (auto simp: switched_slice_def emptied_slice_def split: if_splits)
    from s(1) have "192 dvd unat (sl_start_block_num s)"
      using slice_start_room(2) [OF window_okD(1) [OF inv(1)]] by (auto simp: in_set_conv_nth)
    with aligned_header_slice [OF inv(2)] inv(3) start below obtain j
      where j: "j < length (hs_slices fhs)" "sl_start_block_num (hs_slices fhs ! j) = sl_start_block_num s"
      by (metis covers_def fst_conv range_contains_def snd_conv)
    have "length headers = slice_len (hs_slices fhs ! j)"
      using promoted_slice_ok(3) [OF inv(2) j(1), of s] j(2) s(2) start below by (simp add: switched_slice_def slice_len_def)
    then show False using inv(4) nth_mem [OF j(1)] j(2) below s(3,4) n(1) by (fastforce simp: boundary_def word_less_nat_alt word_le_nat_alt)
  qed
qed

section \<open>The canonical table after the switch\<close>

text \<open>The blocks that a saved slice has.\<close>

definition saved_at :: "header_slices \<Rightarrow> block_number \<Rightarrow> bool" where
  "saved_at hs n \<longleftrightarrow> (\<exists>s \<in> set (hs_slices hs). sl_status s = Saved \<and>
     unat (sl_start_block_num s) \<le> unat n \<and> unat n < unat (sl_start_block_num s) + slice_len s)"

lemma promote_header_canonical:
  "db_canonical_header (promote_header e c h db) = (if cnum h \<le> c then db_canonical_header db else (db_canonical_header db)(cnum h \<mapsto> env_hash e h))"
  by (auto simp: promote_header_def update_canonical_chain_header_def Let_def split: option.split)

lemma promote_headers_canonical:
  assumes "\<And>t. t < length headers \<Longrightarrow> unat (cnum (headers ! t)) = a + t"
  shows "db_canonical_header (fold (promote_header e c) headers db) n =
    (if c < n \<and> a \<le> unat n \<and> unat n < a + length headers then Some (env_hash e (headers ! (unat n - a))) else db_canonical_header db n)"
  using assms
proof (induction headers rule: rev_induct)
  case (snoc h headers)
  have IH: "db_canonical_header (fold (promote_header e c) headers db) n =
      (if c < n \<and> a \<le> unat n \<and> unat n < a + length headers then Some (env_hash e (headers ! (unat n - a))) else db_canonical_header db n)"
    using snoc.prems by (intro snoc.IH) (metis length_append_singleton less_Suc_eq nth_append)
  have "unat (cnum h) = a + length headers" using snoc.prems [of "length headers"] by simp
  then have "n = cnum h \<longleftrightarrow> unat n = a + length headers" by (simp add: word_unat_eq_iff)
  with IH show ?case by (auto simp: promote_header_canonical nth_append not_le)
qed auto

text \<open>One slice: its blocks above the connection block are entered if it is saved.\<close>

lemma update_one_slice:
  fixes num :: block_number
  assumes "window_ok hs" and "i < length (hs_slices hs)" and "sl_start_block_num (hs_slices hs ! i) = num"
    and "is_canonical_slice_status (sl_status (hs_slices hs ! i))"
    and "unat (num + of_nat (slice_len (hs_slices hs ! i))) = unat num + slice_len (hs_slices hs ! i)"
    and "sl_headers (hs_slices hs ! i) = Some headers" and "slice_len (hs_slices hs ! i) = length headers"
  shows "db_canonical_header (if sl_status (hs_slices hs ! i) = Saved then fold (promote_header e c) headers db else db) n =
    (if num \<le> n \<and> n < num + of_nat (slice_len (hs_slices hs ! i)) \<and> c < n \<and> saved_at hs n
     then map_option (env_hash e) (window_header hs n) else db_canonical_header db n)"
proof -
  let ?s = "hs_slices hs ! i"
  have inside: "num \<le> n \<and> n < num + of_nat (slice_len ?s) \<longleftrightarrow> unat num \<le> unat n \<and> unat n < unat num + length headers"
    using assms(5,7) by (simp add: word_le_nat_alt word_less_nat_alt)
  have saved: "saved_at hs n \<longleftrightarrow> sl_status ?s = Saved" if "unat num \<le> unat n" "unat n < unat num + length headers"
  proof
    assume "saved_at hs n"
    then obtain j where j: "j < length (hs_slices hs)" "sl_status (hs_slices hs ! j) = Saved"
        "unat (sl_start_block_num (hs_slices hs ! j)) \<le> unat n" "unat n < unat (sl_start_block_num (hs_slices hs ! j)) + slice_len (hs_slices hs ! j)"
      by (auto simp: saved_at_def in_set_conv_nth)
    then have "find_by_block_num hs n = Some j" by (simp add: find_by_block_num_sized [OF window_okD, OF assms(1) assms(1)])
    moreover have "find_by_block_num hs n = Some i"
      using that assms(2,3,7) by (simp add: find_by_block_num_sized [OF window_okD, OF assms(1) assms(1)])
    ultimately show "sl_status ?s = Saved" using j(2) by simp
  qed (use that assms(2,3,7) in \<open>auto simp: saved_at_def intro!: bexI [of _ ?s]\<close>)
  have header: "window_header hs n = Some (headers ! (unat n - unat num))" if "unat num \<le> unat n" "unat n < unat num + length headers"
    unfolding window_header_ok [OF assms(1) assms(1)] using that assms(2,3,4,6)
    by (intro bexI [of _ ?s]) (auto intro!: exI [of _ "unat n - unat num"])
  have "unat (cnum (headers ! t)) = unat num + t" if "t < length headers" for t
    using assms(1-4,6) that by (auto simp: window_ok_def numbered_slice_def is_canonical_slice_status_def dest!: bspec [OF _ nth_mem])
  note fold = promote_headers_canonical [of headers "unat num" e c db n, OF this]
  show ?thesis
    using inside saved header fold by (cases "sl_status ?s = Saved") auto
qed

lemma update_canonical_chain_headers_ok:
  assumes "window_ok hs" and "snd (fs_fork_range cmd) = fe" and "num < fe \<Longrightarrow> 192 dvd unat num" and "boundary hs fe"
    and "\<And>n. num \<le> n \<Longrightarrow> n < fe \<Longrightarrow> window_header hs n \<noteq> None"
  shows "\<exists>db'. update_canonical_chain_headers e cmd hs num db = Some db' \<and> (\<forall>n. db_canonical_header db' n =
    (if num \<le> n \<and> n < fe \<and> fs_connection_block_num cmd < n \<and> saved_at hs n then map_option (env_hash e) (window_header hs n)
     else db_canonical_header db n))"
  using assms(3,5)
proof (induction "unat fe - unat num" arbitrary: num db rule: less_induct)
  case less
  show ?case
  proof (cases "num < fe")
    case False
    then have "\<not> (num \<le> n \<and> n < fe)" for n by auto
    then show ?thesis using False by (subst update_canonical_chain_headers.simps) (auto simp: assms(2))
  next
    case True
    from covered_step [OF assms(1) True less.prems(1) [OF True] less.prems(2)] obtain i
      where i: "i < length (hs_slices hs)" "sl_start_block_num (hs_slices hs ! i) = num" "find_by_start_block_num hs num = Some i"
        "is_canonical_slice_status (sl_status (hs_slices hs ! i))" "0 < slice_len (hs_slices hs ! i)"
        "unat (num + of_nat (slice_len (hs_slices hs ! i))) = unat num + slice_len (hs_slices hs ! i)"
        "num + of_nat (slice_len (hs_slices hs ! i)) < fe \<Longrightarrow> slice_len (hs_slices hs ! i) = 192" by blast
    let ?s = "hs_slices hs ! i" and ?num = "num + of_nat (slice_len (hs_slices hs ! i))" and ?c = "fs_connection_block_num cmd"
    from i(5) obtain headers where headers: "sl_headers ?s = Some headers" "slice_len ?s = length headers"
      by (auto simp: slice_len_def split: option.splits)
    define db1 where "db1 = (if sl_status ?s = Saved then fold (promote_header e ?c) headers db else db)"
    have step: "update_canonical_chain_headers e cmd hs num db = update_canonical_chain_headers e cmd hs ?num db1"
      using True i(3) headers by (subst update_canonical_chain_headers.simps) (simp add: Let_def assms(2) db1_def)
    have "unat fe - unat ?num < unat fe - unat num" using True i(5,6) by (simp add: word_less_nat_alt)
    moreover have "192 dvd unat ?num" if "?num < fe" using less.prems(1) [OF True] i(6) i(7) [OF that] by simp
    moreover have "window_header hs n \<noteq> None" if "?num \<le> n" "n < fe" for n using less.prems(2) that i(6) by (simp add: word_le_nat_alt)
    ultimately obtain db' where db': "update_canonical_chain_headers e cmd hs ?num db1 = Some db'"
        "\<And>n. db_canonical_header db' n = (if ?num \<le> n \<and> n < fe \<and> ?c < n \<and> saved_at hs n
          then map_option (env_hash e) (window_header hs n) else db_canonical_header db1 n)"
      using less.hyps by blast
    have "unat num + slice_len ?s \<le> unat fe"
      using assms(4) nth_mem [OF i(1)] True i(2) by (fastforce simp: boundary_def word_less_nat_alt)
    then have le: "?num \<le> fe" using i(6) by (simp add: word_le_nat_alt)
    have one: "db_canonical_header db1 n = (if num \<le> n \<and> n < ?num \<and> ?c < n \<and> saved_at hs n
        then map_option (env_hash e) (window_header hs n) else db_canonical_header db n)" for n
      unfolding db1_def by (rule update_one_slice [OF assms(1) i(1,2,4,6) headers])
    have up: "num \<le> ?num" using i(6) by (simp add: word_le_nat_alt)
    have "db_canonical_header db' n = (if num \<le> n \<and> n < fe \<and> ?c < n \<and> saved_at hs n
        then map_option (env_hash e) (window_header hs n) else db_canonical_header db n)" for n
    proof (cases "?num \<le> n")
      case True
      moreover have "num \<le> n" "\<not> n < ?num" using True up by (order, simp)
      ultimately show ?thesis unfolding db'(2) one by simp
    next
      case False
      moreover have "n < fe" "n < ?num" using False le by order+
      ultimately show ?thesis unfolding db'(2) one by simp
    qed
    with db'(1) step show ?thesis by (intro exI [of _ db'] conjI allI) simp_all
  qed
qed

section \<open>The command\<close>

lemma switched_boundary:
  assumes "fork_inv (fm, hs, fhs)" and "fm_fork_range fm = (fs, fe)" and "hs_slices fhs \<noteq> []"
    and "window_ok hs'" and "hs_slices hs' = map (switched_slice fhs fs fe ce) (hs_slices hs)"
  shows "boundary hs' fe"
  unfolding boundary_def
proof (intro ballI impI)
  fix s'
  assume s': "s' \<in> set (hs_slices hs')" "unat (sl_start_block_num s') < unat fe"
  from assms(1-3) have inv: "window_ok hs" "window_ok fhs" "covers fhs (fs, fe)" "boundary fhs fe" "fs < fe" "192 dvd unat fs"
    by (auto simp: fork_inv_def split: prod.splits)
  from s'(1) obtain s where s: "s \<in> set (hs_slices hs)" "s' = switched_slice fhs fs fe ce s" by (auto simp: assms(5))
  then obtain i where "i < length (hs_slices hs)" "s = hs_slices hs ! i" by (auto simp: in_set_conv_nth)
  then have dvd: "192 dvd unat (sl_start_block_num s)" using slice_start_room(2) [OF window_okD(1) [OF inv(1)]] by simp
  show "unat (sl_start_block_num s') + slice_len s' \<le> unat fe"
  proof (cases "fs \<le> sl_start_block_num s")
    case True
    have below: "sl_start_block_num s < fe" using s'(2) s(2) by (simp add: word_less_nat_alt)
    with True inv(3) have "window_header fhs (sl_start_block_num s) \<noteq> None" by (simp add: covers_def range_contains_def)
    from aligned_header_slice [OF inv(2) this dvd] obtain j
      where j: "j < length (hs_slices fhs)" "sl_start_block_num (hs_slices fhs ! j) = sl_start_block_num s" by blast
    have "slice_len s' = slice_len (hs_slices fhs ! j)"
      using promoted_slice_ok(3) [OF inv(2) j(1), of s] j(2) s(2) True below by (simp add: switched_slice_def)
    with inv(4) nth_mem [OF j(1)] j(2) s'(2) s(2) show ?thesis by (fastforce simp: boundary_def)
  next
    case False
    then have "unat (sl_start_block_num s) + 192 \<le> unat fs" using dvd inv(6) by (auto simp: word_le_nat_alt elim!: dvdE)
    moreover have "slice_len s' \<le> 192" using assms(4) s'(1) by (simp add: window_ok_def sized_def)
    ultimately show ?thesis using inv(5) s(2) by (simp add: word_less_nat_alt)
  qed
qed

lemma fork_switch_executes:
  assumes "fork_inv (fm, hs, fhs)" and "switch_justified e (fm, hs, fhs) cmd" and "unat (hs_max_block_num hs) + 192 < 2 ^ 64"
    and "fm_canonical_range fm = (cs, ce)" and "fm_fork_range fm = (fs, fe)"
  shows "\<exists>hs' fhs' db'. fork_switch_execute e cmd ((hs, fhs), db) = Some ((hs', fhs'), db') \<and>
    window_ok hs' \<and> window_ok fhs' \<and> hs_slices fhs' = [] \<and>
    (\<forall>n < fs. window_header hs' n = window_header hs n) \<and>
    (\<forall>n. fs \<le> n \<and> n < fe \<longrightarrow> window_header hs' n = window_header fhs n) \<and>
    (\<forall>n. fe \<le> n \<and> n < ce \<longrightarrow> window_header hs' n = None) \<and>
    (\<forall>n. db_canonical_header db' n =
      (if fs_connection_block_num cmd < n \<and> n < fe \<and> saved_at hs' n then map_option (env_hash e) (window_header fhs n)
       else db_canonical_header db n))"
proof -
  let ?c = "fs_connection_block_num cmd"
  from assms(2,4,5) have cmd: "fs_canonical_range cmd = (cs, ce)" "fs_fork_range cmd = (fs, fe)" "fs \<le> ?c" "?c < fe" "?c < ce"
      "window_header fhs ?c \<noteq> None"
    by (auto simp: switch_justified_def Let_def)
  from cmd(6) have ne: "hs_slices fhs \<noteq> []"
    by (auto simp: window_header_def find_by_block_num_def find_by_start_block_num_def find_slice_def)
  from assms(1,4,5) ne have inv: "window_ok hs" "covers hs (cs, ce)" "covers fhs (fs, fe)" "cs \<le> fs" "192 dvd unat fs"
    by (auto simp: fork_inv_def)
  have fs: "fs < ce" using cmd(3,5) by order
  from switch_slices [OF assms(1,4,5) ne fs assms(3) cmd(1,2)] obtain hs' fhs'
    where S: "command_switch_to_fork cmd (hs, fhs) = Some (hs', fhs')" "window_ok hs'" "window_ok fhs'" "hs_slices fhs' = []"
      "hs_slices hs' = map (switched_slice fhs fs fe ce) (hs_slices hs)" by blast
  have "window_header hs fs \<noteq> None" using inv(2,4) fs by (simp add: covers_def range_contains_def)
  then have "min_block_num hs \<le> fs" by (rule min_block_num_le [OF inv(1)])
  note W = switched_headers [OF assms(1,4,5) ne S(2,5) this]
  have "window_header hs' n \<noteq> None" if "fs \<le> n" "n < fe" for n
    using W(2) [OF that] inv(3) that by (simp add: covers_def range_contains_def)
  from update_canonical_chain_headers_ok [OF S(2) _ inv(5) switched_boundary [OF assms(1,5) ne S(2,5)] this, of cmd e db] cmd(2)
  obtain db' where db': "update_canonical_chain_headers e cmd hs' fs db = Some db'"
      "\<And>n. db_canonical_header db' n = (if fs \<le> n \<and> n < fe \<and> ?c < n \<and> saved_at hs' n then map_option (env_hash e) (window_header hs' n)
         else db_canonical_header db n)"
    by auto
  have "db_canonical_header db' n = (if ?c < n \<and> n < fe \<and> saved_at hs' n then map_option (env_hash e) (window_header fhs n)
      else db_canonical_header db n)" for n
  proof -
    have "?c < n \<Longrightarrow> fs \<le> n" using cmd(3) by order
    then show ?thesis using W(2) [of n] by (auto simp: db'(2))
  qed
  moreover have "fork_switch_execute e cmd ((hs, fhs), db) = Some ((hs', fhs'), db')"
    using S(1) db'(1) cmd(2) by (simp add: fork_switch_execute_def)
  ultimately show ?thesis using S(2-4) W by (intro exI conjI) auto
qed

end
