(* ===== verification/Header_Download.thy ===== *)
theory Header_Download
  imports
    Header_Stages
begin

text \<open>
  The linear phase of the header download
  (\<^verbatim>\<open>downloader/headers_downloader/downloader_linear.rs\<close> and \<^verbatim>\<open>downloader_stage_loop.rs\<close>): how the
  phase is set up, and the loop that runs its stages, as a step relation.  A step is one execution
  of a stage, with whatever the network and the clock give, followed by the loop's own
  bookkeeping; the stages take turns in any order.  The invariant of the window and the
  tables, \<open>window_inv\<close>, relates them to one chain of headers.
\<close>

section \<open>Setting up the phase\<close>

record linear_state =
  ln_slices :: header_slices
  ln_link :: link_stage
  ln_save :: save_stage
  ln_db :: header_db
  ln_last_request_id :: u64
  ln_receive_is_over :: bool
  ln_penalized :: "peer_id hash_set"
  ln_running :: bool

record linear_report =
  rp_loaded_count :: u64
  rp_final_block_num :: block_number
  rp_target_final_block_num :: block_number
  rp_estimated_top_block_num :: block_number

datatype linear_error = ExpectedAlignedStart block_number | ExpectedSavedParent block_number

definition linear_target_final_block_num :: "block_number \<Rightarrow> block_number" where
  "linear_target_final_block_num estimated_top_block_num =
     (let trusted_len = 90000
      in if trusted_len < estimated_top_block_num
         then align_block_num_to_slice_start (estimated_top_block_num - trusted_len) else 0)"

definition linear_final_block_num :: "block_number \<Rightarrow> u64 \<Rightarrow> block_number \<Rightarrow> block_number" where
  "linear_final_block_num start_block_num max_blocks_count estimated_top_block_num =
     min (linear_target_final_block_num estimated_top_block_num)
       (align_block_num_to_slice_start (start_block_num + max_blocks_count))"

text \<open>The outcome: an error, the report of a phase with nothing to do, or the state the loop starts in.\<close>

definition linear_start ::
    "u64 \<Rightarrow> u64 \<Rightarrow> block_number \<Rightarrow> u64 \<Rightarrow> block_number \<Rightarrow> header_db \<Rightarrow> (linear_error + linear_report + linear_state) option" where
  "linear_start header_bytes mem_limit start_block_num max_blocks_count estimated_top_block_num db =
     (if \<not> is_block_num_aligned_to_slice_start start_block_num then Some (Inl (ExpectedAlignedStart start_block_num))
      else let target_final_block_num = linear_target_final_block_num estimated_top_block_num;
               final_block_num = linear_final_block_num start_block_num max_blocks_count estimated_top_block_num
      in if final_block_num \<le> start_block_num
         then Some (Inr (Inl \<lparr> rp_loaded_count = 0, rp_final_block_num = start_block_num,
                rp_target_final_block_num = target_final_block_num, rp_estimated_top_block_num = estimated_top_block_num \<rparr>))
         else let start_block_parent_header =
                    (if 0 < start_block_num then load_canonical_header_by_num (start_block_num - 1) db else None)
              in if 0 < start_block_num \<and> start_block_parent_header = None
                 then Some (Inl (ExpectedSavedParent start_block_num))
                 else Option.bind (header_slices_new header_bytes mem_limit start_block_num final_block_num) (\<lambda>hs.
                   map_option (\<lambda>lk. Inr (Inr \<lparr> ln_slices = hs, ln_link = lk,
                       ln_save = \<lparr> sv_order = Monotonic, sv_is_canonical_chain = True, sv_remaining_count = 0 \<rparr>,
                       ln_db = db, ln_last_request_id = 0, ln_receive_is_over = False, ln_penalized = [], ln_running = True \<rparr>))
                     (link_stage_new hs start_block_parent_header Invalid)))"

definition linear_final_report :: "block_number \<Rightarrow> block_number \<Rightarrow> linear_state \<Rightarrow> linear_report" where
  "linear_final_report start_block_num estimated_top_block_num S =
     \<lparr> rp_loaded_count = min_block_num (ln_slices S) - start_block_num, rp_final_block_num = min_block_num (ln_slices S),
       rp_target_final_block_num = linear_target_final_block_num estimated_top_block_num,
       rp_estimated_top_block_num = estimated_top_block_num \<rparr>"

section \<open>The loop\<close>

definition some_stage_can_proceed :: "linear_state \<Rightarrow> bool" where
  "some_stage_can_proceed S \<longleftrightarrow> (let hs = ln_slices S in
     fetch_request_can_proceed hs \<or> fetch_receive_can_proceed (ln_receive_is_over S) hs \<or> retry_can_proceed hs \<or>
     verify_slices_can_proceed hs \<or> link_can_proceed hs \<or> penalize_can_proceed hs \<or>
     save_can_proceed (ln_save S) hs \<or> refill_can_proceed hs)"

text \<open>One execution of a stage that does not fail.\<close>

inductive stage_step :: "downloader_env \<Rightarrow> linear_state \<Rightarrow> linear_state \<Rightarrow> bool" for e :: downloader_env where
  fetch_request: "wait Empty (ln_slices S) \<Longrightarrow>
    request_pending send HEADER_SLICE_SIZE now (ln_last_request_id S) (ln_slices S) = ((hs, n), None) \<Longrightarrow>
    stage_step e S (S\<lparr>ln_slices := hs, ln_last_request_id := n\<rparr>)"
| fetch_receive: "stage_step e S (S\<lparr>ln_slices := on_headers_message headers from_peer_id (ln_slices S)\<rparr>)"
| fetch_receive_over: "stage_step e S (S\<lparr>ln_receive_is_over := True\<rparr>)"
| retry: "wait Waiting (ln_slices S) \<Longrightarrow> stage_step e S (S\<lparr>ln_slices := fst (retry_reset_pending now (ln_slices S))\<rparr>)"
| verify_slices: "wait Downloaded (ln_slices S) \<Longrightarrow> verify_slices_pending e clock cpus (ln_slices S) = Some hs \<Longrightarrow>
    stage_step e S (S\<lparr>ln_slices := hs\<rparr>)"
| verify_link: "wait_while VerifiedInternally (lk_remaining_count (ln_link S)) (ln_slices S) \<Longrightarrow>
    link_execute e (ln_link S, ln_slices S) = Some (lk, hs) \<Longrightarrow> stage_step e S (S\<lparr>ln_link := lk, ln_slices := hs\<rparr>)"
| penalize: "wait Invalid (ln_slices S) \<Longrightarrow>
    stage_step e S (S\<lparr>ln_penalized := fold hs_insert (collect_bad_peers (ln_slices S)) (ln_penalized S),
      ln_slices := penalize_reset_pending (ln_slices S)\<rparr>)"
| save: "wait_while Verified (sv_remaining_count (ln_save S)) (ln_slices S) \<Longrightarrow>
    save_execute e (ln_save S) (ln_slices S, ln_db S) = Inr (sv, hs, db) \<Longrightarrow>
    stage_step e S (S\<lparr>ln_save := sv, ln_slices := hs, ln_db := db\<rparr>)"
| refill: "wait Saved (ln_slices S) \<Longrightarrow> stage_step e S (S\<lparr>ln_slices := refill_pending (ln_slices S)\<rparr>)"

text \<open>The loop goes on while the phase is not over and a stage can proceed; then the watchers are notified.\<close>

definition loop_continue :: "linear_state \<Rightarrow> linear_state" where
  "loop_continue S =
     (let is_over = is_empty_at_final_position (ln_slices S);
          can_proceed = \<not> is_over \<and> some_stage_can_proceed S
      in if can_proceed then S\<lparr>ln_slices := notify_status_watchers (ln_slices S)\<rparr> else S\<lparr>ln_running := False\<rparr>)"

inductive linear_step :: "downloader_env \<Rightarrow> linear_state \<Rightarrow> linear_state \<Rightarrow> bool" for e :: downloader_env where
  stage: "ln_running S \<Longrightarrow> stage_step e S T \<Longrightarrow> linear_step e S (loop_continue T)"
| failure: "ln_running S \<Longrightarrow> wait Empty (ln_slices S) \<Longrightarrow>
    request_pending send HEADER_SLICE_SIZE now (ln_last_request_id S) (ln_slices S) = ((hs, n), Some err) \<Longrightarrow>
    linear_step e S (S\<lparr>ln_slices := hs, ln_last_request_id := n, ln_running := False\<rparr>)"

inductive_cases linear_stepE: "linear_step e S T"
inductive_cases stage_stepE: "stage_step e S T"

section \<open>Chains of headers\<close>

text \<open>A chain continues a header already known, or it starts at the genesis block.\<close>

definition chain_link :: "downloader_env \<Rightarrow> cached_header option \<Rightarrow> cached_header \<Rightarrow> bool" where
  "chain_link e parent h \<longleftrightarrow> (case parent of
       None \<Rightarrow> cnum h = 0 \<and> env_hash e h = env_genesis_hash e
     | Some p \<Rightarrow> verify_link (env_hash e) (env_chain_spec e) h p = Some True)"

fun linked :: "downloader_env \<Rightarrow> cached_header option \<Rightarrow> cached_header list \<Rightarrow> bool" where
  "linked e parent [] = True"
| "linked e parent (h # hs) \<longleftrightarrow> chain_link e parent h \<and> linked e (Some h) hs"

definition tip :: "cached_header option \<Rightarrow> cached_header list \<Rightarrow> cached_header option" where
  "tip parent hs = (if hs = [] then parent else Some (last hs))"

lemma tip_simps [simp]: "tip p [] = p" "tip p (h # hs) = tip (Some h) hs" "tip p (hs @ [h]) = Some h"
  by (simp_all add: tip_def)

lemma tip_append [simp]: "tip p (xs @ ys) = tip (tip p xs) ys"
  by (simp add: tip_def)

lemma linked_append [simp]: "linked e p (xs @ ys) \<longleftrightarrow> linked e p xs \<and> linked e (tip p xs) ys"
  by (induction xs arbitrary: p) auto

lemma linked_successively:
  "hs \<noteq> [] \<Longrightarrow> linked e p hs \<longleftrightarrow> chain_link e p (hd hs) \<and>
     successively (\<lambda>p h. verify_link (env_hash e) (env_chain_spec e) h p = Some True) hs"
proof (induction hs arbitrary: p)
  case (Cons h hs)
  show ?case
  proof (cases hs)
    case (Cons h' hs')
    with Cons.IH [of "Some h"] show ?thesis by (simp add: chain_link_def [of e "Some h"])
  qed simp
qed simp

definition parent_of_start :: "block_number \<Rightarrow> cached_header option \<Rightarrow> bool" where
  "parent_of_start start parent \<longleftrightarrow> (case parent of None \<Rightarrow> start = 0 | Some p \<Rightarrow> cnum p + 1 = start \<and> start \<noteq> 0)"

lemma linked_numbers:
  assumes "linked e parent chain" and "parent_of_start start parent" and "j < length chain"
  shows "cnum (chain ! j) = start + of_nat j"
proof -
  from assms(3) have "chain \<noteq> []" by auto
  with assms(1) have first: "chain_link e parent (hd chain)"
    and links: "successively (\<lambda>p h. verify_link (env_hash e) (env_chain_spec e) h p = Some True) chain"
    by (auto simp: linked_successively)
  from first assms(2) have "cnum (hd chain) = start"
    by (auto simp: chain_link_def parent_of_start_def verify_link_iff verify_link_block_nums_def split: option.splits)
  with slice_numbers [OF links assms(3)] show ?thesis by simp
qed

section \<open>What the tables hold after saving a chain\<close>

lemma save_header_tables:
  "db_canonical_header (save_header e True h db) = (db_canonical_header db)(cnum h \<mapsto> env_hash e h)"
  "db_last_header (save_header e True h db) = Some (env_hash e h)"
  "db_header (save_header e True h db) = (db_header db)((cnum h, env_hash e h) \<mapsto> ch_header h)"
  "db_total_difficulty (save_header e True h db) = (case read_parent_header_total_difficulty h db of
       None \<Rightarrow> db_total_difficulty db
     | Some td \<Rightarrow> (db_total_difficulty db)((cnum h, env_hash e h) \<mapsto> td + h_difficulty (ch_header h)))"
  by (auto simp: save_header_def update_canonical_chain_header_def Let_def header_total_difficulty_def
      read_parent_header_total_difficulty_def split: option.split)

lemma save_header_frame:
  "n \<noteq> cnum h \<Longrightarrow> db_canonical_header (save_header e True h db) n = db_canonical_header db n"
  "n \<noteq> cnum h \<Longrightarrow> db_header (save_header e True h db) (n, k) = db_header db (n, k)"
  "n \<noteq> cnum h \<Longrightarrow> db_total_difficulty (save_header e True h db) (n, k) = db_total_difficulty db (n, k)"
  by (simp_all add: save_header_tables split: option.split)

lemma save_headers_append [simp]: "save_headers e c (xs @ ys) db = save_headers e c ys (save_headers e c xs db)"
  by (simp add: save_headers_def)

lemma save_headers_simps [simp]: "save_headers e c [] db = db" "save_headers e c [h] db = save_header e c h db"
  by (simp_all add: save_headers_def)

text \<open>The headers of a chain have different numbers, unless the block numbers overflow.\<close>

lemma number_of_position:
  fixes start :: block_number
  assumes "unat start + length chain < 2 ^ 64" and "i < length chain"
  shows "unat (start + of_nat i) = unat start + i"
  using assms by (simp add: unat_word_ariths unat_of_nat)

lemma saved_tables:
  assumes "linked e parent chain" and "parent_of_start start parent" and "unat start + length chain < 2 ^ 64"
  shows "\<And>j. j < length chain \<Longrightarrow> db_canonical_header (save_headers e True chain db) (start + of_nat j) = Some (env_hash e (chain ! j))"
    and "\<And>j. j < length chain \<Longrightarrow>
      db_header (save_headers e True chain db) (start + of_nat j, env_hash e (chain ! j)) = Some (ch_header (chain ! j))"
    and "\<And>n. n < start \<or> unat start + length chain \<le> unat n \<Longrightarrow>
      db_canonical_header (save_headers e True chain db) n = db_canonical_header db n \<and>
      (\<forall>h. db_header (save_headers e True chain db) (n, h) = db_header db (n, h) \<and>
         db_total_difficulty (save_headers e True chain db) (n, h) = db_total_difficulty db (n, h))"
    and "chain \<noteq> [] \<Longrightarrow> db_last_header (save_headers e True chain db) = Some (env_hash e (last chain))"
proof -
  have "(\<forall>j < length chain. db_canonical_header (save_headers e True chain db) (start + of_nat j) = Some (env_hash e (chain ! j)) \<and>
      db_header (save_headers e True chain db) (start + of_nat j, env_hash e (chain ! j)) = Some (ch_header (chain ! j))) \<and>
    (\<forall>n. n < start \<or> unat start + length chain \<le> unat n \<longrightarrow>
      db_canonical_header (save_headers e True chain db) n = db_canonical_header db n \<and>
      (\<forall>h. db_header (save_headers e True chain db) (n, h) = db_header db (n, h) \<and>
         db_total_difficulty (save_headers e True chain db) (n, h) = db_total_difficulty db (n, h))) \<and>
    (chain \<noteq> [] \<longrightarrow> db_last_header (save_headers e True chain db) = Some (env_hash e (last chain)))"
    using assms
  proof (induction chain rule: rev_induct)
    case (snoc h chain)
    have h: "cnum h = start + of_nat (length chain)"
      using linked_numbers [OF snoc.prems(1,2), of "length chain"] by simp
    have pos: "unat (start + of_nat i) = unat start + i" if "i \<le> length chain" for i
      using number_of_position [of start "chain @ [h]" i] snoc.prems(3) that by simp
    have other: "start + of_nat i \<noteq> (start + of_nat (length chain) :: u64)" if "i < length chain" for i
      using pos [of i] pos [of "length chain"] that by (auto simp: word_unat_eq_iff)
    have out: "n \<noteq> cnum h" if "n < start \<or> unat start + length (chain @ [h]) \<le> unat n" for n
      using pos [of "length chain"] that h by (auto simp: word_less_nat_alt)
    from snoc.IH snoc.prems have IH: "(\<forall>j < length chain. db_canonical_header (save_headers e True chain db) (start + of_nat j) = Some (env_hash e (chain ! j)) \<and>
        db_header (save_headers e True chain db) (start + of_nat j, env_hash e (chain ! j)) = Some (ch_header (chain ! j)))"
      "\<forall>n. n < start \<or> unat start + length chain \<le> unat n \<longrightarrow>
        db_canonical_header (save_headers e True chain db) n = db_canonical_header db n \<and>
        (\<forall>h. db_header (save_headers e True chain db) (n, h) = db_header db (n, h) \<and>
         db_total_difficulty (save_headers e True chain db) (n, h) = db_total_difficulty db (n, h))"
      by auto
    have num: "start + of_nat i \<noteq> cnum h" if "i < length chain" for i using other [OF that] h by simp
    have "\<forall>j < length (chain @ [h]). db_canonical_header (save_headers e True (chain @ [h]) db) (start + of_nat j) =
        Some (env_hash e ((chain @ [h]) ! j)) \<and>
        db_header (save_headers e True (chain @ [h]) db) (start + of_nat j, env_hash e ((chain @ [h]) ! j)) =
        Some (ch_header ((chain @ [h]) ! j))"
    proof (intro allI impI)
      fix j
      assume "j < length (chain @ [h])"
      then consider "j < length chain" | "j = length chain" by fastforce
      then show "db_canonical_header (save_headers e True (chain @ [h]) db) (start + of_nat j) =
          Some (env_hash e ((chain @ [h]) ! j)) \<and>
          db_header (save_headers e True (chain @ [h]) db) (start + of_nat j, env_hash e ((chain @ [h]) ! j)) =
          Some (ch_header ((chain @ [h]) ! j))"
        by cases (use IH(1) num h in \<open>simp_all add: save_header_frame nth_append, simp_all add: save_header_tables\<close>)
    qed
    moreover have "db_canonical_header (save_headers e True (chain @ [h]) db) n = db_canonical_header db n \<and>
        (\<forall>k. db_header (save_headers e True (chain @ [h]) db) (n, k) = db_header db (n, k) \<and>
         db_total_difficulty (save_headers e True (chain @ [h]) db) (n, k) = db_total_difficulty db (n, k))"
      if "n < start \<or> unat start + length (chain @ [h]) \<le> unat n" for n
    proof -
      from that have "n < start \<or> unat start + length chain \<le> unat n" by auto
      with IH(2) [rule_format, of n] out [OF that] show ?thesis by (simp add: save_header_frame)
    qed
    ultimately show ?case by (simp add: save_header_tables)
  qed simp
  then show "\<And>j. j < length chain \<Longrightarrow> db_canonical_header (save_headers e True chain db) (start + of_nat j) = Some (env_hash e (chain ! j))"
    and "\<And>j. j < length chain \<Longrightarrow>
      db_header (save_headers e True chain db) (start + of_nat j, env_hash e (chain ! j)) = Some (ch_header (chain ! j))"
    and "\<And>n. n < start \<or> unat start + length chain \<le> unat n \<Longrightarrow>
      db_canonical_header (save_headers e True chain db) n = db_canonical_header db n \<and>
      (\<forall>h. db_header (save_headers e True chain db) (n, h) = db_header db (n, h) \<and>
         db_total_difficulty (save_headers e True chain db) (n, h) = db_total_difficulty db (n, h))"
    and "chain \<noteq> [] \<Longrightarrow> db_last_header (save_headers e True chain db) = Some (env_hash e (last chain))"
    by auto
qed

text \<open>The total difficulty below the start of a chain.\<close>

definition start_difficulty :: "downloader_env \<Rightarrow> block_number \<Rightarrow> cached_header option \<Rightarrow> header_db \<Rightarrow> u256 option" where
  "start_difficulty e start parent db = (case parent of
       None \<Rightarrow> Some 0
     | Some p \<Rightarrow> db_total_difficulty db (start - 1, env_hash e p))"

lemma chain_link_number:
  "chain_link e parent h \<Longrightarrow> parent_of_start start parent \<Longrightarrow> cnum h = start"
  by (auto simp: chain_link_def parent_of_start_def verify_link_iff verify_link_block_nums_def split: option.splits)

lemma saved_difficulties:
  assumes "linked e parent chain" and "parent_of_start start parent" and "unat start + length chain < 2 ^ 64"
    and "start_difficulty e start parent db = Some td" and "j < length chain"
  shows "db_total_difficulty (save_headers e True chain db) (start + of_nat j, env_hash e (chain ! j)) =
    Some (td + sum_list (map (\<lambda>h. h_difficulty (ch_header h)) (take (Suc j) chain)))"
  using assms
proof (induction chain arbitrary: j rule: rev_induct)
  case (snoc h chain)
  have h: "cnum h = start + of_nat (length chain)"
    using linked_numbers [OF snoc.prems(1,2), of "length chain"] by simp
  have pos: "unat (start + of_nat i) = unat start + i" if "i \<le> length chain" for i
    using number_of_position [of start "chain @ [h]" i] snoc.prems(3) that by simp
  have link: "chain_link e (tip parent chain) h" using snoc.prems(1) by simp
  have IH: "db_total_difficulty (save_headers e True chain db) (start + of_nat i, env_hash e (chain ! i)) =
      Some (td + sum_list (map (\<lambda>h. h_difficulty (ch_header h)) (take (Suc i) chain)))" if "i < length chain" for i
    using snoc.IH [OF _ snoc.prems(2) _ snoc.prems(4) that] snoc.prems(1,3) by simp
  have parent: "read_parent_header_total_difficulty h (save_headers e True chain db) =
      Some (td + sum_list (map (\<lambda>h. h_difficulty (ch_header h)) chain))"
  proof (cases "chain = []")
    case True
    then show ?thesis using link snoc.prems(2,4) h
      by (auto simp: read_parent_header_total_difficulty_def start_difficulty_def chain_link_def parent_of_start_def
          verify_link_iff verify_link_by_parent_hash_def split: option.splits)
  next
    case False
    define L where "L = length chain - 1"
    have len: "length chain = Suc L" using False by (simp add: L_def)
    have "cnum h \<noteq> 0" using pos [of "length chain"] h len by (auto simp: word_unat_eq_iff)
    moreover have "h_parent_hash (ch_header h) = env_hash e (chain ! L)"
      using link False len by (simp add: chain_link_def tip_def verify_link_iff verify_link_by_parent_hash_def last_conv_nth)
    moreover have "cnum h - 1 = start + of_nat L" using h len by simp
    ultimately show ?thesis using IH [of L] len by (simp add: read_parent_header_total_difficulty_def)
  qed
  from snoc.prems(5) consider "j < length chain" | "j = length chain" by fastforce
  then show ?case
  proof cases
    case 1
    have "start + of_nat j \<noteq> cnum h" using pos [of j] pos [of "length chain"] 1 h by (auto simp: word_unat_eq_iff)
    with IH [OF 1] 1 show ?thesis by (simp add: save_header_frame nth_append)
  next
    case 2
    with parent h show ?thesis by (simp add: save_header_tables add.assoc)
  qed
qed simp

section \<open>The invariant of the window\<close>

text \<open>
  The first \<open>k\<close> slices are saved, the next ones up to \<open>m\<close> are verified, no other slice is; the
  headers of these slices are the end of \<open>chain\<close>, of which \<open>off\<close> headers have left the window.
\<close>

definition internally_ok :: "downloader_env \<Rightarrow> header_slice \<Rightarrow> bool" where
  "internally_ok e s \<longleftrightarrow> (\<exists>hs. sl_headers s = Some hs \<and>
     successively (\<lambda>p h. verify_link (env_hash e) (env_chain_spec e) h p = Some True) hs \<and>
     (hs \<noteq> [] \<longrightarrow> cnum (hd hs) = sl_start_block_num s) \<and> list_all (cache_ok (env_rlp e) (env_keccak e)) hs)"

definition window_inv :: "downloader_env \<Rightarrow> cached_header list \<Rightarrow> nat \<Rightarrow> nat \<Rightarrow> nat \<Rightarrow> header_slices \<Rightarrow> bool" where
  "window_inv e chain off k m hs \<longleftrightarrow> slices_ok hs \<and> k \<le> m \<and> m \<le> length (hs_slices hs) \<and>
     (\<forall>i < length (hs_slices hs). (sl_status (hs_slices hs ! i) = Saved \<longleftrightarrow> i < k) \<and>
        (sl_status (hs_slices hs ! i) = Verified \<longleftrightarrow> k \<le> i \<and> i < m) \<and>
        (sl_status (hs_slices hs ! i) = VerifiedInternally \<longrightarrow> internally_ok e (hs_slices hs ! i)) \<and>
        received_ok e (hs_slices hs ! i) \<and> sl_status (hs_slices hs ! i) \<noteq> Fork) \<and>
     length chain = off + 192 * m \<and>
     (\<forall>i < m. sl_headers (hs_slices hs ! i) = Some (take 192 (drop (off + 192 * i) chain)))"

lemma window_invD:
  assumes "window_inv e chain off k m hs"
  shows "slices_ok hs" and "k \<le> m" and "m \<le> length (hs_slices hs)" and "length chain = off + 192 * m"
    and "\<And>i. i < length (hs_slices hs) \<Longrightarrow> sl_status (hs_slices hs ! i) = Saved \<longleftrightarrow> i < k"
    and "\<And>i. i < length (hs_slices hs) \<Longrightarrow> sl_status (hs_slices hs ! i) = Verified \<longleftrightarrow> k \<le> i \<and> i < m"
    and "\<And>i. i < length (hs_slices hs) \<Longrightarrow> sl_status (hs_slices hs ! i) = VerifiedInternally \<Longrightarrow> internally_ok e (hs_slices hs ! i)"
    and "\<And>i. i < length (hs_slices hs) \<Longrightarrow> received_ok e (hs_slices hs ! i)"
    and "\<And>i. i < m \<Longrightarrow> sl_headers (hs_slices hs ! i) = Some (take 192 (drop (off + 192 * i) chain))"
    and "\<And>i. i < length (hs_slices hs) \<Longrightarrow> sl_status (hs_slices hs ! i) \<noteq> Fork"
  using assms unfolding window_inv_def by blast+

text \<open>The window does not move.\<close>

definition same_frame :: "header_slices \<Rightarrow> header_slices \<Rightarrow> bool" where
  "same_frame hs hs' \<longleftrightarrow> min_block_num hs' = min_block_num hs \<and> hs_max_block_num hs' = hs_max_block_num hs \<and>
     hs_final_block_num hs' = hs_final_block_num hs \<and> hs_max_slices hs' = hs_max_slices hs \<and>
     length (hs_slices hs') = length (hs_slices hs)"

lemma same_frame_refl [simp]: "same_frame hs hs"
  by (simp add: same_frame_def)

lemma same_frame_trans: "same_frame hs1 hs2 \<Longrightarrow> same_frame hs2 hs3 \<Longrightarrow> same_frame hs1 hs3"
  by (simp add: same_frame_def)

lemma same_frame_update: "keeps_identity f \<Longrightarrow> keeps_identity g \<Longrightarrow> same_frame hs (update_slice_at f st g i hs)"
  by (cases "hs_slices hs"; cases i) (auto simp: same_frame_def min_block_num_def keeps_identity_def)

lemma same_frame_quiet: "quiet e hs hs' \<Longrightarrow> slices_ok hs \<Longrightarrow> same_frame hs hs'"
  by (auto simp: quiet_def same_frame_def slices_ok_def positions_ok_def word_unat_eq_iff list_all2_lengthD)

lemma window_quiet:
  assumes "window_inv e chain off k m hs" and "quiet e hs hs'"
  shows "window_inv e chain off k m hs'"
proof -
  note D = window_invD [OF assms(1)]
  have len: "length (hs_slices hs') = length (hs_slices hs)" and ok: "slices_ok hs'"
    using assms(2) by (auto simp: quiet_def list_all2_lengthD)
  have nth: "hs_slices hs' ! i = hs_slices hs ! i \<or> \<not> settled (sl_status (hs_slices hs ! i)) \<and>
      \<not> settled (sl_status (hs_slices hs' ! i)) \<and> sl_status (hs_slices hs' ! i) \<noteq> Fork \<and> received_ok e (hs_slices hs' ! i)" if "i < length (hs_slices hs)" for i
    using assms(2) that by (auto simp: quiet_def list_all2_conv_all_nth)
  have same: "hs_slices hs' ! i = hs_slices hs ! i" if "i < m" for i
  proof -
    have i: "i < length (hs_slices hs)" using that D(3) by simp
    have "settled (sl_status (hs_slices hs ! i))" using D(5) [OF i] D(6) [OF i] that by (auto simp: settled_def)
    with nth [OF i] show ?thesis by simp
  qed
  have "(sl_status (hs_slices hs' ! i) = Saved \<longleftrightarrow> i < k) \<and> (sl_status (hs_slices hs' ! i) = Verified \<longleftrightarrow> k \<le> i \<and> i < m) \<and>
      (sl_status (hs_slices hs' ! i) = VerifiedInternally \<longrightarrow> internally_ok e (hs_slices hs' ! i)) \<and>
      received_ok e (hs_slices hs' ! i) \<and> sl_status (hs_slices hs' ! i) \<noteq> Fork" if "i < length (hs_slices hs)" for i
    using nth [OF that] D(5-8,10) [OF that] by (elim disjE) (auto simp: settled_def)
  with D(2-4,9) len ok same show ?thesis by (simp add: window_inv_def)
qed

lemma prepared_cache_ok:
  assumes "received_ok e s" and "sl_status s = Downloaded" and "sl_headers (prepare_slice_hashes e s) = Some hs"
  shows "list_all (cache_ok (env_rlp e) (env_keccak e)) hs"
  using assms by (auto simp: received_ok_def prepare_slice_hashes_def list_all_iff cache_ok_operations(4))

lemma verified_slice_internally_ok:
  assumes "received_ok e s" and "sl_status s = Downloaded" and "verify_slice_stage e clock (prepare_slice_hashes e s) = Some True"
  shows "internally_ok e ((prepare_slice_hashes e s)\<lparr>sl_status := VerifiedInternally\<rparr>)"
  using assms prepared_cache_ok [OF assms(1,2)]
  by (auto simp: verify_slice_stage_def internally_ok_def verify_slice_iff split: option.splits)

lemma window_verify:
  assumes "window_inv e chain off k m hs" and "verify_slices_pending e clock cpus hs = Some hs'"
  shows "window_inv e chain off k m hs'" and "same_frame hs hs'"
proof -
  note D = window_invD [OF assms(1)]
  from verify_pending_batches_eq [OF D(1), of VerifiedInternally "verify_slice_stage e clock" e cpus] assms(2)
  have hs': "slices_ok hs'" "hs_slices hs' = map (verified_slice e (verify_slice_stage e clock) VerifiedInternally) (hs_slices hs)"
      "hs_max_block_num hs' = hs_max_block_num hs" "hs_final_block_num hs' = hs_final_block_num hs"
      "hs_max_slices hs' = hs_max_slices hs"
    by (auto simp: verify_slices_pending_def)
  then show "same_frame hs hs'"
    using D(1) by (auto simp: same_frame_def slices_ok_def positions_ok_def word_unat_eq_iff)
  have nth: "hs_slices hs' ! i = verified_slice e (verify_slice_stage e clock) VerifiedInternally (hs_slices hs ! i)"
    if "i < length (hs_slices hs)" for i using that hs'(2) by simp
  have same: "hs_slices hs' ! i = hs_slices hs ! i" if "i < m" for i
  proof -
    have i: "i < length (hs_slices hs)" using that D(3) by simp
    have "sl_status (hs_slices hs ! i) \<noteq> Downloaded" using D(5) [OF i] D(6) [OF i] that by (auto simp: not_less)
    with nth [OF i] show ?thesis by (simp add: verified_slice_def)
  qed
  have "(sl_status (hs_slices hs' ! i) = Saved \<longleftrightarrow> i < k) \<and> (sl_status (hs_slices hs' ! i) = Verified \<longleftrightarrow> k \<le> i \<and> i < m) \<and>
      (sl_status (hs_slices hs' ! i) = VerifiedInternally \<longrightarrow> internally_ok e (hs_slices hs' ! i)) \<and>
      received_ok e (hs_slices hs' ! i) \<and> sl_status (hs_slices hs' ! i) \<noteq> Fork" if i: "i < length (hs_slices hs)" for i
  proof (cases "sl_status (hs_slices hs ! i) = Downloaded")
    case True
    then have "\<not> i < k" "\<not> (k \<le> i \<and> i < m)" using D(5,6) [OF i] by auto
    with True verified_slice_internally_ok [OF D(8) [OF i] True, of clock] show ?thesis
      by (auto simp: nth [OF i] verified_slice_def Let_def received_ok_def)
  next
    case False
    with D(5-8,10) [OF i] show ?thesis by (simp add: nth [OF i] verified_slice_def)
  qed
  with D(2-4,9) hs' same show "window_inv e chain off k m hs'" by (simp add: window_inv_def)
qed

text \<open>The slice behind the verified ones, internally verified, becomes verified or invalid.\<close>

lemma scan_slices:
  "try_fold_list (\<lambda>_ i. if pass i then Continue None else Break (r i)) None is =
     (case List.find (\<lambda>i. \<not> pass i) is of None \<Rightarrow> Continue None | Some i \<Rightarrow> Break (r i))"
  by (induction "is") auto

lemma link_find_next_pending_eq:
  "link_find_next_pending hs = (case find_slice (\<lambda>s. sl_status s \<noteq> Verified \<and> sl_status s \<noteq> Saved) hs of
     None \<Rightarrow> None | Some i \<Rightarrow> if sl_status (hs_slices hs ! i) = VerifiedInternally then Some i else None)"
proof -
  have "(\<lambda>(_ :: nat option) i. case sl_status (hs_slices hs ! i) of
          Verified \<Rightarrow> Continue None | Saved \<Rightarrow> Continue None
        | VerifiedInternally \<Rightarrow> Break (Some i) | _ \<Rightarrow> Break None) =
      (\<lambda>_ i. if sl_status (hs_slices hs ! i) = Verified \<or> sl_status (hs_slices hs ! i) = Saved then Continue None
        else Break (if sl_status (hs_slices hs ! i) = VerifiedInternally then Some i else None) :: (nat option, nat option) control_flow)"
    by (auto simp: fun_eq_iff split: header_slice_status.split)
  then show ?thesis
    by (simp add: link_find_next_pending_def try_fold_def scan_slices find_slice_def split: option.split)
qed

lemma save_find_next_pending_eq:
  "save_find_next_pending hs = (case find_slice (\<lambda>s. sl_status s \<noteq> Saved) hs of
     None \<Rightarrow> None | Some i \<Rightarrow> if sl_status (hs_slices hs ! i) = Verified then Some i else None)"
proof -
  have "(\<lambda>(_ :: nat option) i. case sl_status (hs_slices hs ! i) of
          Saved \<Rightarrow> Continue None | Verified \<Rightarrow> Break (Some i) | _ \<Rightarrow> Break None) =
      (\<lambda>_ i. if sl_status (hs_slices hs ! i) = Saved then Continue None
        else Break (if sl_status (hs_slices hs ! i) = Verified then Some i else None) :: (nat option, nat option) control_flow)"
    by (auto simp: fun_eq_iff split: header_slice_status.split)
  then show ?thesis
    by (simp add: save_find_next_pending_def try_fold_def scan_slices find_slice_def split: option.split)
qed

lemma link_next_position:
  assumes "window_inv e chain off k m hs" and "link_find_next_pending hs = Some i"
  shows "i = m" and "i < length (hs_slices hs)" and "sl_status (hs_slices hs ! i) = VerifiedInternally"
proof -
  note D = window_invD [OF assms(1)]
  from assms(2) have i: "i < length (hs_slices hs)" "sl_status (hs_slices hs ! i) = VerifiedInternally"
      and before: "\<forall>j < i. sl_status (hs_slices hs ! j) = Verified \<or> sl_status (hs_slices hs ! j) = Saved"
    by (auto simp: link_find_next_pending_eq find_slice_Some split: option.splits if_splits)
  have "\<not> i < m" using D(5,6) [OF i(1)] i(2) by auto
  moreover have "\<not> m < i" using before i(1) D(5,6) [of m] D(2) by auto
  ultimately show "i = m" by simp
  show "i < length (hs_slices hs)" "sl_status (hs_slices hs ! i) = VerifiedInternally" by (fact i)+
qed

lemma save_next_position:
  assumes "window_inv e chain off k m hs" and "save_find_next_pending hs = Some i"
  shows "i = k" and "k < m"
proof -
  note D = window_invD [OF assms(1)]
  from assms(2) have i: "i < length (hs_slices hs)" "sl_status (hs_slices hs ! i) = Verified"
      and before: "\<forall>j < i. sl_status (hs_slices hs ! j) = Saved"
    by (auto simp: save_find_next_pending_eq find_slice_Some split: option.splits if_splits)
  have ki: "k \<le> i" "i < m" using D(6) [OF i(1)] i(2) by auto
  have "\<not> k < i" using before i(1) D(5) [of k] by auto
  with ki show "i = k" "k < m" by auto
qed

lemma window_link:
  assumes "window_inv e chain off k m hs" and "m < length (hs_slices hs)" and "sl_status (hs_slices hs ! m) = VerifiedInternally"
    and "sl_headers (hs_slices hs ! m) = Some new" and "length new = 192"
  shows "window_inv e (chain @ new) off k (Suc m) (update_slice_at (\<lambda>s. s) Verified (\<lambda>s. s) m hs)"
proof -
  note D = window_invD [OF assms(1)]
  let ?hs = "update_slice_at (\<lambda>s. s) Verified (\<lambda>s. s) m hs"
  have ok: "slices_ok ?hs" by (rule slices_ok_update_slice_at) (use D(1) assms(2) in \<open>auto simp: keeps_identity_id\<close>)
  have "(sl_status (hs_slices ?hs ! i) = Saved \<longleftrightarrow> i < k) \<and> (sl_status (hs_slices ?hs ! i) = Verified \<longleftrightarrow> k \<le> i \<and> i < Suc m) \<and>
      (sl_status (hs_slices ?hs ! i) = VerifiedInternally \<longrightarrow> internally_ok e (hs_slices ?hs ! i)) \<and>
      received_ok e (hs_slices ?hs ! i) \<and> sl_status (hs_slices ?hs ! i) \<noteq> Fork" if i: "i < length (hs_slices hs)" for i
    using D(2) D(5-8,10) [OF i] i by (cases "i = m") (auto simp: nth_list_update received_ok_def)
  moreover have "sl_headers (hs_slices ?hs ! i) = Some (take 192 (drop (off + 192 * i) (chain @ new)))" if "i < Suc m" for i
  proof (cases "i = m")
    case True
    then show ?thesis using D(4) assms(2,4,5) by (simp add: nth_list_update)
  next
    case False
    then have i: "i < m" using that by simp
    then have "off + 192 * i + 192 \<le> length chain" using D(4) by simp
    then have "take 192 (drop (off + 192 * i) (chain @ new)) = take 192 (drop (off + 192 * i) chain)" by simp
    with D(9) [OF i] i show ?thesis by (simp add: nth_list_update)
  qed
  ultimately show ?thesis using D(2-4) assms(2,5) ok by (simp add: window_inv_def)
qed

lemma window_link_failed:
  assumes "window_inv e chain off k m hs" and "m < length (hs_slices hs)"
  shows "window_inv e chain off k m (update_slice_at (\<lambda>s. s) Invalid (\<lambda>s. s) m hs)"
proof -
  note D = window_invD [OF assms(1)]
  have ok: "slices_ok (update_slice_at (\<lambda>s. s) Invalid (\<lambda>s. s) m hs)"
    by (rule slices_ok_update_slice_at) (use D(1) assms(2) in \<open>auto simp: keeps_identity_id\<close>)
  have "(sl_status ((hs_slices hs)[m := (hs_slices hs ! m)\<lparr>sl_status := Invalid\<rparr>] ! i) = Saved \<longleftrightarrow> i < k) \<and>
      (sl_status ((hs_slices hs)[m := (hs_slices hs ! m)\<lparr>sl_status := Invalid\<rparr>] ! i) = Verified \<longleftrightarrow> k \<le> i \<and> i < m) \<and>
      (sl_status ((hs_slices hs)[m := (hs_slices hs ! m)\<lparr>sl_status := Invalid\<rparr>] ! i) = VerifiedInternally \<longrightarrow>
        internally_ok e ((hs_slices hs)[m := (hs_slices hs ! m)\<lparr>sl_status := Invalid\<rparr>] ! i)) \<and>
      received_ok e ((hs_slices hs)[m := (hs_slices hs ! m)\<lparr>sl_status := Invalid\<rparr>] ! i) \<and>
      sl_status ((hs_slices hs)[m := (hs_slices hs ! m)\<lparr>sl_status := Invalid\<rparr>] ! i) \<noteq> Fork" if i: "i < length (hs_slices hs)" for i
    using D(2) D(5-8,10) [OF i] i by (cases "i = m") (auto simp: nth_list_update received_ok_def)
  with D(2-4,9) ok show ?thesis by (simp add: window_inv_def nth_list_update)
qed

lemma window_save:
  assumes "window_inv e chain off k m hs" and "k < m"
  shows "window_inv e chain off (Suc k) m
    (update_slice_at (\<lambda>s. s\<lparr>sl_headers := Some (take 192 (drop (off + 192 * k) chain))\<rparr>) Saved (\<lambda>s. s) k hs)"
proof -
  note D = window_invD [OF assms(1)]
  let ?hs = "update_slice_at (\<lambda>s. s\<lparr>sl_headers := Some (take 192 (drop (off + 192 * k) chain))\<rparr>) Saved (\<lambda>s. s) k hs"
  have k: "k < length (hs_slices hs)" using assms(2) D(3) by simp
  have ok: "slices_ok ?hs" by (rule slices_ok_update_slice_at) (use D(1) k in \<open>auto simp: keeps_identity_def\<close>)
  have "(sl_status (hs_slices ?hs ! i) = Saved \<longleftrightarrow> i < Suc k) \<and> (sl_status (hs_slices ?hs ! i) = Verified \<longleftrightarrow> Suc k \<le> i \<and> i < m) \<and>
      (sl_status (hs_slices ?hs ! i) = VerifiedInternally \<longrightarrow> internally_ok e (hs_slices ?hs ! i)) \<and>
      received_ok e (hs_slices ?hs ! i) \<and> sl_status (hs_slices ?hs ! i) \<noteq> Fork" if i: "i < length (hs_slices hs)" for i
    using assms(2) D(5-8,10) [OF i] i by (cases "i = k") (auto simp: nth_list_update received_ok_def)
  moreover have "sl_headers (hs_slices ?hs ! i) = Some (take 192 (drop (off + 192 * i) chain))" if "i < m" for i
    using D(9) [OF that] k by (cases "i = k") (auto simp: nth_list_update)
  ultimately show ?thesis using D(3,4) assms(2) ok by (simp add: window_inv_def)
qed

lemma window_refill:
  assumes "window_inv e chain off k m hs"
  shows "window_inv e chain (off + 192 * k) 0 (m - k) (refill_pending hs)"
    and "unat (min_block_num (refill_pending hs)) = unat (min_block_num hs) + k * 192"
    and "hs_max_block_num hs \<le> hs_final_block_num hs \<Longrightarrow> hs_max_block_num (refill_pending hs) \<le> hs_final_block_num hs"
    and "hs_final_block_num (refill_pending hs) = hs_final_block_num hs"
proof -
  note D = window_invD [OF assms]
  have kl: "k \<le> length (hs_slices hs)" using D(2,3) by simp
  have pre: "\<forall>i < k. sl_status (hs_slices hs ! i) = Saved"
    "\<forall>i. k \<le> i \<and> i < length (hs_slices hs) \<longrightarrow> sl_status (hs_slices hs ! i) \<noteq> Saved"
    using D(5) kl by auto
  note R = slices_ok_remove [OF D(1) pre kl]
  note F = refill_ok [OF R(1)]
  show "unat (min_block_num (refill_pending hs)) = unat (min_block_num hs) + k * 192"
    using R(2) F(2) by (simp add: refill_pending_def)
  show "hs_max_block_num (refill_pending hs) \<le> hs_final_block_num hs" if "hs_max_block_num hs \<le> hs_final_block_num hs"
    using F(8) that by (simp add: refill_pending_def)
  show "hs_final_block_num (refill_pending hs) = hs_final_block_num hs" using F(4) by (simp add: refill_pending_def)
  from F(5) R(3) obtain new where ss: "hs_slices (refill_pending hs) = drop k (hs_slices hs) @ new"
      and new: "\<forall>s \<in> set new. \<exists>n. s = header_slice_default\<lparr>sl_start_block_num := n\<rparr>"
    by (auto simp: refill_pending_def)
  have new_status: "sl_status s = Empty" if "s \<in> set new" for s
    using new that by (auto simp: header_slice_default_def header_slice_status_default_def)
  let ?ss = "hs_slices (refill_pending hs)"
  have old: "?ss ! i = hs_slices hs ! (k + i)" if "i < length (hs_slices hs) - k" for i
    using that kl by (simp add: ss nth_append)
  have "(sl_status (?ss ! i) = Saved \<longleftrightarrow> i < 0) \<and> (sl_status (?ss ! i) = Verified \<longleftrightarrow> 0 \<le> i \<and> i < m - k) \<and>
      (sl_status (?ss ! i) = VerifiedInternally \<longrightarrow> internally_ok e (?ss ! i)) \<and>
      received_ok e (?ss ! i) \<and> sl_status (?ss ! i) \<noteq> Fork" if i: "i < length ?ss" for i
  proof (cases "i < length (hs_slices hs) - k")
    case True
    then have "k + i < length (hs_slices hs)" by simp
    from D(5-8,10) [OF this] show ?thesis by (auto simp: old [OF True])
  next
    case False
    then have "?ss ! i \<in> set new" using i by (auto simp: ss nth_append)
    with new_status [OF this] False D(3) show ?thesis by (auto simp: received_ok_def)
  qed
  moreover have "sl_headers (?ss ! i) = Some (take 192 (drop (off + 192 * k + 192 * i) chain))" if "i < m - k" for i
    using D(9) [of "k + i"] old [of i] that D(3) by (simp add: algebra_simps)
  ultimately show "window_inv e chain (off + 192 * k) 0 (m - k) (refill_pending hs)"
    using D(2-4) F(1) unfolding window_inv_def refill_pending_def [symmetric] by (simp add: ss diff_mult_distrib2)
qed

section \<open>Linking and saving slices\<close>

text \<open>Linking one slice after the other.\<close>

lemma link_one:
  assumes "window_inv e chain off k m hs" and "unat (min_block_num hs) = unat start + off" and "linked e parent chain"
    and "list_all (cache_ok (env_rlp e) (env_keccak e)) chain" and "parent_of_start start parent"
    and "lk_last_verified_header lk = tip parent chain" and "lk_invalid_status lk = Invalid"
    and "link_find_next_pending hs = Some i" and "verify_pending_slice e i (lk, hs) = Some ((lk', hs'), ok)"
  shows "\<exists>chain' m'. window_inv e chain' off k m' hs' \<and> linked e parent chain' \<and>
    list_all (cache_ok (env_rlp e) (env_keccak e)) chain' \<and> lk_last_verified_header lk' = tip parent chain' \<and>
    lk_invalid_status lk' = Invalid \<and> (\<exists>new. chain' = chain @ new) \<and> same_frame hs hs'"
proof -
  note D = window_invD [OF assms(1)] and pos = link_next_position [OF assms(1,8)]
  have m: "m < length (hs_slices hs)" and status: "sl_status (hs_slices hs ! m) = VerifiedInternally" using pos by auto
  note frame = same_frame_update [OF keeps_identity_id keeps_identity_id, of hs _ m]
  from assms(9) pos(1) have link: "verify_slice_link e (hs_slices hs ! m) (tip parent chain) = Some ok"
    by (auto simp: verify_pending_slice_def Let_def assms(6) split: if_splits)
  show ?thesis
  proof (cases ok)
    case False
    with assms(7,9) pos(1) have "lk' = lk" "hs' = update_slice_at (\<lambda>s. s) Invalid (\<lambda>s. s) m hs"
      by (auto simp: verify_pending_slice_def Let_def split: if_splits)
    with window_link_failed [OF assms(1) m] assms(3,4,6,7) frame show ?thesis by auto
  next
    case True
    from D(7) [OF m status] obtain new where new: "sl_headers (hs_slices hs ! m) = Some new"
        "successively (\<lambda>p h. verify_link (env_hash e) (env_chain_spec e) h p = Some True) new"
        "new \<noteq> [] \<longrightarrow> cnum (hd new) = sl_start_block_num (hs_slices hs ! m)" "list_all (cache_ok (env_rlp e) (env_keccak e)) new"
      by (auto simp: internally_ok_def)
    from link True new(1) have len: "length new = 192" "new \<noteq> []"
      by (auto simp: verify_slice_link_def HEADER_SLICE_SIZE_def split: if_splits)
    have num: "unat (cnum (hd new)) = unat start + length chain"
      using new(3) len(2) D(1,4) assms(2) m by (simp add: slices_ok_def positions_ok_def)
    have "chain_link e (tip parent chain) (hd new)"
    proof (cases "cnum (hd new) = 0")
      case True
      with num have "start = 0" "chain = []" by (auto simp: unat_eq_0)
      with True link \<open>ok\<close> new(1) len assms(5) show ?thesis
        by (auto simp: verify_slice_link_def chain_link_def parent_of_start_def HEADER_SLICE_SIZE_def split: option.splits)
    next
      case False
      with link True new(1) len show ?thesis
        by (auto simp: verify_slice_link_def chain_link_def HEADER_SLICE_SIZE_def split: option.splits)
    qed
    with new(2) len(2) have "linked e (tip parent chain) new" by (simp add: linked_successively)
    moreover from assms(9) pos(1) True new(1) len(2)
    have "lk' = lk\<lparr>lk_last_verified_header := Some (last new)\<rparr>" "hs' = update_slice_at (\<lambda>s. s) Verified (\<lambda>s. s) m hs"
      by (auto simp: verify_pending_slice_def Let_def split: if_splits)
    moreover note window_link [OF assms(1) m status new(1) len(1)]
    ultimately show ?thesis using assms(3,4,7) new(4) len(2) frame
      by (intro exI [of _ "chain @ new"] exI [of _ "Suc m"]) (auto simp: tip_def)
  qed
qed

lemma link_many:
  assumes "window_inv e chain off k m hs" and "unat (min_block_num hs) = unat start + off" and "linked e parent chain"
    and "list_all (cache_ok (env_rlp e) (env_keccak e)) chain" and "parent_of_start start parent"
    and "lk_last_verified_header lk = tip parent chain" and "lk_invalid_status lk = Invalid"
    and "verify_pending_monotonic e n c (lk, hs) = Some ((lk', hs'), c')"
  shows "\<exists>chain' m'. window_inv e chain' off k m' hs' \<and> linked e parent chain' \<and>
    list_all (cache_ok (env_rlp e) (env_keccak e)) chain' \<and> lk_last_verified_header lk' = tip parent chain' \<and>
    lk_invalid_status lk' = Invalid \<and> (\<exists>new. chain' = chain @ new) \<and> same_frame hs hs'"
  using assms(1-4,6-8)
proof (induction n arbitrary: chain m lk hs c)
  case 0
  then show ?case by auto
next
  case (Suc n)
  show ?case
  proof (cases "link_find_next_pending hs")
    case None
    with Suc.prems show ?thesis by auto
  next
    case (Some i)
    with Suc.prems(7) obtain lk1 hs1 ok where one: "verify_pending_slice e i (lk, hs) = Some ((lk1, hs1), ok)"
      by (auto split: option.splits)
    from link_one [OF Suc.prems(1-4) assms(5) Suc.prems(5,6) Some one] obtain chain1 m1 where
      I: "window_inv e chain1 off k m1 hs1" "linked e parent chain1" "list_all (cache_ok (env_rlp e) (env_keccak e)) chain1"
        "lk_last_verified_header lk1 = tip parent chain1" "lk_invalid_status lk1 = Invalid"
      and same: "\<exists>new. chain1 = chain @ new" "same_frame hs hs1"
      by blast
    show ?thesis
    proof (cases ok)
      case True
      with Suc.prems(7) Some one have "verify_pending_monotonic e n (Suc c) (lk1, hs1) = Some ((lk', hs'), c')" by simp
      moreover have "unat (min_block_num hs1) = unat start + off" using same(2) Suc.prems(2) by (simp add: same_frame_def)
      ultimately obtain chain' m' new where J: "window_inv e chain' off k m' hs'" "linked e parent chain'"
          "list_all (cache_ok (env_rlp e) (env_keccak e)) chain'" "lk_last_verified_header lk' = tip parent chain'"
          "lk_invalid_status lk' = Invalid" "chain' = chain1 @ new" "same_frame hs1 hs'"
        using Suc.IH [OF I(1) _ I(2-5)] by blast
      from same(1) J(6) have "\<exists>new. chain' = chain @ new" by auto
      with J(1-5) same_frame_trans [OF same(2) J(7)] show ?thesis by blast
    next
      case False
      with Suc.prems(7) Some one have "lk' = lk1" "hs' = hs1" by auto
      with I same show ?thesis by blast
    qed
  qed
qed

text \<open>Saving one slice after the other never fails.\<close>

lemma verified_count:
  assumes "window_inv e chain off k m hs"
  shows "status_count Verified (hs_slices hs) = m - k"
proof -
  note D = window_invD [OF assms]
  have "{i. i < length (hs_slices hs) \<and> sl_status (hs_slices hs ! i) = Verified} = {k..<m}"
    using D(3,6) by auto
  then show ?thesis by (simp add: status_count_def length_filter_conv_card)
qed

lemma save_none_pending:
  assumes "window_inv e chain off k m hs" and "save_find_next_pending hs = None"
  shows "k = m"
proof (rule ccontr)
  note D = window_invD [OF assms(1)]
  assume "k \<noteq> m"
  then have k: "k < m" "k < length (hs_slices hs)" using D(2,3) by auto
  then have "find_slice (\<lambda>s. sl_status s \<noteq> Saved) hs = Some k"
    using D(5) by (auto simp: find_slice_Some)
  with assms(2) D(6) [OF k(2)] k(1) show False by (simp add: save_find_next_pending_eq)
qed

lemma save_many:
  assumes "window_inv e chain off k m hs" and "db = save_headers e True (take (off + 192 * k) chain) db0"
  shows "\<exists>hs' db' c' k'. save_pending_monotonic e True n c (hs, db) = Inr ((hs', db'), c') \<and> window_inv e chain off k' m hs' \<and>
    db' = save_headers e True (take (off + 192 * k') chain) db0 \<and> c' = c + (k' - k) \<and> k \<le> k' \<and>
    (m - k \<le> n \<longrightarrow> k' = m) \<and> same_frame hs hs'"
  using assms
proof (induction n arbitrary: hs db c k)
  case 0
  then show ?case using window_invD(2) [OF 0(1)] by auto
next
  case (Suc n)
  show ?case
  proof (cases "save_find_next_pending hs")
    case None
    with Suc.prems save_none_pending [OF Suc.prems(1) None] show ?thesis by auto
  next
    case (Some i)
    note pos = save_next_position [OF Suc.prems(1) Some] and D = window_invD [OF Suc.prems(1)]
    let ?new = "take 192 (drop (off + 192 * k) chain)"
    define hs1 where "hs1 = update_slice_at (\<lambda>s. s\<lparr>sl_headers := Some ?new\<rparr>) Saved (\<lambda>s. s) k hs"
    have headers: "sl_headers (hs_slices hs ! k) = Some ?new" by (rule D(9)) (fact pos(2))
    have slice: "save_slice e True i (hs, db) = Inr (hs1, save_headers e True ?new db)"
      using headers pos(1) by (simp add: save_slice_def hs1_def)
    have "take (off + 192 * Suc k) chain = take (off + 192 * k) chain @ ?new"
      by (simp add: take_add [symmetric] algebra_simps)
    then have "save_headers e True ?new db = save_headers e True (take (off + 192 * Suc k) chain) db0"
      using Suc.prems(2) by simp
    from Suc.IH [OF window_save [OF Suc.prems(1) pos(2), folded hs1_def] this, of "Suc c"]
    obtain hs' db' c' k' where run: "save_pending_monotonic e True n (Suc c) (hs1, save_headers e True ?new db) = Inr ((hs', db'), c')"
      and I: "window_inv e chain off k' m hs'" "db' = save_headers e True (take (off + 192 * k') chain) db0" "Suc k \<le> k'"
        "c' = Suc c + (k' - Suc k)" "m - Suc k \<le> n \<longrightarrow> k' = m" "same_frame hs1 hs'"
      by blast
    have "same_frame hs hs1" unfolding hs1_def by (rule same_frame_update) (simp_all add: keeps_identity_def)
    with I(6) have "same_frame hs hs'" by (rule same_frame_trans [rotated])
    moreover have "save_pending_monotonic e True (Suc n) c (hs, db) = Inr ((hs', db'), c')" using Some slice run by simp
    ultimately show ?thesis using I by (auto intro!: exI [of _ k'])
  qed
qed

end
