(* ===== verification/Header_Download_Properties.thy ===== *)
theory Header_Download_Properties
  imports
    Header_Download
begin

text \<open>
  The linear phase of the header download is safe and does not get stuck: every stage keeps the
  invariant of the loop, so in every reachable state the canonical tables hold a chain of verified
  headers from the start of the phase up to the window, no stage runs into its internal errors, and
  the loop goes on until the window has passed the final block.
\<close>

section \<open>Machines with an invariant\<close>

text \<open>The contract of a machine: the invariant holds at the start and every step keeps it.\<close>

locale guarded_machine =
  fixes initial :: "'s \<Rightarrow> bool"
    and step :: "'s \<Rightarrow> 's \<Rightarrow> bool"
    and good :: "'s \<Rightarrow> bool"
  assumes initial_good: "initial S \<Longrightarrow> good S"
    and step_good: "good S \<Longrightarrow> step S T \<Longrightarrow> good T"
begin

lemma reachable_good: "initial S \<Longrightarrow> step\<^sup>*\<^sup>* S T \<Longrightarrow> good T"
  by (rotate_tac 1, induction rule: rtranclp_induct) (auto intro: initial_good step_good)

lemma reachable_step_good: "initial S \<Longrightarrow> step\<^sup>*\<^sup>* S T \<Longrightarrow> step T U \<Longrightarrow> good U"
  using reachable_good step_good by blast

end

section \<open>The stages keep the invariant\<close>

text \<open>
  The invariant of the loop, with the headers downloaded so far: the window and the tables belong to
  one chain that continues the parent of the first block, and the window is full or at the end.
\<close>

definition chain_inv ::
    "downloader_env \<Rightarrow> block_number \<Rightarrow> cached_header option \<Rightarrow> header_db \<Rightarrow> cached_header list \<Rightarrow> nat \<Rightarrow> nat \<Rightarrow> nat \<Rightarrow>
       linear_state \<Rightarrow> bool" where
  "chain_inv e start parent db0 chain off k m S \<longleftrightarrow>
     window_inv e chain off k m (ln_slices S) \<and> unat (min_block_num (ln_slices S)) = unat start + off \<and>
     ln_db S = save_headers e True (take (off + 192 * k) chain) db0 \<and>
     linked e parent chain \<and> list_all (cache_ok (env_rlp e) (env_keccak e)) chain \<and>
     lk_last_verified_header (ln_link S) = tip parent chain"

definition stages_inv :: "block_number \<Rightarrow> block_number \<Rightarrow> cached_header option \<Rightarrow> linear_state \<Rightarrow> bool" where
  "stages_inv start final parent S \<longleftrightarrow>
     hs_max_block_num (ln_slices S) \<le> final \<and> hs_final_block_num (ln_slices S) = final \<and>
     (length (hs_slices (ln_slices S)) < hs_max_slices (ln_slices S) \<longrightarrow> final \<le> hs_max_block_num (ln_slices S)) \<and>
     lk_invalid_status (ln_link S) = Invalid \<and> parent_of_start start parent \<and>
     sv_order (ln_save S) = Monotonic \<and> sv_is_canonical_chain (ln_save S) \<and> sv_remaining_count (ln_save S) = 0"

definition linear_inv ::
    "downloader_env \<Rightarrow> block_number \<Rightarrow> block_number \<Rightarrow> cached_header option \<Rightarrow> header_db \<Rightarrow> linear_state \<Rightarrow> bool" where
  "linear_inv e start final parent db0 S \<longleftrightarrow>
     (\<exists>chain off k m. chain_inv e start parent db0 chain off k m S) \<and> stages_inv start final parent S"

lemma linear_invI: "chain_inv e start parent db0 chain off k m S \<Longrightarrow> stages_inv start final parent S \<Longrightarrow> linear_inv e start final parent db0 S"
  by (auto simp: linear_inv_def)

lemma stages_inv_frame:
  "stages_inv start final parent S \<Longrightarrow> same_frame (ln_slices S) (ln_slices T) \<Longrightarrow> lk_invalid_status (ln_link T) = Invalid \<Longrightarrow>
     ln_save T = ln_save S \<Longrightarrow> stages_inv start final parent T"
  by (simp add: stages_inv_def same_frame_def)

lemma linear_inv_slices_ok: "linear_inv e start final parent db0 S \<Longrightarrow> slices_ok (ln_slices S)"
  by (auto simp: linear_inv_def chain_inv_def window_inv_def)

lemma linear_inv_quiet:
  assumes "linear_inv e start final parent db0 S" and "quiet e (ln_slices S) hs"
  shows "linear_inv e start final parent db0 (S\<lparr>ln_slices := hs\<rparr>)"
proof -
  from assms(1) obtain chain off k m where I: "chain_inv e start parent db0 chain off k m S" and st: "stages_inv start final parent S"
    by (auto simp: linear_inv_def)
  have frame: "same_frame (ln_slices S) hs" by (rule same_frame_quiet [OF assms(2) linear_inv_slices_ok [OF assms(1)]])
  have "chain_inv e start parent db0 chain off k m (S\<lparr>ln_slices := hs\<rparr>)"
    using I frame window_quiet [OF _ assms(2)] by (simp add: chain_inv_def same_frame_def)
  moreover have "stages_inv start final parent (S\<lparr>ln_slices := hs\<rparr>)"
    by (rule stages_inv_frame [OF st]) (use frame st in \<open>simp_all add: stages_inv_def\<close>)
  ultimately show ?thesis by (rule linear_invI)
qed

lemma linear_inv_frame:
  "linear_inv e start final parent db0 S \<Longrightarrow>
     linear_inv e start final parent db0 (S\<lparr>ln_last_request_id := n, ln_receive_is_over := b, ln_penalized := ps, ln_running := r\<rparr>)"
  by (simp add: linear_inv_def chain_inv_def stages_inv_def)

lemma linear_inv_link:
  assumes "linear_inv e start final parent db0 S" and "link_execute e (ln_link S, ln_slices S) = Some (lk, hs)"
  shows "linear_inv e start final parent db0 (S\<lparr>ln_link := lk, ln_slices := hs\<rparr>)"
proof -
  from assms(1) obtain chain off k m where
    I: "window_inv e chain off k m (ln_slices S)" "unat (min_block_num (ln_slices S)) = unat start + off"
      "linked e parent chain" "list_all (cache_ok (env_rlp e) (env_keccak e)) chain" "parent_of_start start parent"
      "lk_last_verified_header (ln_link S) = tip parent chain" "lk_invalid_status (ln_link S) = Invalid"
    and db: "ln_db S = save_headers e True (take (off + 192 * k) chain) db0" and st: "stages_inv start final parent S"
    by (auto simp: linear_inv_def chain_inv_def stages_inv_def)
  from assms(2) obtain lk1 c where run:
      "verify_pending_monotonic e (unat (pending_count VerifiedInternally (ln_slices S))) 0 (ln_link S, ln_slices S) = Some ((lk1, hs), c)"
    and lk: "lk_last_verified_header lk = lk_last_verified_header lk1" "lk_invalid_status lk = lk_invalid_status lk1"
    by (auto simp: link_execute_def Let_def)
  from link_many [OF I run] obtain chain' m' new where J: "window_inv e chain' off k m' hs" "linked e parent chain'"
      "list_all (cache_ok (env_rlp e) (env_keccak e)) chain'" "lk_last_verified_header lk1 = tip parent chain'"
      "lk_invalid_status lk1 = Invalid" "chain' = chain @ new" "same_frame (ln_slices S) hs"
    by blast
  have "off + 192 * k \<le> length chain" using window_invD(2,4) [OF I(1)] by simp
  with db J I(2) lk have "chain_inv e start parent db0 chain' off k m' (S\<lparr>ln_link := lk, ln_slices := hs\<rparr>)"
    by (simp add: chain_inv_def same_frame_def)
  moreover have "stages_inv start final parent (S\<lparr>ln_link := lk, ln_slices := hs\<rparr>)"
    by (rule stages_inv_frame [OF st]) (use J(5,7) lk in simp_all)
  ultimately show ?thesis by (rule linear_invI)
qed

lemma linear_inv_save:
  assumes "linear_inv e start final parent db0 S" and "save_execute e (ln_save S) (ln_slices S, ln_db S) = Inr (sv, hs, db)"
  shows "linear_inv e start final parent db0 (S\<lparr>ln_save := sv, ln_slices := hs, ln_db := db\<rparr>)"
proof -
  from assms(1) obtain chain off k m where
    I: "window_inv e chain off k m (ln_slices S)" "ln_db S = save_headers e True (take (off + 192 * k) chain) db0"
    and J: "unat (min_block_num (ln_slices S)) = unat start + off"
      "linked e parent chain" "list_all (cache_ok (env_rlp e) (env_keccak e)) chain"
      "lk_last_verified_header (ln_link S) = tip parent chain"
    and sv: "sv_order (ln_save S) = Monotonic" "sv_is_canonical_chain (ln_save S)" and st: "stages_inv start final parent S"
    by (auto simp: linear_inv_def chain_inv_def stages_inv_def)
  have count: "unat (pending_count Verified (ln_slices S)) = m - k"
    using window_invD(1) [OF I(1)] verified_count [OF I(1)] by (simp add: pending_count_def count_slices_in_status_unat)
  from save_many [OF I, of "m - k" 0] assms(2) sv obtain k' where
    K: "window_inv e chain off k' m hs" "db = save_headers e True (take (off + 192 * k') chain) db0" "k' = m" "same_frame (ln_slices S) hs"
    and sv': "sv = (ln_save S)\<lparr>sv_remaining_count := pending_count Verified (ln_slices S) - of_nat (m - k)\<rparr>"
    by (auto simp: save_execute_def Let_def count)
  have "pending_count Verified (ln_slices S) = of_nat (m - k)" by (simp flip: count)
  then have "sv_remaining_count sv = 0" using sv' by simp
  then have "stages_inv start final parent (S\<lparr>ln_save := sv, ln_slices := hs, ln_db := db\<rparr>)"
    using st sv' K(4) by (simp add: stages_inv_def same_frame_def)
  moreover have "chain_inv e start parent db0 chain off m m (S\<lparr>ln_save := sv, ln_slices := hs, ln_db := db\<rparr>)"
    using K J by (simp add: chain_inv_def same_frame_def)
  ultimately show ?thesis by (intro linear_invI)
qed

lemma linear_inv_refill:
  assumes "linear_inv e start final parent db0 S"
  shows "linear_inv e start final parent db0 (S\<lparr>ln_slices := refill_pending (ln_slices S)\<rparr>)"
proof -
  from assms obtain chain off k m where
    I: "window_inv e chain off k m (ln_slices S)" "ln_db S = save_headers e True (take (off + 192 * k) chain) db0"
      "unat (min_block_num (ln_slices S)) = unat start + off"
      "linked e parent chain" "list_all (cache_ok (env_rlp e) (env_keccak e)) chain"
      "lk_last_verified_header (ln_link S) = tip parent chain" and st: "stages_inv start final parent S"
    by (auto simp: linear_inv_def chain_inv_def)
  note R = window_refill [OF I(1)]
  from slices_ok_remove(1) [of "ln_slices S" k Saved] window_invD [OF I(1)]
  have "slices_ok (remove_slices Saved (ln_slices S))" by auto
  from refill_ok(3,7) [OF this]
  have "length (hs_slices (refill_pending (ln_slices S))) < hs_max_slices (refill_pending (ln_slices S)) \<longrightarrow>
      hs_final_block_num (ln_slices S) \<le> hs_max_block_num (refill_pending (ln_slices S))"
    by (simp add: refill_pending_def)
  with st R(3,4) have "stages_inv start final parent (S\<lparr>ln_slices := refill_pending (ln_slices S)\<rparr>)"
    by (simp add: stages_inv_def)
  moreover have "chain_inv e start parent db0 chain (off + 192 * k) 0 (m - k) (S\<lparr>ln_slices := refill_pending (ln_slices S)\<rparr>)"
    using R(1,2) I(2-6) by (simp add: chain_inv_def)
  ultimately show ?thesis by (intro linear_invI)
qed

section \<open>The loop keeps the invariant\<close>

lemma linear_inv_verify:
  assumes "linear_inv e start final parent db0 S" and "verify_slices_pending e clock cpus (ln_slices S) = Some hs"
  shows "linear_inv e start final parent db0 (S\<lparr>ln_slices := hs\<rparr>)"
proof -
  from assms(1) obtain chain off k m where I: "chain_inv e start parent db0 chain off k m S" and st: "stages_inv start final parent S"
    by (auto simp: linear_inv_def)
  from I have "window_inv e chain off k m (ln_slices S)" by (simp add: chain_inv_def)
  note V = window_verify [OF this assms(2)]
  have "chain_inv e start parent db0 chain off k m (S\<lparr>ln_slices := hs\<rparr>)"
    using I V by (simp add: chain_inv_def same_frame_def)
  moreover have "stages_inv start final parent (S\<lparr>ln_slices := hs\<rparr>)"
    by (rule stages_inv_frame [OF st]) (use V st in \<open>simp_all add: stages_inv_def\<close>)
  ultimately show ?thesis by (rule linear_invI)
qed

lemma linear_inv_stage_step:
  assumes "linear_inv e start final parent db0 S" and "stage_step e S T"
  shows "linear_inv e start final parent db0 T"
  using assms(2)
proof cases
  case (fetch_request send now hs n)
  from linear_inv_frame [OF linear_inv_quiet [OF assms(1) quiet_request_pending [OF linear_inv_slices_ok [OF assms(1)] fetch_request(3)]],
      where n = n and b = "ln_receive_is_over S" and ps = "ln_penalized S" and r = "ln_running S"]
  show ?thesis by (simp add: fetch_request(1))
next
  case (fetch_receive headers from_peer_id)
  with linear_inv_quiet [OF assms(1) quiet_on_headers_message [OF linear_inv_slices_ok [OF assms(1)]]] show ?thesis by simp
next
  case fetch_receive_over
  with assms(1) show ?thesis by (simp add: linear_inv_def chain_inv_def stages_inv_def)
next
  case (retry now)
  with linear_inv_quiet [OF assms(1) quiet_retry [OF linear_inv_slices_ok [OF assms(1)]]] show ?thesis by simp
next
  case (verify_slices clock cpus hs)
  with linear_inv_verify [OF assms(1)] show ?thesis by simp
next
  case (verify_link lk hs)
  with linear_inv_link [OF assms(1)] show ?thesis by simp
next
  case penalize
  from linear_inv_frame [OF linear_inv_quiet [OF assms(1) quiet_penalize [OF linear_inv_slices_ok [OF assms(1)]]],
      where n = "ln_last_request_id S" and b = "ln_receive_is_over S" and r = "ln_running S"
        and ps = "fold hs_insert (collect_bad_peers (ln_slices S)) (ln_penalized S)"]
  show ?thesis by (simp add: penalize(1) linear_inv_def chain_inv_def stages_inv_def)
next
  case (save sv hs db)
  with linear_inv_save [OF assms(1)] show ?thesis by simp
next
  case refill
  with linear_inv_refill [OF assms(1)] show ?thesis by simp
qed

lemma linear_inv_loop_continue:
  assumes "linear_inv e start final parent db0 S"
  shows "linear_inv e start final parent db0 (loop_continue S)"
proof -
  note linear_inv_quiet [OF assms quiet_notify [OF linear_inv_slices_ok [OF assms]]]
  moreover have "linear_inv e start final parent db0 (S\<lparr>ln_running := False\<rparr>)"
    using assms by (simp add: linear_inv_def chain_inv_def stages_inv_def)
  ultimately show ?thesis by (simp add: loop_continue_def Let_def)
qed

lemma linear_inv_step:
  assumes "linear_inv e start final parent db0 S" and "linear_step e S T"
  shows "linear_inv e start final parent db0 T"
  using assms(2)
proof cases
  case (stage U)
  with linear_inv_loop_continue [OF linear_inv_stage_step [OF assms(1)]] show ?thesis by simp
next
  case (failure send now hs n err)
  from linear_inv_frame [OF linear_inv_quiet [OF assms(1) quiet_request_pending [OF linear_inv_slices_ok [OF assms(1)] failure(4)]],
      where n = n and b = "ln_receive_is_over S" and ps = "ln_penalized S" and r = False]
  show ?thesis by (simp add: failure(1))
qed

text \<open>The start of the phase.\<close>

definition start_parent :: "block_number \<Rightarrow> header_db \<Rightarrow> cached_header option" where
  "start_parent start db = (if 0 < start then load_canonical_header_by_num (start - 1) db else None)"

lemma linear_start_cases:
  assumes "linear_start header_bytes mem_limit start max_blocks estimated db = Some (Inr (Inr S))"
  shows "start < linear_final_block_num start max_blocks estimated"
    and "header_slices_new header_bytes mem_limit start (linear_final_block_num start max_blocks estimated) = Some (ln_slices S)"
    and "link_stage_new (ln_slices S) (start_parent start db) Invalid = Some (ln_link S)"
    and "0 < start \<Longrightarrow> start_parent start db \<noteq> None"
    and "ln_save S = \<lparr> sv_order = Monotonic, sv_is_canonical_chain = True, sv_remaining_count = 0 \<rparr>" and "ln_db S = db"
    and "ln_running S"
  using assms by (auto simp: linear_start_def Let_def start_parent_def bind_eq_Some_conv split: if_splits)

lemma linear_inv_initial:
  assumes "linear_start header_bytes mem_limit start max_blocks estimated db = Some (Inr (Inr S))"
  shows "linear_inv e start (linear_final_block_num start max_blocks estimated) (start_parent start db) db S"
proof -
  note C = linear_start_cases [OF assms]
  note W = header_slices_new_ok [OF C(2) order_less_imp_le [OF C(1)]]
  have empty: "sl_status (hs_slices (ln_slices S) ! i) = Empty" if "i < length (hs_slices (ln_slices S))" for i
    using W(6) [OF that] by (simp add: header_slice_default_def header_slice_status_default_def)
  have "window_inv e [] 0 0 0 (ln_slices S)"
    using W(1) empty by (auto simp: window_inv_def received_ok_def)
  moreover have "find_last_verified_header (ln_slices S) = None"
    using empty [of 0] by (cases "hs_slices (ln_slices S)") (auto simp: find_last_verified_header_def)
  then have lk: "lk_last_verified_header (ln_link S) = start_parent start db" "lk_invalid_status (ln_link S) = Invalid"
      "case start_parent start db of None \<Rightarrow> True | Some h \<Rightarrow> cnum h + 1 = start"
    using C(3) W(2) by (auto simp: link_stage_new_def Let_def eq_commute [of _ "ln_link S"] split: if_splits option.splits)
  ultimately have "chain_inv e start (start_parent start db) db [] 0 0 0 S"
    using W(2) C(6) by (simp add: chain_inv_def)
  moreover have "parent_of_start start (start_parent start db)"
    using lk(3) C(4) by (cases "start = 0") (auto simp: parent_of_start_def start_parent_def word_gt_0 split: option.splits)
  then have "stages_inv start (linear_final_block_num start max_blocks estimated) (start_parent start db) S"
    using W(3-5) C(5) lk(2) by (simp add: stages_inv_def)
  ultimately show ?thesis by (rule linear_invI)
qed

interpretation linear: guarded_machine
  "\<lambda>S. linear_start header_bytes mem_limit start max_blocks estimated db = Some (Inr (Inr S))" "linear_step e"
  "linear_inv e start (linear_final_block_num start max_blocks estimated) (start_parent start db) db"
  for e header_bytes mem_limit start max_blocks estimated db
  by unfold_locales (rule linear_inv_initial, assumption, rule linear_inv_step)

section \<open>What reachable states guarantee\<close>

lemma verify_link_cong:
  assumes "ch_header c' = ch_header c" and "ch_header p' = ch_header p" and "hash p' = hash p"
  shows "verify_link hash cs c' p' = verify_link hash cs c p"
  unfolding verify_link_def verify_link_by_parent_hash_def verify_link_block_nums_def verify_link_timestamps_def
    verify_link_difficulties_def verify_link_pow_def assms ..

lemma linked_pair:
  "linked e parent chain \<Longrightarrow> j < length chain \<Longrightarrow> chain_link e (if j = 0 then parent else Some (chain ! (j - 1))) (chain ! j)"
proof -
  assume linked: "linked e parent chain" and j: "j < length chain"
  have "linked e parent (take j chain @ chain ! j # drop (Suc j) chain)" using linked id_take_nth_drop [OF j] by simp
  then have "chain_link e (tip parent (take j chain)) (chain ! j)" by simp
  moreover have "last (take j chain) = chain ! (j - 1)" if "0 < j" using that j by (subst last_conv_nth) auto
  ultimately show ?thesis using j by (auto simp: tip_def split: if_splits)
qed

lemma cached_header_new_simps [simp]:
  "ch_header (cached_header_new h k) = h" "env_hash e (cached_header_new h k) = k"
  by (simp_all add: cached_header_new_def cached_hash_def)

text \<open>The chain that is in the tables.\<close>

lemma linear_inv_saved:
  assumes "linear_inv e start final parent db0 S"
  obtains saved where "linked e parent saved" and "list_all (cache_ok (env_rlp e) (env_keccak e)) saved"
    and "ln_db S = save_headers e True saved db0" and "unat start + length saved < 2 ^ 64" and "parent_of_start start parent"
    and "\<And>n. start \<le> n \<Longrightarrow> n < min_block_num (ln_slices S) \<Longrightarrow> unat n - unat start < length saved \<and> n = start + of_nat (unat n - unat start)"
proof -
  from assms obtain chain off k m where I: "chain_inv e start parent db0 chain off k m S" and st: "stages_inv start final parent S"
    by (auto simp: linear_inv_def)
  then have W: "window_inv e chain off k m (ln_slices S)" "unat (min_block_num (ln_slices S)) = unat start + off"
    by (simp_all add: chain_inv_def)
  note D = window_invD [OF W(1)]
  define saved where "saved = take (off + 192 * k) chain"
  have len: "length saved = off + 192 * k" using D(2,4) by (simp add: saved_def)
  have "linked e parent (saved @ drop (off + 192 * k) chain)" "list_all (cache_ok (env_rlp e) (env_keccak e)) (saved @ drop (off + 192 * k) chain)"
    using I by (simp_all add: saved_def chain_inv_def)
  then have 1: "linked e parent saved" "list_all (cache_ok (env_rlp e) (env_keccak e)) saved" by auto
  have "unat (hs_max_block_num (ln_slices S)) = unat start + off + length (hs_slices (ln_slices S)) * 192"
    using D(1) W(2) by (simp add: slices_ok_def positions_ok_def)
  moreover have "k * 192 \<le> length (hs_slices (ln_slices S)) * 192" using D(2,3) by simp
  moreover have "unat (hs_max_block_num (ln_slices S)) < 2 ^ 64"
    using unsigned_less [of "hs_max_block_num (ln_slices S)", where ?'a = nat] by simp
  ultimately have 2: "unat start + length saved < 2 ^ 64" using len by linarith
  have 3: "unat n - unat start < length saved \<and> n = start + of_nat (unat n - unat start)"
    if "start \<le> n" "n < min_block_num (ln_slices S)" for n
  proof -
    from that W(2) have "unat start \<le> unat n" "unat n < unat start + off" by (auto simp: word_le_nat_alt word_less_nat_alt)
    then have "unat n - unat start < length saved" using len by linarith
    moreover have "(of_nat (unat start + (unat n - unat start)) :: u64) = of_nat (unat n)" using \<open>unat start \<le> unat n\<close> by simp
    then have "n = start + of_nat (unat n - unat start)" by simp
    ultimately show ?thesis by simp
  qed
  show thesis
    by (rule that [OF 1 _ 2 _ 3]) (use I st in \<open>simp_all add: chain_inv_def saved_def stages_inv_def\<close>)
qed

lemma saved_load:
  assumes "linked e parent saved" and "parent_of_start start parent" and "unat start + length saved < 2 ^ 64" and "j < length saved"
  shows "load_canonical_header_by_num (start + of_nat j) (save_headers e True saved db) =
    Some (cached_header_new (ch_header (saved ! j)) (env_hash e (saved ! j)))"
  using saved_tables(1,2) [OF assms(1-3) assms(4)] by (simp add: load_canonical_header_by_num_def)

lemma saved_load_below:
  assumes "linked e parent saved" and "parent_of_start start parent" and "unat start + length saved < 2 ^ 64" and "n < start"
  shows "load_canonical_header_by_num n (save_headers e True saved db) = load_canonical_header_by_num n db"
  using saved_tables(3) [OF assms(1-3), of n] assms(4) by (simp add: load_canonical_header_by_num_def cong: option.case_cong)

lemma linear_inv_verified_chain:
  assumes "linear_inv e start final (start_parent start db0) db0 S"
  shows "\<forall>n. start \<le> n \<and> n < min_block_num (ln_slices S) \<longrightarrow>
      (\<exists>h. load_canonical_header_by_num n (ln_db S) = Some h \<and> cache_ok (env_rlp e) (env_keccak e) h \<and> cnum h = n \<and>
        (n = 0 \<longrightarrow> env_hash e h = env_genesis_hash e) \<and>
        (n \<noteq> 0 \<longrightarrow> (\<exists>p. load_canonical_header_by_num (n - 1) (ln_db S) = Some p \<and>
          verify_link (env_hash e) (env_chain_spec e) h p = Some True)))"
    and "\<forall>n < start. load_canonical_header_by_num n (ln_db S) = load_canonical_header_by_num n db0"
    and "is_empty_at_final_position (ln_slices S) \<longrightarrow> min_block_num (ln_slices S) = final"
proof -
  let ?parent = "start_parent start db0"
  from assms obtain saved where C: "linked e ?parent saved" "list_all (cache_ok (env_rlp e) (env_keccak e)) saved"
      "unat start + length saved < 2 ^ 64" "parent_of_start start ?parent" and db: "ln_db S = save_headers e True saved db0"
      and pos: "\<And>n. start \<le> n \<Longrightarrow> n < min_block_num (ln_slices S) \<Longrightarrow> unat n - unat start < length saved \<and> n = start + of_nat (unat n - unat start)"
    by (rule linear_inv_saved) blast
  note load = saved_load [OF C(1,4,3)] and below = saved_load_below [OF C(1,4,3)]
  show "\<forall>n < start. load_canonical_header_by_num n (ln_db S) = load_canonical_header_by_num n db0"
    by (simp add: db below)
  show "is_empty_at_final_position (ln_slices S) \<longrightarrow> min_block_num (ln_slices S) = final"
    using assms by (auto simp: linear_inv_def stages_inv_def is_empty_at_final_position_def min_block_num_def)
  show "\<forall>n. start \<le> n \<and> n < min_block_num (ln_slices S) \<longrightarrow>
      (\<exists>h. load_canonical_header_by_num n (ln_db S) = Some h \<and> cache_ok (env_rlp e) (env_keccak e) h \<and> cnum h = n \<and>
        (n = 0 \<longrightarrow> env_hash e h = env_genesis_hash e) \<and>
        (n \<noteq> 0 \<longrightarrow> (\<exists>p. load_canonical_header_by_num (n - 1) (ln_db S) = Some p \<and>
          verify_link (env_hash e) (env_chain_spec e) h p = Some True)))"
  proof (intro allI impI)
    fix n
    assume n: "start \<le> n \<and> n < min_block_num (ln_slices S)"
    define j where "j = unat n - unat start"
    from n pos have j: "j < length saved" "n = start + of_nat j" by (simp_all add: j_def)
    define h where "h = cached_header_new (ch_header (saved ! j)) (env_hash e (saved ! j))"
    have hn: "load_canonical_header_by_num n (ln_db S) = Some h" using load [OF j(1)] by (simp add: db j(2) h_def)
    have ok: "cache_ok (env_rlp e) (env_keccak e) (saved ! j)" using C(2) j(1) by (simp add: list_all_length)
    have ck: "cache_ok (env_rlp e) (env_keccak e) h"
      using cache_ok_operations(2) [of "env_rlp e" "env_keccak e" "ch_header (saved ! j)"] cached_hash_eq [OF ok] by (simp add: h_def)
    have num: "cnum h = n" using linked_numbers [OF C(1,4) j(1)] j(2) by (simp add: h_def)
    note link = linked_pair [OF C(1) j(1)]
    have unat_n: "unat n = unat start + j" using n by (simp add: j_def word_le_nat_alt)
    have genesis: "env_hash e h = env_genesis_hash e" if "n = 0"
      using that unat_n link C(4) by (auto simp: h_def chain_link_def parent_of_start_def unat_eq_0 split: option.splits)
    have "\<exists>p. load_canonical_header_by_num (n - 1) (ln_db S) = Some p \<and>
        verify_link (env_hash e) (env_chain_spec e) h p = Some True" if nz: "n \<noteq> 0"
    proof (cases "j = 0")
      case True
      then have s: "n = start" using j(2) by simp
      with nz C(4) obtain p where p: "?parent = Some p" by (auto simp: parent_of_start_def split: option.splits)
      then have "load_canonical_header_by_num (start - 1) db0 = Some p" using nz s by (simp add: start_parent_def word_gt_0 split: if_splits)
      moreover have "start - 1 < start" using nz s by (metis word_gt_0 word_neq_0_conv measure_unat word_less_nat_alt)
      ultimately have "load_canonical_header_by_num (n - 1) (ln_db S) = Some p" by (simp add: db below s)
      moreover have "verify_link (env_hash e) (env_chain_spec e) h p = Some True"
        using link True p verify_link_cong [of h "saved ! j" p p "env_hash e"] by (simp add: chain_link_def h_def)
      ultimately show ?thesis by blast
    next
      case False
      define p where "p = cached_header_new (ch_header (saved ! (j - 1))) (env_hash e (saved ! (j - 1)))"
      have "n - 1 = start + of_nat (j - 1)" using j(2) False by (cases j) simp_all
      then have "load_canonical_header_by_num (n - 1) (ln_db S) = Some p" using load [of "j - 1"] j(1) by (simp add: db p_def)
      moreover have "verify_link (env_hash e) (env_chain_spec e) h p = Some True"
        using link False verify_link_cong [of h "saved ! j" p "saved ! (j - 1)" "env_hash e"] by (simp add: chain_link_def h_def p_def)
      ultimately show ?thesis by blast
    qed
    with hn ck num genesis show "\<exists>h. load_canonical_header_by_num n (ln_db S) = Some h \<and> cache_ok (env_rlp e) (env_keccak e) h \<and> cnum h = n \<and>
        (n = 0 \<longrightarrow> env_hash e h = env_genesis_hash e) \<and>
        (n \<noteq> 0 \<longrightarrow> (\<exists>p. load_canonical_header_by_num (n - 1) (ln_db S) = Some p \<and>
          verify_link (env_hash e) (env_chain_spec e) h p = Some True))"
      by blast
  qed
qed

section \<open>No internal errors, no standstill\<close>

definition is_ethash :: "chain_spec \<Rightarrow> bool" where
  "is_ethash cs \<longleftrightarrow> (case seal_verification (cs_consensus cs) of Ethash_params _ _ _ _ _ _ \<Rightarrow> True | _ \<Rightarrow> False)"

lemma and_then_None: "and_then a b = None \<longleftrightarrow> a = None \<or> a = Some True \<and> b = None"
  by (auto simp: and_then_def split: option.splits bool.splits)

lemma all_lazily_total: "(\<And>x. x \<in> set xs \<Longrightarrow> P x \<noteq> None) \<Longrightarrow> all_lazily P xs \<noteq> None"
  by (induction xs) (auto simp: and_then_None)

lemma ethash_verifiers_total:
  assumes "is_ethash cs"
  shows "verify_link hash cs child parent \<noteq> None" and "verify_slice hash cs headers start mx \<noteq> None"
proof -
  have difficulties: "verify_link_difficulties cs c p \<noteq> None" for c p
    using assms by (auto simp: is_ethash_def verify_link_difficulties_def split: seal_verification_params.splits)
  then show "verify_link hash cs child parent \<noteq> None" by (simp add: verify_link_def and_then_None)
  have "verify_slice_difficulties cs headers \<noteq> None"
    unfolding verify_slice_difficulties_def by (rule all_lazily_total) (simp add: difficulties case_prod_unfold)
  then show "verify_slice hash cs headers start mx \<noteq> None" by (simp add: verify_slice_def and_then_None)
qed

lemma link_total:
  assumes "is_ethash (env_chain_spec e)"
  shows "verify_pending_monotonic e n c st \<noteq> None"
proof (induction n arbitrary: c st)
  case (Suc n)
  have "verify_slice_link e s p \<noteq> None" for s p
    using ethash_verifiers_total(1) [OF assms] by (auto simp: verify_slice_link_def Let_def split: option.splits)
  then have one: "verify_pending_slice e i st \<noteq> None" for i
    by (simp add: verify_pending_slice_def Let_def case_prod_unfold)
  show ?case
  proof (cases "link_find_next_pending (snd st)")
    case (Some i)
    from one [of i] obtain st' ok where "verify_pending_slice e i st = Some (st', ok)" by (metis not_None_eq prod.exhaust)
    with Some Suc.IH [of "Suc c" st'] show ?thesis by simp
  qed simp
qed simp

lemma linear_inv_proceeds:
  assumes "linear_inv e start final parent db0 S" and "hs_slices (ln_slices S) \<noteq> []" and "\<not> ln_receive_is_over S"
  shows "some_stage_can_proceed S"
proof -
  from assms(1) obtain chain off k m where W: "window_inv e chain off k m (ln_slices S)" and sv: "sv_remaining_count (ln_save S) = 0"
    by (auto simp: linear_inv_def chain_inv_def stages_inv_def)
  note D = window_invD [OF W] and cs = contains_status_iff [OF window_invD(1) [OF W]]
  have "contains_status (ln_slices S) (sl_status (hs_slices (ln_slices S) ! 0))" using assms(2) cs by auto
  moreover have "sl_status (hs_slices (ln_slices S) ! 0) \<noteq> Fork" using D(10) [of 0] assms(2) by auto
  ultimately show ?thesis
    by (cases "sl_status (hs_slices (ln_slices S) ! 0)")
      (auto simp: some_stage_can_proceed_def Let_def fetch_request_can_proceed_def fetch_receive_can_proceed_def
        verify_slices_can_proceed_def link_can_proceed_def penalize_can_proceed_def save_can_proceed_def
        refill_can_proceed_def contains_status_def assms(3) sv)
qed

end
