(* ===== verification/Header_Download_Complete.thy ===== *)
theory Header_Download_Complete
  imports
    Header_Download_Properties
begin

text \<open>
  The linear phase of the header download can always be completed: from the start of the phase, if
  the network delivers the headers of a chain, there is a run of the stages that saves exactly these
  headers and ends with the window past the final block.  The run delivers the first slice of the
  window and lets it pass through the stages, then the next one.
\<close>

section \<open>One stage at a time\<close>

lemma go_on:
  assumes "linear_inv e start final parent db0 S" and "ln_running S" and "stage_step e S T"
    and "hs_slices (ln_slices T) \<noteq> []" and "\<not> ln_receive_is_over T"
  shows "linear_step e S (T\<lparr>ln_slices := notify_status_watchers (ln_slices T)\<rparr>)"
    and "linear_inv e start final parent db0 (T\<lparr>ln_slices := notify_status_watchers (ln_slices T)\<rparr>)"
proof -
  note inv = linear_inv_stage_step [OF assms(1,3)]
  have "loop_continue T = T\<lparr>ln_slices := notify_status_watchers (ln_slices T)\<rparr>"
    using linear_inv_proceeds [OF inv assms(4,5)] assms(4) by (simp add: loop_continue_def Let_def is_empty_at_final_position_def)
  with linear_step.stage [OF assms(2,3)] linear_inv_loop_continue [OF inv]
  show "linear_step e S (T\<lparr>ln_slices := notify_status_watchers (ln_slices T)\<rparr>)"
    and "linear_inv e start final parent db0 (T\<lparr>ln_slices := notify_status_watchers (ln_slices T)\<rparr>)" by simp_all
qed

lemma wait_contains: "contains_status hs st \<Longrightarrow> wait st hs"
  by (auto simp: wait_def wait_while_def pending_count_def contains_status_def)

text \<open>With a willing network, every empty slice is requested.\<close>

lemma request_all:
  "\<exists>n'. try_fold_list (request_slice (\<lambda>_. Sent) limit now) (hs, n) is =
     Continue (fold (sweep_step (\<lambda>s. sl_status s = Empty) (\<lambda>s. s\<lparr>sl_request_time := Some now\<rparr>) Waiting (\<lambda>s. s)) is hs, n')"
  by (induction "is" arbitrary: hs n) (auto simp: request_slice_def request_def sweep_step_def Let_def)

lemma request_pending_all:
  assumes "slices_ok hs"
  obtains hs' n' where "request_pending (\<lambda>_. Sent) limit now n hs = ((hs', n'), None)"
    and "hs_slices hs' = map (\<lambda>s. if sl_status s = Empty then s\<lparr>sl_request_time := Some now, sl_status := Waiting\<rparr> else s) (hs_slices hs)"
proof -
  define hs' where "hs' = fold (sweep_step (\<lambda>s. sl_status s = Empty) (\<lambda>s. s\<lparr>sl_request_time := Some now\<rparr>) Waiting (\<lambda>s. s))
    [0..<length (hs_slices hs)] hs"
  obtain n' where "request_pending (\<lambda>_. Sent) limit now n hs = ((hs', n'), None)"
    using request_all [of limit now hs n "[0..<length (hs_slices hs)]"] by (auto simp: request_pending_def try_fold_def hs'_def)
  moreover have "hs_slices hs' = map (\<lambda>s. if sl_status s = Empty then s\<lparr>sl_request_time := Some now, sl_status := Waiting\<rparr> else s) (hs_slices hs)"
    using sweep [OF assms, of "\<lambda>s. s\<lparr>sl_request_time := Some now\<rparr>" "\<lambda>s. s" "length (hs_slices hs)"]
    by (simp add: hs'_def keeps_identity_def)
  ultimately show thesis by (rule that)
qed

section \<open>One slice through the stages\<close>

text \<open>A state in which the slices are still to be downloaded.\<close>

definition pristine :: "header_slice \<Rightarrow> bool" where
  "pristine s \<longleftrightarrow> sl_status s = Empty \<or> sl_status s = Waiting"

definition prepared :: "downloader_env \<Rightarrow> block_header list \<Rightarrow> cached_header list" where
  "prepared e hs = map (\<lambda>h. hash_prepare (env_rlp e) (env_keccak e) (cached_header_from h)) hs"

lemma prepared_simps [simp]: "prepared e [] = []" "length (prepared e hs) = length hs" "prepared e (xs @ ys) = prepared e xs @ prepared e ys"
  "prepared e hs = [] \<longleftrightarrow> hs = []"
  by (simp_all add: prepared_def)

lemma hash_prepare_header [simp]: "ch_header (hash_prepare rlp keccak c) = ch_header c"
  by (simp add: hash_prepare_def rlp_repr_prepare_def Let_def)

lemma prepared_nth: "i < length hs \<Longrightarrow> ch_header (prepared e hs ! i) = hs ! i"
  by (simp add: prepared_def cached_header_from_def)

text \<open>What has been reached when the window has moved on by a slice.\<close>

definition delivered :: "downloader_env \<Rightarrow> block_header list \<Rightarrow> linear_state \<Rightarrow> linear_state \<Rightarrow> bool" where
  "delivered e good S T \<longleftrightarrow> ln_db T = save_headers e True (prepared e good) (ln_db S) \<and>
     lk_last_verified_header (ln_link T) = Some (last (prepared e good)) \<and>
     unat (min_block_num (ln_slices T)) = unat (min_block_num (ln_slices S)) + 192 \<and>
     hs_max_slices (ln_slices T) = hs_max_slices (ln_slices S)"

definition alive :: "downloader_env \<Rightarrow> block_number \<Rightarrow> block_number \<Rightarrow> cached_header option \<Rightarrow> header_db \<Rightarrow> linear_state \<Rightarrow> bool" where
  "alive e start final parent db0 S \<longleftrightarrow> linear_inv e start final parent db0 S \<and> ln_running S \<and> \<not> ln_receive_is_over S"

text \<open>A stage that leaves slices in the window and the rest of the state as it says.\<close>

lemma advance:
  assumes "alive e start final parent db0 S" and "stage_step e S T" and "hs_slices (ln_slices T) = s # rest"
    and "\<not> ln_receive_is_over T" and "same_frame (ln_slices S) (ln_slices T)"
  obtains U where "linear_step e S U" and "alive e start final parent db0 U" and "hs_slices (ln_slices U) = s # rest"
    and "ln_db U = ln_db T" and "ln_link U = ln_link T" and "same_frame (ln_slices S) (ln_slices U)"
proof -
  define U where "U = T\<lparr>ln_slices := notify_status_watchers (ln_slices T)\<rparr>"
  have run: "ln_running T" using assms(2,1) by cases (simp_all add: alive_def)
  have "linear_inv e start final parent db0 S" "ln_running S" using assms(1) by (auto simp: alive_def)
  note G = go_on [OF this assms(2) _ assms(4), folded U_def]
  show thesis
    by (rule that [of U]) (use G assms(3-5) run in \<open>auto simp: U_def alive_def same_frame_def\<close>)
qed

lemma alive_slices_ok: "alive e start final parent db0 S \<Longrightarrow> slices_ok (ln_slices S)"
  by (auto simp: alive_def linear_inv_slices_ok)

lemma first_contains: "slices_ok hs \<Longrightarrow> hs_slices hs = s # rest \<Longrightarrow> contains_status hs (sl_status s)"
  by (auto simp: contains_status_iff intro: exI [of _ 0])

lemma run_request:
  assumes "alive e start final parent db0 S" and "hs_slices (ln_slices S) = s # rest" and "\<forall>s \<in> set (s # rest). pristine s"
  obtains T s' rest' where "(linear_step e)\<^sup>*\<^sup>* S T" and "alive e start final parent db0 T"
    and "hs_slices (ln_slices T) = s' # rest'" and "sl_status s' = Waiting" and "\<forall>s \<in> set rest'. pristine s"
    and "ln_db T = ln_db S" and "ln_link T = ln_link S" and "same_frame (ln_slices S) (ln_slices T)"
proof (cases "sl_status s = Waiting")
  case True
  with assms that [of S s rest] show thesis by auto
next
  case False
  note ok = alive_slices_ok [OF assms(1)]
  have wait: "wait Empty (ln_slices S)"
    using False assms(3) first_contains [OF ok assms(2)] by (intro wait_contains) (auto simp: pristine_def)
  let ?f = "\<lambda>s. if sl_status s = Empty then s\<lparr>sl_request_time := Some 0, sl_status := Waiting\<rparr> else s"
  obtain hs n where run: "request_pending (\<lambda>_. Sent) HEADER_SLICE_SIZE 0 (ln_last_request_id S) (ln_slices S) = ((hs, n), None)"
    and slices: "hs_slices hs = map ?f (hs_slices (ln_slices S))"
    by (rule request_pending_all [OF ok])
  define T where "T = S\<lparr>ln_slices := hs, ln_last_request_id := n\<rparr>"
  have frame: "same_frame (ln_slices S) (ln_slices T)"
    using same_frame_quiet [OF quiet_request_pending [OF ok run] ok] by (simp add: T_def)
  have step: "stage_step e S T" unfolding T_def by (rule stage_step.fetch_request [OF wait run])
  obtain U where U: "linear_step e S U" "alive e start final parent db0 U" "hs_slices (ln_slices U) = ?f s # map ?f rest"
      "ln_db U = ln_db T" "ln_link U = ln_link T" "same_frame (ln_slices S) (ln_slices U)"
    by (rule advance [OF assms(1) step _ _ frame]) (use assms(1,2) slices in \<open>simp_all add: T_def alive_def\<close>)
  show thesis
    by (rule that [of U "?f s" "map ?f rest"]) (use U assms(3) in \<open>auto simp: T_def pristine_def\<close>)
qed

lemma run_receive:
  assumes "alive e start final parent db0 S" and "hs_slices (ln_slices S) = s # rest" and "sl_status s = Waiting"
    and "good \<noteq> []" and "h_number (hd good) = sl_start_block_num s"
  obtains T where "linear_step e S T" and "alive e start final parent db0 T"
    and "hs_slices (ln_slices T) = s\<lparr>sl_headers := Some (map cached_header_from good), sl_from_peer_id := None, sl_status := Downloaded\<rparr> # rest"
    and "ln_db T = ln_db S" and "ln_link T = ln_link S" and "same_frame (ln_slices S) (ln_slices T)"
proof -
  note ok = alive_slices_ok [OF assms(1)]
  define T where "T = S\<lparr>ln_slices := on_headers_message good None (ln_slices S)\<rparr>"
  have "find_by_start_block_num (ln_slices S) (h_number (hd good)) = Some 0"
    using assms(2,5) by (simp add: find_by_start_block_num_iff [OF ok])
  then have slices: "hs_slices (ln_slices T) =
      s\<lparr>sl_headers := Some (map cached_header_from good), sl_from_peer_id := None, sl_status := Downloaded\<rparr> # rest"
    using assms(2-4) by (cases good) (auto simp: T_def on_headers_message_def update_slice_def)
  have frame: "same_frame (ln_slices S) (ln_slices T)"
    using same_frame_quiet [OF quiet_on_headers_message [OF ok] ok] by (simp add: T_def)
  have step: "stage_step e S T" unfolding T_def by (rule stage_step.fetch_receive)
  show thesis
    by (rule advance [OF assms(1) step slices _ frame]) (use assms(1) that in \<open>auto simp: T_def alive_def\<close>)
qed

lemma run_verify:
  assumes "alive e start final parent db0 S" and "hs_slices (ln_slices S) = s # rest" and "sl_status s = Downloaded"
    and "\<forall>s \<in> set rest. pristine s" and "sl_headers s = Some (map cached_header_from good)"
    and "verify_slice (env_hash e) (env_chain_spec e) (prepared e good) (sl_start_block_num s) clock = Some True"
  obtains T where "linear_step e S T" and "alive e start final parent db0 T"
    and "hs_slices (ln_slices T) = s\<lparr>sl_headers := Some (prepared e good), sl_status := VerifiedInternally\<rparr> # rest"
    and "ln_db T = ln_db S" and "ln_link T = ln_link S" and "same_frame (ln_slices S) (ln_slices T)"
proof -
  note ok = alive_slices_ok [OF assms(1)]
  have wait: "wait Downloaded (ln_slices S)" using first_contains [OF ok assms(2)] assms(3) by (intro wait_contains) simp
  have prep: "prepare_slice_hashes e s = s\<lparr>sl_headers := Some (prepared e good)\<rparr>"
    by (simp add: prepare_slice_hashes_def assms(5) prepared_def comp_def)
  have accepts: "verify_slice_stage e (\<lambda>_. clock) (prepare_slice_hashes e s) = Some True"
    using assms(6) by (simp add: prep verify_slice_stage_def)
  have rest: "sl_status s' \<noteq> Downloaded" if "s' \<in> set rest" for s' using assms(4) that by (auto simp: pristine_def)
  have total: "\<not> (\<exists>i < length (hs_slices (ln_slices S)). sl_status (hs_slices (ln_slices S) ! i) = Downloaded \<and>
      verify_slice_stage e (\<lambda>_. clock) (prepare_slice_hashes e (hs_slices (ln_slices S) ! i)) = None)"
    using accepts rest by (auto simp: assms(2) nth_Cons split: nat.splits)
  from verify_pending_batches_eq [OF ok, of VerifiedInternally "verify_slice_stage e (\<lambda>_. clock)" e 1] total
  obtain hs where run: "verify_slices_pending e (\<lambda>_. clock) 1 (ln_slices S) = Some hs"
    and slices: "hs_slices hs = map (verified_slice e (verify_slice_stage e (\<lambda>_. clock)) VerifiedInternally) (hs_slices (ln_slices S))"
    and flds: "slices_ok hs" "hs_max_slices hs = hs_max_slices (ln_slices S)" "hs_max_block_num hs = hs_max_block_num (ln_slices S)"
      "hs_final_block_num hs = hs_final_block_num (ln_slices S)"
    by (auto simp: verify_slices_pending_def)
  define T where "T = S\<lparr>ln_slices := hs\<rparr>"
  have "map (verified_slice e (verify_slice_stage e (\<lambda>_. clock)) VerifiedInternally) rest = rest"
    using rest by (simp add: map_idI verified_slice_def)
  then have slicesT: "hs_slices (ln_slices T) = s\<lparr>sl_headers := Some (prepared e good), sl_status := VerifiedInternally\<rparr> # rest"
    using slices accepts assms(2,3) prep by (simp add: T_def verified_slice_def)
  have frame: "same_frame (ln_slices S) (ln_slices T)"
    using flds ok slices by (auto simp: T_def same_frame_def slices_ok_def positions_ok_def word_unat_eq_iff)
  have step: "stage_step e S T" unfolding T_def by (rule stage_step.verify_slices [OF wait run])
  show thesis
    by (rule advance [OF assms(1) step slicesT _ frame]) (use assms(1) that in \<open>auto simp: T_def alive_def\<close>)
qed

lemma first_count:
  assumes "slices_ok hs" and "hs_slices hs = s # rest" and "\<forall>s \<in> set rest. pristine s" and "sl_status s = st" and "\<not> pristine s"
  shows "unat (pending_count st hs) = 1"
proof -
  have "status_count st rest = 0" using assms(3-5) by (induction rest) (auto simp: pristine_def)
  with assms(1,2,4) show ?thesis by (simp add: pending_count_def count_slices_in_status_unat)
qed

lemma run_link:
  assumes "alive e start final parent db0 S" and "hs_slices (ln_slices S) = s # rest" and "sl_status s = VerifiedInternally"
    and "\<forall>s \<in> set rest. pristine s" and "sl_headers s = Some new" and "length new = 192"
    and "chain_link e (lk_last_verified_header (ln_link S)) (hd new)"
    and "lk_last_verified_header (ln_link S) \<noteq> None \<Longrightarrow> cnum (hd new) \<noteq> 0" and "lk_remaining_count (ln_link S) = 0"
  obtains T where "linear_step e S T" and "alive e start final parent db0 T"
    and "hs_slices (ln_slices T) = s\<lparr>sl_status := Verified\<rparr> # rest" and "ln_db T = ln_db S"
    and "lk_last_verified_header (ln_link T) = Some (last new)" and "lk_remaining_count (ln_link T) = 0"
    and "same_frame (ln_slices S) (ln_slices T)"
proof -
  note ok = alive_slices_ok [OF assms(1)]
  have count: "unat (pending_count VerifiedInternally (ln_slices S)) = 1"
    by (rule first_count [OF ok assms(2,4)]) (simp_all add: assms(3) pristine_def)
  then have count1: "pending_count VerifiedInternally (ln_slices S) = 1" by (simp add: word_unat_eq_iff)
  have wait: "wait_while VerifiedInternally (lk_remaining_count (ln_link S)) (ln_slices S)"
    using count1 assms(9) by (simp add: wait_while_def)
  have "find_slice (\<lambda>s. sl_status s \<noteq> Verified \<and> sl_status s \<noteq> Saved) (ln_slices S) = Some 0"
    using assms(2,3) by (simp add: find_slice_Some)
  then have find: "link_find_next_pending (ln_slices S) = Some 0" using assms(2,3) by (simp add: link_find_next_pending_eq)
  have "new \<noteq> []" using assms(6) by auto
  then have "verify_slice_link e s (lk_last_verified_header (ln_link S)) = Some True"
    using assms(5-8) by (cases "lk_last_verified_header (ln_link S)") (auto simp: verify_slice_link_def chain_link_def HEADER_SLICE_SIZE_def)
  then have slice: "verify_pending_slice e 0 (ln_link S, ln_slices S) =
      Some (((ln_link S)\<lparr>lk_last_verified_header := Some (last new)\<rparr>, update_slice_at (\<lambda>s. s) Verified (\<lambda>s. s) 0 (ln_slices S)), True)"
    using assms(2,5) \<open>new \<noteq> []\<close> by (simp add: verify_pending_slice_def)
  have "verify_pending_monotonic e (Suc 0) 0 (ln_link S, ln_slices S) =
      Some (((ln_link S)\<lparr>lk_last_verified_header := Some (last new)\<rparr>, update_slice_at (\<lambda>s. s) Verified (\<lambda>s. s) 0 (ln_slices S)), 1)"
    using find slice by simp
  then have run: "link_execute e (ln_link S, ln_slices S) =
      Some ((ln_link S)\<lparr>lk_last_verified_header := Some (last new), lk_remaining_count := 0\<rparr>,
        update_slice_at (\<lambda>s. s) Verified (\<lambda>s. s) 0 (ln_slices S))"
    by (simp add: link_execute_def count1 Let_def)
  define T where "T = S\<lparr>ln_link := (ln_link S)\<lparr>lk_last_verified_header := Some (last new), lk_remaining_count := 0\<rparr>,
    ln_slices := update_slice_at (\<lambda>s. s) Verified (\<lambda>s. s) 0 (ln_slices S)\<rparr>"
  have step: "stage_step e S T" unfolding T_def by (rule stage_step.verify_link [OF wait run])
  have frame: "same_frame (ln_slices S) (ln_slices T)"
    using same_frame_update [OF keeps_identity_id keeps_identity_id] by (simp add: T_def)
  have slices: "hs_slices (ln_slices T) = s\<lparr>sl_status := Verified\<rparr> # rest" by (simp add: T_def assms(2))
  show thesis
    by (rule advance [OF assms(1) step slices _ frame]) (use assms(1) that in \<open>auto simp: T_def alive_def\<close>)
qed

lemma run_save:
  assumes "alive e start final parent db0 S" and "hs_slices (ln_slices S) = s # rest" and "sl_status s = Verified"
    and "\<forall>s \<in> set rest. pristine s" and "sl_headers s = Some new"
  obtains T where "linear_step e S T" and "alive e start final parent db0 T"
    and "hs_slices (ln_slices T) = s\<lparr>sl_status := Saved\<rparr> # rest" and "ln_db T = save_headers e True new (ln_db S)"
    and "ln_link T = ln_link S" and "same_frame (ln_slices S) (ln_slices T)"
proof -
  note ok = alive_slices_ok [OF assms(1)]
  have sv: "sv_order (ln_save S) = Monotonic" "sv_is_canonical_chain (ln_save S)" "sv_remaining_count (ln_save S) = 0"
    using assms(1) by (auto simp: alive_def linear_inv_def stages_inv_def)
  have "unat (pending_count Verified (ln_slices S)) = 1"
    by (rule first_count [OF ok assms(2,4)]) (simp_all add: assms(3) pristine_def)
  then have count1: "pending_count Verified (ln_slices S) = 1" by (simp add: word_unat_eq_iff)
  have wait: "wait_while Verified (sv_remaining_count (ln_save S)) (ln_slices S)"
    using count1 sv(3) by (simp add: wait_while_def)
  have "find_slice (\<lambda>s. sl_status s \<noteq> Saved) (ln_slices S) = Some 0" using assms(2,3) by (simp add: find_slice_Some)
  then have find: "save_find_next_pending (ln_slices S) = Some 0" using assms(2,3) by (simp add: save_find_next_pending_eq)
  let ?hs = "update_slice_at (\<lambda>s. s\<lparr>sl_headers := Some new\<rparr>) Saved (\<lambda>s. s) 0 (ln_slices S)"
  have "save_pending_monotonic e True (Suc 0) 0 (ln_slices S, ln_db S) = Inr ((?hs, save_headers e True new (ln_db S)), 1)"
    using find assms(2,5) by (simp add: save_slice_def)
  then have run: "save_execute e (ln_save S) (ln_slices S, ln_db S) =
      Inr ((ln_save S)\<lparr>sv_remaining_count := 0\<rparr>, ?hs, save_headers e True new (ln_db S))"
    by (simp add: save_execute_def count1 Let_def sv)
  define T where "T = S\<lparr>ln_save := (ln_save S)\<lparr>sv_remaining_count := 0\<rparr>, ln_slices := ?hs, ln_db := save_headers e True new (ln_db S)\<rparr>"
  have step: "stage_step e S T" unfolding T_def by (rule stage_step.save [OF wait run])
  have frame: "same_frame (ln_slices S) (ln_slices T)"
    unfolding T_def by (simp, rule same_frame_update) (simp_all add: keeps_identity_def)
  have "s\<lparr>sl_headers := Some new, sl_status := Saved\<rparr> = s\<lparr>sl_status := Saved\<rparr>" using assms(5) by simp
  then have slices: "hs_slices (ln_slices T) = s\<lparr>sl_status := Saved\<rparr> # rest" by (simp add: T_def assms(2))
  show thesis
    by (rule advance [OF assms(1) step slices _ frame]) (use assms(1) that in \<open>auto simp: T_def alive_def\<close>)
qed

text \<open>The window moves up.  If nothing is left in it, the loop is over.\<close>

lemma run_refill:
  assumes "alive e start final parent db0 S" and "hs_slices (ln_slices S) = s # rest" and "sl_status s = Saved"
    and "\<forall>s \<in> set rest. pristine s" and "0 < hs_max_slices (ln_slices S)"
  obtains T where "linear_step e S T" and "linear_inv e start final parent db0 T" and "ln_db T = ln_db S" and "ln_link T = ln_link S"
    and "unat (min_block_num (ln_slices T)) = unat (min_block_num (ln_slices S)) + 192"
    and "hs_max_slices (ln_slices T) = hs_max_slices (ln_slices S)"
    and "(\<forall>s \<in> set (hs_slices (ln_slices T)). pristine s)"
    and "if hs_slices (ln_slices T) = [] then \<not> ln_running T \<and> is_empty_at_final_position (ln_slices T)
      else alive e start final parent db0 T"
proof -
  note ok = alive_slices_ok [OF assms(1)]
  have inv: "linear_inv e start final parent db0 S" using assms(1) by (simp add: alive_def)
  define T where "T = S\<lparr>ln_slices := refill_pending (ln_slices S)\<rparr>"
  have wait: "wait Saved (ln_slices S)" using first_contains [OF ok assms(2)] assms(3) by (intro wait_contains) simp
  have step: "stage_step e S T" unfolding T_def by (rule stage_step.refill [OF wait])
  have invT: "linear_inv e start final parent db0 T" by (rule linear_inv_stage_step [OF inv step])
  have rest: "\<not> sl_status (rest ! i) = Saved" if "i < length rest" for i
    using assms(4) that by (metis header_slice_status.distinct nth_mem pristine_def)
  have pre: "\<forall>i < 1. sl_status (hs_slices (ln_slices S) ! i) = Saved"
      "\<forall>i. 1 \<le> i \<and> i < length (hs_slices (ln_slices S)) \<longrightarrow> sl_status (hs_slices (ln_slices S) ! i) \<noteq> Saved"
      "1 \<le> length (hs_slices (ln_slices S))"
    using assms(2,3) rest by (auto simp: nth_Cons split: nat.splits)
  note R = slices_ok_remove [OF ok pre] and F = refill_ok [OF slices_ok_remove(1) [OF ok pre]]
  have min: "unat (min_block_num (ln_slices T)) = unat (min_block_num (ln_slices S)) + 192"
    using R(2) F(2) by (simp add: T_def refill_pending_def)
  have max: "hs_max_slices (ln_slices T) = hs_max_slices (ln_slices S)" using F(3) by (simp add: T_def refill_pending_def)
  from F(5) R(3) assms(2) obtain new where slices: "hs_slices (ln_slices T) = rest @ new"
      and new: "\<forall>s \<in> set new. \<exists>n. s = header_slice_default\<lparr>sl_start_block_num := n\<rparr>"
    by (auto simp: T_def refill_pending_def)
  have prist: "\<forall>s \<in> set (rest @ new). pristine s"
    using assms(4) new by (auto simp: pristine_def header_slice_default_def header_slice_status_default_def)
  have fields: "ln_receive_is_over T = ln_receive_is_over S" "ln_running T = ln_running S" "ln_db T = ln_db S" "ln_link T = ln_link S"
    by (simp_all add: T_def)
  show thesis
  proof (cases "hs_slices (ln_slices T) = []")
    case True
    with invT assms(5) max have over: "is_empty_at_final_position (ln_slices T)"
      by (auto simp: linear_inv_def stages_inv_def is_empty_at_final_position_def)
    then have "loop_continue T = T\<lparr>ln_running := False\<rparr>" by (simp add: loop_continue_def)
    with linear_step.stage [OF _ step] assms(1) linear_inv_loop_continue [OF invT] that [of "loop_continue T"] True over min max fields
    show thesis by (simp add: alive_def)
  next
    case False
    then obtain s' rest' where sr: "hs_slices (ln_slices T) = s' # rest'" by (cases "hs_slices (ln_slices T)") auto
    have over: "\<not> ln_receive_is_over T" using assms(1) fields(1) by (simp add: alive_def)
    define U where "U = T\<lparr>ln_slices := notify_status_watchers (ln_slices T)\<rparr>"
    have "ln_running S" using assms(1) by (simp add: alive_def)
    note G = go_on [OF inv this step False over, folded U_def]
    show thesis
      by (rule that [of U]) (use G False slices prist min max fields over assms(1) in \<open>auto simp: U_def alive_def\<close>)
  qed
qed

section \<open>All slices\<close>

lemma one_slice:
  assumes "alive e start final parent db0 S" and "hs_slices (ln_slices S) \<noteq> []" and "\<forall>s \<in> set (hs_slices (ln_slices S)). pristine s"
    and "0 < hs_max_slices (ln_slices S)" and "lk_remaining_count (ln_link S) = 0" and "length good = 192"
    and "linked e (lk_last_verified_header (ln_link S)) (prepared e good)"
    and "lk_last_verified_header (ln_link S) \<noteq> None \<Longrightarrow> min_block_num (ln_slices S) \<noteq> 0"
    and "h_number (hd good) = min_block_num (ln_slices S)" and "\<forall>h \<in> set good. h_timestamp h < clock"
  obtains T where "(linear_step e)\<^sup>*\<^sup>* S T" and "linear_inv e start final parent db0 T"
    and "ln_db T = save_headers e True (prepared e good) (ln_db S)"
    and "lk_last_verified_header (ln_link T) = Some (last (prepared e good))" and "lk_remaining_count (ln_link T) = 0"
    and "unat (min_block_num (ln_slices T)) = unat (min_block_num (ln_slices S)) + 192"
    and "hs_max_slices (ln_slices T) = hs_max_slices (ln_slices S)"
    and "\<forall>s \<in> set (hs_slices (ln_slices T)). pristine s"
    and "if hs_slices (ln_slices T) = [] then \<not> ln_running T \<and> is_empty_at_final_position (ln_slices T)
      else alive e start final parent db0 T"
proof -
  let ?lk = "lk_last_verified_header (ln_link S)"
  obtain s0 rest0 where S: "hs_slices (ln_slices S) = s0 # rest0" using assms(2) by (cases "hs_slices (ln_slices S)") auto
  have good: "good \<noteq> []" "prepared e good \<noteq> []" using assms(6) by auto
  have number: "cnum (hd (prepared e good)) = min_block_num (ln_slices S)"
    using assms(9) good prepared_nth [of 0 good e] by (simp add: hd_conv_nth)
  have links: "chain_link e ?lk (hd (prepared e good))"
      "successively (\<lambda>p h. verify_link (env_hash e) (env_chain_spec e) h p = Some True) (prepared e good)"
    using assms(7) good(2) by (auto simp: linked_successively)
  have "ctime (last (prepared e good)) < clock"
    using assms(6,10) prepared_nth [of "length good - 1" good e] good by (simp add: last_conv_nth)
  with links(2) number have verified: "verify_slice (env_hash e) (env_chain_spec e) (prepared e good) (min_block_num (ln_slices S)) clock = Some True"
    by (simp add: verify_slice_iff)
  have "\<forall>s \<in> set (s0 # rest0). pristine s" using assms(3) S by simp
  from run_request [OF assms(1) S this] obtain S1 s rest where
    S1: "(linear_step e)\<^sup>*\<^sup>* S S1" "alive e start final parent db0 S1" "hs_slices (ln_slices S1) = s # rest" "sl_status s = Waiting"
      "\<forall>s \<in> set rest. pristine s" "ln_db S1 = ln_db S" "ln_link S1 = ln_link S" "same_frame (ln_slices S) (ln_slices S1)"
    by metis
  have start: "sl_start_block_num s = min_block_num (ln_slices S)" using S1(3,8) by (simp add: same_frame_def min_block_num_def)
  have first: "h_number (hd good) = sl_start_block_num s" using assms(9) start by simp
  obtain S2 where S2: "linear_step e S1 S2" "alive e start final parent db0 S2"
      "hs_slices (ln_slices S2) = s\<lparr>sl_headers := Some (map cached_header_from good), sl_from_peer_id := None, sl_status := Downloaded\<rparr> # rest"
      "ln_db S2 = ln_db S1" "ln_link S2 = ln_link S1" "same_frame (ln_slices S1) (ln_slices S2)"
    by (rule run_receive [OF S1(2,3,4) good(1) first])
  obtain S3 where S3: "linear_step e S2 S3" "alive e start final parent db0 S3"
      "hs_slices (ln_slices S3) = s\<lparr>sl_headers := Some (prepared e good), sl_from_peer_id := None, sl_status := VerifiedInternally\<rparr> # rest"
      "ln_db S3 = ln_db S2" "ln_link S3 = ln_link S2" "same_frame (ln_slices S2) (ln_slices S3)"
    by (rule run_verify [OF S2(2,3) _ S1(5), where good = good and clock = clock]) (use verified start in simp_all)
  obtain S4 where S4: "linear_step e S3 S4" "alive e start final parent db0 S4"
      "hs_slices (ln_slices S4) = s\<lparr>sl_headers := Some (prepared e good), sl_from_peer_id := None, sl_status := Verified\<rparr> # rest"
      "ln_db S4 = ln_db S3" "lk_last_verified_header (ln_link S4) = Some (last (prepared e good))" "lk_remaining_count (ln_link S4) = 0"
      "same_frame (ln_slices S3) (ln_slices S4)"
    by (rule run_link [OF S3(2,3) _ S1(5), where new = "prepared e good"])
      (use links(1) number assms(5,6,8) S1(7) S2(5) S3(5) in simp_all)
  obtain S5 where S5: "linear_step e S4 S5" "alive e start final parent db0 S5"
      "hs_slices (ln_slices S5) = s\<lparr>sl_headers := Some (prepared e good), sl_from_peer_id := None, sl_status := Saved\<rparr> # rest"
      "ln_db S5 = save_headers e True (prepared e good) (ln_db S4)" "ln_link S5 = ln_link S4" "same_frame (ln_slices S4) (ln_slices S5)"
    by (rule run_save [OF S4(2,3) _ S1(5), where new = "prepared e good"]) simp_all
  have frame: "same_frame (ln_slices S) (ln_slices S5)"
    using S1(8) S2(6) S3(6) S4(7) S5(6) by (metis same_frame_trans)
  then have max: "0 < hs_max_slices (ln_slices S5)" using assms(4) by (simp add: same_frame_def)
  obtain S6 where S6: "linear_step e S5 S6" "linear_inv e start final parent db0 S6" "ln_db S6 = ln_db S5" "ln_link S6 = ln_link S5"
      "unat (min_block_num (ln_slices S6)) = unat (min_block_num (ln_slices S5)) + 192"
      "hs_max_slices (ln_slices S6) = hs_max_slices (ln_slices S5)" "\<forall>s \<in> set (hs_slices (ln_slices S6)). pristine s"
      "if hs_slices (ln_slices S6) = [] then \<not> ln_running S6 \<and> is_empty_at_final_position (ln_slices S6)
        else alive e start final parent db0 S6"
    by (rule run_refill [OF S5(2,3) _ S1(5) max]) simp
  have "(linear_step e)\<^sup>*\<^sup>* S S6"
    using S1(1) S2(1) S3(1) S4(1) S5(1) S6(1) by (meson rtranclp.rtrancl_into_rtrancl)
  then show thesis
    by (rule that) (use S1 S2 S3 S4 S5 S6 frame in \<open>simp_all add: same_frame_def\<close>)
qed

lemma last_prepared_number:
  assumes "linked e p (prepared e good)" and "parent_of_start n p" and "length good = 192"
  shows "cnum (last (prepared e good)) + 1 = n + 192"
proof -
  have "cnum (prepared e good ! 191) = n + of_nat 191" using linked_numbers [OF assms(1,2), of 191] assms(3) by simp
  moreover have "last (prepared e good) = prepared e good ! 191" using assms(3) by (subst last_conv_nth) auto
  ultimately show ?thesis by simp
qed

lemma all_slices:
  assumes "alive e start final parent db0 S" and "hs_slices (ln_slices S) \<noteq> []" and "\<forall>s \<in> set (hs_slices (ln_slices S)). pristine s"
    and "0 < hs_max_slices (ln_slices S)" and "lk_remaining_count (ln_link S) = 0"
    and "linked e (lk_last_verified_header (ln_link S)) (prepared e good)"
    and "parent_of_start (min_block_num (ln_slices S)) (lk_last_verified_header (ln_link S))"
    and "unat final = unat (min_block_num (ln_slices S)) + length good" and "\<forall>h \<in> set good. h_timestamp h < clock"
  shows "\<exists>T. (linear_step e)\<^sup>*\<^sup>* S T \<and> \<not> ln_running T \<and> is_empty_at_final_position (ln_slices T) \<and>
    ln_db T = save_headers e True (prepared e good) (ln_db S)"
  using assms
proof (induction "length good" arbitrary: good S rule: less_induct)
  case less
  let ?hs = "ln_slices S" and ?lk = "lk_last_verified_header (ln_link S)"
  have inv: "linear_inv e start final parent db0 S" using less.prems(1) by (simp add: alive_def)
  from alive_slices_ok [OF less.prems(1)] have pos: "unat (hs_max_block_num ?hs) = unat (min_block_num ?hs) + length (hs_slices ?hs) * 192"
    by (simp add: slices_ok_def positions_ok_def)
  have "hs_max_block_num ?hs \<le> final" using inv by (simp add: linear_inv_def stages_inv_def)
  with pos less.prems(2,8) have ge: "192 \<le> length good" by (cases "hs_slices ?hs") (auto simp: word_le_nat_alt)
  define now_good where "now_good = take 192 good"
  define later where "later = drop 192 good"
  have split: "good = now_good @ later" and len: "length now_good = 192" using ge by (auto simp: now_good_def later_def)
  have linked1: "linked e ?lk (prepared e now_good)" and linked2: "linked e (tip ?lk (prepared e now_good)) (prepared e later)"
    using less.prems(6) by (simp_all add: split)
  have tip: "tip ?lk (prepared e now_good) = Some (last (prepared e now_good))" using len by (auto simp: tip_def)
  have number: "h_number (hd now_good) = min_block_num ?hs"
    using linked_numbers [OF linked1 less.prems(7), of 0] prepared_nth [of 0 now_good e] len by (cases now_good) auto
  have nonzero: "?lk \<noteq> None \<Longrightarrow> min_block_num ?hs \<noteq> 0" using less.prems(7) by (auto simp: parent_of_start_def)
  have times: "\<forall>h \<in> set now_good. h_timestamp h < clock" using less.prems(9) by (simp add: split)
  obtain T where T: "(linear_step e)\<^sup>*\<^sup>* S T" "linear_inv e start final parent db0 T"
      "ln_db T = save_headers e True (prepared e now_good) (ln_db S)"
      "lk_last_verified_header (ln_link T) = Some (last (prepared e now_good))" "lk_remaining_count (ln_link T) = 0"
      "unat (min_block_num (ln_slices T)) = unat (min_block_num ?hs) + 192"
      "hs_max_slices (ln_slices T) = hs_max_slices ?hs" "\<forall>s \<in> set (hs_slices (ln_slices T)). pristine s"
      "if hs_slices (ln_slices T) = [] then \<not> ln_running T \<and> is_empty_at_final_position (ln_slices T)
        else alive e start final parent db0 T"
    by (rule one_slice [OF less.prems(1-5) len linked1 nonzero number times])
  show ?case
  proof (cases "hs_slices (ln_slices T) = []")
    case True
    then have over: "\<not> ln_running T" "is_empty_at_final_position (ln_slices T)" using T(9) by auto
    have "min_block_num (ln_slices T) = final"
      using T(2) True over(2) by (auto simp: linear_inv_def stages_inv_def is_empty_at_final_position_def min_block_num_def)
    then have "later = []" using T(6) less.prems(8) split len by simp
    with T(1,3) over split show ?thesis by auto
  next
    case False
    have "min_block_num (ln_slices T) = min_block_num ?hs + 192"
      using T(6) unsigned_less [of "min_block_num (ln_slices T)", where ?'a = nat] by (simp add: word_unat_eq_iff unat_word_ariths)
    moreover have "min_block_num (ln_slices T) \<noteq> 0" using T(6) by auto
    ultimately have parent: "parent_of_start (min_block_num (ln_slices T)) (lk_last_verified_header (ln_link T))"
      using last_prepared_number [OF linked1 less.prems(7) len] T(4) by (simp add: parent_of_start_def)
    have shorter: "length later < length good" using split len by simp
    have "\<exists>U. (linear_step e)\<^sup>*\<^sup>* T U \<and> \<not> ln_running U \<and> is_empty_at_final_position (ln_slices U) \<and>
        ln_db U = save_headers e True (prepared e later) (ln_db T)"
      by (rule less.hyps [OF shorter]) (use T False parent linked2 tip less.prems(4,8,9) split len in \<open>auto split: if_splits\<close>)
    with T(1,3) split show ?thesis by (metis (no_types, lifting) prepared_simps(3) rtranclp_trans save_headers_append)
  qed
qed

section \<open>Completion\<close>

lemma linked_map_cong:
  assumes "\<And>h. ch_header (f h) = ch_header (g h)" and "\<And>h. env_hash e (f h) = env_hash e (g h)"
  shows "linked e p (map f hs) \<longleftrightarrow> linked e p (map g hs)"
proof (induction hs arbitrary: p)
  case (Cons h hs)
  have child: "chain_link e p (f h) \<longleftrightarrow> chain_link e p (g h)" for p h
    using assms verify_link_cong [of "f h" "g h" _ _ "env_hash e"] by (simp add: chain_link_def split: option.split)
  have "chain_link e (Some (f h)) x \<longleftrightarrow> chain_link e (Some (g h)) x" for x
    using assms verify_link_cong [of x x "f h" "g h" "env_hash e"] by (simp add: chain_link_def)
  then have "linked e (Some (f h)) xs \<longleftrightarrow> linked e (Some (g h)) xs" for xs by (cases xs) auto
  with child Cons show ?case by simp
qed simp

lemma prepared_hash: "i < length hs \<Longrightarrow> env_hash e (prepared e hs ! i) = env_keccak e (env_rlp e (hs ! i))"
  using cached_hash_eq [OF cache_ok_operations(4) [OF cache_ok_operations(1), of "env_rlp e" "env_keccak e" "hs ! i"]]
  by (simp add: prepared_def) (simp add: cached_header_from_def)

lemma linked_prepared: "linked e p (map cached_header_from hs) \<longleftrightarrow> linked e p (prepared e hs)"
  unfolding prepared_def
proof (rule linked_map_cong)
  fix h
  show "ch_header (cached_header_from h) = ch_header (hash_prepare (env_rlp e) (env_keccak e) (cached_header_from h))" by simp
  show "env_hash e (cached_header_from h) = env_hash e (hash_prepare (env_rlp e) (env_keccak e) (cached_header_from h))"
    using cached_hash_eq [OF cache_ok_operations(1)] cached_hash_eq [OF cache_ok_operations(4) [OF cache_ok_operations(1)]] by simp
qed

lemma complete_run:
  assumes "linear_start header_bytes mem_limit start max_blocks estimated db0 = Some (Inr (Inr S0))"
    and "0 < hs_max_slices (ln_slices S0)"
    and "unat (linear_final_block_num start max_blocks estimated) = unat start + length good"
    and "linked e (start_parent start db0) (map cached_header_from good)" and "\<forall>h \<in> set good. h_timestamp h < clock"
  shows "\<exists>S. (linear_step e)\<^sup>*\<^sup>* S0 S \<and> \<not> ln_running S \<and> is_empty_at_final_position (ln_slices S) \<and>
    (\<forall>j < length good. load_canonical_header_by_num (start + of_nat j) (ln_db S) =
      Some (cached_header_new (good ! j) (env_keccak e (env_rlp e (good ! j)))))"
proof -
  let ?final = "linear_final_block_num start max_blocks estimated" and ?parent = "start_parent start db0"
  note C = linear_start_cases [OF assms(1)] and inv = linear_inv_initial [OF assms(1), of e]
  note W = header_slices_new_ok [OF C(2) order_less_imp_le [OF C(1)]]
  have alive: "alive e start ?final ?parent db0 S0"
    using inv assms(1) by (auto simp: alive_def linear_start_def Let_def bind_eq_Some_conv split: if_splits)
  have "pristine (hs_slices (ln_slices S0) ! i)" if "i < length (hs_slices (ln_slices S0))" for i
    using W(6) [OF that] by (simp add: pristine_def header_slice_default_def header_slice_status_default_def)
  then have fresh: "\<forall>s \<in> set (hs_slices (ln_slices S0)). pristine s" by (auto simp: in_set_conv_nth)
  have "find_last_verified_header (ln_slices S0) = None"
    using W(6) [of 0] by (cases "hs_slices (ln_slices S0)")
      (auto simp: find_last_verified_header_def header_slice_default_def header_slice_status_default_def)
  then have lk: "lk_last_verified_header (ln_link S0) = ?parent" "lk_remaining_count (ln_link S0) = 0"
    using C(3) by (auto simp: link_stage_new_def Let_def eq_commute [of _ "ln_link S0"] split: if_splits option.splits)
  have parent: "parent_of_start start ?parent" using inv by (simp add: linear_inv_def stages_inv_def)
  have links: "linked e ?parent (prepared e good)" using assms(4) by (simp add: linked_prepared)
  have "hs_slices (ln_slices S0) \<noteq> []" using assms(2) W(4) by auto
  from all_slices [OF alive this fresh assms(2) lk(2), of good clock] links parent assms(3,5) lk(1) W(2) C(6)
  obtain S where S: "(linear_step e)\<^sup>*\<^sup>* S0 S" "\<not> ln_running S" "is_empty_at_final_position (ln_slices S)"
      "ln_db S = save_headers e True (prepared e good) db0"
    by auto
  have bound: "unat start + length (prepared e good) < 2 ^ 64"
    using assms(3) unsigned_less [of ?final, where ?'a = nat] by simp
  have "load_canonical_header_by_num (start + of_nat j) (ln_db S) =
      Some (cached_header_new (good ! j) (env_keccak e (env_rlp e (good ! j))))" if "j < length good" for j
    using saved_load [OF links parent bound, of j db0] that by (simp add: S(4) prepared_nth prepared_hash)
  with S(1-3) show ?thesis by blast
qed

section \<open>A concrete chain\<close>

definition sample_h :: "nat \<Rightarrow> cached_header" where
  "sample_h n = sample_chain_header (of_nat n) (of_nat (20 * n)) (of_nat (n - 1)) 131072"

definition sample_headers :: "block_header list" where
  "sample_headers = map (\<lambda>n. ch_header (sample_h n)) [0..<192]"

definition sample_empty_db :: header_db where
  "sample_empty_db = \<lparr> db_canonical_header = Map.empty, db_last_header = None,
     db_header = Map.empty, db_header_number = Map.empty, db_total_difficulty = Map.empty \<rparr>"

lemma sample_hash_number:
  assumes "n < 256"
  shows "env_hash sample_env (sample_h n) = of_nat n"
proof -
  have "take_bit 64 n = n" "take_bit 8 n = n" using assms by (simp_all add: take_bit_nat_eq_self_iff)
  then have "(ucast (of_nat n :: u64) :: u8) = of_nat n" "(ucast (of_nat n :: u8) :: u256) = of_nat n"
    by (simp_all add: unsigned_of_nat)
  then show ?thesis
    by (simp add: sample_env_def sample_h_def sample_chain_header_def cached_header_from_def cached_hash_def rlp_repr_def
        rlp_repr_compute_def)
qed

lemma sample_link:
  assumes "n < 191"
  shows "verify_link (env_hash sample_env) (env_chain_spec sample_env) (sample_h (Suc n)) (sample_h n) = Some True"
proof -
  have "20 * n < 2 ^ 64" "20 * Suc n < 2 ^ 64" using assms by simp_all
  then have "unat (of_nat (20 * n) :: u64) = 20 * n" "unat (of_nat (20 * Suc n) :: u64) = 20 * Suc n"
    by (simp_all only: unat_of_nat) simp_all
  then have time: "(of_nat (20 * n) :: u64) < of_nat (20 * Suc n)" unfolding word_less_nat_alt by simp
  have "h_parent_hash (ch_header (sample_h (Suc n))) = env_hash sample_env (sample_h n)"
    using assms by (simp add: sample_hash_number) (simp add: sample_h_def sample_chain_header_def cached_header_from_def)
  moreover have "verify_link_difficulties (env_chain_spec sample_env) (sample_h (Suc n)) (sample_h n) = Some True"
    by (simp add: verify_link_difficulties_def sample_env_def sample_download_spec_def sample_h_def sample_chain_header_def
        cached_header_from_def canonical_difficulty_def switch_is_active_def Let_def MIN_DIFFICULTY_def)
  ultimately show ?thesis using time
    by (simp add: verify_link_iff verify_link_by_parent_hash_def verify_link_block_nums_def verify_link_timestamps_def)
      (simp add: sample_h_def sample_chain_header_def cached_header_from_def)
qed

lemma successively_map_upt: "(\<And>n. Suc n < N \<Longrightarrow> P (f n) (f (Suc n))) \<Longrightarrow> successively P (map f [0..<N])"
proof (induction N)
  case (Suc N)
  then show ?case by (cases N) (auto simp: successively_append_iff)
qed simp

lemma sample_linked: "linked sample_env None (map cached_header_from sample_headers)"
proof -
  have eq: "map cached_header_from sample_headers = map sample_h [0..<192]"
    by (simp add: sample_headers_def sample_h_def sample_chain_header_def cached_header_from_def)
  have "chain_link sample_env None (sample_h 0)"
    using sample_hash_number [of 0] by (simp add: chain_link_def sample_env_def) (simp add: sample_h_def sample_chain_header_def cached_header_from_def)
  moreover have "hd (map sample_h [0..<192]) = sample_h 0" by (simp add: hd_map)
  ultimately show ?thesis
    unfolding eq by (subst linked_successively) (auto intro!: successively_map_upt simp: sample_link)
qed

definition sample_start :: linear_state where
  "sample_start = projr (projr (the (linear_start 1 192 0 192 90192 sample_empty_db)))"

lemma sample_start: "linear_start 1 192 0 192 90192 sample_empty_db = Some (Inr (Inr sample_start))"
proof -
  have "case linear_start 1 192 0 192 90192 sample_empty_db of Some (Inr (Inr S)) \<Rightarrow> True | _ \<Rightarrow> False" by code_simp
  then show ?thesis unfolding sample_start_def by (auto split: option.splits sum.splits)
qed

lemma sample_final: "linear_final_block_num 0 192 90192 = 192" "start_parent 0 sample_empty_db = None"
    "0 < hs_max_slices (ln_slices sample_start)"
  by code_simp+

lemma sample_download_run:
  obtains S where "(linear_step sample_env)\<^sup>*\<^sup>* sample_start S" and "\<not> ln_running S" and "min_block_num (ln_slices S) = 192"
    and "is_empty_at_final_position (ln_slices S)"
proof -
  have "\<forall>h \<in> set sample_headers. h_timestamp h < 10000"
    by (auto simp: sample_headers_def sample_h_def sample_chain_header_def cached_header_from_def word_less_nat_alt unat_word_ariths unat_of_nat)
  then obtain S where S: "(linear_step sample_env)\<^sup>*\<^sup>* sample_start S" "\<not> ln_running S" "is_empty_at_final_position (ln_slices S)"
    using complete_run [OF sample_start sample_final(3), of sample_headers sample_env 10000] sample_linked
    by (auto simp: sample_final sample_headers_def)
  from linear_inv_verified_chain(3) [OF linear.reachable_good [OF sample_start S(1)]] S(3)
  have "min_block_num (ln_slices S) = 192" by (simp add: sample_final)
  with S show thesis using that by blast
qed

section \<open>The linear phase\<close>

text \<open>C15. Whatever messages the peers send, in whatever order the stages run: the canonical chain in the
  database, from the first block of the phase up to the window, is a chain of headers that have the
  right numbers and hashes, each verified (parent hash, number, timestamp, difficulty) against the
  canonical header below it; block zero is the genesis block.  Below the first block the canonical
  chain is as it was, and when the window is empty at its end, the chain reaches the final block.\<close>

theorem linear_download_saves_verified_chain:
  assumes "linear_start header_bytes mem_limit start max_blocks estimated db0 = Some (Inr (Inr S0))"
    and "(linear_step e)\<^sup>*\<^sup>* S0 S"
  shows "(\<forall>n. start \<le> n \<and> n < min_block_num (ln_slices S) \<longrightarrow>
      (\<exists>h. load_canonical_header_by_num n (ln_db S) = Some h \<and> cache_ok (env_rlp e) (env_keccak e) h \<and> cnum h = n \<and>
        (n = 0 \<longrightarrow> env_hash e h = env_genesis_hash e) \<and>
        (n \<noteq> 0 \<longrightarrow> (\<exists>p. load_canonical_header_by_num (n - 1) (ln_db S) = Some p \<and>
          verify_link (env_hash e) (env_chain_spec e) h p = Some True)))) \<and>
    (\<forall>n < start. load_canonical_header_by_num n (ln_db S) = load_canonical_header_by_num n db0) \<and>
    (is_empty_at_final_position (ln_slices S) \<longrightarrow>
      min_block_num (ln_slices S) = linear_final_block_num start max_blocks estimated)"
  using linear_inv_verified_chain [OF linear.reachable_good [OF assms]] by blast

theorem linear_download_saves_verified_chain_witness:
  "\<exists>S. (linear_step sample_env)\<^sup>*\<^sup>* sample_start S \<and>
     (\<exists>h p. load_canonical_header_by_num 100 (ln_db S) = Some h \<and> cnum h = 100 \<and>
        load_canonical_header_by_num 99 (ln_db S) = Some p \<and>
        verify_link (env_hash sample_env) (env_chain_spec sample_env) h p = Some True)"
proof -
  obtain S where S: "(linear_step sample_env)\<^sup>*\<^sup>* sample_start S" "min_block_num (ln_slices S) = 192" by (rule sample_download_run)
  from linear_download_saves_verified_chain [OF sample_start S(1)] S(2)
  have "\<exists>h. load_canonical_header_by_num 100 (ln_db S) = Some h \<and> cnum h = 100 \<and>
      (\<exists>p. load_canonical_header_by_num (100 - 1) (ln_db S) = Some p \<and>
        verify_link (env_hash sample_env) (env_chain_spec sample_env) h p = Some True)"
    by (auto dest: spec [of _ 100])
  with S(1) show ?thesis by auto
qed

text \<open>C16. The linear phase can be completed: if the memory limit leaves room for a slice, then for every
  chain of headers from the first block to the final one that continues the known parent (or starts
  at the genesis block) and lies in the past, there is a run of the stages, with peers that send
  these headers, at whose end the loop has stopped, the window has passed the final block, and the
  canonical tables hold exactly these headers under their hashes.\<close>

theorem linear_download_can_complete:
  assumes "linear_start header_bytes mem_limit start max_blocks estimated db0 = Some (Inr (Inr S0))"
    and "0 < hs_max_slices (ln_slices S0)"
    and "unat (linear_final_block_num start max_blocks estimated) = unat start + length good"
    and "linked e (start_parent start db0) (map cached_header_from good)" and "\<forall>h \<in> set good. h_timestamp h < clock"
  shows "\<exists>S. (linear_step e)\<^sup>*\<^sup>* S0 S \<and> \<not> ln_running S \<and> is_empty_at_final_position (ln_slices S) \<and>
    (\<forall>j < length good. load_canonical_header_by_num (start + of_nat j) (ln_db S) =
      Some (cached_header_new (good ! j) (env_keccak e (env_rlp e (good ! j)))))"
  by (rule complete_run [OF assms])

theorem linear_download_can_complete_witness:
  "\<exists>S. (linear_step sample_env)\<^sup>*\<^sup>* sample_start S \<and> is_empty_at_final_position (ln_slices S) \<and>
     load_canonical_header_by_num 5 (ln_db S) = Some (cached_header_new (sample_headers ! 5)
       (env_keccak sample_env (env_rlp sample_env (sample_headers ! 5))))"
proof -
  have "\<forall>h \<in> set sample_headers. h_timestamp h < 10000"
    by (auto simp: sample_headers_def sample_h_def sample_chain_header_def cached_header_from_def word_less_nat_alt unat_word_ariths unat_of_nat)
  moreover have len: "length sample_headers = 192" by (simp add: sample_headers_def)
  ultimately obtain S where "(linear_step sample_env)\<^sup>*\<^sup>* sample_start S" "is_empty_at_final_position (ln_slices S)"
      "\<forall>j < length sample_headers. load_canonical_header_by_num (0 + of_nat j) (ln_db S) =
        Some (cached_header_new (sample_headers ! j) (env_keccak sample_env (env_rlp sample_env (sample_headers ! j))))"
    using linear_download_can_complete [OF sample_start sample_final(3), of sample_headers sample_env 10000] sample_linked
    by (auto simp: sample_final)
  with len show ?thesis by (auto dest!: spec [of _ 5])
qed

text \<open>C31. In every state the download can reach, no stage runs into an internal error: the saving stage
  finds the headers of every verified slice, and with the rules of an ethash chain the verifying and
  the linking stages return a result (for any clock, size of the batches, and window).\<close>

theorem linear_download_stages_total:
  assumes "linear_start header_bytes mem_limit start max_blocks estimated db0 = Some (Inr (Inr S0))"
    and "(linear_step e)\<^sup>*\<^sup>* S0 S"
  shows "(\<exists>r. save_execute e (ln_save S) (ln_slices S, ln_db S) = Inr r) \<and>
    (is_ethash (env_chain_spec e) \<longrightarrow> (\<exists>r. link_execute e (ln_link S, ln_slices S) = Some r) \<and>
      (\<forall>clock cpus. \<exists>hs. verify_slices_pending e clock cpus (ln_slices S) = Some hs))"
proof (intro conjI impI allI)
  have inv: "linear_inv e start (linear_final_block_num start max_blocks estimated) (start_parent start db0) db0 S"
    by (rule linear.reachable_good [OF assms])
  then obtain chain off k m where I: "window_inv e chain off k m (ln_slices S)" "ln_db S = save_headers e True (take (off + 192 * k) chain) db0"
      and sv: "sv_order (ln_save S) = Monotonic" "sv_is_canonical_chain (ln_save S)"
    by (auto simp: linear_inv_def chain_inv_def stages_inv_def)
  from save_many [OF I, of "unat (pending_count Verified (ln_slices S))" 0] sv
  show "\<exists>r. save_execute e (ln_save S) (ln_slices S, ln_db S) = Inr r" by (auto simp: save_execute_def Let_def)
  assume ethash: "is_ethash (env_chain_spec e)"
  show "\<exists>r. link_execute e (ln_link S, ln_slices S) = Some r"
    using link_total [OF ethash] by (fastforce simp: link_execute_def Let_def)
  fix clock cpus
  have "verify_slice_stage e clock s \<noteq> None" for s
    using ethash_verifiers_total(2) [OF ethash] by (auto simp: verify_slice_stage_def split: option.splits)
  with verify_pending_batches_eq [OF linear_inv_slices_ok [OF inv], of VerifiedInternally "verify_slice_stage e clock" e cpus]
  show "\<exists>hs. verify_slices_pending e clock cpus (ln_slices S) = Some hs" by (auto simp: verify_slices_pending_def)
qed

theorem linear_download_stages_total_witness:
  "\<exists>hs. verify_slices_pending sample_env (\<lambda>_. 0) 4 (ln_slices sample_start) = Some hs"
proof -
  have "is_ethash (env_chain_spec sample_env)" by code_simp
  with linear_download_stages_total [OF sample_start, of sample_env sample_start] show ?thesis by auto
qed

text \<open>C30. The download does not come to a standstill: in every reachable state, as long as messages can
  still arrive and the memory limit leaves room for a slice, the loop goes on after a stage unless the
  window is empty at its end, that is unless all headers up to the final block are saved.\<close>

theorem linear_download_proceeds:
  assumes "linear_start header_bytes mem_limit start max_blocks estimated db0 = Some (Inr (Inr S0))"
    and "(linear_step e)\<^sup>*\<^sup>* S0 S" and "ln_running S" and "stage_step e S T"
    and "\<not> ln_receive_is_over T" and "0 < hs_max_slices (ln_slices T)"
  shows "ln_running (loop_continue T) \<longleftrightarrow> \<not> is_empty_at_final_position (ln_slices T)"
proof -
  from assms(4,3) have running: "ln_running T" by cases simp_all
  have inv: "linear_inv e start (linear_final_block_num start max_blocks estimated) (start_parent start db0) db0 T"
    by (rule linear_inv_stage_step [OF linear.reachable_good [OF assms(1,2)] assms(4)])
  then have "is_empty_at_final_position (ln_slices T)" if "hs_slices (ln_slices T) = []"
    using that assms(6) by (auto simp: linear_inv_def stages_inv_def is_empty_at_final_position_def)
  with linear_inv_proceeds [OF inv _ assms(5)] running show ?thesis by (auto simp: loop_continue_def Let_def)
qed

theorem linear_download_proceeds_witness:
  "ln_running (loop_continue (sample_start\<lparr>ln_slices := on_headers_message [] None (ln_slices sample_start)\<rparr>))"
proof -
  have "\<not> is_empty_at_final_position (ln_slices sample_start)" "ln_running sample_start" "\<not> ln_receive_is_over sample_start"
    by code_simp+
  with linear_download_proceeds [OF sample_start _ _ stage_step.fetch_receive, where headers1 = "[]" and from_peer_id1 = None and e = sample_env] sample_final(3)
  show ?thesis by (simp add: on_headers_message_def)
qed

text \<open>The sum of the difficulties of the canonical blocks from \<open>start\<close> to \<open>n\<close>.\<close>

definition canonical_difficulties :: "header_db \<Rightarrow> block_number \<Rightarrow> block_number \<Rightarrow> u256" where
  "canonical_difficulties db start n = (\<Sum>k\<leftarrow>[unat start..<Suc (unat n)].
     case load_canonical_header_by_num (word_of_nat k) db of Some h \<Rightarrow> h_difficulty (ch_header h) | None \<Rightarrow> 0)"

lemma saved_canonical_difficulties:
  assumes C: "linked e parent saved" "parent_of_start start parent" "unat start + length saved < 2 ^ 64"
    and j: "j < length saved"
  shows "canonical_difficulties (save_headers e True saved db) start (start + of_nat j) =
    sum_list (map (\<lambda>h. h_difficulty (ch_header h)) (take (Suc j) saved))"
proof -
  let ?d = "\<lambda>k. case load_canonical_header_by_num (word_of_nat k) (save_headers e True saved db) of
      Some h \<Rightarrow> h_difficulty (ch_header h) | None \<Rightarrow> 0"
  have "map ?d [unat start..<Suc (unat start + j)] = map (\<lambda>h. h_difficulty (ch_header h)) (take (Suc j) saved)"
  proof (rule nth_equalityI)
    fix i assume "i < length (map ?d [unat start..<Suc (unat start + j)])"
    then have i: "i \<le> j" by simp
    then have il: "i < length saved" using j by simp
    have "word_of_nat (unat start + i) = start + of_nat i" by simp
    with saved_load [OF C il, of db] i j
    show "map ?d [unat start..<Suc (unat start + j)] ! i = map (\<lambda>h. h_difficulty (ch_header h)) (take (Suc j) saved) ! i"
      by (simp add: cached_header_new_def del: upt_Suc)
  qed (use j in simp)
  then show ?thesis
    unfolding canonical_difficulties_def number_of_position [OF C(3) j] by simp
qed

text \<open>C17. If the total difficulty \<open>td\<close> of the parent of the first block is known (it is zero below the
  genesis block), then in every reachable state the total difficulty recorded for each block saved
  is \<open>td\<close> plus the sum of the difficulties, modulo \<open>2 ^ 256\<close>, of the canonical headers from the
  first block up to and with this one.\<close>

theorem linear_download_total_difficulty:
  assumes "linear_start header_bytes mem_limit start max_blocks estimated db0 = Some (Inr (Inr S0))"
    and "(linear_step e)\<^sup>*\<^sup>* S0 S" and "start_difficulty e start (start_parent start db0) db0 = Some td"
  shows "\<forall>n. start \<le> n \<and> n < min_block_num (ln_slices S) \<longrightarrow>
    (\<exists>h. load_canonical_header_by_num n (ln_db S) = Some h \<and>
      db_total_difficulty (ln_db S) (n, env_hash e h) = Some (td + canonical_difficulties (ln_db S) start n))"
proof (intro allI impI)
  fix n
  assume n: "start \<le> n \<and> n < min_block_num (ln_slices S)"
  from linear.reachable_good [OF assms(1,2)] obtain saved where C: "linked e (start_parent start db0) saved"
      "unat start + length saved < 2 ^ 64" "parent_of_start start (start_parent start db0)"
      and db: "ln_db S = save_headers e True saved db0"
      and pos: "\<And>n. start \<le> n \<Longrightarrow> n < min_block_num (ln_slices S) \<Longrightarrow> unat n - unat start < length saved \<and> n = start + of_nat (unat n - unat start)"
    by (rule linear_inv_saved) blast
  define j where "j = unat n - unat start"
  from n pos have j: "j < length saved" "n = start + of_nat j" by (simp_all add: j_def)
  from saved_difficulties [OF C(1,3,2) assms(3) j(1)] saved_load [OF C(1,3,2) j(1)]
    saved_canonical_difficulties [OF C(1,3,2) j(1), of db0]
  show "\<exists>h. load_canonical_header_by_num n (ln_db S) = Some h \<and>
      db_total_difficulty (ln_db S) (n, env_hash e h) = Some (td + canonical_difficulties (ln_db S) start n)"
    by (simp add: db j(2))
qed

theorem linear_download_total_difficulty_witness:
  "\<exists>S. (linear_step sample_env)\<^sup>*\<^sup>* sample_start S \<and>
     (\<exists>h. load_canonical_header_by_num 7 (ln_db S) = Some h \<and>
       db_total_difficulty (ln_db S) (7, env_hash sample_env h) = Some (canonical_difficulties (ln_db S) 0 7))"
proof -
  obtain S where S: "(linear_step sample_env)\<^sup>*\<^sup>* sample_start S" "min_block_num (ln_slices S) = 192" by (rule sample_download_run)
  have "start_difficulty sample_env 0 (start_parent 0 sample_empty_db) sample_empty_db = Some 0"
    by (simp add: sample_final start_difficulty_def)
  from linear_download_total_difficulty [OF sample_start S(1) this] S(2)
  have "\<exists>h. load_canonical_header_by_num 7 (ln_db S) = Some h \<and>
      db_total_difficulty (ln_db S) (7, env_hash sample_env h) = Some (0 + canonical_difficulties (ln_db S) 0 7)"
    by (auto dest: spec [of _ 7])
  with S(1) show ?thesis by auto
qed

end
