(* ===== verification/Header_Fork_Properties.thy ===== *)
theory Header_Fork_Properties
  imports Header_Fork_Switch Header_Download_Complete
begin

text \<open>
  What the fork mode of the header downloader guarantees, with two small windows as examples: one
  execution of the stage returns and keeps its invariant, a switch is justified by the difficulties
  of the chains, its execution makes the fork canonical, and the condition to enter the mode.
\<close>

section \<open>An execution returns\<close>

lemma extend_pending_total:
  assumes "is_ethash (env_chain_spec e)"
  shows "extend_canonical_pending e p st \<noteq> None" and "extend_fork_pending e p st \<noteq> None"
proof -
  have link: "verify_slices_link e a b \<noteq> None" for a b
    using ethash_verifiers_total(1) [OF assms] by (auto simp: verify_slices_link_def split: option.splits)
  then have "try_extend_canonical e i st \<noteq> None" "try_extend_fork e i st \<noteq> None" for i
    by (auto simp: try_extend_canonical_def try_extend_fork_def simp del: not_None_eq split: option.splits prod.splits)
  then show "extend_canonical_pending e p st \<noteq> None" "extend_fork_pending e p st \<noteq> None"
    by (auto simp: extend_canonical_pending_def extend_fork_pending_def simp del: not_None_eq split: option.splits)
qed

lemma process_pending_total:
  assumes "fork_inv st" and "fork_undecided st" and "is_ethash (env_chain_spec e)"
  shows "\<exists>st' r. process_pending e p fp st = Some (st', r)"
proof -
  obtain fm hs fhs where st: "st = (fm, hs, fhs)" by (cases st) auto
  from extend_pending_total(1) [OF assms(3)] obtain fm1 hs1 dc u1
    where s1: "extend_canonical_pending e p (fm, hs) = Some ((fm1, hs1), dc, u1)" by (metis not_None_eq surj_pair)
  from extend_pending_total(2) [OF assms(3)] obtain fm2 fhs2 df u2
    where s2: "extend_fork_pending e fp (fm1, fhs) = Some ((fm2, fhs2), df, u2)" by (metis not_None_eq surj_pair)
  from extend_canonical_inv [OF assms(1) [unfolded st] s1] assms(2)
  have I1: "fork_inv (fm1, hs1, fhs)" "fork_undecided (fm1, hs1, fhs)" by (simp_all add: fork_undecided_def st)
  have "\<exists>ter. (if df then fork_termination e (fm2, hs1, fhs2) else Some None) = Some ter"
    using extend_fork_inv [OF I1 s2] fork_termination_choice [of fm2 hs1 fhs2 e] by auto
  with s1 s2 have "process_pending e p fp st \<noteq> None" by (auto simp: process_pending_def st simp del: not_None_eq)
  then show ?thesis by (metis not_None_eq surj_pair)
qed

section \<open>Two windows\<close>

definition sample_slice :: "nat \<Rightarrow> header_slice_status \<Rightarrow> nat \<Rightarrow> header_slice" where
  "sample_slice start status len = header_slice_default\<lparr>sl_start_block_num := of_nat start, sl_status := status,
     sl_headers := Some (map sample_h [start..<start + len])\<rparr>"

text \<open>A window of blocks 0 to 191 in one status and, from block 192 on, \<open>len\<close> blocks in another.\<close>

definition sample_pair :: "header_slice_status \<Rightarrow> header_slice_status \<Rightarrow> nat \<Rightarrow> header_slices" where
  "sample_pair status0 status1 len =
     the (from_slices_vec [sample_slice 0 status0 192, sample_slice 192 status1 len] (Some 0) (Some 2) None)"

lemma sample_slice_fields [simp]:
  "sl_start_block_num (sample_slice start status len) = of_nat start" "sl_status (sample_slice start status len) = status"
  "sl_headers (sample_slice start status len) = Some (map sample_h [start..<start + len])" "slice_len (sample_slice start status len) = len"
  by (simp_all add: sample_slice_def slice_len_def)

lemma sample_number: "n < 2 ^ 64 \<Longrightarrow> unat (cnum (sample_h n)) = n"
  by (simp add: sample_h_def sample_chain_header_def cached_header_from_def unat_of_nat)

lemma sample_pair_ok:
  assumes "len \<le> 192"
  shows "hs_slices (sample_pair a b len) = [sample_slice 0 a 192, sample_slice 192 b len]" "window_ok (sample_pair a b len)"
    "hs_max_block_num (sample_pair a b len) = 384" "min_block_num (sample_pair a b len) = 0" "hs_max_slices (sample_pair a b len) = 2"
proof -
  let ?ss = "[sample_slice 0 a 192, sample_slice 192 b len]"
  have some: "from_slices_vec ?ss (Some 0) (Some 2) None = Some (sample_pair a b len)"
    by (simp add: sample_pair_def from_slices_vec_def Let_def is_block_num_aligned_to_slice_start_def HEADER_SLICE_SIZE_def)
  have at: "unat (sl_start_block_num (?ss ! i)) = unat (0 :: block_number) + i * 192" if "i < length ?ss" for i
    using that by (cases i) (auto simp: less_Suc_eq)
  note F = from_slices_vec_ok(1-5,7) [OF some _ refl at, simplified]
  show slices: "hs_slices (sample_pair a b len) = ?ss"
    using F(3) F(6) [of 0] F(6) [of 1] by (intro nth_equalityI) (auto simp: less_2_cases_iff)
  have "numbered_slice (sample_slice 0 a 192)" "numbered_slice (sample_slice 192 b len)"
    using assms by (auto simp: numbered_slice_def sample_number)
  then show "window_ok (sample_pair a b len)" using F(1) assms by (simp add: window_ok_def sized_def slices)
  show "hs_max_block_num (sample_pair a b len) = 384" using F(5) by (simp add: word_unat_eq_iff)
  show "min_block_num (sample_pair a b len) = 0" "hs_max_slices (sample_pair a b len) = 2" using F(2,4) by simp_all
qed

lemma sample_canonical:
  assumes "len \<le> 192" and "is_canonical_slice_status a"
  shows "n < 192 \<Longrightarrow> window_header (sample_pair a b len) (of_nat n) = Some (sample_h n)"
    and "is_canonical_slice_status b \<Longrightarrow> 192 \<le> n \<Longrightarrow> n < 192 + len \<Longrightarrow> window_header (sample_pair a b len) (of_nat n) = Some (sample_h n)"
proof -
  note P = sample_pair_ok [OF assms(1), of a b]
  show "window_header (sample_pair a b len) (of_nat n) = Some (sample_h n)" if "n < 192"
    using window_headerI [OF P(2), of "sample_slice 0 a 192" "map sample_h [0..<192]" n "of_nat n"] that assms(2)
    by (simp add: P(1) unat_of_nat)
  show "window_header (sample_pair a b len) (of_nat n) = Some (sample_h n)"
    if "is_canonical_slice_status b" "192 \<le> n" "n < 192 + len"
    using window_headerI [OF P(2), of "sample_slice 192 b len" "map sample_h [192..<192 + len]" "n - 192" "of_nat n"] that assms(1)
    by (simp add: P(1) unat_of_nat)
qed

text \<open>
  The canonical window has the blocks 0 to 191, the window of the fork block 192; the blocks 0 to 191
  of the fork are downloaded, or verified already.
\<close>

definition sample_fork_state :: "header_slice_status \<Rightarrow> block_number \<Rightarrow> fork_state" where
  "sample_fork_state status fork_start =
     (\<lparr> fm_canonical_range = (0, 192), fm_fork_range = (fork_start, 193), fm_pending_switch_to_fork_command = None,
        fm_remaining_count = 0, fm_fork_remaining_count = 0 \<rparr>, sample_pair Saved Empty 0, sample_pair status Verified 1)"

definition sample_switch :: fork_switch_command where
  "sample_switch = \<lparr> fs_canonical_range = (0, 192), fs_fork_range = (0, 193), fs_connection_block_num = 191 \<rparr>"

lemma sample_boundary: "len \<le> 192 \<Longrightarrow> boundary (sample_pair a b len) (192 + of_nat len)"
  by (auto simp: boundary_def sample_pair_ok unat_word_ariths unat_of_nat)

lemma sample_covers:
  assumes "len \<le> 192" and "is_canonical_slice_status a" and "is_canonical_slice_status b \<or> len = 0"
  shows "covers (sample_pair a b len) (0, 192 + of_nat len)"
  unfolding covers_def
proof (intro allI impI)
  fix n
  assume "range_contains (0, 192 + of_nat len) n"
  then have n: "unat n < 192 + len" using assms(1) by (simp add: range_contains_def word_less_nat_alt unat_word_ariths unat_of_nat)
  have "window_header (sample_pair a b len) (of_nat (unat n)) = Some (sample_h (unat n))"
    using sample_canonical [OF assms(1,2), where n = "unat n" and b = b] n assms(3) by (cases "unat n < 192") auto
  then show "window_header (sample_pair a b len) n \<noteq> None" by simp
qed

lemma sample_covers_top:
  "covers (sample_pair VerifiedInternally Verified 1) (192, 193)"
proof -
  have "window_header (sample_pair VerifiedInternally Verified 1) 192 = Some (sample_h 192)"
    using window_headerI [OF sample_pair_ok(2), of 1 "sample_slice 192 Verified 1" VerifiedInternally Verified "[sample_h 192]" 0 192]
    by (simp add: sample_pair_ok(1) is_canonical_slice_status_def)
  moreover have "n = 192" if "range_contains (192, 193) n" for n
    using that by (simp add: range_contains_def word_le_nat_alt word_less_nat_alt word_unat_eq_iff)
  ultimately show ?thesis by (auto simp: covers_def)
qed

lemma sample_fork_inv:
  "fork_inv (sample_fork_state VerifiedInternally 192)" "fork_undecided (sample_fork_state VerifiedInternally 192)"
  "fork_inv (sample_fork_state Verified 0)"
  using sample_covers [of 0 Saved Empty] sample_covers [of 1 Verified Verified] sample_covers_top
    sample_boundary [of 0 Saved Empty] sample_boundary [of 1 Verified Verified] sample_boundary [of 1 VerifiedInternally Verified]
    sample_pair_ok [of 0 Saved Empty] sample_pair_ok [of 1 Verified Verified] sample_pair_ok [of 1 VerifiedInternally Verified]
  by (simp_all add: fork_inv_def fork_undecided_def sample_fork_state_def is_canonical_slice_status_def)

lemma sample_switch_justified: "switch_justified e (sample_fork_state Verified 0) sample_switch"
proof -
  have c: "is_canonical_slice_status Saved" "is_canonical_slice_status Verified" by (simp_all add: is_canonical_slice_status_def)
  have "window_header (sample_pair Saved Empty 0) 191 = Some (sample_h 191)"
      "window_header (sample_pair Verified Verified 1) 191 = Some (sample_h 191)"
      "window_header (sample_pair Verified Verified 1) 192 = Some (sample_h 192)"
    using sample_canonical(1) [of 0 Saved 191 Empty] sample_canonical(1) [of 1 Verified 191 Verified]
      sample_canonical(2) [of 1 Verified Verified 192] c by simp_all
  moreover have "h_difficulty (ch_header (sample_h 192)) = 131072" by (simp add: sample_h_def sample_chain_header_def cached_header_from_def)
  ultimately show ?thesis
    by (simp add: switch_justified_def sample_fork_state_def sample_switch_def difficulty_between_def Let_def)
qed

section \<open>The fork mode\<close>

text \<open>C18. In the fork mode of an ethash chain, one execution of the stage returns (the loops that add up
  difficulties end, nothing panics) and keeps the invariant: the windows of the canonical chain and of the fork
  cover their ranges with slices of at most 192 headers (what peers are asked for; the receiving
  stage does not count them), and the fork starts within the canonical range.  A switch to the fork is
  requested only if both chains have the connection block with the same hash and the headers of the
  fork above it have the greater sum of difficulties.\<close>

theorem fork_mode_keeps_heavier:
  assumes "fork_inv st" and "fork_undecided st" and "is_ethash (env_chain_spec e)"
  shows "\<exists>st' r. process_pending e p fp st = Some (st', r) \<and> fork_inv st' \<and>
    (case fm_pending_switch_to_fork_command (fst st') of None \<Rightarrow> fork_undecided st' | Some cmd \<Rightarrow> switch_justified e st' cmd)"
  using process_pending_total [OF assms, of p fp] process_pending_decided [OF assms(1,2)]
  by (fastforce simp: fork_decided_def)

theorem fork_mode_keeps_heavier_witness:
  "\<exists>st' r. process_pending sample_env 0 1 (sample_fork_state VerifiedInternally 192) = Some (st', r) \<and> fork_inv st'"
proof -
  have "is_ethash (env_chain_spec sample_env)" by code_simp
  with fork_mode_keeps_heavier [OF sample_fork_inv(1,2), of sample_env 0 1] show ?thesis by blast
qed

text \<open>C19. A justified command to switch is executed without a panic, and its loops end: the canonical window
  keeps its headers below the fork, has those of the fork in its range and none above it up to
  the end of the former canonical chain; the window of the fork is empty; the canonical table maps
  the numbers above the connection block that are saved to the hashes of the fork, and is
  unchanged elsewhere.\<close>

theorem fork_switch_promotes:
  assumes "fork_inv (fm, hs, fhs)" and "switch_justified e (fm, hs, fhs) cmd" and "unat (hs_max_block_num hs) + 192 < 2 ^ 64"
    and "fm_canonical_range fm = (cs, ce)" and "fm_fork_range fm = (fs, fe)"
  shows "\<exists>hs' fhs' db'. fork_switch_execute e cmd ((hs, fhs), db) = Some ((hs', fhs'), db') \<and>
    window_ok hs' \<and> window_ok fhs' \<and> hs_slices fhs' = [] \<and>
    (\<forall>n < fs. window_header hs' n = window_header hs n) \<and>
    (\<forall>n. fs \<le> n \<and> n < fe \<longrightarrow> window_header hs' n = window_header fhs n) \<and>
    (\<forall>n. fe \<le> n \<and> n < ce \<longrightarrow> window_header hs' n = None) \<and>
    (\<forall>n. db_canonical_header db' n =
      (if fs_connection_block_num cmd < n \<and> n < fe \<and> saved_at hs' n then map_option (env_hash e) (window_header fhs n)
       else db_canonical_header db n))"
  by (rule fork_switch_executes [OF assms])

theorem fork_switch_promotes_witness:
  "\<exists>hs' fhs' db'. fork_switch_execute sample_env sample_switch (snd (sample_fork_state Verified 0), sample_empty_db) = Some ((hs', fhs'), db') \<and>
     hs_slices fhs' = [] \<and> window_header hs' 192 = Some (sample_h 192)"
proof -
  obtain fm hs fhs where st: "sample_fork_state Verified 0 = (fm, hs, fhs)" by (cases "sample_fork_state Verified 0") auto
  then have eqs: "hs = sample_pair Saved Empty 0" "fhs = sample_pair Verified Verified 1"
      "fm_canonical_range fm = (0, 192)" "fm_fork_range fm = (0, 193)" by (auto simp: sample_fork_state_def)
  have "unat (hs_max_block_num hs) + 192 < 2 ^ 64" using sample_pair_ok(3) [of 0 Saved Empty] eqs(1) by simp
  from fork_switch_promotes [OF sample_fork_inv(3) [unfolded st] sample_switch_justified [of sample_env, unfolded st] this eqs(3,4), of sample_empty_db]
  obtain hs' fhs' db' where R: "fork_switch_execute sample_env sample_switch ((hs, fhs), sample_empty_db) = Some ((hs', fhs'), db')"
      "hs_slices fhs' = []" "\<forall>n. 0 \<le> n \<and> n < 193 \<longrightarrow> window_header hs' n = window_header fhs n" by blast
  have "window_header fhs 192 = Some (sample_h 192)"
    using sample_canonical(2) [of 1 Verified Verified 192] eqs(2) by (simp add: is_canonical_slice_status_def)
  with R show ?thesis by (auto simp: st)
qed

text \<open>C39. When a slice does not continue the verified ones, the fork mode can be entered exactly if the last
  verified slice is full: then the setup succeeds and establishes the invariant.  After
  a verified slice with fewer headers, which the fork mode itself accepts as a
  continuation of the canonical chain, the setup fails and leaves everything as it is, so that it fails
  again whenever it is repeated.\<close>

theorem fork_mode_entry:
  assumes "fork_found hs xs f ys" and "window_ok fhs" and "2 \<le> hs_max_slices fhs"
  shows "if slice_len (last xs) = 192
    then \<exists>st. fork_setup (fork_mode_new hs fhs, hs, fhs) = (st, None) \<and> fork_inv st \<and> fork_undecided st
    else fork_setup (fork_mode_new hs fhs, hs, fhs) = ((fork_mode_new hs fhs, hs, fhs), Some InitialForkSliceNotFound)"
proof -
  have "slice_len (last xs) \<le> 192"
    using assms(1) by (auto simp: fork_found_def window_ok_def sized_def)
  then show ?thesis using fork_setup_ok [OF assms(1) _ assms(2,3)] fork_setup_partial [OF assms(1)] by auto
qed

theorem fork_mode_entry_witness:
  "\<exists>st. fork_setup (fork_mode_new (sample_pair Saved Fork 1) (header_slices_empty 2), sample_pair Saved Fork 1, header_slices_empty 2) = (st, None) \<and>
     fork_inv st"
proof -
  have "fork_found (sample_pair Saved Fork 1) [sample_slice 0 Saved 192] (sample_slice 192 Fork 1) []"
    using sample_pair_ok [of 1 Saved Fork] by (simp add: fork_found_def is_canonical_slice_status_def)
  moreover have "window_ok (header_slices_empty 2)" using header_slices_empty_ok [of 2] by (simp add: window_ok_def sized_def header_slices_empty_def)
  moreover have "2 \<le> hs_max_slices (header_slices_empty 2)" by (simp add: header_slices_empty_def)
  ultimately show ?thesis using fork_mode_entry by fastforce
qed

end
