(* ===== verification/Spec2Isabelle.thy ===== *)
theory Spec2Isabelle
  imports State_Properties Account_Codec Blockchain_Properties Trie_Root Etl Index_Sync
    Bitmapdb Precompiled Header_Fork_Properties
begin

text \<open>
  A verification development of Akula, an Ethereum node written in Rust
  (\<^verbatim>\<open>src/src\<close>).  The node downloads and validates blocks, executes their transactions on a
  world state, keeps that state with the change sets needed to unwind it, and commits to it by
  Merkle Patricia tries.

  \<^bold>\<open>The parts and how they interact.\<close>  A block is pre-validated by the consensus engine
  (\<^verbatim>\<open>consensus\<close>), executed by the block processor (\<^verbatim>\<open>execution/processor.rs\<close>) transaction by
  transaction; a transaction runs in the EVM host (\<^verbatim>\<open>execution/evm.rs\<close>), which answers the
  requests of an interpreter; every change goes through the journalled intra-block state
  (\<^verbatim>\<open>state/intra_block_state.rs\<close>), which reads from and is finally written to a database behind
  the \<open>State\<close> trait (\<^verbatim>\<open>state/in_memory_state.rs\<close>).  \<open>Blockchain\<close>
  (\<^verbatim>\<open>consensus/blockchain.rs\<close>) chooses the canonical chain and unwinds and re-executes blocks.
  The trie builder (\<^verbatim>\<open>trie\<close>) computes state roots from sorted keys, which the collector
  (\<^verbatim>\<open>etl\<close>) provides to the stages of the sync.  The stages run one after another in the loop of
  \<^verbatim>\<open>stagedsync\<close>, which saves their progress and unwinds them on request.  Headers are fetched
  before that by the header downloader (\<^verbatim>\<open>downloader/headers_downloader\<close>), whose stages share a
  window of slices of headers and write the verified ones to the header tables.

  \<^bold>\<open>Theories.\<close>
  \<^item> \<open>Akula_Prelude\<close>: machine words, results with errors as values (\<open>bind_r\<close>, \<open>fold_r\<close>), hash
    maps with the interface \<open>keyed_store\<close>, big-endian byte strings.
  \<^item> \<open>Models\<close>: the records and enums of \<^verbatim>\<open>models\<close>: accounts, headers, transactions,
    receipts, blocks; fees and signatures; the errors of \<^verbatim>\<open>consensus/mod.rs\<close>.
  \<^item> \<open>State_Interface\<close>, \<open>Intra_Block_State\<close>, \<open>In_Memory_State\<close>: the \<open>State\<close> trait as a record
    of operations, the intra-block state with its journal (one definition per method of the
    source, \<open>revert_delta\<close> for \<open>Delta::revert\<close>), and the in-memory database.
  \<^item> \<open>Journal_Undo\<close>: every operation is undone by its journal entries (interface
    \<open>undo_log\<close>); \<open>State_Persistence\<close>: what \<open>write_to_db\<close> records and unwinding restores;
    \<open>World_Spec\<close>: the abstract world of accounts and storage, with rollback;
    \<open>State_Properties\<close>: snapshots revert exactly, the intra-block state refines the world, a
    written block unwinds, and the one case where it does not.
  \<^item> \<open>Account_Codec\<close>: the storage encoding of accounts (\<^verbatim>\<open>models/account.rs\<close>) and padding
    (\<^verbatim>\<open>util.rs\<close>); round trip and exact error conditions.
  \<^item> \<open>Chain_Spec\<close>: chain specifications, revisions, fork gathering, bomb delays
    (\<^verbatim>\<open>models/chainspec.rs\<close>), protocol parameters and intrinsic gas (\<^verbatim>\<open>chain\<close>).
  \<^item> \<open>Consensus\<close>: header, ommer and block validation, base fee, difficulty, rewards
    (\<^verbatim>\<open>consensus/base.rs\<close>, \<^verbatim>\<open>consensus/ethash\<close>), with the formulas of the yellow paper on
    integers as references.
  \<^item> \<open>Evm\<close>, \<open>Evm_Properties\<close>: calls, creations and the answers to every interrupt.  For every
    interpreter that keeps the contract \<open>interp_ok\<close>, gas never grows and a failed call leaves the
    state as it was (the RIPEMD address may stay touched); the outcome of a creation is given
    case by case on the worlds of \<open>World_Spec\<close>.
  \<^item> \<open>Processor\<close>, \<open>Processor_Properties\<close>: block execution (\<open>ExecutionProcessor\<close>), Bloom filters;
    valid transactions, gas bounds, what a failed transaction leaves alone, what acceptance of
    a block says about its header.
  \<^item> \<open>Database_Frame\<close>, \<open>Blockchain\<close>, \<open>Blockchain_Properties\<close>: execution never writes the
    database early; insertion of blocks; the chain stays linked and heaviest.
  \<^item> \<open>Trie_Base\<close>, \<open>Hash_Builder\<close>, \<open>Trie_Root\<close>: nodes, prefix sets, nibbles and path encoding;
    the streaming trie builder, equal to the recursive definition of the yellow paper.  Without a
    node collector it does not panic; with one it gives the same root whenever it returns, and an
    assertion fails for a stored child that is shorter than a hash.
  \<^item> \<open>Etl\<close>: the collector with its spill files; its iterator sorts.  The heap is the interface
    \<open>min_heap\<close>.
  \<^item> \<open>Staged_Sync\<close>: the synchronisation loop (\<^verbatim>\<open>stagedsync\<close>) over stages given as records of
    operations; \<open>Staged_Sync_Properties\<close>: the contract of a stage (interfaces
    \<open>unwind_contract\<close> and \<open>stage_contract\<close>), and that a pipeline of such stages is synchronised and unwound.
  \<^item> \<open>Kv_Table\<close>: tables of the store behind the interface \<open>ordered_table\<close>; \<open>Index_Stages\<close>: the
    stages \<open>TotalGasIndex\<close> and \<open>TotalTxIndex\<close>; \<open>Index_Sync\<close>: they keep the contract (interface
    \<open>index_stage\<close>), so that the loop returns with complete indexes.
  \<^item> \<open>Table_Codecs\<close>: the byte encodings of table keys and values (\<^verbatim>\<open>kv/tables.rs\<close>) behind the
    interfaces \<open>table_object\<close>, \<open>fixed_object\<close> and \<open>ordered_object\<close>; round trips and key order.
    \<open>Bitmapdb\<close>: sharded bitmaps (\<^verbatim>\<open>bitmapdb\<close>), lossless for every range; the bitmaps are the
    interface \<open>treemap\<close>.
  \<^item> \<open>Precompiled\<close>: the precompiled contracts and BLAKE2b; modular exponentiation computes the
    power or, beyond the size of an allocation, panics; its price is the one of the EIPs below \<open>2^61\<close> bytes of exponent and wraps above.
  \<^item> \<open>Header_Verifier\<close>: the slice verifier of the header downloader; verified slices form a chain.
  \<^item> \<open>Header_Slices\<close>: the window of header slices (\<^verbatim>\<open>headers/header_slices.rs\<close>) with its counters per
    status; it is well-formed when created and under its operations (a removal must take the first
    slices, an appended or reset slice must lie below \<open>2 ^ 64\<close>).  \<open>Header_Stages\<close>: the stages of the header
    downloader (\<^verbatim>\<open>stages/\<close>: request, receive, retry, verify, link, penalize, save, refill, extend) as
    functions on the window and the header tables; verification in batches is pointwise.
  \<^item> \<open>Header_Download\<close>: the linear phase (\<^verbatim>\<open>downloader_linear.rs\<close>, \<^verbatim>\<open>downloader_stage_loop.rs\<close>) as a step
    relation in which the stages take turns in any order; \<open>Header_Download_Properties\<close>: its
    invariant (interface \<open>guarded_machine\<close>); \<open>Header_Download_Complete\<close>: what is saved is a verified
    chain, total difficulties add up, no stage fails, the loop does not stall and can be completed.
  \<^item> \<open>Header_Fork\<close>: the fork mode (\<^verbatim>\<open>fork_mode_stage.rs\<close>, \<^verbatim>\<open>fork_switch_command.rs\<close>,
    \<^verbatim>\<open>verify_link_forky_stage.rs\<close>) with a second window for the fork; \<open>Header_Fork_Choice\<close>: its
    invariant, and that the loops over slices add up the difficulties of the two chains;
    \<open>Header_Fork_Switch\<close>: the execution of a switch; \<open>Header_Fork_Properties\<close>: the heavier chain is
    kept, a switch makes the fork canonical, and when the mode can be entered.
  \<^bold>\<open>State and operations.\<close>  A struct is a record with the fields of the source, prefixed to keep
  names apart; \<open>&mut self\<close> is state passing; \<open>Result\<close> is a sum with the error on the left; a
  panic is an error value.  The built-in integers wrap as in a release build.  A hash map is an
  association list with the laws of \<open>keyed_store\<close>.

  \<^bold>\<open>Parameters.\<close>  What other crates provide is an argument of the definitions: Keccak, RLP, the
  curve operations, the ethash DAG, the EVM interpreter (a step function from resumptions to
  interrupts, constrained by \<open>interp_ok\<close> where a property needs it), precompiled contracts.

  \<^bold>\<open>Bounds and fuel.\<close>  The loop that serves the interpreter takes a number of steps, since an
  interpreter may run for ever; running out is the error \<open>OutOfFuel\<close>, which no property takes
  for a result of the program; invariants of the block tables hold for this outcome as well.  The walk to the common ancestor is a partial function whose
  termination is proved from the order of the block tables.  Every other loop is a total
  function with a termination proof.

  \<^bold>\<open>Concurrency.\<close>  The stages of the header downloader are asynchronous tasks of one loop: a
  step is one execution of a stage, from the wake-up of its watch to its end, and the order of the
  steps is arbitrary.  A stage that waits in the middle of its work, as the saving of a slice
  does for the database, is not interrupted by another one in the model; what the network, the clock and the sending of requests give is arbitrary too.

  \<^bold>\<open>Not modelled.\<close>  The key-value store (bindings of MDBX and gRPC; its own errors, and
  those of sending messages to the sentry, do not occur), the network code of the sentry, the user interface, command lines and the test runner are input and output; RLP codecs
  are derived from another crate; tracing has no effect on results.
\<close>

end
